(* ===== verification/LZ4_Prelude.thy ===== *)
theory LZ4_Prelude
  imports Main "HOL-Library.Word" "HOL-Library.Monad_Syntax"
begin

text \<open>
  Shared vocabulary of the development.  The C program runs on a flat, byte-addressed memory;
  a pointer is an address of type \<open>int\<close>, so that pointer comparisons and the differences the
  code takes are plain integer arithmetic.  A memory is a partial map: its domain is the set of
  bytes that belong to some live object.  Everything that touches memory returns an \<open>option\<close>,
  where \<open>None\<close> stands for undefined behaviour (an access outside of every object, or a
  \<open>memcpy\<close> between overlapping regions).  A theorem that a routine returns \<open>Some\<close> is
  therefore a memory-safety theorem.

  The model is the 64-bit little-endian build (\<open>sizeof(void*) = sizeof(size_t) =
  sizeof(reg_t) = 8\<close>, \<open>LZ4_isLittleEndian() = 1\<close>).
\<close>

unbundle bit_operations_syntax

named_theorems mem_simps \<open>rewriting memory reads after writes\<close>
named_theorems frame_intros \<open>introduction rules for the frame predicate\<close>

type_synonym byte = "8 word"
type_synonym addr = int
type_synonym mem = "int \<Rightarrow> byte option"

section \<open>Machine integers written on \<open>int\<close>\<close>

abbreviation size_max :: int where "size_max \<equiv> 2 ^ 64"

definition u16 :: "int \<Rightarrow> int" where "u16 x = x mod 2 ^ 16"
definition u32 :: "int \<Rightarrow> int" where "u32 x = x mod 2 ^ 32"
definition u64 :: "int \<Rightarrow> int" where "u64 x = x mod 2 ^ 64"

lemma u16_id [simp]: "0 \<le> x \<Longrightarrow> x < 65536 \<Longrightarrow> u16 x = x"
  by (simp add: u16_def)

lemma u32_id [simp]: "0 \<le> x \<Longrightarrow> x < 4294967296 \<Longrightarrow> u32 x = x"
  by (simp add: u32_def)

lemma u64_id [simp]: "0 \<le> x \<Longrightarrow> x < 18446744073709551616 \<Longrightarrow> u64 x = x"
  by (simp add: u64_def)

lemma u32_bounds: "0 \<le> u32 x" "u32 x < 4294967296"
  by (simp_all add: u32_def)

definition byte_of :: "int \<Rightarrow> byte" where "byte_of x = word_of_int x"

lemma uint_byte_bounds [simp]: "0 \<le> uint (b :: byte)" "uint (b :: byte) < 256" "uint (b :: byte) \<le> 255"
  using uint_lt2p [of b] by simp_all

lemma uint_byte_of: "uint (byte_of x) = x mod 256"
  by (simp add: byte_of_def uint_word_of_int)

lemma uint_byte_of_id [simp]: "0 \<le> x \<Longrightarrow> x < 256 \<Longrightarrow> uint (byte_of x) = x"
  by (simp add: uint_byte_of)

lemma byte_of_uint [simp]: "byte_of (uint b) = b"
  by (simp add: byte_of_def)

lemma unat_byte_bound [simp]: "unat (b :: byte) < 256" "unat (b :: byte) \<le> 255"
  using uint_byte_bounds [of b] by (simp_all flip: nat_uint_eq add: nat_less_iff nat_le_iff)

text \<open>The largest input of the compressors (\<open>lz4.h\<close>).\<close>

definition LZ4_MAX_INPUT_SIZE :: int where [simp]: "LZ4_MAX_INPUT_SIZE = 0x7E000000"

section \<open>Regions of memory\<close>

definition valid :: "mem \<Rightarrow> addr \<Rightarrow> int \<Rightarrow> bool" where
  "valid m a n = (\<forall>x \<in> {a..<a + n}. m x \<noteq> None)"

lemma valid_dom: "valid m a n \<longleftrightarrow> {a..<a + n} \<subseteq> dom m"
  by (auto simp: valid_def)

lemma valid_sub: "valid m a n \<Longrightarrow> a \<le> b \<Longrightarrow> b + k \<le> a + n \<Longrightarrow> valid m b k"
  by (auto simp: valid_def)

lemma valid_at: "valid m a n \<Longrightarrow> a \<le> x \<Longrightarrow> x < a + n \<Longrightarrow> \<exists>b. m x = Some b"
  by (force simp: valid_def)

lemma valid_empty [simp]: "n \<le> 0 \<Longrightarrow> valid m a n"
  by (auto simp: valid_def)

lemma valid_join: "valid m a n \<Longrightarrow> valid m b k \<Longrightarrow> b \<le> a + n \<Longrightarrow> a \<le> c \<Longrightarrow> c + j \<le> b + k
  \<Longrightarrow> valid m c j"
  by (force simp: valid_def)

text \<open>\<open>frame m m' lo hi\<close>: going from \<open>m\<close> to \<open>m'\<close> allocates and frees nothing and
  changes no byte outside of \<open>[lo, hi)\<close>.\<close>

definition frame :: "mem \<Rightarrow> mem \<Rightarrow> addr \<Rightarrow> addr \<Rightarrow> bool" where
  "frame m m' lo hi \<longleftrightarrow> dom m' = dom m \<and> (\<forall>x. x < lo \<or> hi \<le> x \<longrightarrow> m' x = m x)"

lemma frame_refl [simp, frame_intros]: "frame m m lo hi"
  by (simp add: frame_def)

lemma frame_trans: "frame m m1 lo hi \<Longrightarrow> frame m1 m2 lo hi \<Longrightarrow> frame m m2 lo hi"
  by (simp add: frame_def)

lemma frame_widen: "frame m m' lo hi \<Longrightarrow> lo' \<le> lo \<Longrightarrow> hi \<le> hi' \<Longrightarrow> frame m m' lo' hi'"
  by (force simp: frame_def)

lemma frame_join:
  "frame m m1 lo1 hi1 \<Longrightarrow> frame m1 m2 lo2 hi2 \<Longrightarrow> lo \<le> lo1 \<Longrightarrow> lo \<le> lo2 \<Longrightarrow> hi1 \<le> hi \<Longrightarrow> hi2 \<le> hi
   \<Longrightarrow> frame m m2 lo hi"
  by (blast intro: frame_trans frame_widen)

lemma frame_valid: "frame m m' lo hi \<Longrightarrow> valid m' a n = valid m a n"
  by (simp add: frame_def valid_dom)

lemma frame_out: "frame m m' lo hi \<Longrightarrow> x < lo \<or> hi \<le> x \<Longrightarrow> m' x = m x"
  by (auto simp: frame_def)

lemma frame_dom: "frame m m' lo hi \<Longrightarrow> dom m' = dom m"
  by (simp add: frame_def)

text \<open>The bytes of a region, as a list.\<close>

definition bytes :: "mem \<Rightarrow> addr \<Rightarrow> int \<Rightarrow> byte list" where
  "bytes m a n = map (\<lambda>i. the (m (a + int i))) [0..<nat n]"

lemma length_bytes [simp]: "length (bytes m a n) = nat n"
  by (simp add: bytes_def)

lemma nth_bytes [simp]: "i < nat n \<Longrightarrow> bytes m a n ! i = the (m (a + int i))"
  by (simp add: bytes_def)

lemma bytes_0 [simp]: "n \<le> 0 \<Longrightarrow> bytes m a n = []"
  by (simp add: bytes_def)

lemma bytes_cong: "(\<And>x. a \<le> x \<Longrightarrow> x < a + n \<Longrightarrow> m' x = m x) \<Longrightarrow> bytes m' a n = bytes m a n"
  by (auto simp: bytes_def)

lemma bytes_frame: "frame m m' lo hi \<Longrightarrow> a + n \<le> lo \<or> hi \<le> a \<Longrightarrow> bytes m' a n = bytes m a n"
  by (rule bytes_cong) (auto simp: frame_def)

lemma bytes_append: "0 \<le> n \<Longrightarrow> 0 \<le> k \<Longrightarrow> bytes m a (n + k) = bytes m a n @ bytes m (a + n) k"
  by (rule nth_equalityI) (auto simp: nth_append nat_add_distrib algebra_simps)

lemma bytes_split: "0 \<le> k \<Longrightarrow> k \<le> n \<Longrightarrow> bytes m a n = bytes m a k @ bytes m (a + k) (n - k)"
  using bytes_append [of k "n - k" m a] by simp

lemma bytes_Cons: "0 < n \<Longrightarrow> bytes m a n = the (m a) # bytes m (a + 1) (n - 1)"
  using bytes_split [of 1 n m a] by (simp add: bytes_def)

lemma bytes_snoc: "0 < n \<Longrightarrow> bytes m a n = bytes m a (n - 1) @ [the (m (a + n - 1))]"
  using bytes_split [of "n - 1" n m a] by (simp add: bytes_def algebra_simps)

lemma take_bytes: "0 \<le> k \<Longrightarrow> k \<le> n \<Longrightarrow> take (nat k) (bytes m a n) = bytes m a k"
  by (simp add: bytes_split [of k n])

lemma drop_bytes: "0 \<le> k \<Longrightarrow> k \<le> n \<Longrightarrow> drop (nat k) (bytes m a n) = bytes m (a + k) (n - k)"
  by (simp add: bytes_split [of k n])

section \<open>Loads, stores and block copies\<close>

definition store8 :: "mem \<Rightarrow> addr \<Rightarrow> byte \<Rightarrow> mem option" where
  "store8 m a b = (case m a of None \<Rightarrow> None | Some _ \<Rightarrow> Some (m(a \<mapsto> b)))"

text \<open>\<open>blit\<close> is the effect of a block copy, \<open>fill\<close> the effect of storing a list of bytes.\<close>

definition blit :: "mem \<Rightarrow> addr \<Rightarrow> addr \<Rightarrow> int \<Rightarrow> mem" where
  "blit m d s n = (\<lambda>x. if d \<le> x \<and> x < d + n then m (x - d + s) else m x)"

definition fill :: "mem \<Rightarrow> addr \<Rightarrow> byte list \<Rightarrow> mem" where
  "fill m a bs = (\<lambda>x. if a \<le> x \<and> x < a + int (length bs) then Some (bs ! nat (x - a)) else m x)"

definition LZ4_memcpy :: "mem \<Rightarrow> addr \<Rightarrow> addr \<Rightarrow> int \<Rightarrow> mem option" where
  "LZ4_memcpy m d s n =
     (if 0 \<le> n \<and> valid m d n \<and> valid m s n \<and> (n = 0 \<or> d + n \<le> s \<or> s + n \<le> d)
      then Some (blit m d s n) else None)"

definition LZ4_memmove :: "mem \<Rightarrow> addr \<Rightarrow> addr \<Rightarrow> int \<Rightarrow> mem option" where
  "LZ4_memmove m d s n =
     (if 0 \<le> n \<and> valid m d n \<and> valid m s n then Some (blit m d s n) else None)"

definition store_bytes :: "mem \<Rightarrow> addr \<Rightarrow> byte list \<Rightarrow> mem option" where
  "store_bytes m a bs = (if valid m a (int (length bs)) then Some (fill m a bs) else None)"

lemma blit_in: "d \<le> x \<Longrightarrow> x < d + n \<Longrightarrow> blit m d s n x = m (x - d + s)"
  by (simp add: blit_def)

lemma blit_out: "x < d \<or> d + n \<le> x \<Longrightarrow> blit m d s n x = m x"
  by (auto simp: blit_def)

lemma dom_blit:
  assumes "valid m d n" "valid m s n" shows "dom (blit m d s n) = dom m"
proof -
  have "m (x - d + s) \<noteq> None \<and> m x \<noteq> None" if "d \<le> x" "x < d + n" for x
    using that assms by (auto simp: valid_def)
  then show ?thesis by (force simp: blit_def dom_def)
qed

lemma frame_blit [frame_intros]: "valid m d n \<Longrightarrow> valid m s n \<Longrightarrow> frame m (blit m d s n) d (d + n)"
  by (auto simp: frame_def dom_blit blit_out)

lemma dom_fill: "valid m a (int (length bs)) \<Longrightarrow> dom (fill m a bs) = dom m"
  by (auto simp: fill_def valid_def dom_def)

lemma frame_fill [frame_intros]: "valid m a (int (length bs)) \<Longrightarrow> frame m (fill m a bs) a (a + int (length bs))"
  by (auto simp: frame_def dom_fill) (auto simp: fill_def)

lemma frame_upd [frame_intros]: "m a \<noteq> None \<Longrightarrow> frame m (m(a \<mapsto> b)) a (a + 1)"
  by (auto simp: frame_def)

lemma memcpy_Some:
  "0 \<le> n \<Longrightarrow> valid m d n \<Longrightarrow> valid m s n \<Longrightarrow> d + n \<le> s \<or> s + n \<le> d
   \<Longrightarrow> LZ4_memcpy m d s n = Some (blit m d s n)"
  by (simp add: LZ4_memcpy_def)

lemma memmove_Some:
  "0 \<le> n \<Longrightarrow> valid m d n \<Longrightarrow> valid m s n \<Longrightarrow> LZ4_memmove m d s n = Some (blit m d s n)"
  by (simp add: LZ4_memmove_def)

lemma store8_Some: "m a \<noteq> None \<Longrightarrow> store8 m a b = Some (m(a \<mapsto> b))"
  by (auto simp: store8_def)

lemma store_bytes_Some:
  "valid m a (int (length bs)) \<Longrightarrow> store_bytes m a bs = Some (fill m a bs)"
  by (simp add: store_bytes_def)

lemma bytes_blit:
  assumes "0 \<le> n" shows "bytes (blit m d s n) d n = bytes m s n"
  by (rule nth_equalityI) (auto simp: blit_def algebra_simps)

lemma bytes_fill: "bytes (fill m a bs) a (int (length bs)) = bs"
  by (rule nth_equalityI) (auto simp: fill_def)

section \<open>Reading and writing multi-byte values (little endian)\<close>

definition LZ4_read16 :: "mem \<Rightarrow> addr \<Rightarrow> int option" where
  "LZ4_read16 m a = do { b0 \<leftarrow> m a; b1 \<leftarrow> m (a + 1); Some (uint b0 + 256 * uint b1) }"

definition LZ4_readLE16 :: "mem \<Rightarrow> addr \<Rightarrow> int option" where
  "LZ4_readLE16 m a = LZ4_read16 m a"

definition LZ4_read32 :: "mem \<Rightarrow> addr \<Rightarrow> int option" where
  "LZ4_read32 m a = do { lo \<leftarrow> LZ4_read16 m a; hi \<leftarrow> LZ4_read16 m (a + 2); Some (lo + 65536 * hi) }"

definition LZ4_read_ARCH :: "mem \<Rightarrow> addr \<Rightarrow> int option" where
  "LZ4_read_ARCH m a =
     do { lo \<leftarrow> LZ4_read32 m a; hi \<leftarrow> LZ4_read32 m (a + 4); Some (lo + 4294967296 * hi) }"

definition LZ4_write16 :: "mem \<Rightarrow> addr \<Rightarrow> int \<Rightarrow> mem option" where
  "LZ4_write16 m a v = store_bytes m a [byte_of v, byte_of (v div 256)]"

definition LZ4_writeLE16 :: "mem \<Rightarrow> addr \<Rightarrow> int \<Rightarrow> mem option" where
  "LZ4_writeLE16 m a v = LZ4_write16 m a v"

definition LZ4_write32 :: "mem \<Rightarrow> addr \<Rightarrow> int \<Rightarrow> mem option" where
  "LZ4_write32 m a v =
     store_bytes m a [byte_of v, byte_of (v div 256), byte_of (v div 65536), byte_of (v div 16777216)]"

lemma read16_Some:
  assumes "valid m a 2"
  shows "LZ4_read16 m a = Some (uint (the (m a)) + 256 * uint (the (m (a + 1))))"
proof -
  obtain b0 b1 where "m a = Some b0" "m (a + 1) = Some b1"
    using assms valid_at [of m a 2] by force
  then show ?thesis by (simp add: LZ4_read16_def)
qed

lemma read32_Some:
  assumes "valid m a 4"
  shows "LZ4_read32 m a = Some (uint (the (m a)) + 256 * uint (the (m (a + 1)))
           + 65536 * (uint (the (m (a + 2))) + 256 * uint (the (m (a + 3)))))"
proof -
  have "valid m a 2" "valid m (a + 2) 2"
    using assms by (auto intro: valid_sub)
  then show ?thesis by (simp add: LZ4_read32_def read16_Some add.assoc)
qed

text \<open>A memory that consists of one buffer; \<open>++\<close> adds further ones.\<close>

definition mem_of :: "addr \<Rightarrow> byte list \<Rightarrow> mem" where
  "mem_of a bs = (\<lambda>x. if a \<le> x \<and> x < a + int (length bs) then Some (bs ! nat (x - a)) else None)"

lemma valid_mem_of [simp]: "n \<le> int (length bs) \<Longrightarrow> valid (mem_of a bs) a n"
  by (auto simp: valid_def mem_of_def)

lemma valid_add_left: "valid m a n \<Longrightarrow> valid (m ++ m') a n"
  by (auto simp: valid_def map_add_def split: option.splits)

lemma valid_add_right [simp]: "valid m' a n \<Longrightarrow> valid (m ++ m') a n"
  by (auto simp: valid_def map_add_def split: option.splits)

text \<open>A C loop body that stores byte by byte: \<open>while (op < cpy) *op++ = *match++;\<close>\<close>

function copy_bytes :: "mem \<Rightarrow> addr \<Rightarrow> addr \<Rightarrow> addr \<Rightarrow> mem option" where
  "copy_bytes m d s e =
     (if d < e then do { b \<leftarrow> m s; m \<leftarrow> store8 m d b; copy_bytes m (d + 1) (s + 1) e } else Some m)"
  by pat_completeness auto
termination
  by (relation "measure (\<lambda>(m, d, s, e). nat (e - d))") auto

declare copy_bytes.simps [simp del]

end
