(* ===== verification/LZ4_Copy.thy ===== *)
theory LZ4_Copy
  imports LZ4_Prelude
begin

text \<open>
  The copy routines of \<open>lib/lz4.c\<close>: \<open>LZ4_wildCopy8\<close>, \<open>LZ4_wildCopy32\<close>,
  \<open>LZ4_memcpy_using_offset_base\<close> and \<open>LZ4_memcpy_using_offset\<close>, and the eight-byte start of a
  match copy that the safe decoding loop and \<open>LZ4_memcpy_using_offset_base\<close> share.

  The contract of a copy loop is the locale \<open>copy_kernel\<close>: the loop may write a bounded slack
  beyond its end pointer, and in the resulting memory every byte of the destination equals the
  byte at the same distance in the source.  This \<^emph>\<open>fixpoint\<close> form of the law also covers source
  and destination overlapping at a short distance, which is how LZ4 expresses runs.
\<close>

section \<open>Definitions\<close>

function LZ4_wildCopy8 :: "mem \<Rightarrow> addr \<Rightarrow> addr \<Rightarrow> addr \<Rightarrow> mem option" where
  "LZ4_wildCopy8 m d s e = do {
     m \<leftarrow> LZ4_memcpy m d s 8;
     (if d + 8 < e then LZ4_wildCopy8 m (d + 8) (s + 8) e else Some m) }"
  by pat_completeness auto
termination
  by (relation "measure (\<lambda>(m, d, s, e). nat (e - d))") auto

function LZ4_wildCopy32 :: "mem \<Rightarrow> addr \<Rightarrow> addr \<Rightarrow> addr \<Rightarrow> mem option" where
  "LZ4_wildCopy32 m d s e = do {
     m \<leftarrow> LZ4_memcpy m d s 16;
     m \<leftarrow> LZ4_memcpy m (d + 16) (s + 16) 16;
     (if d + 32 < e then LZ4_wildCopy32 m (d + 32) (s + 32) e else Some m) }"
  by pat_completeness auto
termination
  by (relation "measure (\<lambda>(m, d, s, e). nat (e - d))") auto

declare LZ4_wildCopy8.simps [simp del] LZ4_wildCopy32.simps [simp del]

definition inc32table :: "int list" where "inc32table = [0, 1, 2, 1, 0, 4, 4, 4]"
definition dec64table :: "int list" where "dec64table = [0, 0, 0, -1, -4, 1, 2, 3]"

text \<open>The first eight bytes of a match.  At a distance below eight: \<open>LZ4_write32(op, 0)\<close>, four
  single bytes, then four bytes through \<open>inc32table\<close>.  The result is the memory and the match
  pointer to continue from.\<close>

definition match_first8 :: "mem \<Rightarrow> addr \<Rightarrow> addr \<Rightarrow> int \<Rightarrow> (mem \<times> addr) option" where
  "match_first8 m op match offset =
     (if offset < 8 then do {
        m \<leftarrow> LZ4_write32 m op 0;
        b \<leftarrow> m match; m \<leftarrow> store8 m op b;
        b \<leftarrow> m (match + 1); m \<leftarrow> store8 m (op + 1) b;
        b \<leftarrow> m (match + 2); m \<leftarrow> store8 m (op + 2) b;
        b \<leftarrow> m (match + 3); m \<leftarrow> store8 m (op + 3) b;
        let match = match + inc32table ! nat offset;
        m \<leftarrow> LZ4_memcpy m (op + 4) match 4;
        let match = match - dec64table ! nat offset;
        Some (m, match) }
      else do {
        m \<leftarrow> LZ4_memcpy m op match 8;
        Some (m, match + 8) })"

definition LZ4_memcpy_using_offset_base :: "mem \<Rightarrow> addr \<Rightarrow> addr \<Rightarrow> addr \<Rightarrow> int \<Rightarrow> mem option" where
  "LZ4_memcpy_using_offset_base m dstPtr srcPtr dstEnd offset = do {
     (m, srcPtr) \<leftarrow> match_first8 m dstPtr srcPtr offset;
     LZ4_wildCopy8 m (dstPtr + 8) srcPtr dstEnd }"

text \<open>The loop \<open>LZ4_memcpy(dstPtr, v, 8); dstPtr += 8; while (dstPtr < dstEnd) ...\<close> that
  stores the eight-byte pattern \<open>v\<close>.\<close>

function store_pattern8 :: "mem \<Rightarrow> addr \<Rightarrow> byte list \<Rightarrow> addr \<Rightarrow> mem option" where
  "store_pattern8 m d v e = do {
     m \<leftarrow> store_bytes m d v;
     (if d + 8 < e then store_pattern8 m (d + 8) v e else Some m) }"
  by pat_completeness auto
termination
  by (relation "measure (\<lambda>(m, d, v, e). nat (e - d))") auto

declare store_pattern8.simps [simp del]

definition LZ4_memcpy_using_offset :: "mem \<Rightarrow> addr \<Rightarrow> addr \<Rightarrow> addr \<Rightarrow> int \<Rightarrow> mem option" where
  "LZ4_memcpy_using_offset m dstPtr srcPtr dstEnd offset =
     (if offset = 1 then do {
        b \<leftarrow> m srcPtr;
        store_pattern8 m dstPtr (replicate 8 b) dstEnd }
      else if offset = 2 then do {
        b0 \<leftarrow> m srcPtr; b1 \<leftarrow> m (srcPtr + 1);
        store_pattern8 m dstPtr [b0, b1, b0, b1, b0, b1, b0, b1] dstEnd }
      else if offset = 4 then do {
        b0 \<leftarrow> m srcPtr; b1 \<leftarrow> m (srcPtr + 1); b2 \<leftarrow> m (srcPtr + 2); b3 \<leftarrow> m (srcPtr + 3);
        store_pattern8 m dstPtr [b0, b1, b2, b3, b0, b1, b2, b3] dstEnd }
      else LZ4_memcpy_using_offset_base m dstPtr srcPtr dstEnd offset)"

section \<open>The contract of a copy loop\<close>

text \<open>\<open>copied m m' d s e hi\<close>: the step from \<open>m\<close> to \<open>m'\<close> writes in \<open>[d, hi)\<close> only, and in
  \<open>m'\<close> each byte of \<open>[d, e)\<close> equals the byte \<open>d - s\<close> before it.\<close>

definition copied :: "mem \<Rightarrow> mem \<Rightarrow> addr \<Rightarrow> addr \<Rightarrow> addr \<Rightarrow> addr \<Rightarrow> bool" where
  "copied m m' d s e hi \<longleftrightarrow> frame m m' d hi \<and> (\<forall>x. d \<le> x \<and> x < e \<longrightarrow> m' x = m' (x - (d - s)))"

lemma copiedD:
  "copied m m' d s e hi \<Longrightarrow> frame m m' d hi"
  "copied m m' d s e hi \<Longrightarrow> d \<le> x \<Longrightarrow> x < e \<Longrightarrow> m' x = m' (x - (d - s))"
  by (auto simp: copied_def)

lemma copied_mono: "copied m m' d s e hi \<Longrightarrow> e' \<le> e \<Longrightarrow> hi \<le> hi' \<Longrightarrow> copied m m' d s e' hi'"
  by (auto simp: copied_def intro: frame_widen)

lemma copied_empty: "e \<le> d \<Longrightarrow> copied m m d s e hi"
  by (auto simp: copied_def)

lemma copied_blit:
  assumes v: "valid m d n" "valid m s n" and n: "d + n \<le> hi" and dis: "s + n \<le> d \<or> hi \<le> s"
  shows "copied m (blit m d s n) d s (d + n) hi"
proof -
  have "blit m d s n x = blit m d s n (x - (d - s))" if "d \<le> x" "x < d + n" for x
    using that dis n by (auto simp: blit_def algebra_simps)
  moreover have "frame m (blit m d s n) d hi"
    using n by (intro frame_widen [OF frame_blit [OF v]]) auto
  ultimately show ?thesis by (simp add: copied_def)
qed

lemma copied_trans:
  assumes c1: "copied m m1 d s e hi" and c2: "copied m1 m2 e (s + (e - d)) f hi"
    and de: "d \<le> e" and dis: "s \<le> d \<or> hi \<le> s"
  shows "copied m m2 d s f hi"
proof -
  have fr: "frame m m2 d hi"
    using copiedD(1)[OF c1] copiedD(1)[OF c2] by (rule frame_join) (use de in auto)
  have "m2 x = m2 (x - (d - s))" if x: "d \<le> x" "x < f" for x
  proof (cases "x < e")
    case True
    have "m2 x = m1 x" using True by (intro frame_out [OF copiedD(1)[OF c2]]) auto
    also have "\<dots> = m1 (x - (d - s))" using x True by (intro copiedD(2)[OF c1])
    also have "\<dots> = m2 (x - (d - s))"
      using dis x True by (intro frame_out [OF copiedD(1)[OF c2], symmetric]) auto
    finally show ?thesis .
  next
    case False
    then show ?thesis using copiedD(2)[OF c2, of x] x by (simp add: algebra_simps)
  qed
  with fr show ?thesis by (simp add: copied_def)
qed

locale copy_kernel =
  fixes copy :: "mem \<Rightarrow> addr \<Rightarrow> addr \<Rightarrow> addr \<Rightarrow> mem option"
    and chunk :: int and slack :: int and mindist :: int
  assumes copy_law:
    "valid m d (hi - d) \<Longrightarrow> valid m s (hi - d) \<Longrightarrow> d + chunk \<le> hi \<Longrightarrow> e + slack \<le> hi
     \<Longrightarrow> s + mindist \<le> d \<or> hi \<le> s
     \<Longrightarrow> \<exists>m'. copy m d s e = Some m' \<and> copied m m' d s e hi"
    and slack_nonneg: "0 \<le> slack" and mindist_nonneg: "0 \<le> mindist"
begin

text \<open>Copying from a source that lies outside of the destination is plain data movement.\<close>

lemma copy_disjoint:
  assumes v: "valid m d (hi - d)" "valid m s (hi - d)" and b: "d + chunk \<le> hi" "e + slack \<le> hi"
    and dis: "s + mindist \<le> d \<and> s + (e - d) \<le> d \<or> hi \<le> s"
  obtains m' where "copy m d s e = Some m'" "frame m m' d hi" "bytes m' d (e - d) = bytes m s (e - d)"
proof -
  from copy_law [OF v b] dis obtain m' where m': "copy m d s e = Some m'" "copied m m' d s e hi" by blast
  have "bytes m' d (e - d) = bytes m s (e - d)"
  proof (rule nth_equalityI)
    fix i assume "i < length (bytes m' d (e - d))"
    then have i: "int i < e - d" by simp
    then have "m' (d + int i) = m' (s + int i)"
      using copiedD(2)[OF m'(2), of "d + int i"] by (simp add: algebra_simps)
    also have "\<dots> = m (s + int i)"
      using i dis by (intro frame_out [OF copiedD(1)[OF m'(2)]]) auto
    finally show "bytes m' d (e - d) ! i = bytes m s (e - d) ! i" using i by simp
  qed simp
  with m' show thesis by (auto intro: that copiedD)
qed

text \<open>Copying with a distance \<open>d - s\<close> inside of one buffer.\<close>

lemma copy_overlap:
  assumes v: "valid m lo (hi - lo)" and b: "lo \<le> s" "s + mindist \<le> d" "d + chunk \<le> hi" "e + slack \<le> hi"
  obtains m' where "copy m d s e = Some m'" "copied m m' d s e hi"
proof -
  have "valid m d (hi - d)" "valid m s (hi - d)"
    using v b mindist_nonneg by (auto intro: valid_sub)
  then show thesis using copy_law [of m d hi s e] b that by blast
qed

end

lemma wildCopy8_law:
  "valid m d (hi - d) \<Longrightarrow> valid m s (hi - d) \<Longrightarrow> d + 8 \<le> hi \<Longrightarrow> e + 7 \<le> hi \<Longrightarrow> s + 8 \<le> d \<or> hi \<le> s
   \<Longrightarrow> \<exists>m'. LZ4_wildCopy8 m d s e = Some m' \<and> copied m m' d s e hi"
proof (induction m d s e rule: LZ4_wildCopy8.induct)
  case (1 m d s e)
  define m1 where "m1 = blit m d s 8"
  have v: "valid m d 8" "valid m s 8"
    using "1.prems"(1-3) by (auto intro: valid_sub)
  have c: "LZ4_memcpy m d s 8 = Some m1"
    using v "1.prems"(3,5) unfolding m1_def by (intro memcpy_Some) auto
  have c1: "copied m m1 d s (d + 8) hi"
    unfolding m1_def using v "1.prems"(3,5) by (intro copied_blit) auto
  show ?case
  proof (cases "d + 8 < e")
    case True
    have "valid m1 (d + 8) (hi - (d + 8))" "valid m1 (s + 8) (hi - (d + 8))"
      using "1.prems"(1,2) unfolding frame_valid [OF copiedD(1)[OF c1]] by (auto intro: valid_sub)
    then obtain m' where "LZ4_wildCopy8 m1 (d + 8) (s + 8) e = Some m'" "copied m1 m' (d + 8) (s + 8) e hi"
      using "1.IH" [OF c True] True "1.prems"(4,5) by auto
    with c1 show ?thesis using c True "1.prems"(5)
      by (subst LZ4_wildCopy8.simps) (auto intro: copied_trans)
  next
    case False
    with c c1 show ?thesis by (subst LZ4_wildCopy8.simps) (auto intro: copied_mono)
  qed
qed

lemma wildCopy32_law:
  "valid m d (hi - d) \<Longrightarrow> valid m s (hi - d) \<Longrightarrow> d + 32 \<le> hi \<Longrightarrow> e + 31 \<le> hi \<Longrightarrow> s + 16 \<le> d \<or> hi \<le> s
   \<Longrightarrow> \<exists>m'. LZ4_wildCopy32 m d s e = Some m' \<and> copied m m' d s e hi"
proof (induction m d s e rule: LZ4_wildCopy32.induct)
  case (1 m d s e)
  define m1 where "m1 = blit m d s 16"
  define m2 where "m2 = blit m1 (d + 16) (s + 16) 16"
  have v: "valid m d 16" "valid m s 16" "valid m (d + 16) 16" "valid m (s + 16) 16"
    using "1.prems"(1-3) by (auto intro: valid_sub)
  have c: "LZ4_memcpy m d s 16 = Some m1"
    using v "1.prems"(3,5) unfolding m1_def by (intro memcpy_Some) auto
  have c1: "copied m m1 d s (d + 16) hi"
    unfolding m1_def using v "1.prems"(3,5) by (intro copied_blit) auto
  have v1: "valid m1 (d + 16) 16" "valid m1 (s + 16) 16"
    using v unfolding frame_valid [OF copiedD(1)[OF c1]] by auto
  have c': "LZ4_memcpy m1 (d + 16) (s + 16) 16 = Some m2"
    using v1 "1.prems"(3,5) unfolding m2_def by (intro memcpy_Some) auto
  have "copied m1 m2 (d + 16) (s + 16) (d + 16 + 16) hi"
    unfolding m2_def using v1 "1.prems"(3,5) by (intro copied_blit) auto
  then have c2: "copied m m2 d s (d + 32) hi"
    using "1.prems"(5) by (intro copied_trans [OF c1]) (auto simp: add.commute [of d])
  show ?case
  proof (cases "d + 32 < e")
    case True
    have "valid m2 (d + 32) (hi - (d + 32))" "valid m2 (s + 32) (hi - (d + 32))"
      using "1.prems"(1,2) unfolding frame_valid [OF copiedD(1)[OF c2]] by (auto intro: valid_sub)
    then obtain m' where "LZ4_wildCopy32 m2 (d + 32) (s + 32) e = Some m'"
        "copied m2 m' (d + 32) (s + 32) e hi"
      using "1.IH" [OF c c' True] True "1.prems"(4,5) by auto
    with c2 show ?thesis using c c' True "1.prems"(5)
      by (subst LZ4_wildCopy32.simps) (auto intro: copied_trans)
  next
    case False
    with c c' c2 show ?thesis by (subst LZ4_wildCopy32.simps) (auto intro: copied_mono)
  qed
qed

lemma copy_bytes_law:
  "valid m d (hi - d) \<Longrightarrow> valid m s (hi - d) \<Longrightarrow> d \<le> hi \<Longrightarrow> e \<le> hi \<Longrightarrow> s \<le> d \<or> hi \<le> s
   \<Longrightarrow> \<exists>m'. copy_bytes m d s e = Some m' \<and> copied m m' d s e hi"
proof (induction m d s e rule: copy_bytes.induct)
  case (1 m d s e)
  show ?case
  proof (cases "d < e")
    case True
    obtain b b' where b: "m s = Some b" and b': "m d = Some b'"
      using valid_at [OF "1.prems"(2), of s] valid_at [OF "1.prems"(1), of d] True "1.prems"(4) by auto
    define m1 where "m1 = m(d \<mapsto> b)"
    have c: "store8 m d b = Some m1" using b' by (simp add: store8_def m1_def)
    have fr: "frame m m1 d hi"
      using True "1.prems"(4) b' unfolding m1_def
      by (auto intro!: frame_widen [OF frame_upd])
    then have c1: "copied m m1 d s (d + 1) hi"
      using b True "1.prems"(4,5) by (auto simp: copied_def m1_def zle_add1_eq_le antisym)
    have "valid m1 (d + 1) (hi - (d + 1))" "valid m1 (s + 1) (hi - (d + 1))"
      using "1.prems"(1,2) unfolding frame_valid [OF fr] by (auto intro: valid_sub)
    then obtain m' where "copy_bytes m1 (d + 1) (s + 1) e = Some m'" "copied m1 m' (d + 1) (s + 1) e hi"
      using "1.IH" [OF True b c] True "1.prems"(4,5) by auto
    with c1 show ?thesis using b c True "1.prems"(5)
      by (subst copy_bytes.simps) (auto intro: copied_trans)
  next
    case False
    then show ?thesis by (subst copy_bytes.simps) (auto intro: copied_empty)
  qed
qed

interpretation wild8: copy_kernel LZ4_wildCopy8 8 7 8
  by unfold_locales (auto intro: wildCopy8_law)

interpretation wild32: copy_kernel LZ4_wildCopy32 32 31 16
  by unfold_locales (auto intro: wildCopy32_law)

interpretation bytewise: copy_kernel copy_bytes 0 0 0
  by unfold_locales (auto intro: copy_bytes_law)

section \<open>Matches: copying at a fixed distance\<close>

text \<open>\<open>lz_match m op len off\<close>: in \<open>m\<close> the \<open>len\<close> bytes at \<open>op\<close> are a match at distance
  \<open>off\<close>.  Distance 0 is invalid in the format; for it the decoder stores zero bytes.\<close>

definition lz_match :: "mem \<Rightarrow> addr \<Rightarrow> int \<Rightarrow> int \<Rightarrow> bool" where
  "lz_match m op len off \<longleftrightarrow>
     (\<forall>x. op \<le> x \<and> x < op + len \<longrightarrow> m x = (if off = 0 then Some 0 else m (x - off)))"

lemma lz_match_mono: "lz_match m op len off \<Longrightarrow> k \<le> len \<Longrightarrow> lz_match m op k off"
  by (auto simp: lz_match_def)

lemma lz_match_join:
  assumes "lz_match w op k off" "lz_match w (op + k) (len - k) off"
  shows "lz_match w op len off"
  unfolding lz_match_def
proof (intro allI impI)
  fix x assume "op \<le> x \<and> x < op + len"
  then show "w x = (if off = 0 then Some 0 else w (x - off))"
    using assms by (cases "x < op + k") (auto simp: lz_match_def)
qed

lemma lz_match_copied: "copied m m' op (op - off) e hi \<Longrightarrow> off \<noteq> 0 \<Longrightarrow> lz_match m' op (e - op) off"
  by (auto simp: lz_match_def copied_def)

lemma lz_match_frame:
  "lz_match m op len off \<Longrightarrow> frame m m' lo hi \<Longrightarrow> op + len \<le> lo \<Longrightarrow> 0 \<le> off \<Longrightarrow> lz_match m' op len off"
  by (auto simp: lz_match_def frame_def)

text \<open>Continuing a match from a source pointer at any multiple of the distance.\<close>

lemma lz_match_extend_zero:
  assumes "lz_match m2 op n 0" and c: "copied m1 m2 (op + n) s e hi" and "op \<le> s" "s < op + n"
  shows "lz_match m2 op (e - op) 0"
proof -
  have "op \<le> x \<and> x < e \<longrightarrow> m2 x = Some 0" for x
  proof (induction "nat (x - op)" arbitrary: x rule: less_induct)
    case less
    show ?case
    proof (intro impI; elim conjE)
      assume x: "op \<le> x" "x < e"
      show "m2 x = Some 0"
      proof (cases "x < op + n")
        case True
        then show ?thesis using assms(1) x by (auto simp: lz_match_def)
      next
        case False
        then have "m2 x = m2 (x - (op + n - s))" using copiedD(2)[OF c] x by auto
        also have "\<dots> = Some 0" using less [of "x - (op + n - s)"] x False assms(3,4) by auto
        finally show ?thesis .
      qed
    qed
  qed
  then show ?thesis by (auto simp: lz_match_def)
qed

lemma lz_match_extend_pos:
  assumes mt: "lz_match m2 op n off" and c: "copied m1 m2 (op + n) s e hi"
    and off: "0 < off" "off dvd op + n - s" and s: "op - off \<le> s" "s < op + n"
  shows "lz_match m2 op (e - op) off"
proof -
  define c0 where "c0 = op - off"
  have canon: "c0 \<le> x \<and> x < e \<longrightarrow> m2 x = m2 (c0 + (x - c0) mod off)" for x
  proof (induction "nat (x - c0)" arbitrary: x rule: less_induct)
    case less
    show ?case
    proof (intro impI; elim conjE)
      assume x: "c0 \<le> x" "x < e"
      consider "x < op" | "op \<le> x" "x < op + n" | "op + n \<le> x" by linarith
      then show "m2 x = m2 (c0 + (x - c0) mod off)"
      proof cases
        case 1
        then have "(x - c0) mod off = x - c0" using x by (simp add: c0_def)
        then show ?thesis by simp
      next
        case 2
        then have "m2 x = m2 (x - off)" using mt off by (auto simp: lz_match_def)
        also have "\<dots> = m2 (c0 + (x - off - c0) mod off)"
          using less [of "x - off"] 2 x off by (auto simp: c0_def)
        also have "(x - off - c0) mod off = (x - c0) mod off"
          using minus_mod_self2 [of "x - c0" off] by (simp add: algebra_simps)
        finally show ?thesis .
      next
        case 3
        from off(2) obtain k where k: "op + n - s = off * k" ..
        have "m2 x = m2 (x - (op + n - s))" using copiedD(2)[OF c] 3 x by auto
        also have "\<dots> = m2 (c0 + (x - (op + n - s) - c0) mod off)"
          using less [of "x - (op + n - s)"] 3 x s by (auto simp: c0_def)
        also have "(x - (op + n - s) - c0) mod off = (x - c0) mod off"
          using mod_mult_self2 [of "x - c0" off "- k"] unfolding k by (simp add: algebra_simps)
        finally show ?thesis .
      qed
    qed
  qed
  have "m2 x = m2 (x - off)" if "op \<le> x" "x < e" for x
  proof -
    have "m2 x = m2 (c0 + (x - c0) mod off)" using canon [of x] that off by (auto simp: c0_def)
    also have "(x - c0) mod off = (x - off - c0) mod off"
      using minus_mod_self2 [of "x - c0" off] by (simp add: algebra_simps)
    also have "m2 (c0 + (x - off - c0) mod off) = m2 (x - off)"
      using canon [of "x - off"] that off by (auto simp: c0_def)
    finally show ?thesis .
  qed
  then show ?thesis using off by (auto simp: lz_match_def)
qed

lemma lz_match_extend:
  assumes mt: "lz_match m1 op n off" and c: "copied m1 m2 (op + n) s e hi"
    and off: "0 \<le> off" "off = 0 \<or> off dvd op + n - s" and s: "op - off \<le> s" "s < op + n"
  shows "lz_match m2 op (e - op) off"
proof -
  have "lz_match m2 op n off"
    using mt copiedD(1)[OF c] by (rule lz_match_frame) (use off in auto)
  then show ?thesis
    using c off s by (cases "off = 0") (auto intro: lz_match_extend_zero lz_match_extend_pos)
qed

lemma copy_bytes4:
  "copy_bytes m d s (d + 4) = do {
     b \<leftarrow> m s; m \<leftarrow> store8 m d b;
     b \<leftarrow> m (s + 1); m \<leftarrow> store8 m (d + 1) b;
     b \<leftarrow> m (s + 2); m \<leftarrow> store8 m (d + 2) b;
     b \<leftarrow> m (s + 3); store8 m (d + 3) b }"
proof -
  have stop: "copy_bytes m (d + 4) (s + 4) (d + 4) = Some m" for m
    by (simp add: copy_bytes.simps)
  show ?thesis
    by (simp add: copy_bytes.simps [of _ d s "d + 4"] copy_bytes.simps [of _ "d + 1" "s + 1" "d + 4"]
        copy_bytes.simps [of _ "d + 2" "s + 2" "d + 4"] copy_bytes.simps [of _ "d + 3" "s + 3" "d + 4"]
        stop add.assoc)
qed

lemma copy_bytes_self: "valid m d (e - d) \<Longrightarrow> s = d \<Longrightarrow> copy_bytes m d s e = Some m"
proof (induction m d s e rule: copy_bytes.induct)
  case (1 m d s e)
  show ?case
  proof (cases "d < e")
    case True
    then obtain b where b: "m d = Some b" using valid_at [OF "1.prems"(1), of d] by auto
    then have "store8 m d b = Some m" by (auto simp: store8_def fun_upd_idem)
    moreover have "valid m (d + 1) (e - (d + 1))" using "1.prems"(1) by (rule valid_sub) auto
    ultimately show ?thesis using "1.IH" "1.prems"(2) True b by (subst copy_bytes.simps) auto
  qed (simp add: copy_bytes.simps [of m d s e])
qed

lemma small_offset_tables:
  assumes "0 \<le> off" "off < 8"
  shows "off = 0 \<or> off dvd 4 + off - inc32table ! nat off"
    and "0 \<le> inc32table ! nat off" "inc32table ! nat off \<le> off"
    and "off = 0 \<or> off dvd 8 + off - inc32table ! nat off + dec64table ! nat off"
    and "0 \<le> inc32table ! nat off - dec64table ! nat off"
    and "inc32table ! nat off - dec64table ! nat off \<le> off"
proof -
  have "off \<in> {0, 1, 2, 3, 4, 5, 6, 7}" using assms by auto
  then show "off = 0 \<or> off dvd 4 + off - inc32table ! nat off"
    and "0 \<le> inc32table ! nat off" "inc32table ! nat off \<le> off"
    and "off = 0 \<or> off dvd 8 + off - inc32table ! nat off + dec64table ! nat off"
    and "0 \<le> inc32table ! nat off - dec64table ! nat off"
    and "inc32table ! nat off - dec64table ! nat off \<le> off"
    by (auto simp: inc32table_def dec64table_def)
qed

text \<open>The first four bytes of a match at a distance below eight.\<close>

lemma first4_spec:
  assumes v: "valid m (op - off) (off + 4)" and off: "0 \<le> off"
  defines "m0 \<equiv> fill m op [0, 0, 0, 0]"
  obtains m1 where "copy_bytes m0 op (op - off) (op + 4) = Some m1" "frame m m1 op (op + 4)" "lz_match m1 op 4 off"
proof -
  have v4: "valid m op 4" using v by (rule valid_sub) (use off in auto)
  have f0: "frame m m0 op (op + 4)"
    using frame_fill [of m op "[0, 0, 0, 0]"] v4 by (simp add: m0_def)
  show thesis
  proof (cases "off = 0")
    case True
    have "m0 x = Some 0" if "op \<le> x" "x < op + 4" for x
      using that nth_mem [of "nat (x - op)" "[0, 0, 0, 0 :: byte]"] by (auto simp: m0_def fill_def)
    then have "lz_match m0 op 4 off" using True by (simp add: lz_match_def)
    moreover have "copy_bytes m0 op (op - off) (op + 4) = Some m0"
      using copy_bytes_self [of m0 op "op + 4"] frame_valid [OF f0] v4 True by simp
    ultimately show thesis using f0 that by blast
  next
    case False
    have "valid m0 (op - off) (op + 4 - (op - off))"
      using v by (simp add: frame_valid [OF f0] algebra_simps)
    then obtain m1 where m1: "copy_bytes m0 op (op - off) (op + 4) = Some m1"
        "copied m0 m1 op (op - off) (op + 4) (op + 4)"
      by (rule bytewise.copy_overlap [of m0 "op - off" "op + 4" "op - off" op "op + 4"]) (use off in auto)
    have "frame m m1 op (op + 4)" using f0 copiedD(1)[OF m1(2)] by (rule frame_trans)
    moreover have "lz_match m1 op 4 off" using lz_match_copied [OF m1(2) False] by simp
    ultimately show thesis using m1(1) that by blast
  qed
qed

text \<open>The contract of \<open>match_first8\<close>: eight bytes of the match are in place, and the returned
  pointer is a source to continue from, at a distance of at least eight that is a multiple of the
  match distance.\<close>

lemma match_first8_spec:
  assumes v: "valid m (op - off) (off + 8)" and off: "0 \<le> off"
  obtains m' s where "match_first8 m op (op - off) off = Some (m', s)" "frame m m' op (op + 8)"
    "lz_match m' op 8 off" "op - off \<le> s" "s \<le> op" "off = 0 \<or> off dvd op + 8 - s"
proof (cases "off < 8")
  case True
  define inc dec where "inc = inc32table ! nat off" and "dec = dec64table ! nat off"
  note tab = small_offset_tables [OF off True, folded inc_def dec_def]
  have v4: "valid m (op - off) (off + 4)" "valid m op 4" using v by (auto intro: valid_sub simp: off)
  obtain m1 where m1: "copy_bytes (fill m op [0, 0, 0, 0]) op (op - off) (op + 4) = Some m1"
      "frame m m1 op (op + 4)" "lz_match m1 op 4 off"
    using first4_spec [OF v4(1) off] .
  define m2 where "m2 = blit m1 (op + 4) (op - off + inc) 4"
  have vv: "valid m1 (op + 4) 4" "valid m1 (op - off + inc) 4"
    unfolding frame_valid [OF m1(2)] by (rule valid_sub [OF v]; use tab off in simp)+
  have dis: "op - off + inc + 4 \<le> op + 4" using tab by simp
  have c2: "LZ4_memcpy m1 (op + 4) (op - off + inc) 4 = Some m2"
    unfolding m2_def using vv dis by (intro memcpy_Some) auto
  have cp: "copied m1 m2 (op + 4) (op - off + inc) (op + 8) (op + 8)"
    unfolding m2_def using copied_blit [OF vv, of "op + 8"] dis by (simp add: add.commute [of op])
  have "lz_match m2 op (op + 8 - op) off"
    using m1(3) cp off by (rule lz_match_extend) (use tab in \<open>auto simp: algebra_simps\<close>)
  moreover have "frame m m2 op (op + 8)"
    using m1(2) copiedD(1)[OF cp] by (rule frame_join) auto
  moreover have "match_first8 m op (op - off) off = Some (m2, op - off + inc - dec)"
    using True m1(1) c2 v4(2)
    by (simp add: match_first8_def LZ4_write32_def store_bytes_def byte_of_def copy_bytes4
        inc_def dec_def bind_assoc flip: bind_assoc)
  ultimately show thesis
    using tab by (intro that [of m2 "op - off + inc - dec"]) (auto simp: algebra_simps)
next
  case False
  define m1 where "m1 = blit m op (op - off) 8"
  have vv: "valid m op 8" "valid m (op - off) 8" using v False by (auto intro: valid_sub)
  have c: "copied m m1 op (op - off) (op + 8) (op + 8)"
    unfolding m1_def using vv False by (intro copied_blit) auto
  have "match_first8 m op (op - off) off = Some (m1, op - off + 8)"
    using False vv by (auto simp: match_first8_def m1_def LZ4_memcpy_def)
  then show thesis
    using lz_match_copied [OF c] copiedD(1)[OF c] False by (intro that) auto
qed

lemma memcpy_using_offset_base_spec:
  assumes v: "valid m (op - off) (hi - (op - off))" and off: "0 \<le> off"
    and b: "op + 16 \<le> hi" "e + 7 \<le> hi"
  obtains m' where "LZ4_memcpy_using_offset_base m op (op - off) e off = Some m'" "frame m m' op hi"
    "lz_match m' op (e - op) off"
proof -
  have "valid m (op - off) (off + 8)" using v b by (auto intro: valid_sub)
  then obtain m1 s where 1: "match_first8 m op (op - off) off = Some (m1, s)" "frame m m1 op (op + 8)"
      "lz_match m1 op 8 off" "op - off \<le> s" "s \<le> op" "off = 0 \<or> off dvd op + 8 - s"
    using off by (rule match_first8_spec)
  have "valid m1 (op - off) (hi - (op - off))" using v by (simp add: frame_valid [OF 1(2)])
  then obtain m2 where 2: "LZ4_wildCopy8 m1 (op + 8) s e = Some m2" "copied m1 m2 (op + 8) s e hi"
    by (rule wild8.copy_overlap [of m1 "op - off" hi s "op + 8" e]) (use 1 b in auto)
  have "lz_match m2 op (e - op) off" using 1(3) 2(2) off 1(6,4) by (rule lz_match_extend) (use 1 in auto)
  moreover have "frame m m2 op hi" using 1(2) copiedD(1)[OF 2(2)] by (rule frame_join) (use b in auto)
  ultimately show thesis using 1(1) 2(1) by (intro that) (auto simp: LZ4_memcpy_using_offset_base_def)
qed

lemma store_pattern8_law:
  "length v = 8 \<Longrightarrow> valid m d (hi - d) \<Longrightarrow> d + 8 \<le> hi \<Longrightarrow> e + 7 \<le> hi
   \<Longrightarrow> \<exists>m'. store_pattern8 m d v e = Some m' \<and> frame m m' d hi
         \<and> (\<forall>x. d \<le> x \<and> (x < e \<or> x < d + 8) \<longrightarrow> m' x = Some (v ! nat ((x - d) mod 8)))"
proof (induction m d v e rule: store_pattern8.induct)
  case (1 m d v e)
  define m1 where "m1 = fill m d v"
  have v8: "valid m d (int (length v))" using "1.prems"(1-3) by (auto intro: valid_sub)
  have c: "store_bytes m d v = Some m1" using v8 by (simp add: store_bytes_def m1_def)
  have f1: "frame m m1 d (d + 8)" using frame_fill [OF v8] "1.prems"(1) by (simp add: m1_def)
  have at: "m1 x = Some (v ! nat ((x - d) mod 8))" if "d \<le> x" "x < d + 8" for x
    using that "1.prems"(1) by (simp add: m1_def fill_def)
  show ?case
  proof (cases "d + 8 < e")
    case True
    have "valid m1 (d + 8) (hi - (d + 8))"
      using "1.prems"(2) unfolding frame_valid [OF f1] by (auto intro: valid_sub)
    then obtain m' where m': "store_pattern8 m1 (d + 8) v e = Some m'" "frame m1 m' (d + 8) hi"
      "\<And>x. d + 8 \<le> x \<Longrightarrow> x < e \<Longrightarrow> m' x = Some (v ! nat ((x - (d + 8)) mod 8))"
      using "1.IH" [OF c True] True "1.prems"(1,4) by auto
    have "m' x = Some (v ! nat ((x - d) mod 8))" if "d \<le> x" "x < e" for x
    proof (cases "x < d + 8")
      case True
      then show ?thesis using frame_out [OF m'(2), of x] at that by simp
    next
      case False
      have "(x - (d + 8)) mod 8 = (x - d) mod 8" using minus_mod_self2 [of "x - d" 8] by (simp add: algebra_simps)
      then show ?thesis using m'(3) that False by auto
    qed
    moreover have "frame m m' d hi" using f1 m'(2) by (rule frame_join) (use "1.prems"(3) in auto)
    ultimately show ?thesis using c True m'(1) by (subst store_pattern8.simps) auto
  next
    case False
    then show ?thesis
      using c at frame_widen [OF f1, of d hi] "1.prems"(3) by (subst store_pattern8.simps) auto
  qed
qed

lemma less8_cases: "i < (8 :: nat) \<Longrightarrow> i \<in> {0, 1, 2, 3, 4, 5, 6, 7}"
  by auto

text \<open>A stored pattern of eight bytes with period \<open>off\<close> is a match at distance \<open>off\<close>.\<close>

lemma pattern_match:
  assumes v: "valid m (op - off) (hi - (op - off))" and b: "op + 8 \<le> hi" "e + 7 \<le> hi"
    and off: "0 < off" "off dvd 8"
    and pat: "length p = 8" "\<And>i. i < 8 \<Longrightarrow> p ! i = the (m (op - off + int (i mod nat off)))"
  obtains m' where "store_pattern8 m op p e = Some m'" "frame m m' op hi" "lz_match m' op (e - op) off"
proof -
  have "valid m op (hi - op)" using v off by (auto intro: valid_sub)
  then obtain m' where m': "store_pattern8 m op p e = Some m'" "frame m m' op hi"
      "\<And>x. op \<le> x \<Longrightarrow> x < e \<or> x < op + 8 \<Longrightarrow> m' x = Some (p ! nat ((x - op) mod 8))"
    using store_pattern8_law [OF pat(1), of m op hi e] b by auto
  have val: "m' x = Some (the (m (op - off + (x - op) mod off)))" if "op \<le> x" "x < e" for x
  proof -
    have "int (nat ((x - op) mod 8) mod nat off) = (x - op) mod off"
      using off by (simp add: zmod_int mod_mod_cancel)
    moreover have "nat ((x - op) mod 8) < 8" by simp
    ultimately show ?thesis using m'(3)[of x] pat(2)[of "nat ((x - op) mod 8)"] that by simp
  qed
  have "m' x = m' (x - off)" if x: "op \<le> x" "x < e" for x
  proof (cases "op \<le> x - off")
    case True
    then show ?thesis
      using val [of x] val [of "x - off"] x off minus_mod_self2 [of "x - op" off] by (simp add: algebra_simps)
  next
    case False
    have "m' (x - off) = m (x - off)" using False by (intro frame_out [OF m'(2)]) auto
    moreover obtain y where "m (x - off) = Some y"
      using valid_at [OF v, of "x - off"] x b off by auto
    ultimately show ?thesis using val [OF x] False x off by (simp add: algebra_simps)
  qed
  then have "lz_match m' op (e - op) off" using off by (auto simp: lz_match_def)
  with m' show thesis by (auto intro: that)
qed

lemma memcpy_using_offset_spec:
  assumes v: "valid m (op - off) (hi - (op - off))" and off: "0 \<le> off"
    and b: "op + 16 \<le> hi" "e + 7 \<le> hi"
  obtains m' where "LZ4_memcpy_using_offset m op (op - off) e off = Some m'" "frame m m' op hi"
    "lz_match m' op (e - op) off"
proof -
  have at: "\<exists>y. m (op - off + i) = Some y" if "0 \<le> i" "i < off" for i
    using valid_at [OF v, of "op - off + i"] that b by auto
  have b8: "op + 8 \<le> hi" using b by simp
  consider "off = 1" | "off = 2" | "off = 4" | "off \<noteq> 1" "off \<noteq> 2" "off \<noteq> 4" by blast
  then show thesis
  proof cases
    case 1
    obtain y where y: "m (op - 1) = Some y" using at [of 0] 1 by auto
    have "replicate 8 y ! i = the (m (op - off + int (i mod nat off)))" if "i < 8" for i
      using that 1 y by simp
    then obtain m' where "store_pattern8 m op (replicate 8 y) e = Some m'" "frame m m' op hi" "lz_match m' op (e - op) off"
      using pattern_match [OF v b8 b(2), of "replicate 8 y"] 1 by auto
    then show thesis using 1 y by (intro that) (auto simp: LZ4_memcpy_using_offset_def)
  next
    case 2
    obtain y0 y1 where y: "m (op - 2) = Some y0" "m (op - 1) = Some y1"
      using at [of 0] at [of 1] 2 by auto
    let ?p = "[y0, y1, y0, y1, y0, y1, y0, y1]"
    have "?p ! i = the (m (op - off + int (i mod nat off)))" if "i < 8" for i
      using less8_cases [OF that] 2 y by auto
    then obtain m' where "store_pattern8 m op ?p e = Some m'" "frame m m' op hi" "lz_match m' op (e - op) off"
      using pattern_match [OF v b8 b(2), of ?p] 2 by auto
    then show thesis using 2 y by (intro that) (auto simp: LZ4_memcpy_using_offset_def)
  next
    case 3
    obtain y0 y1 y2 y3 where y: "m (op - 4) = Some y0" "m (op - 3) = Some y1" "m (op - 2) = Some y2" "m (op - 1) = Some y3"
      using at [of 0] at [of 1] at [of 2] at [of 3] 3 by auto
    let ?p = "[y0, y1, y2, y3, y0, y1, y2, y3]"
    have "?p ! i = the (m (op - off + int (i mod nat off)))" if "i < 8" for i
      using less8_cases [OF that] 3 y by auto
    then obtain m' where "store_pattern8 m op ?p e = Some m'" "frame m m' op hi" "lz_match m' op (e - op) off"
      using pattern_match [OF v b8 b(2), of ?p] 3 by auto
    then show thesis using 3 y by (intro that) (auto simp: LZ4_memcpy_using_offset_def)
  next
    case 4
    obtain m' where "LZ4_memcpy_using_offset_base m op (op - off) e off = Some m'" "frame m m' op hi"
        "lz_match m' op (e - op) off"
      using memcpy_using_offset_base_spec [OF v off b] .
    then show thesis using 4 by (intro that) (simp_all add: LZ4_memcpy_using_offset_def)
  qed
qed

end
