(* ===== verification/LZ4_Decompress.thy ===== *)
theory LZ4_Decompress
  imports LZ4_Copy
begin

text \<open>
  The block decoder of \<open>lib/lz4.c\<close>: \<open>read_variable_length\<close> and \<open>LZ4_decompress_generic\<close>, with
  both of its loops (the fast loop of the x86-64 and AArch64 builds, \<open>LZ4_FAST_DEC_LOOP\<close>, and the
  safe loop), its shortcut, its external dictionary, prefix and partial-decoding modes.

  The body of a loop is cut at the labels the source jumps to.  Each label is a definition that
  returns how the iteration ends: \<open>Next\<close> (the C \<open>continue\<close>), \<open>Break\<close>, or \<open>OutputError\<close> (the C
  \<open>goto _output_error\<close>), with the input pointer that the error code is computed from.  The
  loops themselves are \<^theory_text>\<open>partial_function\<close>s: \<open>None\<close> is undefined behaviour or divergence, so
  that the safety theorem also says that they return.
\<close>

section \<open>Constants and parameters\<close>

definition MINMATCH :: int where [simp]: "MINMATCH = 4"
definition WILDCOPYLENGTH :: int where [simp]: "WILDCOPYLENGTH = 8"
definition LASTLITERALS :: int where [simp]: "LASTLITERALS = 5"
definition MFLIMIT :: int where [simp]: "MFLIMIT = 12"
definition MATCH_SAFEGUARD_DISTANCE :: int where
  [simp]: "MATCH_SAFEGUARD_DISTANCE = 2 * WILDCOPYLENGTH - MINMATCH"
definition FASTLOOP_SAFE_DISTANCE :: int where [simp]: "FASTLOOP_SAFE_DISTANCE = 64"
definition ML_MASK :: int where [simp]: "ML_MASK = 15"
definition RUN_MASK :: int where [simp]: "RUN_MASK = 15"

datatype earlyEnd_directive = decode_full_block | partial_decode
datatype dict_directive = noDict | withPrefix64k | usingExtDict | usingDictCtx

record dec_env =
  d_src :: addr
  d_dst :: addr
  d_srcSize :: int
  d_outputSize :: int
  d_partialDecoding :: earlyEnd_directive
  d_dict :: dict_directive
  d_lowPrefix :: addr
  d_dictStart :: addr
  d_dictSize :: int

definition d_iend :: "dec_env \<Rightarrow> addr" where "d_iend E = d_src E + d_srcSize E"
definition d_oend :: "dec_env \<Rightarrow> addr" where "d_oend E = d_dst E + d_outputSize E"
definition d_dictEnd :: "dec_env \<Rightarrow> addr" where
  "d_dictEnd E = (if d_dictStart E = 0 then 0 else d_dictStart E + d_dictSize E)"
definition d_checkOffset :: "dec_env \<Rightarrow> bool" where "d_checkOffset E = (d_dictSize E < 65536)"

abbreviation partial :: "dec_env \<Rightarrow> bool" where
  "partial E \<equiv> d_partialDecoding E = partial_decode"

datatype dec_out =
    Next mem addr addr        \<comment> \<open>memory, \<open>ip\<close>, \<open>op\<close>\<close>
  | Break mem addr            \<comment> \<open>memory, \<open>op\<close>\<close>
  | OutputError mem addr      \<comment> \<open>memory, \<open>ip\<close>\<close>

datatype fast_out = FastNext mem addr addr | ToSafe dec_out

section \<open>Variable-length fields\<close>

definition rvl_error :: int where "rvl_error = 2 ^ 64 - 1"

function rvl_loop :: "mem \<Rightarrow> addr \<Rightarrow> addr \<Rightarrow> int \<Rightarrow> (int \<times> addr) option" where
  "rvl_loop m ip ilimit len = do {
     s \<leftarrow> m ip;
     let ip' = ip + 1; len = u64 (len + uint s) in
       if ip' > ilimit then Some (rvl_error, ip')
       else if uint s = 255 then rvl_loop m ip' ilimit len
       else Some (len, ip') }"
  by pat_completeness auto
termination
  by (relation "measure (\<lambda>(m, ip, ilimit, len). nat (ilimit - ip))") auto

declare rvl_loop.simps [simp del]

definition read_variable_length :: "mem \<Rightarrow> addr \<Rightarrow> addr \<Rightarrow> bool \<Rightarrow> (int \<times> addr) option" where
  "read_variable_length m ip ilimit initial_check =
     (if initial_check \<and> ip \<ge> ilimit then Some (rvl_error, ip)
      else do {
        s \<leftarrow> m ip;
        let ip = ip + 1; len = u64 (uint s) in
          if ip > ilimit then Some (rvl_error, ip)
          else if uint s \<noteq> 255 then Some (len, ip)
          else rvl_loop m ip ilimit len })"

section \<open>Copying a match\<close>

text \<open>Eighteen bytes at once, for matches of at most that length.\<close>

definition copy18 :: "mem \<Rightarrow> addr \<Rightarrow> addr \<Rightarrow> mem option" where
  "copy18 m op match = do {
     m \<leftarrow> LZ4_memcpy m op match 8;
     m \<leftarrow> LZ4_memcpy m (op + 8) (match + 8) 8;
     LZ4_memcpy m (op + 16) (match + 16) 2 }"

text \<open>A match that starts within the external dictionary (the same code in both loops).\<close>

definition extdict_match :: "dec_env \<Rightarrow> mem \<Rightarrow> addr \<Rightarrow> addr \<Rightarrow> addr \<Rightarrow> int \<Rightarrow> dec_out option" where
  "extdict_match E m ip op match len =
     (if op + len > d_oend E - LASTLITERALS \<and> \<not> partial E then Some (OutputError m ip)
      else
        let len = (if op + len > d_oend E - LASTLITERALS then min len (d_oend E - op) else len) in
        if len \<le> d_lowPrefix E - match then do {
          m \<leftarrow> LZ4_memmove m op (d_dictEnd E - (d_lowPrefix E - match)) len;
          Some (Next m ip (op + len)) }
        else
          let copySize = d_lowPrefix E - match; restSize = len - copySize in do {
          m \<leftarrow> LZ4_memcpy m op (d_dictEnd E - copySize) copySize;
          let op = op + copySize in
          if restSize > op - d_lowPrefix E then do {
            m \<leftarrow> copy_bytes m op (d_lowPrefix E) (op + restSize);
            Some (Next m ip (op + restSize)) }
          else do {
            m \<leftarrow> LZ4_memcpy m op (d_lowPrefix E) restSize;
            Some (Next m ip (op + restSize)) } })"

text \<open>Partial decoding of a match within the block: it may end anywhere.\<close>

definition partial_match :: "dec_env \<Rightarrow> mem \<Rightarrow> addr \<Rightarrow> addr \<Rightarrow> addr \<Rightarrow> int \<Rightarrow> dec_out option" where
  "partial_match E m ip op match len =
     (let mlen = min len (d_oend E - op); matchEnd = match + mlen; copyEnd = op + mlen in do {
        m \<leftarrow> (if matchEnd > op then copy_bytes m op match copyEnd else LZ4_memcpy m op match mlen);
        Some (if copyEnd = d_oend E then Break m copyEnd else Next m ip copyEnd) })"

text \<open>A match within the block, ending at \<open>cpy\<close>: eight bytes, then the rest by wild copies, or
  byte by byte near the end of the output buffer.\<close>

definition block_match :: "dec_env \<Rightarrow> mem \<Rightarrow> addr \<Rightarrow> addr \<Rightarrow> addr \<Rightarrow> int \<Rightarrow> int \<Rightarrow> dec_out option" where
  "block_match E m ip op match offset len = (let cpy = op + len in do {
     (m, match) \<leftarrow> match_first8 m op match offset;
     let op = op + 8 in
     if cpy > d_oend E - MATCH_SAFEGUARD_DISTANCE then
       let oCopyLimit = d_oend E - (WILDCOPYLENGTH - 1) in
       if cpy > d_oend E - LASTLITERALS then Some (OutputError m ip)
       else do {
         (m, op, match) \<leftarrow>
           (if op < oCopyLimit then do {
              m \<leftarrow> LZ4_wildCopy8 m op match oCopyLimit;
              Some (m, oCopyLimit, match + (oCopyLimit - op)) }
            else Some (m, op, match));
         m \<leftarrow> copy_bytes m op match cpy;
         Some (Next m ip cpy) }
     else do {
       m \<leftarrow> LZ4_memcpy m op match 8;
       m \<leftarrow> (if len > 16 then LZ4_wildCopy8 m (op + 8) (match + 8) cpy else Some m);
       Some (Next m ip cpy) } })"

definition safe_match_copy :: "dec_env \<Rightarrow> mem \<Rightarrow> addr \<Rightarrow> addr \<Rightarrow> addr \<Rightarrow> int \<Rightarrow> int \<Rightarrow> dec_out option" where
  "safe_match_copy E m ip op match offset len =
     (if d_checkOffset E \<and> match + d_dictSize E < d_lowPrefix E then Some (OutputError m ip)
      else if d_dict E = usingExtDict \<and> match < d_lowPrefix E then extdict_match E m ip op match len
      else if partial E \<and> op + len > d_oend E - MATCH_SAFEGUARD_DISTANCE
        then partial_match E m ip op match len
      else block_match E m ip op match offset len)"

text \<open>Label \<open>_copy_match\<close>: \<open>len\<close> still is the match field of the token.\<close>

definition copy_match_label :: "dec_env \<Rightarrow> mem \<Rightarrow> addr \<Rightarrow> addr \<Rightarrow> addr \<Rightarrow> int \<Rightarrow> int \<Rightarrow> dec_out option" where
  "copy_match_label E m ip op match offset len =
     (if len = ML_MASK then do {
        (addl, ip) \<leftarrow> read_variable_length m ip (d_iend E - LASTLITERALS + 1) False;
        if addl = rvl_error then Some (OutputError m ip)
        else let len = u64 (len + addl) in
          if u64 (op + len) < u64 op then Some (OutputError m ip)
          else safe_match_copy E m ip op match offset (u64 (len + MINMATCH)) }
      else safe_match_copy E m ip op match offset (len + MINMATCH))"

section \<open>The safe loop\<close>

text \<open>After the literals: read the offset and the match field of the token.\<close>

definition get_offset :: "dec_env \<Rightarrow> mem \<Rightarrow> addr \<Rightarrow> addr \<Rightarrow> int \<Rightarrow> dec_out option" where
  "get_offset E m ip op token = do {
     offset \<leftarrow> LZ4_readLE16 m ip;
     copy_match_label E m (ip + 2) op (op - offset) offset (token mod 16) }"

text \<open>The end of the input or of the output is near: the last literals of a full block, or a
  truncated run of literals in partial decoding.\<close>

definition last_literals :: "dec_env \<Rightarrow> mem \<Rightarrow> addr \<Rightarrow> addr \<Rightarrow> int \<Rightarrow> int \<Rightarrow> dec_out option" where
  "last_literals E m ip op token len =
     (let cpy = op + len in
      if partial E then
        let (len, cpy) = (if ip + len > d_iend E then (d_iend E - ip, op + (d_iend E - ip)) else (len, cpy));
            (len, cpy) = (if cpy > d_oend E then (d_oend E - op, d_oend E) else (len, cpy)) in do {
        m \<leftarrow> LZ4_memmove m op ip len;
        let ip = ip + len; op = op + len in
        if cpy = d_oend E \<or> ip \<ge> d_iend E - 2 then Some (Break m op)
        else get_offset E m ip op token }
      else if ip + len \<noteq> d_iend E \<or> cpy > d_oend E then Some (OutputError m ip)
      else do {
        m \<leftarrow> LZ4_memmove m op ip len;
        Some (Break m (op + len)) })"

definition safe_literal_copy :: "dec_env \<Rightarrow> mem \<Rightarrow> addr \<Rightarrow> addr \<Rightarrow> int \<Rightarrow> int \<Rightarrow> dec_out option" where
  "safe_literal_copy E m ip op token len =
     (let cpy = op + len in
      if cpy > d_oend E - MFLIMIT \<or> ip + len > d_iend E - (2 + 1 + LASTLITERALS)
      then last_literals E m ip op token len
      else do {
        m \<leftarrow> LZ4_wildCopy8 m op ip cpy;
        get_offset E m (ip + len) cpy token })"

definition shortcut :: "dec_env \<Rightarrow> mem \<Rightarrow> addr \<Rightarrow> addr \<Rightarrow> int \<Rightarrow> int \<Rightarrow> dec_out option" where
  "shortcut E m ip op token len = do {
     m \<leftarrow> LZ4_memcpy m op ip 16;
     let op = op + len; ip = ip + len; len = token mod 16 in do {
     offset \<leftarrow> LZ4_readLE16 m ip;
     let ip = ip + 2; match = op - offset in
     if len \<noteq> ML_MASK \<and> offset \<ge> 8 \<and> (d_dict E = withPrefix64k \<or> match \<ge> d_lowPrefix E) then do {
       m \<leftarrow> copy18 m op match;
       Some (Next m ip (op + len + MINMATCH)) }
     else copy_match_label E m ip op match offset len } }"

definition safe_iter :: "dec_env \<Rightarrow> mem \<Rightarrow> addr \<Rightarrow> addr \<Rightarrow> dec_out option" where
  "safe_iter E m ip op = do {
     t \<leftarrow> m ip;
     let token = uint t; ip = ip + 1; len = token div 16 in
     if len \<noteq> RUN_MASK \<and> ip < d_iend E - 14 - 2 \<and> op \<le> d_oend E - 14 - 18
     then shortcut E m ip op token len
     else if len = RUN_MASK then do {
       (addl, ip) \<leftarrow> read_variable_length m ip (d_iend E - RUN_MASK) True;
       if addl = rvl_error then Some (OutputError m ip)
       else let len = u64 (len + addl) in
         if u64 (op + len) < u64 op then Some (OutputError m ip)
         else if u64 (ip + len) < u64 ip then Some (OutputError m ip)
         else safe_literal_copy E m ip op token len }
     else safe_literal_copy E m ip op token len }"

definition dec_return :: "dec_env \<Rightarrow> mem \<Rightarrow> addr \<Rightarrow> (int \<times> mem) option" where
  "dec_return E m op = Some (op - d_dst E, m)"

definition dec_error :: "dec_env \<Rightarrow> mem \<Rightarrow> addr \<Rightarrow> (int \<times> mem) option" where
  "dec_error E m ip = Some (- (ip - d_src E) - 1, m)"

partial_function (option) safe_loop :: "dec_env \<Rightarrow> mem \<Rightarrow> addr \<Rightarrow> addr \<Rightarrow> (int \<times> mem) option" where
  "safe_loop E m ip op =
     Option.bind (safe_iter E m ip op) (\<lambda>r. case r of
        Next m ip op \<Rightarrow> safe_loop E m ip op
      | Break m op \<Rightarrow> dec_return E m op
      | OutputError m ip \<Rightarrow> dec_error E m ip)"

section \<open>The fast loop\<close>

definition fast_match_copy :: "dec_env \<Rightarrow> mem \<Rightarrow> addr \<Rightarrow> addr \<Rightarrow> addr \<Rightarrow> int \<Rightarrow> int \<Rightarrow> fast_out option" where
  "fast_match_copy E m ip op match offset len =
     (if d_checkOffset E \<and> match + d_dictSize E < d_lowPrefix E then Some (ToSafe (OutputError m ip))
      else if d_dict E = usingExtDict \<and> match < d_lowPrefix E then
        map_option (\<lambda>r. case r of Next m ip op \<Rightarrow> FastNext m ip op | _ \<Rightarrow> ToSafe r)
          (extdict_match E m ip op match len)
      else let cpy = op + len in do {
        m \<leftarrow> (if offset < 16 then LZ4_memcpy_using_offset m op match cpy offset
              else LZ4_wildCopy32 m op match cpy);
        Some (FastNext m ip cpy) })"

definition fast_match :: "dec_env \<Rightarrow> mem \<Rightarrow> addr \<Rightarrow> addr \<Rightarrow> int \<Rightarrow> fast_out option" where
  "fast_match E m ip op token = do {
     offset \<leftarrow> LZ4_readLE16 m ip;
     let ip = ip + 2; match = op - offset; len = token mod 16 in
     if len = ML_MASK then do {
       (addl, ip) \<leftarrow> read_variable_length m ip (d_iend E - LASTLITERALS + 1) False;
       if addl = rvl_error then Some (ToSafe (OutputError m ip))
       else let len = u64 (u64 (len + addl) + MINMATCH) in
         if u64 (op + len) < u64 op then Some (ToSafe (OutputError m ip))
         else if op + len \<ge> d_oend E - FASTLOOP_SAFE_DISTANCE
         then map_option ToSafe (safe_match_copy E m ip op match offset len)
         else fast_match_copy E m ip op match offset len }
     else
       let len = len + MINMATCH in
       if op + len \<ge> d_oend E - FASTLOOP_SAFE_DISTANCE
       then map_option ToSafe (safe_match_copy E m ip op match offset len)
       else if (d_dict E = withPrefix64k \<or> match \<ge> d_lowPrefix E) \<and> offset \<ge> 8 then do {
         m \<leftarrow> copy18 m op match;
         Some (FastNext m ip (op + len)) }
       else fast_match_copy E m ip op match offset len }"

definition fast_iter :: "dec_env \<Rightarrow> mem \<Rightarrow> addr \<Rightarrow> addr \<Rightarrow> fast_out option" where
  "fast_iter E m ip op = do {
     t \<leftarrow> m ip;
     let token = uint t; ip = ip + 1; len = token div 16 in
     if len = RUN_MASK then do {
       (addl, ip) \<leftarrow> read_variable_length m ip (d_iend E - RUN_MASK) True;
       if addl = rvl_error then Some (ToSafe (OutputError m ip))
       else let len = u64 (len + addl) in
         if u64 (op + len) < u64 op then Some (ToSafe (OutputError m ip))
         else if u64 (ip + len) < u64 ip then Some (ToSafe (OutputError m ip))
         else if op + len > d_oend E - 32 \<or> ip + len > d_iend E - 32
         then map_option ToSafe (safe_literal_copy E m ip op token len)
         else do {
           m \<leftarrow> LZ4_wildCopy32 m op ip (op + len);
           fast_match E m (ip + len) (op + len) token } }
     else if ip \<le> d_iend E - (16 + 1) then do {
       m \<leftarrow> LZ4_memcpy m op ip 16;
       fast_match E m (ip + len) (op + len) token }
     else map_option ToSafe (safe_literal_copy E m ip op token len) }"

partial_function (option) fast_loop :: "dec_env \<Rightarrow> mem \<Rightarrow> addr \<Rightarrow> addr \<Rightarrow> (int \<times> mem) option" where
  "fast_loop E m ip op =
     Option.bind (fast_iter E m ip op) (\<lambda>r. case r of
        FastNext m ip op \<Rightarrow> fast_loop E m ip op
      | ToSafe r \<Rightarrow> (case r of
            Next m ip op \<Rightarrow> safe_loop E m ip op
          | Break m op \<Rightarrow> dec_return E m op
          | OutputError m ip \<Rightarrow> dec_error E m ip))"

declare safe_loop.simps [code] fast_loop.simps [code]

section \<open>\<open>LZ4_decompress_generic\<close>\<close>

definition LZ4_decompress_generic :: "dec_env \<Rightarrow> mem \<Rightarrow> (int \<times> mem) option" where
  "LZ4_decompress_generic E m =
     (if d_src E = 0 \<or> d_outputSize E < 0 then Some (-1, m)
      else if d_outputSize E = 0 then
        if partial E then Some (0, m)
        else if d_srcSize E = 1 then do {
          b \<leftarrow> m (d_src E);
          Some (if uint b = 0 then 0 else -1, m) }
        else Some (-1, m)
      else if d_srcSize E = 0 then Some (-1, m)
      else if d_oend E - d_dst E < FASTLOOP_SAFE_DISTANCE then safe_loop E m (d_src E) (d_dst E)
      else fast_loop E m (d_src E) (d_dst E))"

end
