(* ===== verification/LZ4_Format.thy ===== *)
theory LZ4_Format
  imports LZ4_Prelude
begin

text \<open>
  The LZ4 block format as \<open>doc/lz4_Block_format.md\<close> describes it, on lists of bytes: a
  reference decoder \<open>decode_block\<close> and a reference encoder of sequences, with the theorem that
  decoding inverts encoding.  The C decoder and the C compressor are both related to these
  definitions; the round trip of the program goes through them.
\<close>

section \<open>Reference decoder\<close>

text \<open>Extension bytes of a length field: every byte 255 is followed by another one.\<close>

fun spec_length :: "byte list \<Rightarrow> (nat \<times> byte list) option" where
  "spec_length [] = None"
| "spec_length (b # bs) =
     (if b = 255 then map_option (\<lambda>(n, r). (255 + n, r)) (spec_length bs) else Some (unat b, bs))"

definition get_length :: "nat \<Rightarrow> byte list \<Rightarrow> (nat \<times> byte list) option" where
  "get_length n bs = (if n = 15 then map_option (\<lambda>(k, r). (15 + k, r)) (spec_length bs) else Some (n, bs))"

datatype parsed = Last "byte list" | Seq "byte list" nat nat "byte list"

definition parse_match :: "byte list \<Rightarrow> nat \<Rightarrow> byte list \<Rightarrow> parsed option" where
  "parse_match lits mt bs =
     (case bs of
        o1 # o2 # bs' \<Rightarrow>
          map_option (\<lambda>(k, r). Seq lits (unat o1 + 256 * unat o2) (k + 4) r) (get_length mt bs')
      | _ \<Rightarrow> None)"

definition parse_literals :: "nat \<Rightarrow> nat \<Rightarrow> byte list \<Rightarrow> parsed option" where
  "parse_literals ll mt bs =
     (if length bs < ll then None
      else if length bs = ll then Some (Last bs)
      else parse_match (take ll bs) mt (drop ll bs))"

fun parse_sequence :: "byte list \<Rightarrow> parsed option" where
  "parse_sequence [] = None"
| "parse_sequence (t # bs) =
     (case get_length (unat t div 16) bs of
        None \<Rightarrow> None
      | Some (ll, bs') \<Rightarrow> parse_literals ll (unat t mod 16) bs')"

text \<open>Appending a match: one byte at a time from \<open>off\<close> bytes back.  Offset 0 is invalid; the
  reference implementation documents that it then produces zero bytes.\<close>

fun copy_match :: "nat \<Rightarrow> nat \<Rightarrow> byte list \<Rightarrow> byte list" where
  "copy_match off 0 h = h"
| "copy_match off (Suc n) h = copy_match off n (h @ [if off = 0 then 0 else h ! (length h - off)])"

lemma length_copy_match [simp]: "length (copy_match off n h) = length h + n"
  by (induction n arbitrary: h) auto

lemma spec_length_shorter: "spec_length bs = Some (n, r) \<Longrightarrow> length r < length bs"
  by (induction bs arbitrary: n r) (auto split: if_splits intro: less_SucI)

lemma get_length_shorter: "get_length k bs = Some (n, r) \<Longrightarrow> length r \<le> length bs"
  by (auto simp: get_length_def split: if_splits dest: spec_length_shorter)

lemma parse_match_shorter: "parse_match l mt bs = Some (Seq lits off ml rest) \<Longrightarrow> length rest < length bs"
  by (auto simp: parse_match_def split: list.splits dest: get_length_shorter)

lemma parse_sequence_shorter:
  "parse_sequence bs = Some (Seq lits off ml rest) \<Longrightarrow> length rest < length bs"
  by (cases bs)
     (auto simp: parse_literals_def split: option.splits if_splits dest!: parse_match_shorter get_length_shorter)

function decode_block :: "byte list \<Rightarrow> byte list \<Rightarrow> byte list option" where
  "decode_block h bs =
     (case parse_sequence bs of
        None \<Rightarrow> None
      | Some (Last lits) \<Rightarrow> Some (h @ lits)
      | Some (Seq lits off ml rest) \<Rightarrow>
          (if off \<le> length (h @ lits) then decode_block (copy_match off ml (h @ lits)) rest else None))"
  by pat_completeness auto
termination
  by (relation "measure (\<lambda>(h, bs). length bs)") (auto dest: parse_sequence_shorter)

declare decode_block.simps [simp del]

lemma decode_block_unfold:
  "parse_sequence bs = None \<Longrightarrow> decode_block h bs = None"
  "parse_sequence bs = Some (Last lits) \<Longrightarrow> decode_block h bs = Some (h @ lits)"
  "parse_sequence bs = Some (Seq lits off ml rest) \<Longrightarrow> decode_block h bs =
     (if off \<le> length h + length lits then decode_block (copy_match off ml (h @ lits)) rest else None)"
  by (subst decode_block.simps; simp)+

lemma copy_match_append: "copy_match off (n + k) h = copy_match off k (copy_match off n h)"
  by (induction n arbitrary: h) auto

lemma copy_match_prefix: "take (length h) (copy_match off n h) = h"
proof (induction n arbitrary: h)
  case (Suc n)
  let ?h = "h @ [if off = 0 then 0 else h ! (length h - off)]"
  have "take (length h) (copy_match off n ?h) = take (length h) (take (length ?h) (copy_match off n ?h))"
    by simp
  also have "\<dots> = h" by (subst Suc) simp
  finally show ?case by simp
qed simp

lemma take_copy_match:
  "length h \<le> k \<Longrightarrow> k \<le> length h + n \<Longrightarrow> take k (copy_match off n h) = copy_match off (k - length h) h"
proof -
  assume k: "length h \<le> k" "k \<le> length h + n"
  have "copy_match off n h = copy_match off (n - (k - length h)) (copy_match off (k - length h) h)"
    using copy_match_append [of off "k - length h" "n - (k - length h)" h] k by simp
  then show ?thesis using copy_match_prefix [of "copy_match off (k - length h) h"] k by simp
qed

lemma copy_match_take: "take (length h) (copy_match off ml (h @ lits)) = h"
proof -
  have "take (length h) (copy_match off ml (h @ lits))
      = take (length h) (take (length (h @ lits)) (copy_match off ml (h @ lits)))" by (simp only: take_take length_append min.absorb1 le_add1)
  then show ?thesis by (simp only: copy_match_prefix) simp
qed

lemma copy_match_shift: "off \<le> length h \<Longrightarrow> copy_match off n (p @ h) = p @ copy_match off n h"
proof (induction n arbitrary: h)
  case (Suc n)
  have "(p @ h) ! (length (p @ h) - off) = h ! (length h - off)" if "off \<noteq> 0"
    using Suc.prems that by (auto simp: nth_append)
  then show ?case using Suc.IH [of "h @ [if off = 0 then 0 else h ! (length h - off)]"] Suc.prems
    by (cases "off = 0") simp_all
qed simp

section \<open>End-of-block conditions\<close>

text \<open>The last match starts at least 12 bytes before the end of the block, and the last five bytes
  are literals.  The end is given as the size \<open>lim\<close> of the history together with the decoded block,
  so that a larger limit is a weaker condition; \<open>None\<close> leaves it open.\<close>

fun fits :: "int option \<Rightarrow> int \<Rightarrow> bool" where
  "fits None n = True"
| "fits (Some c) n = (n \<le> c)"

function conforming :: "int option \<Rightarrow> byte list \<Rightarrow> byte list \<Rightarrow> bool" where
  "conforming lim h bs =
     (case parse_sequence bs of
        None \<Rightarrow> False
      | Some (Last lits) \<Rightarrow> fits lim (int (length h + length lits))
      | Some (Seq lits off ml rest) \<Rightarrow>
          off \<le> length h + length lits \<and> 6 \<le> length rest \<and>
          fits lim (int (length h + length lits) + 12) \<and> fits lim (int (length h + length lits + ml) + 5) \<and>
          conforming lim (copy_match off ml (h @ lits)) rest)"
  by pat_completeness auto
termination
  by (relation "measure (\<lambda>(lim, h, bs). length bs)") (auto dest: parse_sequence_shorter)

text \<open>Offset 0 does not occur.\<close>

function nonzero_offsets :: "byte list \<Rightarrow> bool" where
  "nonzero_offsets bs =
     (case parse_sequence bs of
        Some (Seq lits off ml rest) \<Rightarrow> off \<noteq> 0 \<and> nonzero_offsets rest
      | _ \<Rightarrow> True)"
  by pat_completeness auto
termination
  by (relation "measure length") (auto dest: parse_sequence_shorter)

declare conforming.simps [simp del] nonzero_offsets.simps [simp del]

lemma conforming_unfold:
  "parse_sequence bs = None \<Longrightarrow> \<not> conforming lim h bs"
  "parse_sequence bs = Some (Last lits) \<Longrightarrow> conforming lim h bs \<longleftrightarrow> fits lim (int (length h + length lits))"
  "parse_sequence bs = Some (Seq lits off ml rest) \<Longrightarrow> conforming lim h bs \<longleftrightarrow>
     off \<le> length h + length lits \<and> 6 \<le> length rest \<and>
     fits lim (int (length h + length lits) + 12) \<and> fits lim (int (length h + length lits + ml) + 5) \<and>
     conforming lim (copy_match off ml (h @ lits)) rest"
  by (subst conforming.simps; simp)+

lemma nonzero_offsets_unfold:
  "parse_sequence bs = Some (Seq lits off ml rest) \<Longrightarrow> nonzero_offsets bs \<longleftrightarrow> off \<noteq> 0 \<and> nonzero_offsets rest"
  by (subst nonzero_offsets.simps; simp)

text \<open>Induction over the sequences of a block.\<close>

lemma block_induct [case_names none last_seq seq]:
  assumes "\<And>h bs. parse_sequence bs = None \<Longrightarrow> P h bs"
    and "\<And>h bs lits. parse_sequence bs = Some (Last lits) \<Longrightarrow> P h bs"
    and "\<And>h bs lits off ml rest. parse_sequence bs = Some (Seq lits off ml rest)
           \<Longrightarrow> (off \<le> length h + length lits \<Longrightarrow> P (copy_match off ml (h @ lits)) rest) \<Longrightarrow> P h bs"
  shows "P h bs"
proof (induction h bs rule: decode_block.induct)
  case (1 h bs)
  show ?case
  proof (cases "parse_sequence bs")
    case (Some p)
    then show ?thesis using assms(2,3) 1 [OF Some] by (cases p) auto
  qed (rule assms(1))
qed

lemma conforming_decodes:
  "conforming lim h bs \<Longrightarrow> \<exists>d. decode_block h bs = Some d \<and> take (length h) d = h \<and> fits lim (int (length d))"
proof (induction h bs rule: block_induct)
  case (seq h bs lits off ml rest)
  let ?h = "copy_match off ml (h @ lits)"
  from seq obtain d where d: "decode_block ?h rest = Some d" "take (length ?h) d = ?h" "fits lim (int (length d))"
    by (auto simp: conforming_unfold)
  have "take (length h) d = take (length h) (take (length ?h) d)" by (simp add: min_def)
  then have "take (length h) d = h" by (simp only: d(2) copy_match_take)
  then show ?case using seq.hyps(1) seq.prems d(1,3) by (simp add: decode_block_unfold conforming_unfold)
qed (auto simp: conforming_unfold decode_block_unfold)

lemma conforming_mono:
  "conforming lim h bs \<Longrightarrow> (\<And>n. fits lim n \<Longrightarrow> fits lim' n) \<Longrightarrow> conforming lim' h bs"
  by (induction h bs rule: block_induct) (auto simp: conforming_unfold)

lemma parse_offset_bound: "parse_sequence bs = Some (Seq lits off ml rest) \<Longrightarrow> off < 65536"
proof -
  have "unat (a :: byte) + 256 * unat (b :: byte) < 65536" for a b
  proof -
    have "unat a < 256" "unat b < 256" using unsigned_less [of a, where ?'a = nat] unsigned_less [of b, where ?'a = nat] by simp_all
    then show ?thesis by linarith
  qed
  then show "parse_sequence bs = Some (Seq lits off ml rest) \<Longrightarrow> off < 65536"
    by (cases bs) (auto simp: parse_literals_def parse_match_def split: option.splits if_splits list.splits)
qed

text \<open>Only the last 65535 bytes of the history matter.\<close>

lemma decode_block_window:
  "65535 \<le> length h \<Longrightarrow> decode_block (p @ h) bs = map_option ((@) p) (decode_block h bs)"
proof (induction h bs rule: block_induct)
  case (seq h bs lits off ml rest)
  have off: "off \<le> length (h @ lits)" using parse_offset_bound [OF seq.hyps(1)] seq.prems by simp
  have "copy_match off ml (p @ h @ lits) = p @ copy_match off ml (h @ lits)" using copy_match_shift [OF off] .
  then show ?case using seq off by (simp add: decode_block_unfold)
qed (simp_all add: decode_block_unfold)

lemma conforming_window:
  "65535 \<le> length h \<Longrightarrow> conforming (map_option ((+) (int (length p))) lim) (p @ h) bs = conforming lim h bs"
proof (induction h bs rule: block_induct)
  case (seq h bs lits off ml rest)
  have off: "off \<le> length (h @ lits)" using parse_offset_bound [OF seq.hyps(1)] seq.prems by simp
  have "copy_match off ml (p @ h @ lits) = p @ copy_match off ml (h @ lits)" using copy_match_shift [OF off] .
  then show ?case using seq off by (cases lim) (auto simp: conforming_unfold)
qed (cases lim; auto simp: conforming_unfold)+

text \<open>More history in front does no harm.\<close>

lemma decode_block_longer: "decode_block h bs = Some d \<Longrightarrow> decode_block (p @ h) bs = Some (p @ d)"
proof (induction h bs rule: block_induct)
  case (seq h bs lits off ml rest)
  then have off: "off \<le> length (h @ lits)" by (simp add: decode_block_unfold split: if_splits)
  have "copy_match off ml (p @ h @ lits) = p @ copy_match off ml (h @ lits)" using copy_match_shift [OF off] .
  then show ?case using seq off by (simp add: decode_block_unfold)
qed (simp_all add: decode_block_unfold)

lemma conforming_longer:
  "conforming lim h bs \<Longrightarrow> conforming (map_option ((+) (int (length p))) lim) (p @ h) bs"
proof (induction h bs rule: block_induct)
  case (seq h bs lits off ml rest)
  then have off: "off \<le> length (h @ lits)" by (simp add: conforming_unfold)
  have "copy_match off ml (p @ h @ lits) = p @ copy_match off ml (h @ lits)" using copy_match_shift [OF off] .
  then show ?case using seq off by (cases lim) (auto simp: conforming_unfold)
qed (cases lim; auto simp: conforming_unfold)+

section \<open>Reference encoder of sequences\<close>

fun enc_length :: "nat \<Rightarrow> byte list" where
  "enc_length n = (if n < 255 then [of_nat n] else 255 # enc_length (n - 255))"

declare enc_length.simps [simp del]

definition enc_ext :: "nat \<Rightarrow> byte list" where
  "enc_ext n = (if n < 15 then [] else enc_length (n - 15))"

definition enc_token :: "nat \<Rightarrow> nat \<Rightarrow> byte" where
  "enc_token ll mt = of_nat (16 * min ll 15 + min mt 15)"

type_synonym sequence = "byte list \<times> nat \<times> nat"

fun enc_seq :: "sequence \<Rightarrow> byte list" where
  "enc_seq (lits, off, ml) =
     enc_token (length lits) (ml - 4) # enc_ext (length lits) @ lits
       @ [of_nat (off mod 256), of_nat (off div 256)] @ enc_ext (ml - 4)"

definition enc_last :: "byte list \<Rightarrow> byte list" where
  "enc_last lits = enc_token (length lits) 0 # enc_ext (length lits) @ lits"

definition enc_block :: "sequence list \<Rightarrow> byte list \<Rightarrow> byte list" where
  "enc_block sqs lits = concat (map enc_seq sqs) @ enc_last lits"

text \<open>The effect of a list of sequences on the history, and when it is well formed.\<close>

fun seq_ok :: "byte list \<Rightarrow> sequence \<Rightarrow> bool" where
  "seq_ok h (lits, off, ml) = (0 < off \<and> off < 65536 \<and> off \<le> length h + length lits \<and> 4 \<le> ml)"

fun expand_seq :: "byte list \<Rightarrow> sequence \<Rightarrow> byte list" where
  "expand_seq h (lits, off, ml) = copy_match off ml (h @ lits)"

fun seqs_ok :: "byte list \<Rightarrow> sequence list \<Rightarrow> bool" where
  "seqs_ok h [] = True"
| "seqs_ok h (s # ss) = (seq_ok h s \<and> seqs_ok (expand_seq h s) ss)"

definition expand :: "byte list \<Rightarrow> sequence list \<Rightarrow> byte list" where
  "expand h ss = foldl expand_seq h ss"

lemma expand_simps [simp]:
  "expand h [] = h" "expand h (s # ss) = expand (expand_seq h s) ss"
  "expand h (ss @ ts) = expand (expand h ss) ts"
  by (simp_all add: expand_def)

lemma seqs_ok_append [simp]: "seqs_ok h (ss @ ts) = (seqs_ok h ss \<and> seqs_ok (expand h ss) ts)"
  by (induction ss arbitrary: h) auto

lemma spec_length_enc [simp]: "spec_length (enc_length n @ r) = Some (n, r)"
proof (induction n rule: enc_length.induct)
  case (1 n)
  show ?case
  proof (cases "n < 255")
    case True
    then have "(of_nat n :: byte) \<noteq> 255" "unat (of_nat n :: byte) = n"
      by (auto simp: unat_of_nat dest: arg_cong [of _ _ unat])
    with True show ?thesis by (subst enc_length.simps) simp
  next
    case False
    with 1 show ?thesis by (subst enc_length.simps) simp
  qed
qed

lemma get_length_enc [simp]: "get_length (min n 15) (enc_ext n @ r) = Some (n, r)"
  by (auto simp: get_length_def enc_ext_def min_def)

lemma token_fields [simp]: "unat (enc_token ll mt) div 16 = min ll 15" "unat (enc_token ll mt) mod 16 = min mt 15"
proof -
  have "16 * min ll 15 + min mt 15 < 256" by (auto simp: min_def)
  then have "unat (enc_token ll mt) = 16 * min ll 15 + min mt 15"
    by (simp add: enc_token_def unat_of_nat del: of_nat_add of_nat_mult)
  then show "unat (enc_token ll mt) div 16 = min ll 15" "unat (enc_token ll mt) mod 16 = min mt 15" by auto
qed

lemma parse_enc_last: "parse_sequence (enc_last lits) = Some (Last lits)"
  by (simp add: enc_last_def parse_literals_def)

lemma parse_enc_seq:
  assumes "off < 65536" "4 \<le> ml"
  shows "parse_sequence (enc_seq (lits, off, ml) @ r) = Some (Seq lits off ml r)"
proof -
  have "off div 256 < 256" using assms(1) by (simp add: less_mult_imp_div_less)
  then have "unat (of_nat (off mod 256) :: byte) + 256 * unat (of_nat (off div 256) :: byte) = off"
    by (simp add: unat_of_nat)
  then show ?thesis using assms(2) by (simp add: parse_literals_def parse_match_def)
qed

lemma decode_enc_block_hist: "seqs_ok h sqs \<Longrightarrow> decode_block h (enc_block sqs lits) = Some (expand h sqs @ lits)"
proof (induction sqs arbitrary: h)
  case Nil
  then show ?case by (subst decode_block.simps) (simp add: enc_block_def parse_enc_last)
next
  case (Cons s sqs)
  obtain l off ml where s: "s = (l, off, ml)" by (cases s)
  from Cons.prems s have ok: "off < 65536" "4 \<le> ml" "off \<le> length (h @ l)" "seqs_ok (copy_match off ml (h @ l)) sqs"
    by auto
  have "enc_block (s # sqs) lits = enc_seq (l, off, ml) @ enc_block sqs lits"
    by (simp add: enc_block_def s)
  then show ?case
    using ok Cons.IH [OF ok(4)] by (subst decode_block.simps) (simp add: parse_enc_seq s del: enc_seq.simps)
qed

section \<open>Sizes and the end-of-block conditions of encoded blocks\<close>

lemma length_enc_length [simp]: "length (enc_length n) = n div 255 + 1"
proof (induction n rule: enc_length.induct)
  case (1 n)
  then show ?case by (subst enc_length.simps) (auto simp: div_if)
qed

lemma length_enc_ext [simp]: "length (enc_ext n) = (n + 240) div 255"
proof (cases "n < 15")
  case False
  then have "n + 240 = n - 15 + 255" by simp
  then have "(n + 240) div 255 = (n - 15) div 255 + 1" by simp
  with False show ?thesis by (simp add: enc_ext_def)
qed (simp add: enc_ext_def)

lemma length_enc_seq: "length (enc_seq (lits, off, ml)) = 3 + (length lits + 240) div 255 + length lits + (ml - 4 + 240) div 255"
  by simp

lemma length_enc_last: "length (enc_last lits) = 1 + (length lits + 240) div 255 + length lits"
  by (simp add: enc_last_def)

lemma length_expand_seq [simp]: "length (expand_seq h (lits, off, ml)) = length h + length lits + ml"
  by simp

text \<open>Every match starts 12 bytes, and ends 5 bytes, before the end \<open>e\<close> of the block.\<close>

fun seqs_fit :: "int \<Rightarrow> byte list \<Rightarrow> sequence list \<Rightarrow> bool" where
  "seqs_fit e h [] = True"
| "seqs_fit e h ((lits, off, ml) # ss) =
     (int (length h + length lits) + 12 \<le> e \<and> int (length h + length lits + ml) + 5 \<le> e
      \<and> seqs_fit e (expand_seq h (lits, off, ml)) ss)"

lemma seqs_fit_append [simp]: "seqs_fit e h (ss @ ts) = (seqs_fit e h ss \<and> seqs_fit e (expand h ss) ts)"
  by (induction e h ss rule: seqs_fit.induct) auto

lemma seqs_fit_mono: "seqs_fit e h ss \<Longrightarrow> e \<le> e' \<Longrightarrow> seqs_fit e' h ss"
  by (induction e h ss rule: seqs_fit.induct) auto

lemma seqs_fit_nonempty: "seqs_fit e h ss \<Longrightarrow> ss \<noteq> [] \<Longrightarrow> int (length (expand h ss)) + 5 \<le> e"
proof (induction e h ss rule: seqs_fit.induct)
  case (2 e h lits off ml ss)
  then show ?case by (cases "ss = []") auto
qed simp

text \<open>Matches have at least four bytes, so that eight more bytes are always enough.\<close>

lemma expand_longer: "length h \<le> length (expand h ss)"
proof (induction ss arbitrary: h)
  case (Cons s ss)
  obtain l off ml where s: "s = (l, off, ml)" by (cases s)
  show ?case using Cons [of "expand_seq h s"] by (simp add: s)
qed simp

lemma seqs_fit_8: "seqs_ok h ss \<Longrightarrow> int (length (expand h ss)) + 8 \<le> e \<Longrightarrow> seqs_fit e h ss"
proof (induction ss arbitrary: h)
  case (Cons s ss)
  obtain l off ml where s: "s = (l, off, ml)" by (cases s)
  have "length (expand_seq h s) \<le> length (expand h (s # ss))" using expand_longer [of "expand_seq h s" ss] by simp
  with Cons show ?case by (simp add: s)
qed simp

lemma enc_block_conforming:
  assumes "seqs_ok h ss" "seqs_fit e h ss" "int (length (expand h ss @ lits)) \<le> e" "ss \<noteq> [] \<longrightarrow> 5 \<le> length lits"
  shows "conforming (Some e) h (enc_block ss lits) \<and> nonzero_offsets (enc_block ss lits)"
  using assms
proof (induction ss arbitrary: h)
  case Nil
  have p: "parse_sequence (enc_block [] lits) = Some (Last lits)" by (simp add: enc_block_def parse_enc_last)
  show ?case using Nil by (subst nonzero_offsets.simps) (simp add: p conforming_unfold(2) [OF p])
next
  case (Cons s ss)
  obtain l off ml where s: "s = (l, off, ml)" by (cases s)
  have e: "enc_block (s # ss) lits = enc_seq (l, off, ml) @ enc_block ss lits" by (simp add: enc_block_def s)
  have p: "parse_sequence (enc_block (s # ss) lits) = Some (Seq l off ml (enc_block ss lits))"
    unfolding e by (rule parse_enc_seq) (use Cons.prems(1) s in auto)
  have len: "6 \<le> length (enc_block ss lits)" using Cons.prems(4) by (simp add: enc_block_def enc_last_def)
  have "conforming (Some e) (expand_seq h s) (enc_block ss lits) \<and> nonzero_offsets (enc_block ss lits)"
    by (rule Cons.IH) (use Cons.prems s in auto)
  then show ?case
    using Cons.prems len s by (auto simp: conforming_unfold(3) [OF p [unfolded s]] nonzero_offsets_unfold [OF p [unfolded s]])
qed

end
