(* ===== verification/LZ4_DecSpec.thy ===== *)
theory LZ4_DecSpec
  imports LZ4_Decompress LZ4_Format
begin

text \<open>
  What one iteration of the decoding loops promises, in terms of the reference decoder of
  \<open>LZ4_Format\<close>: the precondition \<open>dec_ok\<close> on buffers, the history \<open>hist\<close> that matches may refer
  to (external dictionary, prefix and output so far), and the contract \<open>outcome_ok\<close> of a label.
\<close>

section \<open>Buffers\<close>

text \<open>The memory as the offsets see it: with an external dictionary, the bytes below the prefix
  are those of the dictionary.\<close>

definition vm :: "dec_env \<Rightarrow> mem \<Rightarrow> mem" where
  "vm E m = (\<lambda>v. if d_dict E = usingExtDict \<and> v < d_lowPrefix E
                then m (d_dictEnd E - (d_lowPrefix E - v)) else m v)"

text \<open>The precondition of the decoder.  \<open>lo\<close> is the lowest address of the history (so that
  \<open>lo + dictSize\<close> is the lowest address of the prefix).  The three buffers are objects of the
  memory, and the output buffer overlaps neither the input nor the dictionary.\<close>

definition dec_ok :: "dec_env \<Rightarrow> addr \<Rightarrow> mem \<Rightarrow> bool" where
  "dec_ok E lo m \<longleftrightarrow>
     0 < d_src E \<and> 0 \<le> d_srcSize E \<and> d_srcSize E < 2 ^ 31 \<and> d_iend E < 2 ^ 63 \<and>
     0 \<le> d_dst E \<and> 0 \<le> d_outputSize E \<and> d_outputSize E < 2 ^ 31 \<and> d_oend E < 2 ^ 63 \<and>
     valid m (d_src E) (d_srcSize E) \<and>
     valid m (lo + d_dictSize E) (d_oend E - (lo + d_dictSize E)) \<and>
     lo + d_dictSize E \<le> d_dst E \<and> d_lowPrefix E \<le> lo + d_dictSize E \<and>
     (if d_dict E = withPrefix64k then lo \<le> d_dst E - 65535 else d_lowPrefix E = lo + d_dictSize E) \<and>
     (d_iend E \<le> d_dst E \<or> d_oend E \<le> d_src E) \<and>
     0 \<le> d_dictSize E \<and>
     (if d_dict E = usingExtDict
      then (d_dictStart E = 0 \<longrightarrow> d_dictSize E = 0) \<and> valid m (d_dictStart E) (d_dictSize E)
           \<and> (d_dictStart E + d_dictSize E \<le> d_dst E \<or> d_oend E \<le> d_dictStart E)
      else d_dictSize E = 0)"

definition hist :: "dec_env \<Rightarrow> addr \<Rightarrow> mem \<Rightarrow> addr \<Rightarrow> byte list" where
  "hist E lo m op = bytes (vm E m) lo (op - lo)"

lemma dec_ok_frame:
  assumes "dec_ok E lo m" "frame m m' a b" shows "dec_ok E lo m'"
  using assms(1) unfolding dec_ok_def frame_valid [OF assms(2)] .

lemma vm_above: "d_lowPrefix E \<le> x \<Longrightarrow> vm E m x = m x"
  by (simp add: vm_def)

lemma dec_okD:
  assumes "dec_ok E lo m"
  shows "d_lowPrefix E \<le> d_dst E" "lo \<le> d_dst E" "d_dst E \<le> d_oend E" "d_src E \<le> d_iend E"
    "0 \<le> d_dictSize E" "d_iend E \<le> d_dst E \<or> d_oend E \<le> d_src E"
    "d_lowPrefix E \<le> lo + d_dictSize E"
    "valid m (d_src E) (d_iend E - d_src E)"
    "valid m (lo + d_dictSize E) (d_oend E - (lo + d_dictSize E))"
    "valid m (d_dst E) (d_oend E - d_dst E)"
    "0 < d_src E" "0 \<le> d_dst E" "d_iend E < 2 ^ 63" "d_oend E < 2 ^ 63"
    "d_iend E - d_src E < 2 ^ 31"
  using assms by (auto simp: dec_ok_def d_iend_def d_oend_def intro: valid_sub)

lemma vm_frame:
  assumes ok: "dec_ok E lo m" and fr: "frame m m' a (d_oend E)" and a: "d_dst E \<le> a" and x: "lo \<le> x" "x < a"
  shows "vm E m' x = vm E m x"
proof (cases "d_dict E = usingExtDict \<and> x < d_lowPrefix E")
  case True
  let ?y = "d_dictEnd E - (d_lowPrefix E - x)"
  have "?y < a \<or> d_oend E \<le> ?y"
    using ok True x a by (auto simp: dec_ok_def d_dictEnd_def split: if_splits)
  then have "m' ?y = m ?y" by (rule frame_out [OF fr])
  with True show ?thesis by (simp add: vm_def)
next
  case False
  then show ?thesis using frame_out [OF fr, of x] x by (auto simp: vm_def)
qed

lemma hist_frame:
  assumes "dec_ok E lo m" "frame m m' a (d_oend E)" "d_dst E \<le> a" "op \<le> a"
  shows "hist E lo m' op = hist E lo m op"
  unfolding hist_def by (rule bytes_cong) (use assms in \<open>auto intro: vm_frame\<close>)

lemma length_hist [simp]: "length (hist E lo m op) = nat (op - lo)"
  by (simp add: hist_def)

lemma hist_append:
  assumes "dec_ok E lo m" "d_dst E \<le> op" "0 \<le> n"
  shows "hist E lo m (op + n) = hist E lo m op @ bytes m op n"
proof -
  have lo: "lo \<le> op" "d_lowPrefix E \<le> op" using dec_okD(1,2)[OF assms(1)] assms(2) by auto
  have "bytes (vm E m) lo (op - lo + n) = bytes (vm E m) lo (op - lo) @ bytes (vm E m) (lo + (op - lo)) n"
    using lo assms(3) by (intro bytes_append) auto
  moreover have "bytes (vm E m) op n = bytes m op n"
    by (rule bytes_cong) (use lo in \<open>simp add: vm_above\<close>)
  ultimately show ?thesis by (simp add: hist_def algebra_simps)
qed

text \<open>The input is not changed by writing the output.\<close>

lemma src_bytes_frame:
  assumes "dec_ok E lo m" "frame m m' a (d_oend E)" "d_dst E \<le> a" "d_src E \<le> ip"
  shows "bytes m' ip (d_iend E - ip) = bytes m ip (d_iend E - ip)"
  by (rule bytes_cong)
     (use assms dec_okD(6)[OF assms(1)] in \<open>auto intro!: frame_out [OF assms(2)]\<close>)

section \<open>Matches on the history\<close>

lemma bytes_copy_match:
  assumes "lz_match w op len off" "0 \<le> off" "off \<le> op - lo" "0 \<le> len"
  shows "bytes w lo (op + len - lo) = copy_match (nat off) (nat len) (bytes w lo (op - lo))"
  using assms
proof (induction "nat len" arbitrary: op len)
  case 0
  then show ?case by simp
next
  case (Suc n)
  then have len: "0 < len" by simp
  have lo: "lo \<le> op" using Suc.prems by simp
  let ?b = "if nat off = 0 then 0 else bytes w lo (op - lo) ! (length (bytes w lo (op - lo)) - nat off)"
  have "w op = (if off = 0 then Some 0 else w (op - off))"
    using Suc.prems(1) len by (auto simp: lz_match_def)
  moreover have "bytes w lo (op - lo) ! (nat (op - lo) - nat off) = the (w (op - off))" if "off \<noteq> 0"
  proof -
    have "nat (op - lo) - nat off < nat (op - lo)" "lo + int (nat (op - lo) - nat off) = op - off"
      using that Suc.prems by auto
    then show ?thesis by (simp only: nth_bytes)
  qed
  ultimately have b: "the (w op) = ?b" using Suc.prems(2) by auto
  have "lz_match w (op + 1) (len - 1) off" using Suc.prems(1) by (auto simp: lz_match_def)
  then have "bytes w lo (op + 1 + (len - 1) - lo)
      = copy_match (nat off) (nat (len - 1)) (bytes w lo (op + 1 - lo))"
    using Suc len by (intro Suc.hyps(1)) auto
  moreover have "bytes w lo (op + 1 - lo) = bytes w lo (op - lo) @ [the (w op)]"
    using bytes_snoc [of "op + 1 - lo" w lo] lo by simp
  moreover have "nat len = Suc (nat (len - 1))" using len by simp
  ultimately show ?case using b by simp
qed

lemma hist_match:
  assumes ok: "dec_ok E lo m" and fr: "frame m m' op (d_oend E)" and op: "d_dst E \<le> op"
    and mt: "lz_match (vm E m') op len off" and off: "0 \<le> off" "off \<le> op - lo" and len: "0 \<le> len"
  shows "hist E lo m' (op + len) = copy_match (nat off) (nat len) (hist E lo m op)"
proof -
  have "hist E lo m' (op + len) = copy_match (nat off) (nat len) (hist E lo m' op)"
    using bytes_copy_match [OF mt off len] by (simp add: hist_def)
  then show ?thesis using hist_frame [OF ok fr op] by simp
qed

section \<open>The contract of a loop iteration\<close>

fun yield :: "byte list \<Rightarrow> parsed \<Rightarrow> byte list" where
  "yield h (Last lits) = h @ lits"
| "yield h (Seq lits off ml rest) = copy_match off ml (h @ lits)"

fun nonzero_offset :: "parsed \<Rightarrow> bool" where
  "nonzero_offset (Last lits) = True"
| "nonzero_offset (Seq lits off ml rest) = (off \<noteq> 0)"

text \<open>Capacity of the history: everything up to the end of the output buffer.\<close>

definition cap :: "dec_env \<Rightarrow> addr \<Rightarrow> int" where "cap E lo = d_oend E - lo"

text \<open>A sequence the decoder must accept: it respects the end-of-block conditions of the format
  with regard to the end of the output buffer.\<close>

fun good :: "dec_env \<Rightarrow> addr \<Rightarrow> byte list \<Rightarrow> parsed \<Rightarrow> bool" where
  "good E lo h (Last lits) = (partial E \<or> int (length h + length lits) \<le> cap E lo)"
| "good E lo h (Seq lits off ml rest) =
     (off \<le> length h + length lits \<and> 6 \<le> length rest \<and>
      (partial E \<or> int (length h + length lits) + 12 \<le> cap E lo
                   \<and> int (length h + length lits + ml) + 5 \<le> cap E lo))"

text \<open>The output up to \<open>op\<close> is what the sequence yields, up to the end of the output buffer.\<close>

definition produced :: "dec_env \<Rightarrow> addr \<Rightarrow> mem \<Rightarrow> addr \<Rightarrow> byte list \<Rightarrow> parsed \<Rightarrow> bool" where
  "produced E lo m op h p \<longleftrightarrow>
     op - lo = min (int (length (yield h p))) (cap E lo) \<and>
     (nonzero_offset p \<or> \<not> partial E \<longrightarrow> hist E lo m op = take (nat (op - lo)) (yield h p))"

definition outcome_ok ::
  "dec_env \<Rightarrow> addr \<Rightarrow> mem \<Rightarrow> addr \<Rightarrow> byte list \<Rightarrow> parsed option \<Rightarrow> dec_out \<Rightarrow> bool" where
  "outcome_ok E lo m op h pr r = (case r of
     Next m' ip' op' \<Rightarrow>
       frame m m' op (d_oend E) \<and> d_src E < ip' \<and> ip' < d_iend E \<and> op \<le> op' \<and> op' \<le> d_oend E \<and>
       (\<exists>lits off ml. pr = Some (Seq lits off ml (bytes m ip' (d_iend E - ip'))) \<and>
          off \<le> length h + length lits \<and>
          produced E lo m' op' h (Seq lits off ml (bytes m ip' (d_iend E - ip'))) \<and>
          (\<not> partial E \<longrightarrow> op' - lo = int (length h + length lits + ml)))
   | Break m' op' \<Rightarrow>
       frame m m' op (d_oend E) \<and> op \<le> op' \<and> op' \<le> d_oend E \<and>
       (if partial E then \<forall>p. pr = Some p \<longrightarrow> good E lo h p \<longrightarrow>
              produced E lo m' op' h p \<and> (op' = d_oend E \<or> (\<exists>lits. p = Last lits))
        else \<exists>lits. pr = Some (Last lits) \<and> hist E lo m' op' = h @ lits)
   | OutputError m' ip' \<Rightarrow>
       frame m m' op (d_oend E) \<and> d_src E \<le> ip' \<and> (\<forall>p. pr = Some p \<longrightarrow> \<not> good E lo h p))"

end
