(* ===== verification/LZ4_DecMatch.thy ===== *)
theory LZ4_DecMatch
  imports LZ4_DecSpec
begin

text \<open>
  The match-copy labels of \<open>LZ4_decompress_generic\<close> never leave the buffers, and write exactly the
  match (up to a slack that stays within the output buffer).
\<close>

definition matched :: "dec_env \<Rightarrow> addr \<Rightarrow> mem \<Rightarrow> mem \<Rightarrow> addr \<Rightarrow> addr \<Rightarrow> int \<Rightarrow> int \<Rightarrow> bool" where
  "matched E lo m m' op op' off len \<longleftrightarrow>
     frame m m' op (d_oend E) \<and> off \<le> op - lo \<and> op' = min (op + len) (d_oend E) \<and>
     (\<not> partial E \<longrightarrow> op + len \<le> d_oend E) \<and>
     (off \<noteq> 0 \<or> \<not> partial E \<longrightarrow> lz_match (vm E m') op (op' - op) off)"

definition match_ok :: "dec_env \<Rightarrow> addr \<Rightarrow> mem \<Rightarrow> addr \<Rightarrow> addr \<Rightarrow> int \<Rightarrow> int \<Rightarrow> dec_out \<Rightarrow> bool" where
  "match_ok E lo m ip op off len r = (case r of
     Next m' ip' op' \<Rightarrow> ip' = ip \<and> matched E lo m m' op op' off len
   | Break m' op' \<Rightarrow> partial E \<and> op' = d_oend E \<and> matched E lo m m' op op' off len
   | OutputError m' ip' \<Rightarrow> ip' = ip \<and> frame m m' op (d_oend E)
       \<and> (op - lo < off \<or> \<not> partial E \<and> d_oend E - 5 < op + len))"

lemma lz_match_vm:
  assumes "lz_match m op len off" "d_dict E \<noteq> usingExtDict \<or> d_lowPrefix E \<le> op - off" "0 \<le> off"
  shows "lz_match (vm E m) op len off"
proof -
  have "vm E m x = m x" if "op - off \<le> x" for x using that assms(2) by (auto simp: vm_def)
  then show ?thesis using assms(1,3) by (auto simp: lz_match_def)
qed

section \<open>Matches within the block\<close>

lemma block_match_ok:
  assumes ok: "dec_ok E lo m" and op: "d_dst E \<le> op" "op \<le> d_oend E - 12"
    and off: "0 \<le> off" "lo + d_dictSize E \<le> op - off"
    and dict: "d_dict E \<noteq> usingExtDict \<or> d_lowPrefix E \<le> op - off"
    and len: "4 \<le> len" "partial E \<longrightarrow> op + len \<le> d_oend E - 12"
  obtains r where "block_match E m ip op (op - off) off len = Some r" "match_ok E lo m ip op off len r"
proof -
  let ?oe = "d_oend E" and ?cpy = "op + len"
  have vp: "valid m (op - off) (?oe - (op - off))" using dec_okD(9)[OF ok] by (rule valid_sub) (use off in auto)
  have "valid m (op - off) (off + 8)" using vp by (rule valid_sub) (use op in auto)
  then obtain m1 s where 1: "match_first8 m op (op - off) off = Some (m1, s)" "frame m m1 op (op + 8)"
      "lz_match m1 op 8 off" "op - off \<le> s" "s \<le> op" "off = 0 \<or> off dvd op + 8 - s"
    using off(1) by (rule match_first8_spec)
  have v1: "valid m1 (op - off) (?oe - (op - off))" using vp by (simp add: frame_valid [OF 1(2)])
  have lo: "off \<le> op - lo" using off dec_okD(5)[OF ok] by simp
  text \<open>A copy from \<open>s\<close> that reaches \<open>cpy\<close> completes the match.\<close>
  have finish: "matched E lo m m2 op ?cpy off len"
    if c: "copied m1 m2 (op + 8) s ?cpy ?oe" and le: "?cpy \<le> ?oe" for m2
  proof -
    have "lz_match m2 op (?cpy - op) off" using 1(3) c off(1) 1(6,4) by (rule lz_match_extend) (use 1 in auto)
    then have "lz_match (vm E m2) op len off" using lz_match_vm [OF _ dict off(1)] by simp
    moreover have "frame m m2 op ?oe" using 1(2) copiedD(1)[OF c] by (rule frame_join) (use op in auto)
    ultimately show ?thesis using lo le by (simp add: matched_def)
  qed
  have f1: "frame m m1 op ?oe" using 1(2) by (rule frame_widen) (use op in auto)
  show thesis
  proof (cases "?cpy > ?oe - 12")
    case near: True
    show thesis
    proof (cases "?cpy > ?oe - 5")
      case True
      have "block_match E m ip op (op - off) off len = Some (OutputError m1 ip)"
        using 1(1) near True by (simp add: block_match_def)
      then show thesis using True near len f1 by (intro that) (auto simp: match_ok_def)
    next
      case fits: False
      show thesis
      proof (cases "op + 8 < ?oe - 7")
        case True
        obtain m2 where 2: "LZ4_wildCopy8 m1 (op + 8) s (?oe - 7) = Some m2" "copied m1 m2 (op + 8) s (?oe - 7) ?oe"
          by (rule wild8.copy_overlap [OF v1, of s "op + 8" "?oe - 7"], (use 1(4,5) op True in linarith)+)
        let ?s = "s + (?oe - 7 - (op + 8))"
        have v2: "valid m2 (op - off) (?oe - (op - off))" using v1 by (simp add: frame_valid [OF copiedD(1)[OF 2(2)]])
        obtain m3 where 3: "copy_bytes m2 (?oe - 7) ?s ?cpy = Some m3" "copied m2 m3 (?oe - 7) ?s ?cpy ?oe"
          by (rule bytewise.copy_overlap [OF v2, of ?s "?oe - 7" ?cpy], (use 1(4,5) True fits in linarith)+)
        have "copied m1 m3 (op + 8) s ?cpy ?oe"
          using 3(2) True 1(5) by (intro copied_trans [OF 2(2)]) auto
        then have "matched E lo m m3 op ?cpy off len" using finish fits by simp
        moreover have "block_match E m ip op (op - off) off len = Some (Next m3 ip ?cpy)"
          using 1(1) near fits True 2(1) 3(1) by (simp add: block_match_def algebra_simps)
        ultimately show thesis by (intro that) (auto simp: match_ok_def)
      next
        case False
        obtain m3 where 3: "copy_bytes m1 (op + 8) s ?cpy = Some m3" "copied m1 m3 (op + 8) s ?cpy ?oe"
          by (rule bytewise.copy_overlap [OF v1, of s "op + 8" ?cpy], (use 1(4,5) op fits in linarith)+)
        then have "matched E lo m m3 op ?cpy off len" using finish fits by simp
        moreover have "block_match E m ip op (op - off) off len = Some (Next m3 ip ?cpy)"
          using 1(1) near fits False 3(1) by (simp add: block_match_def)
        ultimately show thesis by (intro that) (auto simp: match_ok_def)
      qed
    qed
  next
    case far: False
    define m2 where "m2 = blit m1 (op + 8) s 8"
    have vv: "valid m1 (op + 8) 8" "valid m1 s 8"
      using v1 by (rule valid_sub; use 1 off far len in simp)+
    have 2: "LZ4_memcpy m1 (op + 8) s 8 = Some m2" "copied m1 m2 (op + 8) s (op + 16) ?oe"
      unfolding m2_def using vv 1(5) copied_blit [OF vv, of ?oe] far len
      by (auto intro: memcpy_Some simp: add.commute [of op])
    show thesis
    proof (cases "len > 16")
      case True
      have v2: "valid m2 (op - off) (?oe - (op - off))" using v1 by (simp add: frame_valid [OF copiedD(1)[OF 2(2)]])
      obtain m3 where 3: "LZ4_wildCopy8 m2 (op + 16) (s + 8) ?cpy = Some m3" "copied m2 m3 (op + 16) (s + 8) ?cpy ?oe"
        by (rule wild8.copy_overlap [OF v2, of "s + 8" "op + 16" ?cpy], (use 1(4,5) far True in linarith)+)
      have "copied m1 m3 (op + 8) s ?cpy ?oe"
        using 3(2) 1(5) by (intro copied_trans [OF 2(2)]) auto
      then have "matched E lo m m3 op ?cpy off len" using finish far by simp
      moreover have "block_match E m ip op (op - off) off len = Some (Next m3 ip ?cpy)"
        using 1(1) far True 2(1) 3(1) by (simp add: block_match_def add.assoc)
      ultimately show thesis by (intro that) (auto simp: match_ok_def)
    next
      case False
      have "copied m1 m2 (op + 8) s ?cpy ?oe" using 2(2) False by (auto intro: copied_mono)
      then have "matched E lo m m2 op ?cpy off len" using finish far by simp
      moreover have "block_match E m ip op (op - off) off len = Some (Next m2 ip ?cpy)"
        using 1(1) far False 2(1) by (simp add: block_match_def)
      ultimately show thesis by (intro that) (auto simp: match_ok_def)
    qed
  qed
qed

lemma partial_match_ok:
  assumes ok: "dec_ok E lo m" and op: "d_dst E \<le> op" "op \<le> d_oend E" and p: "partial E"
    and off: "0 \<le> off" "lo + d_dictSize E \<le> op - off"
    and dict: "d_dict E \<noteq> usingExtDict \<or> d_lowPrefix E \<le> op - off" and len: "0 \<le> len"
  obtains r where "partial_match E m ip op (op - off) len = Some r" "match_ok E lo m ip op off len r"
proof -
  let ?oe = "d_oend E"
  define mlen where "mlen = min len (?oe - op)"
  have mlen: "0 \<le> mlen" "op + mlen \<le> ?oe" using op len by (auto simp: mlen_def)
  have vp: "valid m (op - off) (?oe - (op - off))" using dec_okD(9)[OF ok] by (rule valid_sub) (use off in auto)
  have "\<exists>m'. (if op - off + mlen > op then copy_bytes m op (op - off) (op + mlen)
              else LZ4_memcpy m op (op - off) mlen) = Some m' \<and> copied m m' op (op - off) (op + mlen) ?oe"
  proof (cases "op - off + mlen > op")
    case True
    then show ?thesis
      using bytewise.copy_overlap [OF vp, of "op - off" op "op + mlen"] off mlen op by auto
  next
    case False
    have vv: "valid m op mlen" "valid m (op - off) mlen"
      using vp by (rule valid_sub; use False mlen off in simp)+
    have "LZ4_memcpy m op (op - off) mlen = Some (blit m op (op - off) mlen)"
      using vv mlen False by (intro memcpy_Some) auto
    then show ?thesis using copied_blit [OF vv, of ?oe] mlen False by auto
  qed
  then obtain m' where m': "(if op - off + mlen > op then copy_bytes m op (op - off) (op + mlen)
      else LZ4_memcpy m op (op - off) mlen) = Some m'" "copied m m' op (op - off) (op + mlen) ?oe" by blast
  have "lz_match (vm E m') op mlen off" if "off \<noteq> 0"
    using lz_match_copied [OF m'(2) that] lz_match_vm [OF _ dict off(1)] by simp
  moreover have "min (op + len) ?oe = op + mlen" by (auto simp: mlen_def)
  ultimately have "matched E lo m m' op (op + mlen) off len"
    using copiedD(1)[OF m'(2)] off dec_okD(5)[OF ok] p by (auto simp: matched_def)
  then show thesis
    using m'(1) p by (intro that) (auto simp: partial_match_def match_ok_def mlen_def [symmetric] Let_def)
qed

section \<open>Matches that start in the external dictionary\<close>

text \<open>Any sufficiently long piece of a match that is in place can be continued.\<close>

text \<open>Bytes copied out of the dictionary are a match in the virtual memory.\<close>

lemma dict_blit_match:
  assumes ok: "dec_ok E lo m" and ext: "d_dict E = usingExtDict" and op: "d_dst E \<le> op"
    and off: "op - off < d_lowPrefix E" "off \<le> op - lo"
    and k: "0 \<le> k" "k \<le> d_lowPrefix E - (op - off)" "op + k \<le> d_oend E"
  defines "s \<equiv> d_dictEnd E - (d_lowPrefix E - (op - off))"
  shows "valid m op k" "valid m s k" "s + k \<le> op \<or> op + k \<le> s \<or> k = 0"
    and "frame m (blit m op s k) op (op + k)" "lz_match (vm E (blit m op s k)) op k off"
proof -
  have E: "d_lowPrefix E = lo + d_dictSize E" "d_lowPrefix E \<le> d_dst E"
      "d_dictStart E = 0 \<longrightarrow> d_dictSize E = 0"
      "d_dictStart E + d_dictSize E \<le> d_dst E \<or> d_oend E \<le> d_dictStart E"
    using ok ext by (auto simp: dec_ok_def)
  have de: "d_dictEnd E = d_dictStart E + d_dictSize E" using E(3) by (auto simp: d_dictEnd_def)
  have s: "d_dictStart E \<le> s" "s + k \<le> d_dictStart E + d_dictSize E"
    using off k E(1) by (auto simp: s_def de)
  show v: "valid m op k" "valid m s k"
    using ok ext k op s by (auto simp: dec_ok_def intro: valid_sub)
  show dis: "s + k \<le> op \<or> op + k \<le> s \<or> k = 0" using s E(4) op k by auto
  show fr: "frame m (blit m op s k) op (op + k)" using v by (rule frame_blit)
  have "vm E (blit m op s k) x = vm E (blit m op s k) (x - off)" if x: "op \<le> x" "x < op + k" for x
  proof -
    let ?y = "x - op + s"
    have "vm E (blit m op s k) x = m ?y" using x E(2) op by (simp add: vm_def blit_in)
    moreover have "x - off < d_lowPrefix E" using x k off by simp
    then have "vm E (blit m op s k) (x - off) = blit m op s k ?y"
      using ext by (simp add: vm_def s_def algebra_simps)
    moreover have "blit m op s k ?y = m ?y" using dis x by (intro blit_out) auto
    ultimately show ?thesis by simp
  qed
  moreover have "off \<noteq> 0" using off E(2) op by auto
  ultimately show "lz_match (vm E (blit m op s k)) op k off" by (simp add: lz_match_def)
qed

text \<open>A match of \<open>n\<close> bytes: the part \<open>k\<close> from the dictionary, the rest from the start of the prefix.\<close>

lemma dict_continue:
  assumes ok: "dec_ok E lo m" and ext: "d_dict E = usingExtDict" and op: "d_dst E \<le> op"
    and off: "op - off < d_lowPrefix E" "off \<le> op - lo"
    and n: "d_lowPrefix E - (op - off) \<le> n" "op + n \<le> d_oend E"
  defines "k \<equiv> d_lowPrefix E - (op - off)"
  defines "m1 \<equiv> blit m op (d_dictEnd E - k) k"
  assumes c: "copied m1 m2 (op + k) (d_lowPrefix E) (op + n) (d_oend E)"
  shows "frame m m2 op (d_oend E)" "lz_match (vm E m2) op n off"
proof -
  let ?oe = "d_oend E" and ?lp = "d_lowPrefix E"
  have lp: "?lp \<le> d_dst E" "?lp = lo + d_dictSize E" using ok ext by (auto simp: dec_ok_def)
  have k: "0 \<le> k" "k \<le> ?lp - (op - off)" "op + k \<le> ?oe" "k \<le> n" using off n by (auto simp: k_def)
  note b = dict_blit_match [OF ok ext op off k(1-3), folded k_def, folded m1_def]
  have dist: "op + k - ?lp = off" by (simp add: k_def)
  show "frame m m2 op ?oe" using b(4) copiedD(1)[OF c] by (rule frame_join) (use k in auto)
  have off0: "off \<noteq> 0" using off lp op by auto
  have c2: "copied m1 m2 (op + k) (op + k - off) (op + n) ?oe" using c dist by (simp add: algebra_simps)
  have rest: "lz_match (vm E m2) (op + k) (op + n - (op + k)) off"
    using lz_match_copied [OF c2 off0] dist off lp op k by (intro lz_match_vm) auto
  have "vm E m2 x = vm E m1 x" if "lo \<le> x" "x < op + k" for x
    using dec_ok_frame [OF ok b(4)] copiedD(1)[OF c] op k that by (intro vm_frame) auto
  moreover have "lo \<le> op" "0 < off" using dec_okD(2)[OF ok] op off lp by auto
  ultimately have "lz_match (vm E m2) op k off" using b(5) off by (auto simp: lz_match_def)
  then show "lz_match (vm E m2) op n off" by (rule lz_match_join) (use rest in simp)
qed

lemma extdict_match_ok:
  assumes ok: "dec_ok E lo m" and ext: "d_dict E = usingExtDict" and op: "d_dst E \<le> op" "op \<le> d_oend E"
    and off: "op - off < d_lowPrefix E" "off \<le> op - lo" and len: "0 \<le> len"
  obtains r where "extdict_match E m ip op (op - off) len = Some r" "match_ok E lo m ip op off len r"
    "\<nexists>m' op'. r = Break m' op'"
proof (cases "op + len > d_oend E - 5 \<and> \<not> partial E")
  case True
  then have "extdict_match E m ip op (op - off) len = Some (OutputError m ip)" by (simp add: extdict_match_def)
  then show thesis using True by (intro that) (auto simp: match_ok_def)
next
  case nerr: False
  let ?oe = "d_oend E" and ?lp = "d_lowPrefix E"
  define n where "n = (if op + len > ?oe - LASTLITERALS then min len (?oe - op) else len)"
  have n: "0 \<le> n" "op + n \<le> ?oe" "min (op + len) ?oe = op + n" "\<not> partial E \<longrightarrow> op + len \<le> ?oe"
    using nerr op len by (auto simp: n_def)
  have lp: "?lp \<le> d_dst E" "?lp = lo + d_dictSize E" using ok ext by (auto simp: dec_ok_def)
  have unfold: "extdict_match E m ip op (op - off) len =
     (if n \<le> ?lp - (op - off) then do {
        m \<leftarrow> LZ4_memmove m op (d_dictEnd E - (?lp - (op - off))) n;
        Some (Next m ip (op + n)) }
      else
        let copySize = ?lp - (op - off); restSize = n - copySize in do {
        m \<leftarrow> LZ4_memcpy m op (d_dictEnd E - copySize) copySize;
        let op = op + copySize in
        if restSize > op - ?lp then do {
          m \<leftarrow> copy_bytes m op ?lp (op + restSize);
          Some (Next m ip (op + restSize)) }
        else do {
          m \<leftarrow> LZ4_memcpy m op ?lp restSize;
          Some (Next m ip (op + restSize)) } })"
    using nerr by (simp add: extdict_match_def n_def Let_def)
  have finish: thesis
    if "extdict_match E m ip op (op - off) len = Some (Next m' ip (op + n))"
       "frame m m' op ?oe" "lz_match (vm E m') op n off" for m'
  proof -
    have "matched E lo m m' op (op + n) off len" using that n off by (auto simp: matched_def)
    then show thesis using that(1) by (intro \<open>\<And>r. _ \<Longrightarrow> _ \<Longrightarrow> _ \<Longrightarrow> thesis\<close>) (auto simp: match_ok_def)
  qed
  show thesis
  proof (cases "n \<le> ?lp - (op - off)")
    case True
    note b = dict_blit_match [OF ok ext op(1) off n(1) True n(2)]
    show thesis
    proof (rule finish)
      show "frame m (blit m op (d_dictEnd E - (?lp - (op - off))) n) op ?oe"
        using b(4) by (rule frame_widen) (use n in auto)
    qed (use b True n in \<open>auto simp: unfold memmove_Some\<close>)
  next
    case False
    define k where "k = ?lp - (op - off)"
    define m1 where "m1 = blit m op (d_dictEnd E - k) k"
    have k: "0 \<le> k" "k \<le> ?lp - (op - off)" "op + k \<le> ?oe" "k < n" using off False n by (auto simp: k_def)
    note b = dict_blit_match [OF ok ext op(1) off k(1-3), folded k_def, folded m1_def]
    have 1: "LZ4_memcpy m op (d_dictEnd E - k) k = Some m1"
      unfolding m1_def LZ4_memcpy_def using b(1-3) k by auto
    have v1: "valid m1 ?lp (?oe - ?lp)"
      using dec_okD(9)[OF ok] lp unfolding frame_valid [OF b(4)] by simp
    have dist: "op + k - ?lp = off" by (simp add: k_def)
    have "\<exists>m2. (if n - k > op + k - ?lp then copy_bytes m1 (op + k) ?lp (op + n) else LZ4_memcpy m1 (op + k) ?lp (n - k))
        = Some m2 \<and> copied m1 m2 (op + k) ?lp (op + n) ?oe"
    proof (cases "n - k > op + k - ?lp")
      case True
      then show ?thesis
        using bytewise.copy_overlap [OF v1, of ?lp "op + k" "op + n"] lp op k n by auto
    next
      case False
      have vv: "valid m1 (op + k) (n - k)" "valid m1 ?lp (n - k)"
        using v1 by (rule valid_sub; use lp op k n in simp)+
      have "LZ4_memcpy m1 (op + k) ?lp (n - k) = Some (blit m1 (op + k) ?lp (n - k))"
        using vv False k by (intro memcpy_Some) auto
      then show ?thesis using copied_blit [OF vv, of ?oe] False n by auto
    qed
    then obtain m2 where 2: "(if n - k > op + k - ?lp then copy_bytes m1 (op + k) ?lp (op + n)
        else LZ4_memcpy m1 (op + k) ?lp (n - k)) = Some m2" "copied m1 m2 (op + k) ?lp (op + n) ?oe" by blast
    have fr: "frame m m2 op ?oe" "lz_match (vm E m2) op n off"
      using dict_continue [OF ok ext op(1) off _ n(2), of m2] 2(2) k unfolding k_def [symmetric] m1_def [symmetric] by auto
    moreover have "extdict_match E m ip op (op - off) len = Some (Next m2 ip (op + n))"
      using False 1 2(1) unfolding unfold Let_def k_def [symmetric] by (auto split: if_splits)
    ultimately show thesis using fr by (intro finish [of m2])
  qed
qed

section \<open>Label \<open>safe_match_copy\<close>\<close>

text \<open>Once the offset check has passed, the offset reaches no further than the history.\<close>

lemma offset_in_hist:
  assumes ok: "dec_ok E lo m" and op: "d_dst E \<le> op" and off: "0 \<le> off" "off < 65536"
    and chk: "\<not> (d_checkOffset E \<and> op - off + d_dictSize E < d_lowPrefix E)"
  shows "off \<le> op - lo"
  using assms by (auto simp: dec_ok_def d_checkOffset_def split: if_splits)

lemma offset_check_fails:
  assumes ok: "dec_ok E lo m" and op: "d_dst E \<le> op" and off: "0 \<le> off" "off < 65536"
    and chk: "op - off + d_dictSize E < d_lowPrefix E"
  shows "op - lo < off"
  using assms by (auto simp: dec_ok_def split: if_splits)

lemma match_in_prefix:
  assumes ok: "dec_ok E lo m" and op: "d_dst E \<le> op" and off: "0 \<le> off" "off < 65536" "off \<le> op - lo"
    and nd: "\<not> (d_dict E = usingExtDict \<and> op - off < d_lowPrefix E)"
  shows "lo + d_dictSize E \<le> op - off" "d_dict E \<noteq> usingExtDict \<or> d_lowPrefix E \<le> op - off"
  using assms by (auto simp: dec_ok_def split: if_splits)

lemma safe_match_copy_ok:
  assumes ok: "dec_ok E lo m" and op: "d_dst E \<le> op" "op \<le> d_oend E" "\<not> partial E \<longrightarrow> op \<le> d_oend E - 12"
    and off: "0 \<le> off" "off < 65536" and len: "4 \<le> len"
  obtains r where "safe_match_copy E m ip op (op - off) off len = Some r" "match_ok E lo m ip op off len r"
proof (cases "d_checkOffset E \<and> op - off + d_dictSize E < d_lowPrefix E")
  case True
  then show thesis
    using offset_check_fails [OF ok op(1) off] by (intro that) (auto simp: safe_match_copy_def match_ok_def)
next
  case chk: False
  note in_hist = offset_in_hist [OF ok op(1) off chk]
  show thesis
  proof (cases "d_dict E = usingExtDict \<and> op - off < d_lowPrefix E")
    case True
    obtain r where "extdict_match E m ip op (op - off) len = Some r" "match_ok E lo m ip op off len r"
      by (rule extdict_match_ok [OF ok _ op(1,2) _ in_hist, of len ip]) (use True len in auto)
    then show thesis using chk True by (intro that) (auto simp: safe_match_copy_def)
  next
    case nd: False
    note pre = match_in_prefix [OF ok op(1) off in_hist nd]
    show thesis
    proof (cases "partial E \<and> op + len > d_oend E - MATCH_SAFEGUARD_DISTANCE")
      case True
      obtain r where "partial_match E m ip op (op - off) len = Some r" "match_ok E lo m ip op off len r"
        by (rule partial_match_ok [OF ok op(1,2) _ off(1) pre, of len ip]) (use True len in auto)
      then show thesis using chk nd True by (intro that) (auto simp: safe_match_copy_def)
    next
      case False
      obtain r where "block_match E m ip op (op - off) off len = Some r" "match_ok E lo m ip op off len r"
      proof (rule block_match_ok [OF ok op(1) _ off(1) pre len, of ip])
        show "op \<le> d_oend E - 12" "partial E \<longrightarrow> op + len \<le> d_oend E - 12" using op(3) False len by auto
      qed
      then show thesis using chk nd False by (intro that) (auto simp: safe_match_copy_def)
    qed
  qed
qed

end
