(* ===== verification/LZ4_DecSeq.thy ===== *)
theory LZ4_DecSeq
  imports LZ4_DecMatch
begin

text \<open>
  One iteration of the safe loop decodes one sequence: every label of the loop body keeps within
  the buffers and satisfies the contract \<open>outcome_ok\<close>.
\<close>

section \<open>Variable-length fields\<close>

text \<open>The contract of \<open>read_variable_length\<close>: a length that is the one of the format, or the error
  value when the field does not end at or before the limit.\<close>

definition rvl_ok :: "mem \<Rightarrow> addr \<Rightarrow> addr \<Rightarrow> addr \<Rightarrow> int \<Rightarrow> int \<Rightarrow> addr \<Rightarrow> bool" where
  "rvl_ok m ip iend ilimit acc r ip' \<longleftrightarrow>
     (if r = rvl_error
      then ip \<le> ip' \<and> (\<forall>k rest. spec_length (bytes m ip (iend - ip)) = Some (k, rest) \<longrightarrow> ilimit < iend - int (length rest))
      else ip < ip' \<and> ip' \<le> ilimit \<and> acc \<le> r \<and> r \<le> acc + 255 * (ip' - ip)
           \<and> spec_length (bytes m ip (iend - ip)) = Some (nat (r - acc), bytes m ip' (iend - ip')))"

lemma rvl_error_num: "rvl_error = 18446744073709551615"
  by (simp add: rvl_error_def)

lemma uint_eq_255: "uint (b :: byte) = 255 \<longleftrightarrow> b = 255"
proof
  assume "uint b = 255"
  then have "byte_of (uint b) = byte_of 255" by simp
  then show "b = 255" by (simp only: byte_of_uint) (simp add: byte_of_def)
qed simp

lemma spec_length_step:
  assumes "m ip = Some s" "ip < iend"
  shows "spec_length (bytes m ip (iend - ip)) =
     (if uint s = 255 then map_option (\<lambda>(n, r). (255 + n, r)) (spec_length (bytes m (ip + 1) (iend - (ip + 1))))
      else Some (nat (uint s), bytes m (ip + 1) (iend - (ip + 1))))"
proof -
  have "bytes m ip (iend - ip) = s # bytes m (ip + 1) (iend - (ip + 1))"
    using bytes_Cons [of "iend - ip" m ip] assms by (simp add: algebra_simps)
  then show ?thesis by (simp add: uint_eq_255)
qed

lemma rvl_loop_spec:
  assumes "valid m ip (iend - ip)" "ip < iend" "ilimit < iend" "0 \<le> acc" "acc + 255 * (iend - ip) < rvl_error"
  shows "\<exists>r ip'. rvl_loop m ip ilimit acc = Some (r, ip') \<and> rvl_ok m ip iend ilimit acc r ip'"
  using assms
proof (induction m ip ilimit acc rule: rvl_loop.induct)
  case (1 m ip ilimit acc)
  obtain s where s: "m ip = Some s" using valid_at [OF "1.prems"(1), of ip] "1.prems"(2) by auto
  have ub: "uint s \<le> 255" "0 \<le> uint s" by simp_all
  have "255 \<le> 255 * (iend - ip)" using "1.prems"(2) by simp
  then have lt: "acc + uint s < rvl_error"
    using "1.prems"(5) ub(1) by linarith
  then have acc: "u64 (acc + uint s) = acc + uint s"
    using "1.prems"(4) by (intro u64_id) (simp_all add: rvl_error_num)
  note step = spec_length_step [of m ip, OF s "1.prems"(2)]
  show ?case
  proof (cases "ip + 1 > ilimit")
    case True
    have "ilimit < iend - int (length rest)" if "spec_length (bytes m ip (iend - ip)) = Some (k, rest)" for k rest
      using spec_length_shorter [OF that] True "1.prems"(2) by auto
    then have "rvl_ok m ip iend ilimit acc rvl_error (ip + 1)" by (auto simp: rvl_ok_def)
    then show ?thesis using s True by (subst rvl_loop.simps) (simp add: Let_def)
  next
    case le: False
    show ?thesis
    proof (cases "uint s = 255")
      case True
      have "valid m (ip + 1) (iend - (ip + 1))" using "1.prems"(1) by (rule valid_sub) auto
      then obtain r ip' where r: "rvl_loop m (ip + 1) ilimit (acc + 255) = Some (r, ip')"
          "rvl_ok m (ip + 1) iend ilimit (acc + 255) r ip'"
        using "1.IH" [OF s refl refl] le True acc "1.prems" by (auto simp: algebra_simps)
      have "rvl_ok m ip iend ilimit acc r ip'"
      proof (cases "r = rvl_error")
        case True
        with r(2) step \<open>uint s = 255\<close> show ?thesis by (auto simp: rvl_ok_def split: option.splits)
      next
        case False
        with r(2) step \<open>uint s = 255\<close> show ?thesis by (auto simp: rvl_ok_def nat_add_distrib [symmetric] algebra_simps)
      qed
      then show ?thesis using s le True acc r(1) by (subst rvl_loop.simps) (simp add: Let_def)
    next
      case False
      have "rvl_ok m ip iend ilimit acc (acc + uint s) (ip + 1)"
        using le step False lt by (auto simp: rvl_ok_def)
      then show ?thesis using s le False acc by (subst rvl_loop.simps) (simp add: Let_def)
    qed
  qed
qed

lemma read_variable_length_loop:
  "\<not> (chk \<and> ip \<ge> ilimit) \<Longrightarrow> read_variable_length m ip ilimit chk = rvl_loop m ip ilimit 0"
  by (subst rvl_loop.simps) (auto simp: read_variable_length_def Let_def intro!: Option.bind_cong)

lemma read_variable_length_spec:
  assumes "valid m ip (iend - ip)" "chk \<or> ip < iend" "ilimit < iend" "iend - ip < 2 ^ 40"
  obtains a ip' where "read_variable_length m ip ilimit chk = Some (a, ip')" "rvl_ok m ip iend ilimit 0 a ip'"
proof (cases "chk \<and> ip \<ge> ilimit")
  case True
  have "ilimit < iend - int (length rest)" if "spec_length (bytes m ip (iend - ip)) = Some (k, rest)" for k rest
    using spec_length_shorter [OF that] True assms(3) by auto
  then have "rvl_ok m ip iend ilimit 0 rvl_error ip" by (auto simp: rvl_ok_def)
  then show thesis using True by (intro that) (auto simp: read_variable_length_def)
next
  case False
  then have "ip < iend" using assms(2,3) by auto
  moreover have "0 + 255 * (iend - ip) < rvl_error" using assms(4) by (simp add: rvl_error_def)
  ultimately show thesis
    using rvl_loop_spec [OF assms(1) _ assms(3), of 0] that read_variable_length_loop [OF False] by auto
qed

section \<open>From a match to a decoded sequence\<close>

lemma matched_produced:
  assumes ok: "dec_ok E lo m" and op: "d_dst E \<le> op" "op \<le> d_oend E"
    and hl: "hist E lo m op = h @ lits" and off: "0 \<le> off" and len: "0 \<le> len"
    and mt: "matched E lo m m' op op' off len"
  shows "produced E lo m' op' h (Seq lits (nat off) (nat len) rest)"
    and "nat off \<le> length h + length lits"
    and "\<not> partial E \<longrightarrow> op' - lo = int (length h + length lits + nat len)"
proof -
  note D = mt [unfolded matched_def]
  have l: "int (length h + length lits) = op - lo"
    using arg_cong [OF hl, of length] dec_okD(2)[OF ok] op by simp
  then show "nat off \<le> length h + length lits" using D by (simp add: nat_le_iff)
  show "\<not> partial E \<longrightarrow> op' - lo = int (length h + length lits + nat len)" using D l len by auto
  have op': "op' - lo = min (int (length h + length lits + nat len)) (cap E lo)" "op \<le> op'"
    using D l len op by (auto simp: cap_def min_def)
  have "hist E lo m' op' = take (nat (op' - lo)) (copy_match (nat off) (nat len) (h @ lits))"
    if "off \<noteq> 0 \<or> \<not> partial E"
  proof -
    have "lz_match (vm E m') op (op' - op) off" using D that by auto
    then have "hist E lo m' (op + (op' - op)) = copy_match (nat off) (nat (op' - op)) (hist E lo m op)"
      using hist_match [OF ok _ op(1) _ off, of m' "op' - op"] D op' by auto
    moreover have "take (nat (op' - lo)) (copy_match (nat off) (nat len) (h @ lits))
        = copy_match (nat off) (nat (op' - lo) - length (h @ lits)) (h @ lits)"
      using l op' by (intro take_copy_match) auto
    moreover have "nat (op' - lo) - length (h @ lits) = nat (op' - op)" using l by simp
    ultimately show ?thesis using hl by simp
  qed
  then show "produced E lo m' op' h (Seq lits (nat off) (nat len) rest)"
    using op' off by (auto simp: produced_def)
qed

lemma match_outcome:
  assumes ok: "dec_ok E lo m" and ip: "d_src E < ip" "ip < d_iend E" and op: "d_dst E \<le> op" "op \<le> d_oend E"
    and hl: "hist E lo m op = h @ lits" and off: "0 \<le> off" and len: "0 \<le> len"
    and mt: "match_ok E lo m ip op off len r"
  shows "outcome_ok E lo m op h (Some (Seq lits (nat off) (nat len) (bytes m ip (d_iend E - ip)))) r"
proof -
  note P = matched_produced [OF ok op hl off len]
  have l: "int (length h + length lits) = op - lo"
    using arg_cong [OF hl, of length] dec_okD(2)[OF ok] op by simp
  show ?thesis
  proof (cases r)
    case (Next m' ip' op')
    with mt have M: "ip' = ip" "matched E lo m m' op op' off len" by (auto simp: match_ok_def)
    then have "frame m m' op (d_oend E)" "op \<le> op'" "op' \<le> d_oend E" using op len by (auto simp: matched_def)
    then show ?thesis using Next M(1) ip P [OF M(2)] by (auto simp: outcome_ok_def)
  next
    case (Break m' op')
    with mt have M: "partial E" "op' = d_oend E" "matched E lo m m' op op' off len" by (auto simp: match_ok_def)
    then have "frame m m' op (d_oend E)" by (auto simp: matched_def)
    then show ?thesis using Break M op P(1)[OF M(3)] by (auto simp: outcome_ok_def)
  next
    case (OutputError m' ip')
    then show ?thesis using mt ip l len off by (auto simp: match_ok_def outcome_ok_def cap_def)
  qed
qed

text \<open>An outcome for a later point of the same iteration is one for an earlier point.\<close>

lemma outcome_mono:
  assumes out: "outcome_ok E lo m1 op1 h pr r" and ok: "dec_ok E lo m"
    and fr: "frame m m1 op (d_oend E)" and op: "d_dst E \<le> op" "op \<le> op1"
  shows "outcome_ok E lo m op h pr r"
proof -
  have fr': "frame m m' op (d_oend E)" if "frame m1 m' op1 (d_oend E)" for m'
    using fr that by (rule frame_join) (use op in auto)
  have src: "bytes m1 ip (d_iend E - ip) = bytes m ip (d_iend E - ip)" if "d_src E < ip" for ip
    using src_bytes_frame [OF ok fr op(1), of ip] that by simp
  show ?thesis
  proof (cases r)
    case (Next m' ip' op')
    with out have "d_src E < ip'" by (simp add: outcome_ok_def)
    with Next show ?thesis using out fr' op src [of ip'] by (auto simp: outcome_ok_def)
  next
    case (Break m' op')
    then show ?thesis using out fr' op by (auto simp: outcome_ok_def)
  next
    case (OutputError m' ip')
    then show ?thesis using out fr' op by (auto simp: outcome_ok_def)
  qed
qed

section \<open>Labels \<open>_copy_match\<close> and the offset\<close>

text \<open>A match field that the limit of \<open>read_variable_length\<close> rejects does not belong to a good
  sequence: fewer than six bytes would follow.\<close>

lemma rvl_error_match:
  assumes "rvl_ok m ip (d_iend E) (d_iend E - 4) 0 rvl_error ip'" "d_src E \<le> ip"
  shows "outcome_ok E lo m op h
     (map_option (\<lambda>(k, r). Seq lits off (k + 4) r) (get_length 15 (bytes m ip (d_iend E - ip)))) (OutputError m ip')"
  using assms by (force simp: outcome_ok_def rvl_ok_def get_length_def)

lemma no_wrap:
  assumes "0 \<le> a" "a < 2 ^ 63" "0 \<le> len" "len < 2 ^ 62"
  shows "\<not> u64 (a + len) < u64 a"
  using assms by simp

lemma copy_match_label_ok:
  assumes ok: "dec_ok E lo m" and ip: "d_src E < ip" "ip < d_iend E"
    and op: "d_dst E \<le> op" "op \<le> d_oend E" "\<not> partial E \<longrightarrow> op \<le> d_oend E - 12"
    and off: "0 \<le> off" "off < 65536" and mt: "0 \<le> mt" "mt < 16"
    and hl: "hist E lo m op = h @ lits"
  obtains r where "copy_match_label E m ip op (op - off) off mt = Some r"
    "outcome_ok E lo m op h
       (map_option (\<lambda>(k, r). Seq lits (nat off) (k + 4) r) (get_length (nat mt) (bytes m ip (d_iend E - ip)))) r"
proof (cases "mt = 15")
  case True
  have "valid m ip (d_iend E - ip)" using dec_okD(8)[OF ok] by (rule valid_sub) (use ip in auto)
  then obtain a ip' where a: "read_variable_length m ip (d_iend E - 5 + 1) False = Some (a, ip')"
      "rvl_ok m ip (d_iend E) (d_iend E - 5 + 1) 0 a ip'"
    by (rule read_variable_length_spec [of m ip "d_iend E" False "d_iend E - 5 + 1"])
       (use dec_okD(15)[OF ok] ip in auto)
  show thesis
  proof (cases "a = rvl_error")
    case True
    then have "copy_match_label E m ip op (op - off) off mt = Some (OutputError m ip')"
      using a(1) \<open>mt = 15\<close> by (simp add: copy_match_label_def)
    then show thesis using rvl_error_match [of m ip E ip' lo op h lits "nat off"] a(2) True \<open>mt = 15\<close> ip
      by (intro that) auto
  next
    case False
    have A: "ip < ip'" "ip' \<le> d_iend E - 4" "0 \<le> a" "a \<le> 255 * (ip' - ip)"
        "spec_length (bytes m ip (d_iend E - ip)) = Some (nat a, bytes m ip' (d_iend E - ip'))"
      using a(2) False by (auto simp: rvl_ok_def)
    have sz: "d_iend E - d_src E < 2 ^ 31" "0 \<le> op" "op < 2 ^ 63" using ok op by (auto simp: dec_ok_def d_iend_def)
    have lt: "15 + a < 2 ^ 50" using A sz ip by simp
    obtain r where r: "safe_match_copy E m ip' op (op - off) off (15 + a + 4) = Some r"
        "match_ok E lo m ip' op off (15 + a + 4) r"
      by (rule safe_match_copy_ok [OF ok op off, of "15 + a + 4" ip']) (use A in auto)
    have "copy_match_label E m ip op (op - off) off mt = Some r"
      using a(1) r(1) False \<open>mt = 15\<close> lt A(3) no_wrap [of op "15 + a"] sz
      by (simp add: copy_match_label_def Let_def)
    moreover have "map_option (\<lambda>(k, r). Seq lits (nat off) (k + 4) r) (get_length (nat mt) (bytes m ip (d_iend E - ip)))
        = Some (Seq lits (nat off) (nat (15 + a + 4)) (bytes m ip' (d_iend E - ip')))"
      using A(3,5) \<open>mt = 15\<close> by (simp add: get_length_def nat_add_distrib)
    ultimately show thesis
      using match_outcome [OF ok _ _ op(1,2) hl off(1) _ r(2)] A ip by (intro that) auto
  qed
next
  case False
  obtain r where r: "safe_match_copy E m ip op (op - off) off (mt + 4) = Some r" "match_ok E lo m ip op off (mt + 4) r"
    by (rule safe_match_copy_ok [OF ok op off, of "mt + 4" ip]) (use mt in auto)
  have "map_option (\<lambda>(k, r). Seq lits (nat off) (k + 4) r) (get_length (nat mt) (bytes m ip (d_iend E - ip)))
      = Some (Seq lits (nat off) (nat (mt + 4)) (bytes m ip (d_iend E - ip)))"
    using False mt by (simp add: get_length_def nat_add_distrib)
  then show thesis
    using match_outcome [OF ok ip op(1,2) hl off(1) _ r(2)] r(1) False mt
    by (intro that) (auto simp: copy_match_label_def)
qed

lemma bytes_two:
  assumes "a + 2 \<le> e" shows "bytes m a (e - a) = the (m a) # the (m (a + 1)) # bytes m (a + 2) (e - (a + 2))"
  using assms bytes_Cons [of "e - a" m a] bytes_Cons [of "e - a - 1" m "a + 1"] by (simp add: algebra_simps)

lemma readLE16_spec:
  assumes v: "valid m a 2"
  obtains v where "LZ4_readLE16 m a = Some v" "0 \<le> v" "v < 65536"
    "nat v = unat (the (m a)) + 256 * unat (the (m (a + 1)))"
proof -
  let ?x = "uint (the (m a))" and ?y = "uint (the (m (a + 1)))"
  have b: "0 \<le> ?x" "?x \<le> 255" "0 \<le> ?y" "?y \<le> 255" by simp_all
  have "?x + 256 * ?y < 65536" "0 \<le> ?x + 256 * ?y" using b by linarith+
  moreover have "nat (?x + 256 * ?y) = unat (the (m a)) + 256 * unat (the (m (a + 1)))"
    by (simp add: nat_add_distrib nat_mult_distrib)
  ultimately show thesis using that [of "?x + 256 * ?y"] read16_Some [OF v] by (simp add: LZ4_readLE16_def)
qed

lemma get_offset_ok:
  assumes ok: "dec_ok E lo m" and ip: "d_src E < ip" "ip + 2 < d_iend E"
    and op: "d_dst E \<le> op" "op \<le> d_oend E" "\<not> partial E \<longrightarrow> op \<le> d_oend E - 12"
    and hl: "hist E lo m op = h @ lits"
  obtains r where "get_offset E m ip op token = Some r"
    "outcome_ok E lo m op h (parse_match lits (nat (token mod 16)) (bytes m ip (d_iend E - ip))) r"
proof -
  have "valid m ip 2" using dec_okD(8)[OF ok] by (rule valid_sub) (use ip in auto)
  then obtain off where off: "LZ4_readLE16 m ip = Some off" "0 \<le> off" "off < 65536"
      "nat off = unat (the (m ip)) + 256 * unat (the (m (ip + 1)))"
    by (rule readLE16_spec)
  obtain r where r: "copy_match_label E m (ip + 2) op (op - off) off (token mod 16) = Some r"
    "outcome_ok E lo m op h (map_option (\<lambda>(k, r). Seq lits (nat off) (k + 4) r)
       (get_length (nat (token mod 16)) (bytes m (ip + 2) (d_iend E - (ip + 2))))) r"
    by (rule copy_match_label_ok [OF ok _ _ op off(2,3) _ _ hl, of "ip + 2" "token mod 16"]) (use ip in auto)
  have "parse_match lits (nat (token mod 16)) (bytes m ip (d_iend E - ip))
      = map_option (\<lambda>(k, r). Seq lits (nat off) (k + 4) r)
       (get_length (nat (token mod 16)) (bytes m (ip + 2) (d_iend E - (ip + 2))))"
    using bytes_two [of ip "d_iend E" m] ip off(4) by (simp add: parse_match_def)
  then show thesis using that [of r] r off(1) by (simp add: get_offset_def)
qed

end
