(* ===== verification/LZ4_DecIter.thy ===== *)
theory LZ4_DecIter
  imports LZ4_DecSeq
begin

text \<open>
  Literals, the shortcut of the safe loop, and the bodies of both loops: one iteration consumes one
  sequence of the input and satisfies \<open>outcome_ok\<close> for it.
\<close>

section \<open>Literals\<close>

lemma parse_match_length:
  "parse_match lits mt bs = Some (Seq l off ml rest) \<Longrightarrow> 2 + length rest \<le> length bs"
  by (auto simp: parse_match_def split: list.splits dest: get_length_shorter)

lemma parse_match_lits: "parse_match lits mt bs = Some p \<Longrightarrow> \<exists>off ml rest. p = Seq lits off ml rest"
  by (auto simp: parse_match_def split: list.splits)

lemma parse_literals_cases:
  assumes "parse_literals ll mt bs = Some p"
  obtains (last) "length bs = ll" "p = Last bs"
  | (seq) off ml rest where "p = Seq (take ll bs) off ml rest" "ll + 2 + length rest \<le> length bs"
proof (cases "length bs = ll")
  case True
  with assms show thesis by (intro last) (auto simp: parse_literals_def)
next
  case False
  with assms have l: "ll < length bs" "parse_match (take ll bs) mt (drop ll bs) = Some p"
    by (auto simp: parse_literals_def split: if_splits)
  then obtain off ml rest where p: "p = Seq (take ll bs) off ml rest" using parse_match_lits by blast
  with l parse_match_length [of "take ll bs" mt "drop ll bs" "take ll bs" off ml rest]
  show thesis by (intro seq [OF p]) auto
qed

lemma parse_literals_bytes:
  assumes "0 \<le> len" "ip + len < iend"
  shows "parse_literals (nat len) mt (bytes m ip (iend - ip))
       = parse_match (bytes m ip len) mt (bytes m (ip + len) (iend - (ip + len)))"
proof -
  have "nat (iend - ip) \<noteq> nat len" "\<not> nat (iend - ip) < nat len" using assms by simp_all
  then show ?thesis
    using assms take_bytes [of len "iend - ip" m ip] drop_bytes [of len "iend - ip" m ip]
    by (simp add: parse_literals_def diff_diff_eq)
qed

text \<open>Moving \<open>n\<close> literals from the input to the output.\<close>

lemma literals_moved:
  assumes ok: "dec_ok E lo m" and ip: "d_src E \<le> ip" "ip + n \<le> d_iend E"
    and op: "d_dst E \<le> op" "op + n \<le> d_oend E" and n: "0 \<le> n"
  obtains m' where "LZ4_memmove m op ip n = Some m'" "frame m m' op (d_oend E)"
    "hist E lo m' (op + n) = hist E lo m op @ bytes m ip n"
proof -
  have v: "valid m op n" "valid m ip n"
    by (rule valid_sub [OF dec_okD(10)[OF ok]]; use op in simp) (rule valid_sub [OF dec_okD(8)[OF ok]]; use ip in simp)
  let ?m = "blit m op ip n"
  have fr: "frame m ?m op (d_oend E)" using frame_blit [OF v] by (rule frame_widen) (use op in auto)
  have "hist E lo ?m (op + n) = hist E lo ?m op @ bytes ?m op n"
    using dec_ok_frame [OF ok fr] op n by (intro hist_append) auto
  then have "hist E lo ?m (op + n) = hist E lo m op @ bytes m ip n"
    using hist_frame [OF ok fr op(1)] bytes_blit [OF n] by simp
  then show thesis using memmove_Some [OF n v] fr that by blast
qed

lemma last_literals_ok:
  fixes token :: int
  assumes ok: "dec_ok E lo m" and ip: "d_src E < ip" "ip \<le> d_iend E" and op: "d_dst E \<le> op" "op \<le> d_oend E"
    and len: "0 \<le> len" and near: "op + len > d_oend E - 12 \<or> ip + len > d_iend E - 8"
    and h: "hist E lo m op = h"
  defines "pr \<equiv> parse_literals (nat len) (nat (token mod 16)) (bytes m ip (d_iend E - ip))"
  obtains r where "last_literals E m ip op token len = Some r" "outcome_ok E lo m op h pr r"
proof (cases "partial E")
  case full: False
  have l: "int (length h) = op - lo" using h dec_okD(2)[OF ok] op by auto
  show thesis
  proof (cases "ip + len \<noteq> d_iend E \<or> op + len > d_oend E")
    case True
    have "\<not> good E lo h p" if "pr = Some p" for p
      using that [unfolded pr_def]
    proof (cases rule: parse_literals_cases)
      case last
      then show ?thesis using True full l len ip by (auto simp: cap_def)
    next
      case (seq off ml rest)
      then show ?thesis using near full l len ip by (auto simp: cap_def)
    qed
    moreover have "last_literals E m ip op token len = Some (OutputError m ip)"
      using full True by (simp add: last_literals_def)
    ultimately show thesis using ip by (intro that) (auto simp: outcome_ok_def)
  next
    case False
    obtain m' where m': "LZ4_memmove m op ip len = Some m'" "frame m m' op (d_oend E)"
        "hist E lo m' (op + len) = hist E lo m op @ bytes m ip len"
      by (rule literals_moved [OF ok _ _ op(1) _ len, of ip]) (use ip False in auto)
    have "d_iend E - ip = len" using False by simp
    then have "pr = Some (Last (bytes m ip len))" using len by (simp add: pr_def parse_literals_def)
    moreover have "last_literals E m ip op token len = Some (Break m' (op + len))"
      using full False m'(1) by (simp add: last_literals_def)
    ultimately show thesis using m' False full len h by (intro that) (auto simp: outcome_ok_def)
  qed
next
  case part: True
  have l: "int (length h) = op - lo" "0 \<le> op - lo" using h dec_okD(2)[OF ok] op by auto
  define len1 where "len1 = min len (d_iend E - ip)"
  define len2 where "len2 = min len1 (d_oend E - op)"
  have n: "0 \<le> len2" "ip + len2 \<le> d_iend E" "op + len2 \<le> d_oend E" "len2 \<le> len"
    using len ip op by (auto simp: len1_def len2_def)
  obtain m' where m': "LZ4_memmove m op ip len2 = Some m'" "frame m m' op (d_oend E)"
      "hist E lo m' (op + len2) = hist E lo m op @ bytes m ip len2"
    by (rule literals_moved [OF ok _ n(2) op(1) n(3,1)]) (use ip in auto)
  let ?stop = "op + len2 = d_oend E \<or> ip + len2 \<ge> d_iend E - 2"
  have clip1: "(if ip + len > d_iend E then (d_iend E - ip, op + (d_iend E - ip)) else (len, op + len)) = (len1, op + len1)"
    by (auto simp: len1_def)
  have clip2: "(if op + len1 > d_oend E then (d_oend E - op, d_oend E) else (len1, op + len1)) = (len2, op + len2)"
    by (auto simp: len2_def)
  have unfold: "last_literals E m ip op token len =
      (if ?stop then Some (Break m' (op + len2)) else get_offset E m' (ip + len2) (op + len2) token)"
    using part m'(1) unfolding last_literals_def Let_def clip1 prod.case clip2 by simp
  show thesis
  proof (cases ?stop)
    case True
    have "produced E lo m' (op + len2) h p \<and> (op + len2 = d_oend E \<or> (\<exists>l. p = Last l))"
      if p: "pr = Some p" and g: "good E lo h p" for p
    proof -
      from p ip len have len1: "len1 = len" by (auto simp: pr_def parse_literals_def len1_def split: if_splits)
      have bs: "take (nat len2) (bytes m ip (d_iend E - ip)) = bytes m ip len2"
        using n len by (intro take_bytes) auto
      have k: "nat (op + len2 - lo) = length h + nat len2" using l n by linarith
      from p [unfolded pr_def] show ?thesis
      proof (cases rule: parse_literals_cases)
        case last
        then have "op + len2 - lo = min (int (length (yield h p))) (cap E lo)"
          using l len1 len ip by (auto simp: len2_def cap_def)
        moreover have "take (nat (op + len2 - lo)) (yield h p) = h @ bytes m ip len2"
          using last bs by (simp add: k)
        ultimately show ?thesis using m'(3) h by (simp only: produced_def) (use last(2) in simp)
      next
        case (seq off ml rest)
        then have rem: "ip + len \<le> d_iend E - 8" using g ip len by auto
        with True have full: "op + len2 = d_oend E" using n by auto
        let ?hl = "h @ take (nat len) (bytes m ip (d_iend E - ip))"
        have lhl: "int (length ?hl) = op + len - lo" using l len rem by simp
        have kl: "nat (op + len2 - lo) \<le> length ?hl" using lhl n by linarith
        have "take (nat (op + len2 - lo)) (yield h p)
            = take (nat (op + len2 - lo)) (take (length ?hl) (copy_match off ml ?hl))"
          using kl seq(1) by (simp only: take_take min.absorb1 yield.simps)
        also have "\<dots> = take (nat (op + len2 - lo)) ?hl" by (simp only: copy_match_prefix)
        also have "\<dots> = h @ bytes m ip len2"
          using bs n by (simp add: k min_def)
        finally show ?thesis using m'(3) h seq full lhl n by (auto simp: produced_def cap_def)
      qed
    qed
    then show thesis
      using that unfold True m'(2) n part by (auto simp: outcome_ok_def)
  next
    case False
    have eq: "len2 = len" "ip + len + 2 < d_iend E" using False n len1_def len2_def by auto
    let ?lits = "bytes m ip len"
    have ok': "dec_ok E lo m'" using ok m'(2) by (rule dec_ok_frame)
    obtain r where r: "get_offset E m' (ip + len) (op + len) token = Some r"
        "outcome_ok E lo m' (op + len) h (parse_match ?lits (nat (token mod 16)) (bytes m' (ip + len) (d_iend E - (ip + len)))) r"
      by (rule get_offset_ok [OF ok', of "ip + len" "op + len" h ?lits token]) (use ip eq n op m'(3) h len part in auto)
    have "pr = parse_match ?lits (nat (token mod 16)) (bytes m' (ip + len) (d_iend E - (ip + len)))"
      using parse_literals_bytes [OF len, of ip "d_iend E"] eq src_bytes_frame [OF ok m'(2) op(1), of "ip + len"] ip len
      by (simp add: pr_def)
    then have "outcome_ok E lo m op h pr r"
      using outcome_mono [OF r(2) ok m'(2) op(1)] len by simp
    then show thesis using that unfold False eq r(1) by simp
  qed
qed

lemma safe_literal_copy_ok:
  fixes token :: int
  assumes ok: "dec_ok E lo m" and ip: "d_src E < ip" "ip \<le> d_iend E" and op: "d_dst E \<le> op" "op \<le> d_oend E"
    and len: "0 \<le> len" and h: "hist E lo m op = h"
  obtains r where "safe_literal_copy E m ip op token len = Some r"
    "outcome_ok E lo m op h (parse_literals (nat len) (nat (token mod 16)) (bytes m ip (d_iend E - ip))) r"
proof (cases "op + len > d_oend E - 12 \<or> ip + len > d_iend E - 8")
  case True
  obtain r where "last_literals E m ip op token len = Some r"
      "outcome_ok E lo m op h (parse_literals (nat len) (nat (token mod 16)) (bytes m ip (d_iend E - ip))) r"
    using ok ip op len True h by (rule last_literals_ok)
  then show thesis using True by (intro that) (auto simp: safe_literal_copy_def)
next
  case False
  let ?hi = "op + len + 8"
  have v: "valid m op (?hi - op)" "valid m ip (?hi - op)"
    by (rule valid_sub [OF dec_okD(10)[OF ok]]; use op False in simp)
       (rule valid_sub [OF dec_okD(8)[OF ok]]; use ip False in simp)
  obtain m' where m': "LZ4_wildCopy8 m op ip (op + len) = Some m'" "frame m m' op ?hi"
      "bytes m' op (op + len - op) = bytes m ip (op + len - op)"
    by (rule wild8.copy_disjoint [OF v, of "op + len"]) (use dec_okD(6)[OF ok] ip op len False in auto)
  have fr: "frame m m' op (d_oend E)" using m'(2) by (rule frame_widen) (use False in auto)
  have ok': "dec_ok E lo m'" using ok fr by (rule dec_ok_frame)
  let ?lits = "bytes m ip len"
  have hl: "hist E lo m' (op + len) = h @ ?lits"
    using hist_append [OF ok' op(1) len] hist_frame [OF ok fr op(1)] m'(3) h by simp
  obtain r where r: "get_offset E m' (ip + len) (op + len) token = Some r"
      "outcome_ok E lo m' (op + len) h (parse_match ?lits (nat (token mod 16)) (bytes m' (ip + len) (d_iend E - (ip + len)))) r"
    by (rule get_offset_ok [OF ok' _ _ _ _ _ hl, of "ip + len" token]) (use ip op len False in auto)
  have "outcome_ok E lo m op h (parse_literals (nat len) (nat (token mod 16)) (bytes m ip (d_iend E - ip))) r"
    using outcome_mono [OF r(2) ok fr op(1)] len False ip parse_literals_bytes [OF len, of ip "d_iend E"]
      src_bytes_frame [OF ok fr op(1), of "ip + len"] by simp
  then show thesis using that m'(1) r(1) False by (simp add: safe_literal_copy_def)
qed

section \<open>Eighteen bytes at once\<close>

lemma copy18_copied:
  assumes v: "valid m (op - off) (hi - (op - off))" and off: "8 \<le> off" and hi: "op + 18 \<le> hi"
  obtains m' where "copy18 m op (op - off) = Some m'" "copied m m' op (op - off) (op + 18) hi"
proof -
  have vv: "valid m op (hi - op)" using v by (rule valid_sub) (use off in auto)
  have step: "LZ4_memcpy w (op + i) (op - off + i) n = Some (blit w (op + i) (op - off + i) n)
      \<and> copied w (blit w (op + i) (op - off + i) n) (op + i) (op - off + i) (op + i + n) hi"
    if "dom w = dom m" "0 \<le> i" "i + n \<le> 18" "n \<le> 8" "0 \<le> n" for w i n
  proof -
    have "valid m (op + i) n" by (rule valid_sub [OF vv]) (use that hi in auto)
    moreover have "valid m (op - off + i) n" by (rule valid_sub [OF v]) (use that hi off in auto)
    ultimately have w: "valid w (op + i) n" "valid w (op - off + i) n" using that(1) by (simp_all add: valid_dom)
    have dis: "op - off + i + n \<le> op + i" "op + i + n \<le> hi" using that off hi by auto
    show ?thesis
      using memcpy_Some [OF that(5) w] copied_blit [OF w dis(2)] dis(1) by blast
  qed
  define m1 where "m1 = blit m op (op - off) 8"
  define m2 where "m2 = blit m1 (op + 8) (op - off + 8) 8"
  define m3 where "m3 = blit m2 (op + 16) (op - off + 16) 2"
  note s1 = step [of m 0 8, folded m1_def, simplified, folded m1_def]
  have d1: "dom m1 = dom m" using s1 by (auto simp: copied_def frame_def)
  note s2 = step [OF d1, of 8 8, folded m2_def]
  have d2: "dom m2 = dom m" using s2 d1 by (auto simp: copied_def frame_def)
  note s3 = step [OF d2, of 16 2, folded m3_def]
  have "copied m m2 op (op - off) (op + 16) hi"
    by (rule copied_trans [of m m1 op "op - off" "op + 8"]) (use s1 s2 off in \<open>auto simp: add.commute [of op]\<close>)
  then have "copied m m3 op (op - off) (op + 18) hi"
    by (rule copied_trans [of m m2 op "op - off" "op + 16"]) (use s3 off in \<open>auto simp: add.commute [of op]\<close>)
  moreover have "copy18 m op (op - off) = Some m3"
    using s1 s2 s3 by (simp add: copy18_def)
  ultimately show thesis by (intro that)
qed

text \<open>The fast path for a match of at most eighteen bytes that lies within the prefix.\<close>

lemma copy18_ok:
  assumes ok: "dec_ok E lo m" and op: "d_dst E \<le> op" "op + 18 \<le> d_oend E"
    and off: "8 \<le> off" "off < 65536" and dict: "d_dict E = withPrefix64k \<or> op - off \<ge> d_lowPrefix E"
    and len: "0 \<le> len" "len \<le> 18"
  obtains m' where "copy18 m op (op - off) = Some m'" "match_ok E lo m ip op off len (Next m' ip (op + len))"
    "frame m m' op (d_oend E)"
proof -
  have pre: "lo + d_dictSize E \<le> op - off" "d_dict E \<noteq> usingExtDict \<or> d_lowPrefix E \<le> op - off"
    using ok op off dict by (auto simp: dec_ok_def split: if_splits)
  have "valid m (op - off) (d_oend E - (op - off))" using dec_okD(9)[OF ok] by (rule valid_sub) (use pre in auto)
  then obtain m' where m': "copy18 m op (op - off) = Some m'" "copied m m' op (op - off) (op + 18) (d_oend E)"
    using off(1) op(2) by (rule copy18_copied)
  have "lz_match m' op (op + 18 - op) off" by (rule lz_match_copied [OF m'(2)]) (use off in simp)
  then have "lz_match m' op len off" by (rule lz_match_mono) (use len in simp)
  then have "lz_match (vm E m') op len off" by (rule lz_match_vm) (use pre off in auto)
  then have "matched E lo m m' op (op + len) off len"
    using copiedD(1)[OF m'(2)] pre dec_okD(5)[OF ok] op len by (auto simp: matched_def)
  then show thesis using m' by (intro that) (auto simp: match_ok_def copied_def)
qed

section \<open>The shortcut\<close>

text \<open>At most sixteen literals, copied as a stripe of sixteen bytes.\<close>

lemma literal16:
  assumes ok: "dec_ok E lo m" and ip: "d_src E \<le> ip" "ip + 16 \<le> d_iend E"
    and op: "d_dst E \<le> op" "op + 16 \<le> d_oend E" and n: "0 \<le> n" "n \<le> 16"
  obtains m' where "LZ4_memcpy m op ip 16 = Some m'" "frame m m' op (d_oend E)"
    "hist E lo m' (op + n) = hist E lo m op @ bytes m ip n" "dec_ok E lo m'"
proof -
  have v: "valid m op 16" "valid m ip 16"
    by (rule valid_sub [OF dec_okD(10)[OF ok]]; use op in simp) (rule valid_sub [OF dec_okD(8)[OF ok]]; use ip in simp)
  let ?m = "blit m op ip 16"
  have c: "LZ4_memcpy m op ip 16 = Some ?m"
    using v dec_okD(6)[OF ok] ip op by (intro memcpy_Some) auto
  have fr: "frame m ?m op (d_oend E)" using frame_blit [OF v] by (rule frame_widen) (use op in auto)
  have ok': "dec_ok E lo ?m" using ok fr by (rule dec_ok_frame)
  have "bytes ?m op n = bytes m ip n"
    by (rule nth_equalityI) (use n in \<open>auto simp: blit_def algebra_simps\<close>)
  then have "hist E lo ?m (op + n) = hist E lo m op @ bytes m ip n"
    using hist_append [OF ok' op(1) n(1)] hist_frame [OF ok fr op(1)] by simp
  then show thesis using that c fr ok' by blast
qed

lemma shortcut_ok:
  fixes token :: int
  assumes ok: "dec_ok E lo m" and ip: "d_src E < ip" "ip < d_iend E - 16" and op: "d_dst E \<le> op" "op \<le> d_oend E - 32"
    and len: "0 \<le> len" "len < 15" and h: "hist E lo m op = h"
  obtains r where "shortcut E m ip op token len = Some r"
    "outcome_ok E lo m op h (parse_literals (nat len) (nat (token mod 16)) (bytes m ip (d_iend E - ip))) r"
proof -
  obtain m' where m': "LZ4_memcpy m op ip 16 = Some m'" "frame m m' op (d_oend E)"
      "hist E lo m' (op + len) = hist E lo m op @ bytes m ip len" "dec_ok E lo m'"
    by (rule literal16 [OF ok _ _ op(1), of ip len]) (use ip op len in auto)
  let ?lits = "bytes m ip len" and ?ip = "ip + len" and ?op = "op + len"
  have hl: "hist E lo m' ?op = h @ ?lits" using m'(3) h by simp
  have "valid m' ?ip 2" using dec_okD(8)[OF m'(4)] by (rule valid_sub) (use ip len in auto)
  then obtain off where off: "LZ4_readLE16 m' ?ip = Some off" "0 \<le> off" "off < 65536"
      "nat off = unat (the (m' ?ip)) + 256 * unat (the (m' (?ip + 1)))"
    by (rule readLE16_spec)
  define mt where "mt = token mod 16"
  have mt: "0 \<le> mt" "mt < 16" by (auto simp: mt_def)
  let ?pr = "map_option (\<lambda>(k, r). Seq ?lits (nat off) (k + 4) r)
       (get_length (nat mt) (bytes m' (?ip + 2) (d_iend E - (?ip + 2))))"
  have "bytes m ?ip (d_iend E - ?ip) = the (m' ?ip) # the (m' (?ip + 1)) # bytes m' (?ip + 2) (d_iend E - (?ip + 2))"
    by (rule trans [OF src_bytes_frame [OF ok m'(2) op(1), of ?ip, symmetric] bytes_two]) (use ip len in auto)
  then have "parse_literals (nat len) (nat mt) (bytes m ip (d_iend E - ip)) = ?pr"
    using parse_literals_bytes [OF len(1), of ip "d_iend E"] ip len off(4) by (simp add: parse_match_def)
  then have lift: "outcome_ok E lo m op h (parse_literals (nat len) (nat mt) (bytes m ip (d_iend E - ip))) r"
    if "outcome_ok E lo m' ?op h ?pr r" for r
    using outcome_mono [OF that ok m'(2) op(1)] len by simp
  have unfold: "shortcut E m ip op token len =
     (if mt \<noteq> ML_MASK \<and> off \<ge> 8 \<and> (d_dict E = withPrefix64k \<or> ?op - off \<ge> d_lowPrefix E)
      then do { w \<leftarrow> copy18 m' ?op (?op - off); Some (Next w (?ip + 2) (?op + mt + MINMATCH)) }
      else copy_match_label E m' (?ip + 2) ?op (?op - off) off mt)"
    using m'(1) off(1) by (auto simp: shortcut_def mt_def Let_def)
  show thesis
  proof (cases "mt \<noteq> ML_MASK \<and> off \<ge> 8 \<and> (d_dict E = withPrefix64k \<or> ?op - off \<ge> d_lowPrefix E)")
    case True
    obtain w where w: "copy18 m' ?op (?op - off) = Some w"
        "match_ok E lo m' (?ip + 2) ?op off (mt + 4) (Next w (?ip + 2) (?op + (mt + 4)))"
      by (rule copy18_ok [OF m'(4), of ?op off "mt + 4" "?ip + 2"]) (use op len off(3) mt True in auto)
    have gl: "get_length (nat mt) bs = Some (nat mt, bs)" for bs using True mt by (simp add: get_length_def nat_eq_iff)
    have "outcome_ok E lo m' ?op h (Some (Seq ?lits (nat off) (nat (mt + 4)) (bytes m' (?ip + 2) (d_iend E - (?ip + 2)))))
        (Next w (?ip + 2) (?op + (mt + 4)))"
      by (rule match_outcome [OF m'(4) _ _ _ _ hl off(2) _ w(2)]) (use ip op len mt in auto)
    then have "outcome_ok E lo m' ?op h ?pr (Next w (?ip + 2) (?op + (mt + 4)))"
      using mt by (simp add: gl nat_add_distrib)
    then show thesis using lift that unfold True w(1) unfolding mt_def [symmetric] by (simp add: add.assoc)
  next
    case False
    obtain r where r: "copy_match_label E m' (?ip + 2) ?op (?op - off) off mt = Some r" "outcome_ok E lo m' ?op h ?pr r"
      by (rule copy_match_label_ok [OF m'(4) _ _ _ _ _ off(2,3) mt hl, of "?ip + 2"]) (use ip op len in auto)
    show thesis
    proof (rule that)
      show "shortcut E m ip op token len = Some r" unfolding unfold if_not_P [OF False] by (rule r(1))
      show "outcome_ok E lo m op h (parse_literals (nat len) (nat (token mod 16)) (bytes m ip (d_iend E - ip))) r"
        using lift [OF r(2)] unfolding mt_def .
    qed
  qed
qed

section \<open>The body of the safe loop\<close>

text \<open>Reading the token and a long literal length, which both loops do in the same way.\<close>

lemma token_step:
  assumes "m ip = Some t" "ip < iend"
  shows "bytes m ip (iend - ip) = t # bytes m (ip + 1) (iend - (ip + 1))"
  using bytes_Cons [of "iend - ip" m ip] assms by (simp add: algebra_simps)

lemma token_fields_uint:
  "nat (uint (t :: byte) div 16) = unat t div 16" "nat (uint t mod 16) = unat t mod 16"
  "0 \<le> uint t div 16" "uint t div 16 < 16"
proof -
  show "nat (uint t div 16) = unat t div 16" "nat (uint t mod 16) = unat t mod 16"
    by (simp_all add: nat_div_distrib nat_mod_distrib)
  have "uint t < 256" "0 \<le> uint t" by simp_all
  then show "0 \<le> uint t div 16" "uint t div 16 < 16" by linarith+
qed

lemma long_literals:
  assumes ok: "dec_ok E lo m" and ip: "d_src E \<le> ip" "ip < d_iend E" and t: "m ip = Some t" "uint t div 16 = 15"
    and op: "0 \<le> op" "op < 2 ^ 63"
  obtains a ip' where "read_variable_length m (ip + 1) (d_iend E - 15) True = Some (a, ip')"
    "a = rvl_error \<Longrightarrow> d_src E \<le> ip' \<and> parse_sequence (bytes m ip (d_iend E - ip)) = None"
    "a \<noteq> rvl_error \<Longrightarrow> 0 \<le> a \<and> u64 (15 + a) = 15 + a \<and> \<not> u64 (op + (15 + a)) < u64 op \<and> \<not> u64 (ip' + (15 + a)) < u64 ip'
       \<and> d_src E < ip' \<and> ip' \<le> d_iend E - 15
       \<and> parse_sequence (bytes m ip (d_iend E - ip))
         = parse_literals (nat (15 + a)) (nat (uint t mod 16)) (bytes m ip' (d_iend E - ip'))"
proof -
  have "valid m (ip + 1) (d_iend E - (ip + 1))" using dec_okD(8)[OF ok] by (rule valid_sub) (use ip in auto)
  then obtain a ip' where a: "read_variable_length m (ip + 1) (d_iend E - 15) True = Some (a, ip')"
      "rvl_ok m (ip + 1) (d_iend E) (d_iend E - 15) 0 a ip'"
    by (rule read_variable_length_spec [of m "ip + 1" "d_iend E" True "d_iend E - 15"])
       (use dec_okD(15)[OF ok] ip in auto)
  have t15: "unat t div 16 = 15" using t(2) token_fields_uint(1)[of t] by simp
  have parse: "parse_sequence (bytes m ip (d_iend E - ip)) =
      (case spec_length (bytes m (ip + 1) (d_iend E - (ip + 1))) of None \<Rightarrow> None
       | Some (k, bs) \<Rightarrow> parse_literals (15 + k) (unat t mod 16) bs)"
    using token_step [of m ip t, OF t(1) ip(2)] t15 by (auto simp: get_length_def split: option.splits)
  show thesis
  proof (rule that [OF a(1)])
    assume e: "a = rvl_error"
    show "d_src E \<le> ip' \<and> parse_sequence (bytes m ip (d_iend E - ip)) = None"
      using a(2) e parse ip by (auto simp: rvl_ok_def parse_literals_def split: option.splits)
  next
    assume ne: "a \<noteq> rvl_error"
    have A: "ip + 1 < ip'" "ip' \<le> d_iend E - 15" "0 \<le> a" "a \<le> 255 * (ip' - (ip + 1))"
        "spec_length (bytes m (ip + 1) (d_iend E - (ip + 1))) = Some (nat a, bytes m ip' (d_iend E - ip'))"
      using a(2) ne by (auto simp: rvl_ok_def)
    have lt: "15 + a < 2 ^ 50" using A dec_okD(15)[OF ok] ip by simp
    then have "u64 (15 + a) = 15 + a" using A(3) by simp
    moreover have "\<not> u64 (op + (15 + a)) < u64 op" using op lt A(3) by (intro no_wrap) auto
    moreover have "\<not> u64 (ip' + (15 + a)) < u64 ip'"
      using A lt dec_okD(11,13)[OF ok] ip by (intro no_wrap) auto
    moreover have "parse_sequence (bytes m ip (d_iend E - ip))
         = parse_literals (nat (15 + a)) (nat (uint t mod 16)) (bytes m ip' (d_iend E - ip'))"
      using parse A(3,5) token_fields_uint(2)[of t] by (simp add: nat_add_distrib)
    ultimately show "0 \<le> a \<and> u64 (15 + a) = 15 + a \<and> \<not> u64 (op + (15 + a)) < u64 op \<and> \<not> u64 (ip' + (15 + a)) < u64 ip'
       \<and> d_src E < ip' \<and> ip' \<le> d_iend E - 15
       \<and> parse_sequence (bytes m ip (d_iend E - ip))
         = parse_literals (nat (15 + a)) (nat (uint t mod 16)) (bytes m ip' (d_iend E - ip'))"
      using A ip by simp
  qed
qed

lemma short_literals:
  assumes "m ip = Some t" "ip < iend" "uint t div 16 \<noteq> 15"
  shows "parse_sequence (bytes m ip (iend - ip))
       = parse_literals (nat (uint t div 16)) (nat (uint t mod 16)) (bytes m (ip + 1) (iend - (ip + 1)))"
proof -
  have "unat t div 16 \<noteq> 15"
  proof
    assume "unat t div 16 = 15"
    then have "nat (uint t div 16) = 15" by (simp add: token_fields_uint)
    then show False using assms(3) by simp
  qed
  then show ?thesis
    using token_step [of m ip t, OF assms(1,2)] by (simp add: get_length_def token_fields_uint(1,2))
qed

lemma safe_iter_ok:
  assumes ok: "dec_ok E lo m" and ip: "d_src E \<le> ip" "ip < d_iend E" and op: "d_dst E \<le> op" "op \<le> d_oend E"
    and h: "hist E lo m op = h"
  obtains r where "safe_iter E m ip op = Some r" "outcome_ok E lo m op h (parse_sequence (bytes m ip (d_iend E - ip))) r"
proof -
  obtain t where t: "m ip = Some t" using valid_at [OF dec_okD(8)[OF ok], of ip] ip by auto
  define len where "len = uint t div 16"
  have len: "0 \<le> len" "len < 16" using token_fields_uint [of t] by (auto simp: len_def)
  show thesis
  proof (cases "len = 15")
    case True
    obtain a ip' where a: "read_variable_length m (ip + 1) (d_iend E - 15) True = Some (a, ip')"
      "a = rvl_error \<Longrightarrow> d_src E \<le> ip' \<and> parse_sequence (bytes m ip (d_iend E - ip)) = None"
      "a \<noteq> rvl_error \<Longrightarrow> 0 \<le> a \<and> u64 (15 + a) = 15 + a \<and> \<not> u64 (op + (15 + a)) < u64 op \<and> \<not> u64 (ip' + (15 + a)) < u64 ip'
         \<and> d_src E < ip' \<and> ip' \<le> d_iend E - 15
         \<and> parse_sequence (bytes m ip (d_iend E - ip))
           = parse_literals (nat (15 + a)) (nat (uint t mod 16)) (bytes m ip' (d_iend E - ip'))"
      by (rule long_literals [of E lo m ip t op, OF ok ip t]) (use True op dec_okD(12,14)[OF ok] in \<open>auto simp: len_def\<close>)
    show thesis
    proof (cases "a = rvl_error")
      case err: True
      then have "safe_iter E m ip op = Some (OutputError m ip')"
        using t a(1) True by (simp add: safe_iter_def len_def Let_def)
      then show thesis using that a(2)[OF err] by (auto simp: outcome_ok_def)
    next
      case False
      note A = a(3)[OF False]
      obtain r where "safe_literal_copy E m ip' op (uint t) (15 + a) = Some r"
          "outcome_ok E lo m op h (parse_literals (nat (15 + a)) (nat (uint t mod 16)) (bytes m ip' (d_iend E - ip'))) r"
        by (rule safe_literal_copy_ok [OF ok _ _ op _ h, of ip' "15 + a" "uint t"]) (use A in auto)
      moreover from this(1) have "safe_iter E m ip op = Some r"
        using t a(1) True False A by (simp add: safe_iter_def len_def Let_def)
      ultimately show thesis using that A by simp
    qed
  next
    case False
    note parse = short_literals [of m ip t, OF t ip(2) False [unfolded len_def], folded len_def]
    show thesis
    proof (cases "ip + 1 < d_iend E - 14 - 2 \<and> op \<le> d_oend E - 14 - 18")
      case True
      obtain r where "shortcut E m (ip + 1) op (uint t) len = Some r"
          "outcome_ok E lo m op h (parse_literals (nat len) (nat (uint t mod 16)) (bytes m (ip + 1) (d_iend E - (ip + 1)))) r"
        by (rule shortcut_ok [OF ok _ _ op(1) _ len(1) _ h, of "ip + 1" "uint t"]) (use True ip len False in auto)
      moreover from this(1) have "safe_iter E m ip op = Some r"
        using t True False by (simp add: safe_iter_def len_def Let_def)
      ultimately show thesis using that parse by simp
    next
      case nofit: False
      obtain r where "safe_literal_copy E m (ip + 1) op (uint t) len = Some r"
          "outcome_ok E lo m op h (parse_literals (nat len) (nat (uint t mod 16)) (bytes m (ip + 1) (d_iend E - (ip + 1)))) r"
        by (rule safe_literal_copy_ok [OF ok _ _ op len(1) h, of "ip + 1" "uint t"]) (use ip in auto)
      moreover from this(1) have "safe_iter E m ip op = Some r"
        using t nofit False by (auto simp: safe_iter_def len_def Let_def)
      ultimately show thesis using that parse by simp
    qed
  qed
qed

end
