(* ===== verification/LZ4_DecLoop.thy ===== *)
theory LZ4_DecLoop
  imports LZ4_DecIter
begin

text \<open>
  The fast loop of \<open>LZ4_decompress_generic\<close> and both loops as a whole: they end on every input,
  stay within the buffers, and compute what the reference decoder of \<open>LZ4_Format\<close> computes.
\<close>

section \<open>The body of the fast loop\<close>

fun slow :: "fast_out \<Rightarrow> dec_out" where
  "slow (FastNext m ip op) = Next m ip op"
| "slow (ToSafe r) = r"

fun in_range :: "dec_env \<Rightarrow> fast_out \<Rightarrow> bool" where
  "in_range E (FastNext m ip op) = (op \<le> d_oend E - 64)"
| "in_range E (ToSafe r) = True"

lemma fast_match_copy_ok:
  assumes ok: "dec_ok E lo m" and op: "d_dst E \<le> op" "op + len < d_oend E - 64"
    and off: "0 \<le> off" "off < 65536" and len: "4 \<le> len"
  obtains r where "fast_match_copy E m ip op (op - off) off len = Some r"
    "match_ok E lo m ip op off len (slow r)" "in_range E r"
proof (cases "d_checkOffset E \<and> op - off + d_dictSize E < d_lowPrefix E")
  case True
  then show thesis using offset_check_fails [OF ok op(1) off]
    by (intro that [of "ToSafe (OutputError m ip)"]) (auto simp: fast_match_copy_def match_ok_def)
next
  case chk: False
  note in_hist = offset_in_hist [OF ok op(1) off chk]
  show thesis
  proof (cases "d_dict E = usingExtDict \<and> op - off < d_lowPrefix E")
    case True
    obtain r where r: "extdict_match E m ip op (op - off) len = Some r" "match_ok E lo m ip op off len r"
        "\<nexists>m' op'. r = Break m' op'"
      by (rule extdict_match_ok [OF ok _ op(1) _ _ in_hist, of len ip]) (use True op len in auto)
    have e: "fast_match_copy E m ip op (op - off) off len
        = Some (case r of Next m ip op \<Rightarrow> FastNext m ip op | _ \<Rightarrow> ToSafe r)"
      using r(1) True chk by (auto simp: fast_match_copy_def)
    show thesis
      by (rule that [OF e]) (use r(2,3) op in \<open>auto simp: match_ok_def matched_def split: dec_out.splits\<close>)
  next
    case nd: False
    note pre = match_in_prefix [OF ok op(1) off in_hist nd]
    have vp: "valid m (op - off) (d_oend E - (op - off))"
      using dec_okD(9)[OF ok] by (rule valid_sub) (use pre in auto)
    obtain m' where m': "(if off < 16 then LZ4_memcpy_using_offset m op (op - off) (op + len) off
        else LZ4_wildCopy32 m op (op - off) (op + len)) = Some m'" "frame m m' op (d_oend E)" "lz_match m' op len off"
    proof (cases "off < 16")
      case True
      obtain m' where "LZ4_memcpy_using_offset m op (op - off) (op + len) off = Some m'" "frame m m' op (d_oend E)"
          "lz_match m' op (op + len - op) off"
        by (rule memcpy_using_offset_spec [OF vp, of "op + len"]) (use off op len in auto)
      then show thesis using that True by simp
    next
      case False
      obtain m' where "LZ4_wildCopy32 m op (op - off) (op + len) = Some m'" "copied m m' op (op - off) (op + len) (d_oend E)"
        by (rule wild32.copy_overlap [OF vp, of "op - off" op "op + len"]) (use off op len False in auto)
      then show thesis using that False copiedD(1) lz_match_copied [of m m' op off "op + len" "d_oend E"] by simp
    qed
    have "lz_match (vm E m') op len off" using m'(3) pre(2) off(1) by (rule lz_match_vm)
    then have "matched E lo m m' op (op + len) off len" using m'(2) in_hist op len by (auto simp: matched_def)
    moreover have "fast_match_copy E m ip op (op - off) off len = Some (FastNext m' ip (op + len))"
      using m'(1) chk nd by (auto simp: fast_match_copy_def)
    ultimately show thesis using op by (intro that) (auto simp: match_ok_def)
  qed
qed

text \<open>The match stage once its length is known.\<close>

definition fast_match_tail :: "dec_env \<Rightarrow> mem \<Rightarrow> addr \<Rightarrow> addr \<Rightarrow> int \<Rightarrow> int \<Rightarrow> bool \<Rightarrow> fast_out option" where
  "fast_match_tail E m ip op offset len try18 =
     (if op + len \<ge> d_oend E - FASTLOOP_SAFE_DISTANCE
      then map_option ToSafe (safe_match_copy E m ip op (op - offset) offset len)
      else if try18 \<and> (d_dict E = withPrefix64k \<or> op - offset \<ge> d_lowPrefix E) \<and> offset \<ge> 8 then do {
         m \<leftarrow> copy18 m op (op - offset);
         Some (FastNext m ip (op + len)) }
      else fast_match_copy E m ip op (op - offset) offset len)"

lemma fast_match_tail_ok:
  assumes ok: "dec_ok E lo m" and op: "d_dst E \<le> op" "op \<le> d_oend E - 12"
    and off: "0 \<le> off" "off < 65536" and len: "4 \<le> len" "try18 \<longrightarrow> len \<le> 18"
  obtains r where "fast_match_tail E m ip op off len try18 = Some r"
    "match_ok E lo m ip op off len (slow r)" "in_range E r"
proof -
  consider (near) "op + len \<ge> d_oend E - 64"
    | (small) "op + len < d_oend E - 64" "try18 \<and> (d_dict E = withPrefix64k \<or> op - off \<ge> d_lowPrefix E) \<and> off \<ge> 8"
    | (gen) "op + len < d_oend E - 64" "\<not> (try18 \<and> (d_dict E = withPrefix64k \<or> op - off \<ge> d_lowPrefix E) \<and> off \<ge> 8)"
    by linarith
  then show thesis
  proof cases
    case near
    obtain r where r: "safe_match_copy E m ip op (op - off) off len = Some r" "match_ok E lo m ip op off len r"
      by (rule safe_match_copy_ok [OF ok op(1) _ _ off len(1), of ip]) (use op in auto)
    then show thesis using that [of "ToSafe r"] near by (simp add: fast_match_tail_def)
  next
    case small
    obtain m' where m': "copy18 m op (op - off) = Some m'" "match_ok E lo m ip op off len (Next m' ip (op + len))"
      by (rule copy18_ok [OF ok op(1), of off len ip]) (use small len off in auto)
    have "fast_match_tail E m ip op off len try18 = Some (FastNext m' ip (op + len))"
      using m'(1) small by (simp add: fast_match_tail_def)
    then show thesis using that m'(2) small by simp
  next
    case gen
    obtain r where r: "fast_match_copy E m ip op (op - off) off len = Some r"
        "match_ok E lo m ip op off len (slow r)" "in_range E r"
      by (rule fast_match_copy_ok [OF ok op(1) gen(1) off len(1), of ip])
    have "fast_match_tail E m ip op off len try18 = Some r"
      using gen r(1) unfolding fast_match_tail_def by auto
    then show thesis using that r by blast
  qed
qed

lemma fast_match_unfold:
  assumes "LZ4_readLE16 m ip = Some off" "token mod 16 = mt" "read_variable_length m (ip + 2) (d_iend E - 4) False = Some (a, ip')"
  shows "fast_match E m ip op token =
    (if mt = 15 then
       if a = rvl_error then Some (ToSafe (OutputError m ip'))
       else if u64 (op + u64 (u64 (mt + a) + 4)) < u64 op then Some (ToSafe (OutputError m ip'))
       else fast_match_tail E m ip' op off (u64 (u64 (mt + a) + 4)) False
     else fast_match_tail E m (ip + 2) op off (mt + 4) True)"
proof -
  have lim: "d_iend E - LASTLITERALS + 1 = d_iend E - 4" by simp
  show ?thesis
    unfolding fast_match_def fast_match_tail_def assms(1,2) lim bind.bind_lunit Let_def assms(3) prod.case
    by (auto simp: conj_commute)
qed

lemma fast_match_ok:
  assumes ok: "dec_ok E lo m" and ip: "d_src E < ip" "ip + 2 < d_iend E"
    and op: "d_dst E \<le> op" "op \<le> d_oend E - 12" and hl: "hist E lo m op = h @ lits"
  obtains r where "fast_match E m ip op token = Some r"
    "outcome_ok E lo m op h (parse_match lits (nat (token mod 16)) (bytes m ip (d_iend E - ip))) (slow r)" "in_range E r"
proof -
  have "valid m ip 2" using dec_okD(8)[OF ok] by (rule valid_sub) (use ip in auto)
  then obtain off where off: "LZ4_readLE16 m ip = Some off" "0 \<le> off" "off < 65536"
      "nat off = unat (the (m ip)) + 256 * unat (the (m (ip + 1)))"
    by (rule readLE16_spec)
  define mt where "mt = token mod 16"
  have mt: "0 \<le> mt" "mt < 16" by (auto simp: mt_def)
  let ?bs = "bytes m (ip + 2) (d_iend E - (ip + 2))"
  have parse: "parse_match lits (nat mt) (bytes m ip (d_iend E - ip))
      = map_option (\<lambda>(k, r). Seq lits (nat off) (k + 4) r) (get_length (nat mt) ?bs)"
    using bytes_two [of ip "d_iend E" m] ip off(4) by (simp add: parse_match_def)
  have "valid m (ip + 2) (d_iend E - (ip + 2))" using dec_okD(8)[OF ok] by (rule valid_sub) (use ip in auto)
  then obtain a ip' where a: "read_variable_length m (ip + 2) (d_iend E - 4) False = Some (a, ip')"
      "rvl_ok m (ip + 2) (d_iend E) (d_iend E - 4) 0 a ip'"
    by (rule read_variable_length_spec [of m "ip + 2" "d_iend E" False "d_iend E - 4"])
       (use dec_okD(15)[OF ok] ip in auto)
  note unfold = fast_match_unfold [OF off(1) mt_def [symmetric] a(1), of op]
  consider (short) "mt \<noteq> 15" | (err) "mt = 15" "a = rvl_error" | (long) "mt = 15" "a \<noteq> rvl_error" by blast
  then show thesis
  proof cases
    case short
    obtain r where r: "fast_match_tail E m (ip + 2) op off (mt + 4) True = Some r"
        "match_ok E lo m (ip + 2) op off (mt + 4) (slow r)" "in_range E r"
      by (rule fast_match_tail_ok [OF ok op off(2,3), of "mt + 4" True "ip + 2"]) (use mt short in auto)
    have "outcome_ok E lo m op h (Some (Seq lits (nat off) (nat (mt + 4)) ?bs)) (slow r)"
      by (rule match_outcome [OF ok _ _ op(1) _ hl off(2) _ r(2)]) (use ip op mt in auto)
    moreover have "get_length (nat mt) ?bs = Some (nat mt, ?bs)" using short mt by (simp add: get_length_def nat_eq_iff)
    ultimately show thesis using that [of r] r(1,3) unfold short mt parse
      by (simp add: nat_add_distrib flip: mt_def)
  next
    case err
    then show thesis
      using that [of "ToSafe (OutputError m ip')"] unfold parse
        rvl_error_match [of m "ip + 2" E ip' lo op h lits "nat off"] a(2) ip by (simp flip: mt_def)
  next
    case long
    have A: "ip + 2 < ip'" "ip' \<le> d_iend E - 4" "0 \<le> a" "a \<le> 255 * (ip' - (ip + 2))"
        "spec_length ?bs = Some (nat a, bytes m ip' (d_iend E - ip'))"
      using a(2) long by (auto simp: rvl_ok_def)
    have lt: "15 + a < 2 ^ 50" using A dec_okD(15)[OF ok] ip by simp
    then have w: "u64 (u64 (mt + a) + 4) = 15 + a + 4" "\<not> u64 (op + (15 + a + 4)) < u64 op"
      using A(3) long op dec_okD(12,14)[OF ok] by simp_all
    obtain r where r: "fast_match_tail E m ip' op off (15 + a + 4) False = Some r"
        "match_ok E lo m ip' op off (15 + a + 4) (slow r)" "in_range E r"
      by (rule fast_match_tail_ok [OF ok op off(2,3), of "15 + a + 4" False ip']) (use A in auto)
    have "outcome_ok E lo m op h (Some (Seq lits (nat off) (nat (15 + a + 4)) (bytes m ip' (d_iend E - ip')))) (slow r)"
      by (rule match_outcome [OF ok _ _ op(1) _ hl off(2) _ r(2)]) (use ip op A in auto)
    moreover have "parse_match lits (nat mt) (bytes m ip (d_iend E - ip))
        = Some (Seq lits (nat off) (nat (15 + a + 4)) (bytes m ip' (d_iend E - ip')))"
      using A(3,5) long parse by (simp add: get_length_def nat_add_distrib)
    ultimately show thesis using that [of r] r(1,3) unfold long w by (simp flip: mt_def)
  qed
qed

text \<open>The literal stage of the fast loop, followed by the match stage.\<close>

lemma fast_literals_ok:
  assumes ok: "dec_ok E lo m" and ip: "d_src E < ip" "ip + len + 2 < d_iend E"
    and op: "d_dst E \<le> op" "op + len \<le> d_oend E - 12" and len: "0 \<le> len" and h: "hist E lo m op = h"
    and m1: "frame m m1 op (d_oend E)" "hist E lo m1 (op + len) = h @ bytes m ip len" "dec_ok E lo m1"
  obtains r where "fast_match E m1 (ip + len) (op + len) token = Some r"
    "outcome_ok E lo m op h (parse_literals (nat len) (nat (token mod 16)) (bytes m ip (d_iend E - ip))) (slow r)" "in_range E r"
proof -
  obtain r where r: "fast_match E m1 (ip + len) (op + len) token = Some r"
    "outcome_ok E lo m1 (op + len) h
       (parse_match (bytes m ip len) (nat (token mod 16)) (bytes m1 (ip + len) (d_iend E - (ip + len)))) (slow r)" "in_range E r"
    by (rule fast_match_ok [OF m1(3) _ _ _ _ m1(2), of "ip + len" token]) (use ip op len in auto)
  have "parse_literals (nat len) (nat (token mod 16)) (bytes m ip (d_iend E - ip))
      = parse_match (bytes m ip len) (nat (token mod 16)) (bytes m1 (ip + len) (d_iend E - (ip + len)))"
    using parse_literals_bytes [OF len, of ip "d_iend E"] src_bytes_frame [OF ok m1(1) op(1), of "ip + len"] ip len by simp
  then show thesis
    using that r(1,3) outcome_mono [OF r(2) ok m1(1) op(1)] len by simp
qed

lemma literal_wild32:
  assumes ok: "dec_ok E lo m" and ip: "d_src E \<le> ip" "ip + len \<le> d_iend E - 32"
    and op: "d_dst E \<le> op" "op + len \<le> d_oend E - 32" and len: "0 < len"
  obtains m' where "LZ4_wildCopy32 m op ip (op + len) = Some m'" "frame m m' op (d_oend E)"
    "hist E lo m' (op + len) = hist E lo m op @ bytes m ip len" "dec_ok E lo m'"
proof -
  have v: "valid m op (op + len + 31 - op)" "valid m ip (op + len + 31 - op)"
    by (rule valid_sub [OF dec_okD(10)[OF ok]]; use op len in simp)
       (rule valid_sub [OF dec_okD(8)[OF ok]]; use ip len in simp)
  obtain m' where m': "LZ4_wildCopy32 m op ip (op + len) = Some m'" "frame m m' op (op + len + 31)"
      "bytes m' op (op + len - op) = bytes m ip (op + len - op)"
    by (rule wild32.copy_disjoint [OF v, of "op + len"]) (use dec_okD(6)[OF ok] ip op len in auto)
  have fr: "frame m m' op (d_oend E)" using m'(2) by (rule frame_widen) (use op in auto)
  have ok': "dec_ok E lo m'" using ok fr by (rule dec_ok_frame)
  have "hist E lo m' (op + len) = hist E lo m op @ bytes m ip len"
    using hist_append [OF ok' op(1), of len] hist_frame [OF ok fr op(1)] m'(3) len by simp
  then show thesis using that m'(1) fr ok' by blast
qed

lemma fast_iter_ok:
  assumes ok: "dec_ok E lo m" and ip: "d_src E \<le> ip" "ip < d_iend E" and op: "d_dst E \<le> op" "op \<le> d_oend E - 64"
    and h: "hist E lo m op = h"
  obtains r where "fast_iter E m ip op = Some r"
    "outcome_ok E lo m op h (parse_sequence (bytes m ip (d_iend E - ip))) (slow r)" "in_range E r"
proof -
  obtain t where t: "m ip = Some t" using valid_at [OF dec_okD(8)[OF ok], of ip] ip by auto
  define len where "len = uint t div 16"
  have len: "0 \<le> len" "len < 16" using token_fields_uint [of t] by (auto simp: len_def)
  have op': "op \<le> d_oend E" using op by simp
  show thesis
  proof (cases "len = 15")
    case True
    obtain a ip' where a: "read_variable_length m (ip + 1) (d_iend E - 15) True = Some (a, ip')"
      "a = rvl_error \<Longrightarrow> d_src E \<le> ip' \<and> parse_sequence (bytes m ip (d_iend E - ip)) = None"
      "a \<noteq> rvl_error \<Longrightarrow> 0 \<le> a \<and> u64 (15 + a) = 15 + a \<and> \<not> u64 (op + (15 + a)) < u64 op \<and> \<not> u64 (ip' + (15 + a)) < u64 ip'
         \<and> d_src E < ip' \<and> ip' \<le> d_iend E - 15
         \<and> parse_sequence (bytes m ip (d_iend E - ip))
           = parse_literals (nat (15 + a)) (nat (uint t mod 16)) (bytes m ip' (d_iend E - ip'))"
      by (rule long_literals [of E lo m ip t op, OF ok ip t]) (use True op dec_okD(12,14)[OF ok] in \<open>auto simp: len_def\<close>)
    have unfold: "fast_iter E m ip op = (if a = rvl_error then Some (ToSafe (OutputError m ip'))
       else if op + (15 + a) > d_oend E - 32 \<or> ip' + (15 + a) > d_iend E - 32
         then map_option ToSafe (safe_literal_copy E m ip' op (uint t) (15 + a))
       else do { w \<leftarrow> LZ4_wildCopy32 m op ip' (op + (15 + a)); fast_match E w (ip' + (15 + a)) (op + (15 + a)) (uint t) })"
      using t a(1,3) True by (auto simp: fast_iter_def len_def Let_def)
    consider (err) "a = rvl_error"
      | (slow) "a \<noteq> rvl_error" "op + (15 + a) > d_oend E - 32 \<or> ip' + (15 + a) > d_iend E - 32"
      | (fast) "a \<noteq> rvl_error" "\<not> (op + (15 + a) > d_oend E - 32 \<or> ip' + (15 + a) > d_iend E - 32)" by blast
    then show thesis
    proof cases
      case err
      then show thesis using that [of "ToSafe (OutputError m ip')"] a(2) unfold by (auto simp: outcome_ok_def)
    next
      case slow
      note A = a(3)[OF slow(1)]
      obtain r where "safe_literal_copy E m ip' op (uint t) (15 + a) = Some r"
          "outcome_ok E lo m op h (parse_literals (nat (15 + a)) (nat (uint t mod 16)) (bytes m ip' (d_iend E - ip'))) r"
        by (rule safe_literal_copy_ok [OF ok _ _ op(1) op' _ h, of ip' "15 + a" "uint t"]) (use A in auto)
      then show thesis using that [of "ToSafe r"] A unfold slow by simp
    next
      case fast
      note A = a(3)[OF fast(1)]
      obtain w where w: "LZ4_wildCopy32 m op ip' (op + (15 + a)) = Some w" "frame m w op (d_oend E)"
          "hist E lo w (op + (15 + a)) = hist E lo m op @ bytes m ip' (15 + a)" "dec_ok E lo w"
        by (rule literal_wild32 [OF ok _ _ op(1), of ip' "15 + a"]) (use A fast in auto)
      obtain r where "fast_match E w (ip' + (15 + a)) (op + (15 + a)) (uint t) = Some r"
          "outcome_ok E lo m op h (parse_literals (nat (15 + a)) (nat (uint t mod 16)) (bytes m ip' (d_iend E - ip'))) (slow r)"
          "in_range E r"
        by (rule fast_literals_ok [OF ok _ _ op(1) _ _ h w(2) _ w(4), of ip' "15 + a" "uint t"]) (use A fast w(3) h in auto)
      then show thesis using that [of r] A unfold fast w(1) by simp
    qed
  next
    case False
    note parse = short_literals [of m ip t, OF t ip(2) False [unfolded len_def], folded len_def]
    have unfold: "fast_iter E m ip op = (if ip + 1 \<le> d_iend E - 17
       then do { w \<leftarrow> LZ4_memcpy m op (ip + 1) 16; fast_match E w (ip + 1 + len) (op + len) (uint t) }
       else map_option ToSafe (safe_literal_copy E m (ip + 1) op (uint t) len))"
      using t False by (simp add: fast_iter_def len_def Let_def)
    show thesis
    proof (cases "ip + 1 \<le> d_iend E - 17")
      case fits: True
      obtain w where w: "LZ4_memcpy m op (ip + 1) 16 = Some w" "frame m w op (d_oend E)"
          "hist E lo w (op + len) = hist E lo m op @ bytes m (ip + 1) len" "dec_ok E lo w"
        by (rule literal16 [OF ok _ _ op(1), of "ip + 1" len]) (use ip op len fits in auto)
      obtain r where "fast_match E w (ip + 1 + len) (op + len) (uint t) = Some r"
          "outcome_ok E lo m op h (parse_literals (nat len) (nat (uint t mod 16)) (bytes m (ip + 1) (d_iend E - (ip + 1)))) (slow r)"
          "in_range E r"
        by (rule fast_literals_ok [OF ok _ _ op(1) _ len(1) h w(2) _ w(4), of "ip + 1" "uint t"])
           (use ip op len fits False w(3) h in auto)
      then show thesis using that [of r] parse unfold fits w(1) by simp
    next
      case nofit: False
      obtain r where "safe_literal_copy E m (ip + 1) op (uint t) len = Some r"
          "outcome_ok E lo m op h (parse_literals (nat len) (nat (uint t mod 16)) (bytes m (ip + 1) (d_iend E - (ip + 1)))) r"
        by (rule safe_literal_copy_ok [OF ok _ _ op(1) op' len(1) h, of "ip + 1" "uint t"]) (use ip in auto)
      then show thesis using that [of "ToSafe r"] parse unfold nofit by simp
    qed
  qed
qed

section \<open>Blocks the decoder must accept\<close>

text \<open>In terms of the conditions of the format: a full decoding is limited by the output buffer.\<close>

definition limit :: "dec_env \<Rightarrow> addr \<Rightarrow> int option" where
  "limit E lo = (if partial E then None else Some (cap E lo))"

abbreviation block_good :: "dec_env \<Rightarrow> addr \<Rightarrow> byte list \<Rightarrow> byte list \<Rightarrow> bool" where
  "block_good E lo \<equiv> conforming (limit E lo)"

lemma block_good_unfold:
  "parse_sequence bs = None \<Longrightarrow> \<not> block_good E lo h bs"
  "parse_sequence bs = Some (Last lits) \<Longrightarrow> block_good E lo h bs \<longleftrightarrow> good E lo h (Last lits)"
  "parse_sequence bs = Some (Seq lits off ml rest) \<Longrightarrow> block_good E lo h bs \<longleftrightarrow>
     good E lo h (Seq lits off ml rest) \<and> block_good E lo (copy_match off ml (h @ lits)) rest"
  by (auto simp: conforming_unfold limit_def)

lemma block_good_parses:
  assumes g: "block_good E lo h bs" obtains p where "parse_sequence bs = Some p" "good E lo h p"
proof (cases "parse_sequence bs")
  case None
  then show thesis using block_good_unfold(1) g by blast
next
  case (Some p)
  then have "good E lo h p" using block_good_unfold(2,3)[of bs] g by (cases p) blast+
  then show thesis using that Some by blast
qed

section \<open>The loops\<close>

text \<open>\<open>H\<close> is the whole history a decoder without a capacity would have; the output buffer holds
  the part of it that fits.\<close>

definition tracks :: "dec_env \<Rightarrow> addr \<Rightarrow> mem \<Rightarrow> addr \<Rightarrow> byte list \<Rightarrow> bool" where
  "tracks E lo m op H \<longleftrightarrow> op - lo = min (int (length H)) (cap E lo) \<and> hist E lo m op = take (nat (op - lo)) H \<and>
     (\<not> partial E \<longrightarrow> int (length H) \<le> cap E lo)"

definition result_ok :: "dec_env \<Rightarrow> addr \<Rightarrow> mem \<Rightarrow> addr \<Rightarrow> byte list \<Rightarrow> byte list \<Rightarrow> int \<Rightarrow> mem \<Rightarrow> bool" where
  "result_ok E lo m op H bs r m' \<longleftrightarrow> frame m m' op (d_oend E) \<and>
     (if partial E then
        block_good E lo H bs \<and> nonzero_offsets bs \<longrightarrow>
          (\<exists>d. decode_block H bs = Some d \<and> d_dst E + r - lo = min (int (length d)) (cap E lo)
               \<and> hist E lo m' (d_dst E + r) = take (nat (cap E lo)) d)
      else if r < 0 then \<not> block_good E lo H bs
      else d_dst E + r \<le> d_oend E \<and> decode_block H bs = Some (hist E lo m' (d_dst E + r)))"

lemma tracks_hist:
  assumes "dec_ok E lo m" "d_dst E \<le> op" "op \<le> d_oend E"
  shows "tracks E lo m op (hist E lo m op)"
  using assms dec_okD(2)[OF assms(1)] by (simp add: tracks_def cap_def)

text \<open>Once a partial decoder has filled the output buffer, it stops in the next iteration.\<close>

lemma safe_iter_full:
  assumes ok: "dec_ok E lo m" and ip: "d_src E \<le> ip" "ip < d_iend E" and op: "op = d_oend E" and part: "partial E"
  obtains (stop) "safe_iter E m ip op = Some (Break m op)"
  | (err) ip' where "safe_iter E m ip op = Some (OutputError m ip')" "parse_sequence (bytes m ip (d_iend E - ip)) = None"
proof -
  have blit0: "blit m d s 0 = m" for d s by (rule ext) (auto simp: blit_def)
  have lit: "safe_literal_copy E m ip1 op token len = Some (Break m op)" if "0 \<le> len" "ip1 \<le> d_iend E" for ip1 token len
    using that part op by (auto simp: safe_literal_copy_def last_literals_def Let_def LZ4_memmove_def blit0)
  obtain t where t: "m ip = Some t" using valid_at [OF dec_okD(8)[OF ok], of ip] ip by auto
  show thesis
  proof (cases "uint t div 16 = 15")
    case True
    obtain a ip' where a: "read_variable_length m (ip + 1) (d_iend E - 15) True = Some (a, ip')"
      "a = rvl_error \<Longrightarrow> d_src E \<le> ip' \<and> parse_sequence (bytes m ip (d_iend E - ip)) = None"
      "a \<noteq> rvl_error \<Longrightarrow> 0 \<le> a \<and> u64 (15 + a) = 15 + a \<and> \<not> u64 (op + (15 + a)) < u64 op \<and> \<not> u64 (ip' + (15 + a)) < u64 ip'
         \<and> d_src E < ip' \<and> ip' \<le> d_iend E - 15
         \<and> parse_sequence (bytes m ip (d_iend E - ip))
           = parse_literals (nat (15 + a)) (nat (uint t mod 16)) (bytes m ip' (d_iend E - ip'))"
      by (rule long_literals [of E lo m ip t op, OF ok ip t True]) (use op dec_okD(3,12,14)[OF ok] in auto)
    then show thesis
      using t True stop err lit [of "15 + a" ip' "uint t"] by (cases "a = rvl_error") (auto simp: safe_iter_def Let_def)
  next
    case False
    then show thesis
      using t stop op lit [of "uint t div 16" "ip + 1" "uint t"] ip token_fields_uint(3)[of t] by (auto simp: safe_iter_def Let_def)
  qed
qed

lemma result_step:
  assumes ok: "dec_ok E lo m" and op: "d_dst E \<le> op"
    and h: "hist E lo m op = h" and out: "outcome_ok E lo m op h (parse_sequence (bytes m ip (d_iend E - ip))) (Next m1 ip1 op1)"
    and rec: "\<And>H. tracks E lo m1 op1 H \<Longrightarrow> result_ok E lo m1 op1 H (bytes m1 ip1 (d_iend E - ip1)) r m'"
  shows "result_ok E lo m op h (bytes m ip (d_iend E - ip)) r m'"
proof -
  let ?bs = "bytes m ip (d_iend E - ip)" and ?rest = "bytes m ip1 (d_iend E - ip1)"
  from out obtain lits off ml where 1: "frame m m1 op (d_oend E)" "op \<le> op1" "op1 \<le> d_oend E" "d_src E < ip1"
      "parse_sequence ?bs = Some (Seq lits off ml ?rest)" "off \<le> length h + length lits"
      "produced E lo m1 op1 h (Seq lits off ml ?rest)" "\<not> partial E \<longrightarrow> op1 - lo = int (length h + length lits + ml)"
    by (auto simp: outcome_ok_def)
  have ok1: "dec_ok E lo m1" using ok 1(1) by (rule dec_ok_frame)
  have rest: "bytes m1 ip1 (d_iend E - ip1) = ?rest" using src_bytes_frame [OF ok 1(1) op] 1(4) by simp
  let ?H = "copy_match off ml (h @ lits)"
  show ?thesis
  proof (cases "partial E \<and> off = 0")
    case True
    have "frame m1 m' op1 (d_oend E)" using rec [OF tracks_hist [OF ok1 _ 1(3)]] op 1(2) by (simp add: result_ok_def)
    then have "frame m m' op (d_oend E)" by (rule frame_join [OF 1(1)]) (use 1 in auto)
    then show ?thesis using True 1(5) by (simp add: result_ok_def nonzero_offsets_unfold)
  next
    case False
    have "tracks E lo m1 op1 ?H" using 1(3,7,8) False by (auto simp: tracks_def produced_def cap_def)
    note R = rec [OF this, unfolded rest]
    have "frame m1 m' op1 (d_oend E)" using R by (simp add: result_ok_def)
    then have "frame m m' op (d_oend E)" by (rule frame_join [OF 1(1)]) (use 1 in auto)
    then show ?thesis using R 1(5,6) by (auto simp: result_ok_def decode_block_unfold block_good_unfold nonzero_offsets_unfold)
  qed
qed

lemma result_stop:
  assumes ok: "dec_ok E lo m" and op: "d_dst E \<le> op" "op \<le> d_oend E"
    and h: "hist E lo m op = h" and out: "outcome_ok E lo m op h (parse_sequence bs) (Break m' op')"
  shows "result_ok E lo m op h bs (op' - d_dst E) m'"
proof (cases "partial E")
  case False
  then show ?thesis using out op by (auto simp: result_ok_def outcome_ok_def decode_block_unfold)
next
  case part: True
  have fr: "frame m m' op (d_oend E)" using out by (simp add: outcome_ok_def)
  have "\<exists>d. decode_block h bs = Some d \<and> op' - lo = min (int (length d)) (cap E lo)
          \<and> hist E lo m' op' = take (nat (cap E lo)) d"
    if g: "block_good E lo h bs" and nz: "nonzero_offsets bs"
  proof -
    obtain p where p: "parse_sequence bs = Some p" "good E lo h p"
      using g by (rule block_good_parses)
    with out part have b: "produced E lo m' op' h p" "op' = d_oend E \<or> (\<exists>lits. p = Last lits)"
      by (auto simp: outcome_ok_def)
    show ?thesis
    proof (cases p)
      case (Last lits)
      then have "op' - lo = min (int (length (h @ lits))) (cap E lo)" "hist E lo m' op' = take (nat (op' - lo)) (h @ lits)"
        using b(1) by (auto simp: produced_def)
      moreover from this(1) have "take (nat (op' - lo)) (h @ lits) = take (nat (cap E lo)) (h @ lits)"
        by (cases "int (length (h @ lits)) \<le> cap E lo") (simp_all add: min_def)
      ultimately show ?thesis using p(1) Last by (simp add: decode_block_unfold)
    next
      case (Seq lits off ml rest)
      let ?H = "copy_match off ml (h @ lits)"
      from Seq b(2) have e: "op' - lo = cap E lo" by (simp add: cap_def)
      have "off \<noteq> 0" using nz p(1) Seq by (simp add: nonzero_offsets_unfold)
      with b(1) Seq e have H: "hist E lo m' op' = take (nat (cap E lo)) ?H" "cap E lo \<le> int (length ?H)"
        by (auto simp: produced_def)
      have g': "block_good E lo ?H rest" "off \<le> length h + length lits" using g p(1) Seq by (simp_all add: block_good_unfold)
      then obtain d where d: "decode_block ?H rest = Some d" "take (length ?H) d = ?H" using conforming_decodes by blast
      have le: "length ?H \<le> length d" using arg_cong [OF d(2), of length] by simp
      have "take (nat (cap E lo)) d = take (nat (cap E lo)) (take (length ?H) d)" using H(2) by (simp add: min_def nat_le_iff)
      then have "take (nat (cap E lo)) d = take (nat (cap E lo)) ?H" by (simp only: d(2))
      then show ?thesis using H le e d(1) g'(2) p(1) Seq by (simp add: decode_block_unfold)
    qed
  qed
  then show ?thesis using part fr by (simp add: result_ok_def)
qed

lemma result_error:
  assumes "outcome_ok E lo m op h (parse_sequence bs) (OutputError m' ip')"
  shows "result_ok E lo m op h bs (- (ip' - d_src E) - 1) m'"
proof -
  have "\<not> block_good E lo h bs"
    using assms by (auto simp: outcome_ok_def elim: block_good_parses)
  then show ?thesis using assms by (auto simp: result_ok_def outcome_ok_def)
qed

lemma tracks_cases:
  assumes "tracks E lo m op H" "dec_ok E lo m" "d_dst E \<le> op"
  obtains (exact) "hist E lo m op = H" | (full) "partial E" "op = d_oend E" "cap E lo < int (length H)"
    "hist E lo m op = take (nat (cap E lo)) H"
proof (cases "int (length H) \<le> cap E lo")
  case True
  then show thesis using assms(1) by (intro exact) (simp add: tracks_def)
next
  case False
  then show thesis using assms(1) by (intro full) (auto simp: tracks_def cap_def)
qed

lemma result_full:
  assumes ok: "dec_ok E lo m" and part: "partial E" and full: "cap E lo < int (length H)"
    and h: "hist E lo m (d_oend E) = take (nat (cap E lo)) H"
  shows "result_ok E lo m (d_oend E) H bs (d_oend E - d_dst E) m"
proof -
  have "\<exists>d. decode_block H bs = Some d \<and> cap E lo = min (int (length d)) (cap E lo)
          \<and> hist E lo m (d_oend E) = take (nat (cap E lo)) d" if g: "block_good E lo H bs"
  proof -
    obtain d where d: "decode_block H bs = Some d" "take (length H) d = H" using conforming_decodes [OF g] by blast
    have "take (nat (cap E lo)) d = take (nat (cap E lo)) (take (length H) d)" using full by (simp add: min_def nat_le_iff)
    then have "take (nat (cap E lo)) d = take (nat (cap E lo)) H" by (simp only: d(2))
    moreover have "length H \<le> length d" using arg_cong [OF d(2), of length] by simp
    ultimately show ?thesis using d(1) h full by simp
  qed
  then show ?thesis using part by (simp add: result_ok_def cap_def)
qed

lemma safe_loop_ok:
  "dec_ok E lo m \<Longrightarrow> d_src E \<le> ip \<Longrightarrow> ip < d_iend E \<Longrightarrow> d_dst E \<le> op \<Longrightarrow> op \<le> d_oend E \<Longrightarrow> tracks E lo m op H
   \<Longrightarrow> \<exists>r m'. safe_loop E m ip op = Some (r, m') \<and> result_ok E lo m op H (bytes m ip (d_iend E - ip)) r m'"
proof (induction "nat (d_iend E - ip)" arbitrary: m ip op H rule: less_induct)
  case less
  note ok = less.prems(1) and ip = less.prems(2,3) and op = less.prems(4,5)
  from less.prems(6) ok op(1) show ?case
  proof (cases rule: tracks_cases)
    case exact
    obtain o1 where o1: "safe_iter E m ip op = Some o1" "outcome_ok E lo m op H (parse_sequence (bytes m ip (d_iend E - ip))) o1"
      by (rule safe_iter_ok [OF ok ip op exact])
    show ?thesis
    proof (cases o1)
      case (Next m1 ip1 op1)
      note out = o1(2)[unfolded Next]
      from out have 1: "frame m m1 op (d_oend E)" "d_src E < ip1" "ip1 < d_iend E" "op \<le> op1" "op1 \<le> d_oend E"
        by (auto simp: outcome_ok_def)
      from out have "length (bytes m ip1 (d_iend E - ip1)) < length (bytes m ip (d_iend E - ip))"
        by (auto simp: outcome_ok_def dest: parse_sequence_shorter)
      then have dec: "nat (d_iend E - ip1) < nat (d_iend E - ip)" by simp
      have ok1: "dec_ok E lo m1" using ok 1(1) by (rule dec_ok_frame)
      have IH: "\<exists>r m'. safe_loop E m1 ip1 op1 = Some (r, m') \<and> result_ok E lo m1 op1 H' (bytes m1 ip1 (d_iend E - ip1)) r m'"
        if "tracks E lo m1 op1 H'" for H'
        by (rule less.hyps [OF dec ok1 _ _ _ _ that]) (use 1 op in auto)
      obtain r m' where rm: "safe_loop E m1 ip1 op1 = Some (r, m')"
        using IH [OF tracks_hist [OF ok1 _ 1(5)]] 1 op by auto
      have "result_ok E lo m op H (bytes m ip (d_iend E - ip)) r m'"
        by (rule result_step [OF ok op(1) exact out]) (use IH rm in auto)
      then show ?thesis using rm o1(1) Next by (subst safe_loop.simps) simp
    next
      case (Break m' op')
      then show ?thesis using result_stop [OF ok op exact, of "bytes m ip (d_iend E - ip)" m' op'] o1
        by (subst safe_loop.simps) (simp add: dec_return_def)
    next
      case (OutputError m' ip')
      then show ?thesis using result_error [of E lo m op H "bytes m ip (d_iend E - ip)" m' ip'] o1
        by (subst safe_loop.simps) (simp add: dec_error_def)
    qed
  next
    case full
    from ok ip full(2,1) show ?thesis
    proof (cases rule: safe_iter_full)
      case stop
      then show ?thesis using result_full [OF ok full(1,3)] full(2,4)
        by (subst safe_loop.simps) (simp add: dec_return_def)
    next
      case (err ip')
      then show ?thesis using full(1)
        by (subst safe_loop.simps) (auto simp: dec_error_def result_ok_def block_good_unfold)
    qed
  qed
qed

lemma fast_loop_ok:
  "dec_ok E lo m \<Longrightarrow> d_src E \<le> ip \<Longrightarrow> ip < d_iend E \<Longrightarrow> d_dst E \<le> op \<Longrightarrow> op \<le> d_oend E - 64 \<Longrightarrow> tracks E lo m op H
   \<Longrightarrow> \<exists>r m'. fast_loop E m ip op = Some (r, m') \<and> result_ok E lo m op H (bytes m ip (d_iend E - ip)) r m'"
proof (induction "nat (d_iend E - ip)" arbitrary: m ip op H rule: less_induct)
  case less
  note ok = less.prems(1) and ip = less.prems(2,3) and op = less.prems(4,5)
  have op': "op \<le> d_oend E" using op by simp
  have exact: "hist E lo m op = H" using less.prems(6) ok op(1) by (cases rule: tracks_cases) (use op in auto)
  let ?bs = "bytes m ip (d_iend E - ip)"
  obtain f where f: "fast_iter E m ip op = Some f" "outcome_ok E lo m op H (parse_sequence ?bs) (slow f)" "in_range E f"
    by (rule fast_iter_ok [OF ok ip op exact])
  show ?case
  proof (cases "slow f")
    case (Next m1 ip1 op1)
    note out = f(2)[unfolded Next]
    from out have 1: "frame m m1 op (d_oend E)" "d_src E < ip1" "ip1 < d_iend E" "op \<le> op1" "op1 \<le> d_oend E"
      by (auto simp: outcome_ok_def)
    from out have "length (bytes m ip1 (d_iend E - ip1)) < length ?bs"
      by (auto simp: outcome_ok_def dest: parse_sequence_shorter)
    then have dec: "nat (d_iend E - ip1) < nat (d_iend E - ip)" by simp
    have ok1: "dec_ok E lo m1" using ok 1(1) by (rule dec_ok_frame)
    define k where "k = (if f = FastNext m1 ip1 op1 then fast_loop E m1 ip1 op1 else safe_loop E m1 ip1 op1)"
    have IH: "\<exists>r m'. k = Some (r, m') \<and> result_ok E lo m1 op1 H' (bytes m1 ip1 (d_iend E - ip1)) r m'"
      if H': "tracks E lo m1 op1 H'" for H'
    proof (cases "f = FastNext m1 ip1 op1")
      case True
      have "\<exists>r m'. fast_loop E m1 ip1 op1 = Some (r, m') \<and> result_ok E lo m1 op1 H' (bytes m1 ip1 (d_iend E - ip1)) r m'"
        by (rule less.hyps [OF dec ok1 _ _ _ _ H']) (use 1 op f(3) True in auto)
      then show ?thesis using True by (simp add: k_def)
    next
      case False
      have "\<exists>r m'. safe_loop E m1 ip1 op1 = Some (r, m') \<and> result_ok E lo m1 op1 H' (bytes m1 ip1 (d_iend E - ip1)) r m'"
        by (rule safe_loop_ok [OF ok1 _ _ _ _ H']) (use 1 op in auto)
      then show ?thesis using False by (simp add: k_def)
    qed
    obtain r m' where rm: "k = Some (r, m')" using IH [OF tracks_hist [OF ok1 _ 1(5)]] 1 op by auto
    have "result_ok E lo m op H ?bs r m'" by (rule result_step [OF ok op(1) exact out]) (use IH rm in auto)
    moreover have "fast_loop E m ip op = k"
      using f(1) Next by (subst fast_loop.simps) (cases f; auto simp: k_def)
    ultimately show ?thesis using rm by simp
  next
    case (Break m' op')
    then have "f = ToSafe (Break m' op')" by (cases f) auto
    then show ?thesis using result_stop [OF ok op(1) op' exact, of ?bs m' op'] f
      by (subst fast_loop.simps) (simp add: dec_return_def)
  next
    case (OutputError m' ip')
    then have "f = ToSafe (OutputError m' ip')" by (cases f) auto
    then show ?thesis using result_error [of E lo m op H ?bs m' ip'] f
      by (subst fast_loop.simps) (simp add: dec_error_def)
  qed
qed

section \<open>\<open>LZ4_decompress_generic\<close>\<close>

text \<open>On a block in \<open>[src, src + srcSize)\<close> and an output buffer of a positive size.\<close>

lemma decompress_generic_ok:
  assumes ok: "dec_ok E lo m" and sz: "0 < d_srcSize E" "0 < d_outputSize E"
  shows "\<exists>r m'. LZ4_decompress_generic E m = Some (r, m') \<and>
     result_ok E lo m (d_dst E) (hist E lo m (d_dst E)) (bytes m (d_src E) (d_srcSize E)) r m'"
proof -
  have b: "d_src E \<le> d_src E" "d_src E < d_iend E" "d_dst E \<le> d_dst E" "d_dst E \<le> d_oend E" "0 < d_src E"
    using sz dec_okD(3,11)[OF ok] by (auto simp: d_iend_def)
  note tr = tracks_hist [OF ok b(3,4)]
  have "d_iend E - d_src E = d_srcSize E" by (simp add: d_iend_def)
  then show ?thesis
    using safe_loop_ok [OF ok b(1,2,3,4) tr] fast_loop_ok [OF ok b(1,2,3) _ tr] sz b(5)
    by (auto simp: LZ4_decompress_generic_def)
qed

end
