(* ===== verification/LZ4_DecAPI.thy ===== *)
theory LZ4_DecAPI
  imports LZ4_DecLoop
begin

text \<open>
  The decoding entry points of lz4.c: the instances of \<open>LZ4_decompress_generic\<close>, the functions that
  choose among them by the position of the dictionary, and the streaming decoder.  All full decoders
  share one contract, the locale \<open>history_decoder\<close>: decoding with a history \<open>D\<close> is \<open>decode_block D\<close>.
\<close>

section \<open>The instances of the generic decoder\<close>

definition dec_args :: "addr \<Rightarrow> addr \<Rightarrow> int \<Rightarrow> int \<Rightarrow> earlyEnd_directive \<Rightarrow> dict_directive \<Rightarrow> addr \<Rightarrow> addr \<Rightarrow> int \<Rightarrow> dec_env" where
  "dec_args src dst srcSize outputSize partialDecoding dict lowPrefix dictStart dictSize =
     \<lparr>d_src = src, d_dst = dst, d_srcSize = srcSize, d_outputSize = outputSize,
      d_partialDecoding = partialDecoding, d_dict = dict, d_lowPrefix = lowPrefix,
      d_dictStart = dictStart, d_dictSize = dictSize\<rparr>"

lemma dec_args_simps [simp]:
  "d_src (dec_args src dst n c pd di lp ds dz) = src" "d_dst (dec_args src dst n c pd di lp ds dz) = dst"
  "d_srcSize (dec_args src dst n c pd di lp ds dz) = n" "d_outputSize (dec_args src dst n c pd di lp ds dz) = c"
  "d_partialDecoding (dec_args src dst n c pd di lp ds dz) = pd" "d_dict (dec_args src dst n c pd di lp ds dz) = di"
  "d_lowPrefix (dec_args src dst n c pd di lp ds dz) = lp" "d_dictStart (dec_args src dst n c pd di lp ds dz) = ds"
  "d_dictSize (dec_args src dst n c pd di lp ds dz) = dz"
  "d_iend (dec_args src dst n c pd di lp ds dz) = src + n" "d_oend (dec_args src dst n c pd di lp ds dz) = dst + c"
  by (simp_all add: dec_args_def d_iend_def d_oend_def)

definition LZ4_decompress_safe :: "mem \<Rightarrow> addr \<Rightarrow> addr \<Rightarrow> int \<Rightarrow> int \<Rightarrow> (int \<times> mem) option" where
  "LZ4_decompress_safe m source dest compressedSize maxDecompressedSize =
     LZ4_decompress_generic
       (dec_args source dest compressedSize maxDecompressedSize decode_full_block noDict dest 0 0) m"

definition LZ4_decompress_safe_partial :: "mem \<Rightarrow> addr \<Rightarrow> addr \<Rightarrow> int \<Rightarrow> int \<Rightarrow> int \<Rightarrow> (int \<times> mem) option" where
  "LZ4_decompress_safe_partial m src dst compressedSize targetOutputSize dstCapacity =
     (let dstCapacity = min targetOutputSize dstCapacity in
      LZ4_decompress_generic (dec_args src dst compressedSize dstCapacity partial_decode noDict dst 0 0) m)"

definition LZ4_decompress_safe_withPrefix64k :: "mem \<Rightarrow> addr \<Rightarrow> addr \<Rightarrow> int \<Rightarrow> int \<Rightarrow> (int \<times> mem) option" where
  "LZ4_decompress_safe_withPrefix64k m source dest compressedSize maxOutputSize =
     LZ4_decompress_generic
       (dec_args source dest compressedSize maxOutputSize decode_full_block withPrefix64k (dest - 65536) 0 0) m"

definition LZ4_decompress_safe_partial_withPrefix64k :: "mem \<Rightarrow> addr \<Rightarrow> addr \<Rightarrow> int \<Rightarrow> int \<Rightarrow> int \<Rightarrow> (int \<times> mem) option" where
  "LZ4_decompress_safe_partial_withPrefix64k m source dest compressedSize targetOutputSize dstCapacity =
     (let dstCapacity = min targetOutputSize dstCapacity in
      LZ4_decompress_generic
        (dec_args source dest compressedSize dstCapacity partial_decode withPrefix64k (dest - 65536) 0 0) m)"

definition LZ4_decompress_safe_withSmallPrefix :: "mem \<Rightarrow> addr \<Rightarrow> addr \<Rightarrow> int \<Rightarrow> int \<Rightarrow> int \<Rightarrow> (int \<times> mem) option" where
  "LZ4_decompress_safe_withSmallPrefix m source dest compressedSize maxOutputSize prefixSize =
     LZ4_decompress_generic
       (dec_args source dest compressedSize maxOutputSize decode_full_block noDict (dest - prefixSize) 0 0) m"

definition LZ4_decompress_safe_partial_withSmallPrefix ::
  "mem \<Rightarrow> addr \<Rightarrow> addr \<Rightarrow> int \<Rightarrow> int \<Rightarrow> int \<Rightarrow> int \<Rightarrow> (int \<times> mem) option" where
  "LZ4_decompress_safe_partial_withSmallPrefix m source dest compressedSize targetOutputSize dstCapacity prefixSize =
     (let dstCapacity = min targetOutputSize dstCapacity in
      LZ4_decompress_generic
        (dec_args source dest compressedSize dstCapacity partial_decode noDict (dest - prefixSize) 0 0) m)"

definition LZ4_decompress_safe_forceExtDict ::
  "mem \<Rightarrow> addr \<Rightarrow> addr \<Rightarrow> int \<Rightarrow> int \<Rightarrow> addr \<Rightarrow> int \<Rightarrow> (int \<times> mem) option" where
  "LZ4_decompress_safe_forceExtDict m source dest compressedSize maxOutputSize dictStart dictSize =
     LZ4_decompress_generic
       (dec_args source dest compressedSize maxOutputSize decode_full_block usingExtDict dest dictStart dictSize) m"

definition LZ4_decompress_safe_partial_forceExtDict ::
  "mem \<Rightarrow> addr \<Rightarrow> addr \<Rightarrow> int \<Rightarrow> int \<Rightarrow> int \<Rightarrow> addr \<Rightarrow> int \<Rightarrow> (int \<times> mem) option" where
  "LZ4_decompress_safe_partial_forceExtDict m source dest compressedSize targetOutputSize dstCapacity dictStart dictSize =
     (let dstCapacity = min targetOutputSize dstCapacity in
      LZ4_decompress_generic
        (dec_args source dest compressedSize dstCapacity partial_decode usingExtDict dest dictStart dictSize) m)"

definition LZ4_decompress_safe_doubleDict ::
  "mem \<Rightarrow> addr \<Rightarrow> addr \<Rightarrow> int \<Rightarrow> int \<Rightarrow> int \<Rightarrow> addr \<Rightarrow> int \<Rightarrow> (int \<times> mem) option" where
  "LZ4_decompress_safe_doubleDict m source dest compressedSize maxOutputSize prefixSize dictStart dictSize =
     LZ4_decompress_generic
       (dec_args source dest compressedSize maxOutputSize decode_full_block usingExtDict (dest - prefixSize)
          dictStart dictSize) m"

section \<open>The functions with an explicit dictionary\<close>

definition LZ4_decompress_safe_usingDict ::
  "mem \<Rightarrow> addr \<Rightarrow> addr \<Rightarrow> int \<Rightarrow> int \<Rightarrow> addr \<Rightarrow> int \<Rightarrow> (int \<times> mem) option" where
  "LZ4_decompress_safe_usingDict m source dest compressedSize maxOutputSize dictStart dictSize =
     (if dictSize = 0 then LZ4_decompress_safe m source dest compressedSize maxOutputSize
      else if dictStart + dictSize = dest then
        if dictSize \<ge> 65536 - 1 then LZ4_decompress_safe_withPrefix64k m source dest compressedSize maxOutputSize
        else LZ4_decompress_safe_withSmallPrefix m source dest compressedSize maxOutputSize dictSize
      else LZ4_decompress_safe_forceExtDict m source dest compressedSize maxOutputSize dictStart dictSize)"

definition LZ4_decompress_safe_partial_usingDict ::
  "mem \<Rightarrow> addr \<Rightarrow> addr \<Rightarrow> int \<Rightarrow> int \<Rightarrow> int \<Rightarrow> addr \<Rightarrow> int \<Rightarrow> (int \<times> mem) option" where
  "LZ4_decompress_safe_partial_usingDict m source dest compressedSize targetOutputSize dstCapacity dictStart dictSize =
     (if dictSize = 0 then LZ4_decompress_safe_partial m source dest compressedSize targetOutputSize dstCapacity
      else if dictStart + dictSize = dest then
        if dictSize \<ge> 65536 - 1
        then LZ4_decompress_safe_partial_withPrefix64k m source dest compressedSize targetOutputSize dstCapacity
        else LZ4_decompress_safe_partial_withSmallPrefix m source dest compressedSize targetOutputSize dstCapacity dictSize
      else LZ4_decompress_safe_partial_forceExtDict m source dest compressedSize targetOutputSize dstCapacity
             dictStart dictSize)"

section \<open>Contracts\<close>

text \<open>Input and output buffers are live and disjoint.\<close>

definition io_ok :: "mem \<Rightarrow> addr \<Rightarrow> addr \<Rightarrow> int \<Rightarrow> int \<Rightarrow> bool" where
  "io_ok m src dst n room \<longleftrightarrow>
     0 < src \<and> 0 \<le> n \<and> n < 2 ^ 31 \<and> src + n < 2 ^ 63 \<and> 0 \<le> dst \<and> 0 \<le> room \<and> room < 2 ^ 31 \<and> dst + room < 2 ^ 63 \<and>
     valid m src n \<and> valid m dst room \<and> (src + n \<le> dst \<or> dst + room \<le> src)"

text \<open>A buffer the decoder only reads, disjoint from its output.\<close>

definition ro_ok :: "mem \<Rightarrow> addr \<Rightarrow> int \<Rightarrow> addr \<Rightarrow> int \<Rightarrow> bool" where
  "ro_ok m a n dst room \<longleftrightarrow> 0 \<le> n \<and> valid m a n \<and> (a + n \<le> dst \<or> dst + room \<le> a) \<and> (a = 0 \<longrightarrow> n = 0)"

text \<open>A full decoding of the block \<open>bs\<close> with history \<open>D\<close>: whatever the block, nothing but the output
  buffer changes; a result that is not negative is the size of the block the reference decoder
  yields; a block that respects the end-of-block conditions for this buffer is not refused.\<close>

definition decoded :: "byte list \<Rightarrow> byte list \<Rightarrow> addr \<Rightarrow> int \<Rightarrow> mem \<Rightarrow> int \<Rightarrow> mem \<Rightarrow> bool" where
  "decoded D bs dst room m r m' \<longleftrightarrow> frame m m' dst (dst + room) \<and>
     (if r < 0 then room = 0 \<or> \<not> conforming (Some (int (length D) + room)) D bs
      else r \<le> room \<and> decode_block D bs = Some (D @ bytes m' dst r))"

definition decoded_partial :: "byte list \<Rightarrow> byte list \<Rightarrow> addr \<Rightarrow> int \<Rightarrow> mem \<Rightarrow> int \<Rightarrow> mem \<Rightarrow> bool" where
  "decoded_partial D bs dst room m r m' \<longleftrightarrow> frame m m' dst (dst + room) \<and>
     (conforming None D bs \<and> nonzero_offsets bs \<longrightarrow>
        (\<exists>d. decode_block D bs = Some (D @ d) \<and> r = min (int (length d)) room \<and> bytes m' dst r = take (nat room) d))"

lemma parse_single: "parse_sequence [0] = Some (Last [])"
  by (simp add: get_length_def parse_literals_def)

lemma generic_decoded:
  assumes ok: "dec_ok E lo m" and full: "\<not> partial E" and D: "hist E lo m (d_dst E) = D"
  shows "\<exists>r m'. LZ4_decompress_generic E m = Some (r, m') \<and>
     decoded D (bytes m (d_src E) (d_srcSize E)) (d_dst E) (d_outputSize E) m r m'"
proof (cases "0 < d_srcSize E \<and> 0 < d_outputSize E")
  case True
  then obtain r m' where r: "LZ4_decompress_generic E m = Some (r, m')"
      "result_ok E lo m (d_dst E) D (bytes m (d_src E) (d_srcSize E)) r m'"
    using decompress_generic_ok [OF ok] D by auto
  have fr: "frame m m' (d_dst E) (d_oend E)" using r(2) by (simp add: result_ok_def)
  have l: "int (length D) = d_dst E - lo" using D dec_okD(2)[OF ok] by auto
  have lim: "limit E lo = Some (int (length D) + d_outputSize E)" using full l by (simp add: limit_def cap_def d_oend_def)
  have "hist E lo m' (d_dst E + r) = D @ bytes m' (d_dst E) r" if "0 \<le> r"
    using hist_append [OF dec_ok_frame [OF ok fr] _ that] hist_frame [OF ok fr] D by simp
  then show ?thesis using r fr full lim by (auto simp: result_ok_def decoded_def d_oend_def)
next
  case False
  have "0 \<le> d_srcSize E" "0 \<le> d_outputSize E" "0 < d_src E" using ok by (auto simp: dec_ok_def)
  then consider "d_outputSize E = 0" | "d_srcSize E = 0" "0 < d_outputSize E" using False by linarith
  then show ?thesis
  proof cases
    case 1
    show ?thesis
    proof (cases "d_srcSize E = 1 \<and> m (d_src E) = Some 0")
      case True
      have "decode_block D [0] = Some D" by (simp add: decode_block_unfold(2)[OF parse_single])
      moreover have "bytes m (d_src E) 1 = [0]" using bytes_Cons [of 1 m "d_src E"] True by simp
      ultimately have "decoded D (bytes m (d_src E) (d_srcSize E)) (d_dst E) (d_outputSize E) m 0 m"
        using 1 True by (simp add: decoded_def frame_refl)
      moreover have "LZ4_decompress_generic E m = Some (0, m)"
        using 1 True \<open>0 < d_src E\<close> full by (simp add: LZ4_decompress_generic_def)
      ultimately show ?thesis by blast
    next
      case False
      have "\<exists>t. m (d_src E) = Some t" if "d_srcSize E = 1"
        using valid_at [OF dec_okD(8)[OF ok], of "d_src E"] that by (auto simp: d_iend_def)
      then have "LZ4_decompress_generic E m = Some (-1, m)"
        using 1 False \<open>0 < d_src E\<close> full by (auto simp: LZ4_decompress_generic_def uint_0_iff)
      then show ?thesis using 1 by (auto simp: decoded_def frame_refl)
    qed
  next
    case 2
    then show ?thesis using \<open>0 < d_src E\<close> full
      by (simp add: LZ4_decompress_generic_def decoded_def frame_refl conforming_unfold)
  qed
qed

lemma generic_decoded_partial:
  assumes ok: "dec_ok E lo m" and part: "partial E" and D: "hist E lo m (d_dst E) = D"
  shows "\<exists>r m'. LZ4_decompress_generic E m = Some (r, m') \<and>
     decoded_partial D (bytes m (d_src E) (d_srcSize E)) (d_dst E) (d_outputSize E) m r m'"
proof -
  let ?bs = "bytes m (d_src E) (d_srcSize E)"
  have l: "int (length D) = d_dst E - lo" using D dec_okD(2)[OF ok] by auto
  have split: "\<exists>d. decode_block D ?bs = Some (D @ d)" if "conforming None D ?bs"
    using conforming_decodes [OF that] by (metis append_take_drop_id)
  have "0 \<le> d_srcSize E" "0 \<le> d_outputSize E" "0 < d_src E" using ok by (auto simp: dec_ok_def)
  then consider (pos) "0 < d_srcSize E \<and> 0 < d_outputSize E" | (out) "d_outputSize E = 0" | (src) "d_srcSize E = 0" "0 < d_outputSize E"
    by linarith
  then show ?thesis
  proof cases
    case pos
    then obtain r m' where r: "LZ4_decompress_generic E m = Some (r, m')" "result_ok E lo m (d_dst E) D ?bs r m'"
      using decompress_generic_ok [OF ok] D by auto
    have fr: "frame m m' (d_dst E) (d_oend E)" using r(2) by (simp add: result_ok_def)
    have "\<exists>d. decode_block D ?bs = Some (D @ d) \<and> r = min (int (length d)) (d_outputSize E)
        \<and> bytes m' (d_dst E) r = take (nat (d_outputSize E)) d" if c: "conforming None D ?bs" "nonzero_offsets ?bs"
    proof -
      from split [OF c(1)] obtain d where d: "decode_block D ?bs = Some (D @ d)" by blast
      have R: "d_dst E + r - lo = min (int (length (D @ d))) (cap E lo)"
          "hist E lo m' (d_dst E + r) = take (nat (cap E lo)) (D @ d)"
        using r(2) c d part by (auto simp: result_ok_def limit_def)
      have cap: "cap E lo = int (length D) + d_outputSize E" using l by (simp add: cap_def d_oend_def)
      have r': "r = min (int (length d)) (d_outputSize E)" "0 \<le> r" using R(1) cap l pos by auto
      have "D @ bytes m' (d_dst E) r = take (nat (cap E lo)) (D @ d)"
        using R(2) hist_append [OF dec_ok_frame [OF ok fr] _ r'(2)] hist_frame [OF ok fr] D by simp
      moreover have "nat (cap E lo) = length D + nat (d_outputSize E)" using cap pos by (simp add: nat_add_distrib)
      ultimately show ?thesis using d r'(1) by simp
    qed
    then show ?thesis using r(1) fr by (auto simp: decoded_partial_def d_oend_def)
  next
    case out
    then show ?thesis using split part \<open>0 < d_src E\<close>
      by (auto simp: LZ4_decompress_generic_def decoded_partial_def frame_refl)
  next
    case src
    then show ?thesis using \<open>0 < d_src E\<close>
      by (simp add: LZ4_decompress_generic_def decoded_partial_def frame_refl conforming_unfold)
  qed
qed

section \<open>The preconditions of the instances\<close>

lemma hist_plain: "d_dict E \<noteq> usingExtDict \<Longrightarrow> hist E lo m op = bytes m lo (op - lo)"
  by (simp add: hist_def vm_def)

lemma hist_ext:
  assumes "d_dict E = usingExtDict" "0 \<le> d_dictSize E" "d_dictStart E = 0 \<longrightarrow> d_dictSize E = 0" "d_lowPrefix E \<le> op"
  shows "hist E (d_lowPrefix E - d_dictSize E) m op
       = bytes m (d_dictStart E) (d_dictSize E) @ bytes m (d_lowPrefix E) (op - d_lowPrefix E)"
proof -
  let ?lo = "d_lowPrefix E - d_dictSize E"
  have "hist E ?lo m op = bytes (vm E m) ?lo (d_dictSize E) @ bytes (vm E m) (d_lowPrefix E) (op - d_lowPrefix E)"
    using bytes_append [of "d_dictSize E" "op - d_lowPrefix E" "vm E m" ?lo] assms by (simp add: hist_def algebra_simps)
  moreover have "bytes (vm E m) ?lo (d_dictSize E) = bytes m (d_dictStart E) (d_dictSize E)"
    by (rule nth_equalityI) (use assms in \<open>auto simp: vm_def d_dictEnd_def algebra_simps\<close>)
  moreover have "bytes (vm E m) (d_lowPrefix E) (op - d_lowPrefix E) = bytes m (d_lowPrefix E) (op - d_lowPrefix E)"
    by (rule nth_equalityI) (use assms in \<open>auto simp: vm_def\<close>)
  ultimately show ?thesis by simp
qed

lemma valid_prefix: "valid m (dst - k) k \<Longrightarrow> valid m dst room \<Longrightarrow> 0 \<le> k \<Longrightarrow> valid m (dst - k) (k + room)"
  by (erule valid_join) auto

lemma dec_ok_prefix:
  assumes "io_ok m src dst n room" "0 \<le> k" "valid m (dst - k) k"
  shows "dec_ok (dec_args src dst n room pd noDict (dst - k) 0 0) (dst - k) m"
  using assms valid_prefix [of m dst k room] by (auto simp: io_ok_def dec_ok_def algebra_simps)

lemma dec_ok_prefix64k:
  assumes "io_ok m src dst n room" "65535 \<le> k" "valid m (dst - k) k"
  shows "dec_ok (dec_args src dst n room pd withPrefix64k (dst - 65536) 0 0) (dst - 65535) m"
proof -
  have "valid m (dst - 65535) 65535" using assms(3) by (rule valid_sub) (use assms(2) in auto)
  then show ?thesis
    using assms valid_prefix [of m dst 65535 room] by (auto simp: io_ok_def dec_ok_def algebra_simps)
qed

lemma dec_ok_ext:
  assumes "io_ok m src dst n room" "0 \<le> k" "valid m (dst - k) k" "ro_ok m ds dz dst room"
  shows "dec_ok (dec_args src dst n room pd usingExtDict (dst - k) ds dz) (dst - k - dz) m"
proof -
  have "valid m (dst - k) (k + room)" using assms valid_prefix [of m dst k room] by (simp add: io_ok_def)
  moreover have "dst - k - dz + dz = dst - k" "dst + room - (dst - k) = k + room" by simp_all
  ultimately show ?thesis using assms unfolding io_ok_def ro_ok_def dec_ok_def by (simp add: add.commute)
qed

text \<open>Only 65535 bytes of a longer prefix are looked at.\<close>

lemma bytes_window:
  assumes "65535 \<le> k" shows "bytes m (dst - k) k = bytes m (dst - k) (k - 65535) @ bytes m (dst - 65535) 65535"
  using bytes_append [of "k - 65535" 65535 m "dst - k"] assms by (simp add: algebra_simps)

lemma decoded_window:
  assumes "decoded (bytes m (dst - 65535) 65535) bs dst room m r m'"
  shows "decoded (p @ bytes m (dst - 65535) 65535) bs dst room m r m'"
proof -
  let ?h = "bytes m (dst - 65535) 65535"
  have l: "65535 \<le> length ?h" by simp
  have "conforming (Some (int (length (p @ ?h)) + room)) (p @ ?h) bs = conforming (Some (int (length ?h) + room)) ?h bs"
    using conforming_window [OF l, of p "Some (int (length ?h) + room)"] by (simp add: algebra_simps)
  then show ?thesis using assms decode_block_window [OF l, of p bs] by (auto simp: decoded_def)
qed

lemma decoded_partial_window:
  assumes "decoded_partial (bytes m (dst - 65535) 65535) bs dst room m r m'"
  shows "decoded_partial (p @ bytes m (dst - 65535) 65535) bs dst room m r m'"
proof -
  let ?h = "bytes m (dst - 65535) 65535"
  have l: "65535 \<le> length ?h" by simp
  show ?thesis
    using assms decode_block_window [OF l, of p bs] conforming_window [OF l, of p None]
    by (auto simp: decoded_partial_def)
qed

section \<open>The contract of a full decoder\<close>

locale history_decoder =
  fixes decode :: "mem \<Rightarrow> addr \<Rightarrow> addr \<Rightarrow> int \<Rightarrow> int \<Rightarrow> (int \<times> mem) option"
    and dict_ok :: "mem \<Rightarrow> addr \<Rightarrow> int \<Rightarrow> bool"
    and dict :: "mem \<Rightarrow> addr \<Rightarrow> byte list"
  assumes decodes: "\<lbrakk>io_ok m src dst n room; dict_ok m dst room\<rbrakk> \<Longrightarrow>
    \<exists>r m'. decode m src dst n room = Some (r, m') \<and> decoded (dict m dst) (bytes m src n) dst room m r m'"
begin

text \<open>Whatever the bytes of the block, the decoder returns, and only the output buffer changes.\<close>

lemma memory_safe:
  assumes "io_ok m src dst n room" "dict_ok m dst room"
  shows "\<exists>r m'. decode m src dst n room = Some (r, m') \<and> r \<le> room \<and> frame m m' dst (dst + room)"
proof -
  obtain r m' where "decode m src dst n room = Some (r, m')" "decoded (dict m dst) (bytes m src n) dst room m r m'"
    using decodes [OF assms] by blast
  then show ?thesis using assms(1) by (auto simp: decoded_def io_ok_def split: if_splits)
qed

text \<open>What it accepts is what the reference decoder yields.\<close>

lemma sound:
  assumes "io_ok m src dst n room" "dict_ok m dst room" "decode m src dst n room = Some (r, m')" "0 \<le> r"
  shows "decode_block (dict m dst) (bytes m src n) = Some (dict m dst @ bytes m' dst r)"
  using decodes [OF assms(1,2)] assms(3,4) by (auto simp: decoded_def)

text \<open>It accepts every block that respects the end-of-block conditions.\<close>

lemma accepts:
  assumes io: "io_ok m src dst n room" "dict_ok m dst room" "0 < room"
    and c: "conforming (Some (int (length (dict m dst)) + room)) (dict m dst) (bytes m src n)"
  shows "\<exists>d m'. decode_block (dict m dst) (bytes m src n) = Some (dict m dst @ d) \<and>
     decode m src dst n room = Some (int (length d), m') \<and> bytes m' dst (int (length d)) = d \<and> frame m m' dst (dst + room)"
proof -
  obtain r m' where r: "decode m src dst n room = Some (r, m')" "decoded (dict m dst) (bytes m src n) dst room m r m'"
    using decodes [OF io(1,2)] by blast
  have nn: "0 \<le> r" using r(2) c io(3) by (auto simp: decoded_def split: if_splits)
  then have "decode_block (dict m dst) (bytes m src n) = Some (dict m dst @ bytes m' dst r)" "frame m m' dst (dst + room)"
    using r(2) by (auto simp: decoded_def)
  moreover have "int (length (bytes m' dst r)) = r" using nn by simp
  ultimately show ?thesis using r(1) by metis
qed

end

interpretation plain: history_decoder LZ4_decompress_safe "\<lambda>m dst room. True" "\<lambda>m dst. []"
proof
  fix m src dst n room assume io: "io_ok m src dst n room"
  let ?E = "dec_args src dst n room decode_full_block noDict dst 0 0"
  have ok: "dec_ok ?E dst m" using dec_ok_prefix [OF io, of 0] by simp
  show "\<exists>r m'. LZ4_decompress_safe m src dst n room = Some (r, m') \<and> decoded [] (bytes m src n) dst room m r m'"
    using generic_decoded [OF ok] by (simp add: LZ4_decompress_safe_def hist_plain)
qed

interpretation small: history_decoder "\<lambda>m src dst n room. LZ4_decompress_safe_withSmallPrefix m src dst n room k"
  "\<lambda>m dst room. 0 \<le> k \<and> valid m (dst - k) k" "\<lambda>m dst. bytes m (dst - k) k" for k
proof
  fix m src dst n room assume io: "io_ok m src dst n room" and k: "0 \<le> k \<and> valid m (dst - k) k"
  let ?E = "dec_args src dst n room decode_full_block noDict (dst - k) 0 0"
  have ok: "dec_ok ?E (dst - k) m" using dec_ok_prefix [OF io] k by simp
  show "\<exists>r m'. LZ4_decompress_safe_withSmallPrefix m src dst n room k = Some (r, m')
      \<and> decoded (bytes m (dst - k) k) (bytes m src n) dst room m r m'"
    using generic_decoded [OF ok] by (simp add: LZ4_decompress_safe_withSmallPrefix_def hist_plain)
qed

interpretation prefix64k: history_decoder LZ4_decompress_safe_withPrefix64k
  "\<lambda>m dst room. 65535 \<le> k \<and> valid m (dst - k) k" "\<lambda>m dst. bytes m (dst - k) k" for k
proof
  fix m src dst n room assume io: "io_ok m src dst n room" and k: "65535 \<le> k \<and> valid m (dst - k) k"
  let ?E = "dec_args src dst n room decode_full_block withPrefix64k (dst - 65536) 0 0"
  have ok: "dec_ok ?E (dst - 65535) m" using dec_ok_prefix64k [OF io] k by blast
  obtain r m' where r: "LZ4_decompress_safe_withPrefix64k m src dst n room = Some (r, m')"
      "decoded (bytes m (dst - 65535) 65535) (bytes m src n) dst room m r m'"
    using generic_decoded [OF ok] by (auto simp: LZ4_decompress_safe_withPrefix64k_def hist_plain)
  show "\<exists>r m'. LZ4_decompress_safe_withPrefix64k m src dst n room = Some (r, m')
      \<and> decoded (bytes m (dst - k) k) (bytes m src n) dst room m r m'"
    using r(1) decoded_window [OF r(2), of "bytes m (dst - k) (k - 65535)"] k bytes_window [of k m dst] by simp
qed

interpretation double: history_decoder
  "\<lambda>m src dst n room. LZ4_decompress_safe_doubleDict m src dst n room k ds dz"
  "\<lambda>m dst room. 0 \<le> k \<and> valid m (dst - k) k \<and> ro_ok m ds dz dst room"
  "\<lambda>m dst. bytes m ds dz @ bytes m (dst - k) k" for k ds dz
proof
  fix m src dst n room
  assume io: "io_ok m src dst n room" and k: "0 \<le> k \<and> valid m (dst - k) k \<and> ro_ok m ds dz dst room"
  let ?E = "dec_args src dst n room decode_full_block usingExtDict (dst - k) ds dz"
  have ok: "dec_ok ?E (dst - k - dz) m" using dec_ok_ext [OF io] k by simp
  have "hist ?E (dst - k - dz) m dst = bytes m ds dz @ bytes m (dst - k) k"
    using hist_ext [of ?E dst m] k by (auto simp: ro_ok_def)
  then show "\<exists>r m'. LZ4_decompress_safe_doubleDict m src dst n room k ds dz = Some (r, m')
      \<and> decoded (bytes m ds dz @ bytes m (dst - k) k) (bytes m src n) dst room m r m'"
    using generic_decoded [OF ok] by (simp add: LZ4_decompress_safe_doubleDict_def)
qed

interpretation ext: history_decoder
  "\<lambda>m src dst n room. LZ4_decompress_safe_forceExtDict m src dst n room ds dz"
  "\<lambda>m dst room. ro_ok m ds dz dst room" "\<lambda>m dst. bytes m ds dz" for ds dz
proof
  fix m src dst n room assume io: "io_ok m src dst n room" and ro: "ro_ok m ds dz dst room"
  show "\<exists>r m'. LZ4_decompress_safe_forceExtDict m src dst n room ds dz = Some (r, m')
      \<and> decoded (bytes m ds dz) (bytes m src n) dst room m r m'"
    using double.decodes [OF io, of 0 ds dz] ro
    by (simp add: LZ4_decompress_safe_doubleDict_def LZ4_decompress_safe_forceExtDict_def)
qed

interpretation using_dict: history_decoder
  "\<lambda>m src dst n room. LZ4_decompress_safe_usingDict m src dst n room ds dz"
  "\<lambda>m dst room. ro_ok m ds dz dst room" "\<lambda>m dst. bytes m ds dz" for ds dz
proof
  fix m src dst n room assume io: "io_ok m src dst n room" and ro: "ro_ok m ds dz dst room"
  consider (none) "dz = 0" | (big) "dz \<noteq> 0" "ds = dst - dz" "65535 \<le> dz" | (small) "dz \<noteq> 0" "ds = dst - dz" "dz < 65535"
    | (ext) "dz \<noteq> 0" "ds \<noteq> dst - dz" by linarith
  then show "\<exists>r m'. LZ4_decompress_safe_usingDict m src dst n room ds dz = Some (r, m')
      \<and> decoded (bytes m ds dz) (bytes m src n) dst room m r m'"
  proof cases
    case none
    then show ?thesis using plain.decodes [OF io] by (simp add: LZ4_decompress_safe_usingDict_def)
  next
    case big
    then show ?thesis using prefix64k.decodes [OF io, of dz] ro by (simp add: LZ4_decompress_safe_usingDict_def ro_ok_def)
  next
    case small
    then show ?thesis using small.decodes [OF io, of dz] ro by (simp add: LZ4_decompress_safe_usingDict_def ro_ok_def)
  next
    case ext
    then show ?thesis using ext.decodes [OF io ro] by (auto simp: LZ4_decompress_safe_usingDict_def)
  qed
qed

section \<open>The contract of a partial decoder\<close>

locale partial_decoder =
  fixes decode :: "mem \<Rightarrow> addr \<Rightarrow> addr \<Rightarrow> int \<Rightarrow> int \<Rightarrow> int \<Rightarrow> (int \<times> mem) option"
    and dict_ok :: "mem \<Rightarrow> addr \<Rightarrow> int \<Rightarrow> bool"
    and dict :: "mem \<Rightarrow> addr \<Rightarrow> byte list"
  assumes decodes: "\<lbrakk>io_ok m src dst n (min target room); dict_ok m dst (min target room)\<rbrakk> \<Longrightarrow>
    \<exists>r m'. decode m src dst n target room = Some (r, m')
      \<and> decoded_partial (dict m dst) (bytes m src n) dst (min target room) m r m'"
begin

lemma memory_safe:
  assumes "io_ok m src dst n (min target room)" "dict_ok m dst (min target room)"
  shows "\<exists>r m'. decode m src dst n target room = Some (r, m') \<and> frame m m' dst (dst + min target room)"
  using decodes [OF assms] by (auto simp: decoded_partial_def)

text \<open>A well-formed block is decoded up to the target, or to its end.\<close>

lemma prefix_of_full:
  assumes "io_ok m src dst n (min target room)" "dict_ok m dst (min target room)"
    and "conforming None (dict m dst) (bytes m src n)" "nonzero_offsets (bytes m src n)"
  shows "\<exists>d m'. decode_block (dict m dst) (bytes m src n) = Some (dict m dst @ d) \<and>
     decode m src dst n target room = Some (min (int (length d)) (min target room), m') \<and>
     bytes m' dst (min (int (length d)) (min target room)) = take (nat (min target room)) d"
  using decodes [OF assms(1,2)] assms(3,4) by (auto simp: decoded_partial_def)

end

interpretation part: partial_decoder LZ4_decompress_safe_partial "\<lambda>m dst room. True" "\<lambda>m dst. []"
proof
  fix m src dst n target room assume io: "io_ok m src dst n (min target room)"
  let ?E = "dec_args src dst n (min target room) partial_decode noDict dst 0 0"
  have ok: "dec_ok ?E dst m" using dec_ok_prefix [OF io, of 0] by simp
  show "\<exists>r m'. LZ4_decompress_safe_partial m src dst n target room = Some (r, m')
      \<and> decoded_partial [] (bytes m src n) dst (min target room) m r m'"
    using generic_decoded_partial [OF ok] by (simp add: LZ4_decompress_safe_partial_def hist_plain)
qed

interpretation part_small: partial_decoder
  "\<lambda>m src dst n target room. LZ4_decompress_safe_partial_withSmallPrefix m src dst n target room k"
  "\<lambda>m dst room. 0 \<le> k \<and> valid m (dst - k) k" "\<lambda>m dst. bytes m (dst - k) k" for k
proof
  fix m src dst n target room assume io: "io_ok m src dst n (min target room)" and k: "0 \<le> k \<and> valid m (dst - k) k"
  let ?E = "dec_args src dst n (min target room) partial_decode noDict (dst - k) 0 0"
  have ok: "dec_ok ?E (dst - k) m" using dec_ok_prefix [OF io] k by simp
  show "\<exists>r m'. LZ4_decompress_safe_partial_withSmallPrefix m src dst n target room k = Some (r, m')
      \<and> decoded_partial (bytes m (dst - k) k) (bytes m src n) dst (min target room) m r m'"
    using generic_decoded_partial [OF ok] by (simp add: LZ4_decompress_safe_partial_withSmallPrefix_def hist_plain)
qed

interpretation part_prefix64k: partial_decoder LZ4_decompress_safe_partial_withPrefix64k
  "\<lambda>m dst room. 65535 \<le> k \<and> valid m (dst - k) k" "\<lambda>m dst. bytes m (dst - k) k" for k
proof
  fix m src dst n target room assume io: "io_ok m src dst n (min target room)" and k: "65535 \<le> k \<and> valid m (dst - k) k"
  let ?E = "dec_args src dst n (min target room) partial_decode withPrefix64k (dst - 65536) 0 0"
  have ok: "dec_ok ?E (dst - 65535) m" using dec_ok_prefix64k [OF io] k by blast
  obtain r m' where r: "LZ4_decompress_safe_partial_withPrefix64k m src dst n target room = Some (r, m')"
      "decoded_partial (bytes m (dst - 65535) 65535) (bytes m src n) dst (min target room) m r m'"
    using generic_decoded_partial [OF ok] by (auto simp: LZ4_decompress_safe_partial_withPrefix64k_def hist_plain)
  show "\<exists>r m'. LZ4_decompress_safe_partial_withPrefix64k m src dst n target room = Some (r, m')
      \<and> decoded_partial (bytes m (dst - k) k) (bytes m src n) dst (min target room) m r m'"
    using r(1) decoded_partial_window [OF r(2), of "bytes m (dst - k) (k - 65535)"] k bytes_window [of k m dst] by simp
qed

interpretation part_ext: partial_decoder
  "\<lambda>m src dst n target room. LZ4_decompress_safe_partial_forceExtDict m src dst n target room ds dz"
  "\<lambda>m dst room. ro_ok m ds dz dst room" "\<lambda>m dst. bytes m ds dz" for ds dz
proof
  fix m src dst n target room
  assume io: "io_ok m src dst n (min target room)" and ro: "ro_ok m ds dz dst (min target room)"
  let ?E = "dec_args src dst n (min target room) partial_decode usingExtDict dst ds dz"
  have ok: "dec_ok ?E (dst - dz) m" using dec_ok_ext [OF io _ _ ro, of 0] by simp
  have "hist ?E (dst - dz) m dst = bytes m ds dz" using hist_ext [of ?E dst m] ro by (auto simp: ro_ok_def)
  then show "\<exists>r m'. LZ4_decompress_safe_partial_forceExtDict m src dst n target room ds dz = Some (r, m')
      \<and> decoded_partial (bytes m ds dz) (bytes m src n) dst (min target room) m r m'"
    using generic_decoded_partial [OF ok] by (simp add: LZ4_decompress_safe_partial_forceExtDict_def)
qed

interpretation part_using_dict: partial_decoder
  "\<lambda>m src dst n target room. LZ4_decompress_safe_partial_usingDict m src dst n target room ds dz"
  "\<lambda>m dst room. ro_ok m ds dz dst room" "\<lambda>m dst. bytes m ds dz" for ds dz
proof
  fix m src dst n target room
  assume io: "io_ok m src dst n (min target room)" and ro: "ro_ok m ds dz dst (min target room)"
  consider (none) "dz = 0" | (big) "dz \<noteq> 0" "ds = dst - dz" "65535 \<le> dz" | (small) "dz \<noteq> 0" "ds = dst - dz" "dz < 65535"
    | (ext) "dz \<noteq> 0" "ds \<noteq> dst - dz" by linarith
  then show "\<exists>r m'. LZ4_decompress_safe_partial_usingDict m src dst n target room ds dz = Some (r, m')
      \<and> decoded_partial (bytes m ds dz) (bytes m src n) dst (min target room) m r m'"
  proof cases
    case none
    then show ?thesis using part.decodes [OF io] by (simp add: LZ4_decompress_safe_partial_usingDict_def)
  next
    case big
    then show ?thesis using part_prefix64k.decodes [OF io, of dz] ro
      by (simp add: LZ4_decompress_safe_partial_usingDict_def ro_ok_def)
  next
    case small
    then show ?thesis using part_small.decodes [OF io, of dz] ro
      by (simp add: LZ4_decompress_safe_partial_usingDict_def ro_ok_def)
  next
    case ext
    then show ?thesis using part_ext.decodes [OF io ro] by (auto simp: LZ4_decompress_safe_partial_usingDict_def)
  qed
qed

end
