(* ===== verification/LZ4_DecUnsafe.thy ===== *)
theory LZ4_DecUnsafe
  imports LZ4_DecAPI
begin

text \<open>
  The decoder of the deprecated \<open>LZ4_decompress_fast*()\<close> functions, which does not know the size of
  its input.  On a well-formed block it reads exactly the block and writes what the reference
  decoder yields.
\<close>

section \<open>\<open>LZ4_decompress_unsafe_generic\<close>\<close>

partial_function (option) read_long_length_no_check :: "mem \<Rightarrow> addr \<Rightarrow> int \<Rightarrow> (int \<times> addr) option" where
  "read_long_length_no_check m pp l =
     Option.bind (m pp) (\<lambda>b. let l = u64 (l + uint b) in
       if uint b = 255 then read_long_length_no_check m (pp + 1) l else Some (l, pp + 1))"

datatype unsafe_out =
    UNext mem addr addr     \<comment> \<open>memory, \<open>ip\<close>, \<open>op\<close>\<close>
  | UBreak mem addr         \<comment> \<open>memory, \<open>ip\<close>\<close>
  | UError mem

text \<open>A length field of the token and its extension bytes.\<close>

definition unsafe_length :: "mem \<Rightarrow> addr \<Rightarrow> int \<Rightarrow> (int \<times> addr) option" where
  "unsafe_length m ip k =
     (if k = 15 then do { (l, ip) \<leftarrow> read_long_length_no_check m ip 0; Some (u64 (k + l), ip) } else Some (k, ip))"

record unsafe_env =
  u_oend :: addr
  u_prefixStart :: addr
  u_dictStart :: addr
  u_dictSize :: int

definition unsafe_copy :: "unsafe_env \<Rightarrow> mem \<Rightarrow> addr \<Rightarrow> int \<Rightarrow> int \<Rightarrow> (mem \<times> addr) option" where
  "unsafe_copy U m op offset ml = do {
     (m, op, ml, match) \<leftarrow>
       (if offset > op - u_prefixStart U then
          let dictEnd = u_dictStart U + u_dictSize U;
              extMatch = dictEnd - (offset - (op - u_prefixStart U)); extml = dictEnd - extMatch in
          if extml > ml then do { m \<leftarrow> LZ4_memmove m op extMatch ml; Some (m, op + ml, 0, u_prefixStart U) }
          else do { m \<leftarrow> LZ4_memmove m op extMatch extml; Some (m, op + extml, ml - extml, u_prefixStart U) }
        else Some (m, op, ml, op - offset));
     m \<leftarrow> copy_bytes m op match (op + ml);
     Some (m, op + ml) }"

definition unsafe_match :: "unsafe_env \<Rightarrow> mem \<Rightarrow> addr \<Rightarrow> addr \<Rightarrow> int \<Rightarrow> unsafe_out option" where
  "unsafe_match U m ip op token = do {
     offset \<leftarrow> LZ4_readLE16 m ip;
     (ml, ip) \<leftarrow> unsafe_length m (ip + 2) (token mod 16);
     let ml = u64 (ml + MINMATCH) in
     if u64 (u_oend U - op) < ml then Some (UError m)
     else if offset > op - u_prefixStart U + u_dictSize U then Some (UError m)
     else do {
       (m, op) \<leftarrow> unsafe_copy U m op offset ml;
       Some (if u64 (u_oend U - op) < LASTLITERALS then UError m else UNext m ip op) } }"

definition unsafe_iter :: "unsafe_env \<Rightarrow> mem \<Rightarrow> addr \<Rightarrow> addr \<Rightarrow> unsafe_out option" where
  "unsafe_iter U m ip op = do {
     t \<leftarrow> m ip;
     let token = uint t in do {
     (ll, ip) \<leftarrow> unsafe_length m (ip + 1) (token div 16);
     if u64 (u_oend U - op) < ll then Some (UError m)
     else do {
       m \<leftarrow> LZ4_memmove m op ip ll;
       let op = op + ll; ip = ip + ll in
       if u64 (u_oend U - op) < MFLIMIT then
         Some (if op = u_oend U then UBreak m ip else UError m)
       else unsafe_match U m ip op token } } }"

partial_function (option) unsafe_loop :: "unsafe_env \<Rightarrow> mem \<Rightarrow> addr \<Rightarrow> addr \<Rightarrow> (addr option \<times> mem) option" where
  "unsafe_loop U m ip op =
     Option.bind (unsafe_iter U m ip op) (\<lambda>r. case r of
        UNext m ip op \<Rightarrow> unsafe_loop U m ip op
      | UBreak m ip \<Rightarrow> Some (Some ip, m)
      | UError m \<Rightarrow> Some (None, m))"

declare read_long_length_no_check.simps [code] unsafe_loop.simps [code]

definition LZ4_decompress_unsafe_generic ::
  "mem \<Rightarrow> addr \<Rightarrow> addr \<Rightarrow> int \<Rightarrow> int \<Rightarrow> addr \<Rightarrow> int \<Rightarrow> (int \<times> mem) option" where
  "LZ4_decompress_unsafe_generic m istart ostart decompressedSize prefixSize dictStart dictSize = do {
     (e, m) \<leftarrow> unsafe_loop \<lparr>u_oend = ostart + decompressedSize, u_prefixStart = ostart - prefixSize,
                           u_dictStart = dictStart, u_dictSize = dictSize\<rparr> m istart ostart;
     Some (case e of Some ip \<Rightarrow> ip - istart | None \<Rightarrow> -1, m) }"

definition LZ4_decompress_fast :: "mem \<Rightarrow> addr \<Rightarrow> addr \<Rightarrow> int \<Rightarrow> (int \<times> mem) option" where
  "LZ4_decompress_fast m source dest originalSize = LZ4_decompress_unsafe_generic m source dest originalSize 0 0 0"

definition LZ4_decompress_fast_withPrefix64k :: "mem \<Rightarrow> addr \<Rightarrow> addr \<Rightarrow> int \<Rightarrow> (int \<times> mem) option" where
  "LZ4_decompress_fast_withPrefix64k m source dest originalSize =
     LZ4_decompress_unsafe_generic m source dest originalSize 65536 0 0"

definition LZ4_decompress_fast_extDict :: "mem \<Rightarrow> addr \<Rightarrow> addr \<Rightarrow> int \<Rightarrow> addr \<Rightarrow> int \<Rightarrow> (int \<times> mem) option" where
  "LZ4_decompress_fast_extDict m source dest originalSize dictStart dictSize =
     LZ4_decompress_unsafe_generic m source dest originalSize 0 dictStart dictSize"

definition LZ4_decompress_fast_usingDict :: "mem \<Rightarrow> addr \<Rightarrow> addr \<Rightarrow> int \<Rightarrow> addr \<Rightarrow> int \<Rightarrow> (int \<times> mem) option" where
  "LZ4_decompress_fast_usingDict m source dest originalSize dictStart dictSize =
     (if dictSize = 0 \<or> dictStart + dictSize = dest
      then LZ4_decompress_unsafe_generic m source dest originalSize dictSize 0 0
      else LZ4_decompress_fast_extDict m source dest originalSize dictStart dictSize)"

section \<open>Length fields\<close>

lemma read_long_length_ok:
  "spec_length (bytes m ip (iend - ip)) = Some (k, rest) \<Longrightarrow> valid m ip (iend - ip) \<Longrightarrow> 0 \<le> acc
   \<Longrightarrow> acc + 255 * (iend - ip) < 2 ^ 64 \<Longrightarrow>
   \<exists>ip'. read_long_length_no_check m ip acc = Some (acc + int k, ip') \<and> rest = bytes m ip' (iend - ip')
     \<and> ip < ip' \<and> ip' \<le> iend \<and> int k \<le> 255 * (ip' - ip)"
proof (induction "nat (iend - ip)" arbitrary: ip acc k)
  case 0
  then show ?case by simp
next
  case (Suc n)
  then have lt: "ip < iend" by simp
  obtain b where b: "m ip = Some b" using valid_at [OF Suc.prems(2), of ip] lt by auto
  have ub: "uint b \<le> 255" "0 \<le> uint b" by simp_all
  have cons: "bytes m ip (iend - ip) = b # bytes m (ip + 1) (iend - (ip + 1))"
    using bytes_Cons [of "iend - ip" m ip] b lt by (simp add: algebra_simps)
  have "x \<le> 255 * (iend - ip)" if "x \<le> 255" for x using that lt by simp
  from this [OF ub(1)] have "uint b \<le> 255 * (iend - ip)" .
  then have "acc + uint b < 2 ^ 64" using Suc.prems(4) by linarith
  then have w: "u64 (acc + uint b) = acc + uint b" using Suc.prems(3) ub by simp
  show ?case
  proof (cases "b = 255")
    case True
    then obtain k' where k: "spec_length (bytes m (ip + 1) (iend - (ip + 1))) = Some (k', rest)" "k = 255 + k'"
      using Suc.prems(1) by (auto simp: cons)
    have "valid m (ip + 1) (iend - (ip + 1))" using Suc.prems(2) by (rule valid_sub) auto
    moreover have u: "uint b = 255" using True by simp
    moreover have "n = nat (iend - (ip + 1))" using Suc.hyps(2) by simp
    ultimately obtain ip' where "read_long_length_no_check m (ip + 1) (acc + 255) = Some (acc + 255 + int k', ip')"
        "rest = bytes m ip' (iend - ip')" "ip + 1 < ip'" "ip' \<le> iend" "int k' \<le> 255 * (ip' - (ip + 1))"
      using Suc.hyps(1)[of "ip + 1" k' "acc + 255"] Suc.prems(3,4) k(1) by auto
    then show ?thesis using b u w k(2)
      by (subst read_long_length_no_check.simps) (auto simp: Let_def)
  next
    case False
    then have u: "uint b \<noteq> 255" by (simp add: uint_eq_255)
    have "k = unat b" "rest = bytes m (ip + 1) (iend - (ip + 1))" using Suc.prems(1) False by (auto simp: cons)
    then show ?thesis using b u w lt ub
      by (subst read_long_length_no_check.simps) (auto simp: Let_def)
  qed
qed

lemma unsafe_length_ok:
  assumes g: "get_length (nat k) (bytes m ip (iend - ip)) = Some (n, rest)" and v: "valid m ip (iend - ip)"
    and k: "0 \<le> k" "k < 16" and sz: "ip \<le> iend" "iend - ip < 2 ^ 31"
  obtains ip' where "unsafe_length m ip k = Some (int n, ip')" "rest = bytes m ip' (iend - ip')"
    "ip \<le> ip'" "ip' \<le> iend" "int n < 2 ^ 50"
proof (cases "k = 15")
  case True
  then obtain j where j: "spec_length (bytes m ip (iend - ip)) = Some (j, rest)" "n = 15 + j"
    using g by (auto simp: get_length_def)
  obtain ip' where r: "read_long_length_no_check m ip 0 = Some (int j, ip')" "rest = bytes m ip' (iend - ip')"
     "ip < ip'" "ip' \<le> iend" "int j \<le> 255 * (ip' - ip)"
    using read_long_length_ok [OF j(1) v, of 0] sz by auto
  then have "u64 (15 + int j) = int n" "int n < 2 ^ 50" using sz j(2) by simp_all
  then show thesis using that [of ip'] r True by (simp add: unsafe_length_def)
next
  case False
  then have "n = nat k" "rest = bytes m ip (iend - ip)" using g k by (auto simp: get_length_def nat_eq_iff split: if_splits)
  then show thesis using that [of ip] False k sz by (simp add: unsafe_length_def)
qed

section \<open>Sequences\<close>

text \<open>The buffers of the decoder as arguments of the generic one.\<close>

definition unsafe_of :: "dec_env \<Rightarrow> unsafe_env" where
  "unsafe_of E = \<lparr>u_oend = d_oend E, u_prefixStart = d_lowPrefix E, u_dictStart = d_dictStart E, u_dictSize = d_dictSize E\<rparr>"

lemma unsafe_of_simps [simp]:
  "u_oend (unsafe_of E) = d_oend E" "u_prefixStart (unsafe_of E) = d_lowPrefix E"
  "u_dictStart (unsafe_of E) = d_dictStart E" "u_dictSize (unsafe_of E) = d_dictSize E"
  by (simp_all add: unsafe_of_def)

lemma unsafe_copy_ok:
  assumes ok: "dec_ok E lo m" and ext: "d_dict E = usingExtDict" and op: "d_dst E \<le> op" "op + ml \<le> d_oend E"
    and off: "0 < off" "off \<le> op - lo" and ml: "0 \<le> ml"
  obtains m' where "unsafe_copy (unsafe_of E) m op off ml = Some (m', op + ml)"
    "frame m m' op (d_oend E)" "lz_match (vm E m') op ml off"
proof -
  let ?oe = "d_oend E" and ?lp = "d_lowPrefix E"
  have lp: "?lp \<le> d_dst E" "?lp = lo + d_dictSize E" using ok ext by (auto simp: dec_ok_def)
  have v: "valid m ?lp (?oe - ?lp)" using dec_okD(9)[OF ok] lp by simp
  show thesis
  proof (cases "off > op - ?lp")
    case False
    obtain m' where m': "copy_bytes m op (op - off) (op + ml) = Some m'" "copied m m' op (op - off) (op + ml) ?oe"
      by (rule bytewise.copy_overlap [OF v, of "op - off" op "op + ml"]) (use off False op ml in auto)
    have "lz_match (vm E m') op ml off"
      using lz_match_copied [OF m'(2)] off False by (intro lz_match_vm) auto
    then show thesis using that m'(1) copiedD(1)[OF m'(2)] False by (simp add: unsafe_copy_def)
  next
    case True
    define k where "k = ?lp - (op - off)"
    have pos: "op - off < ?lp" "0 < k" using True by (auto simp: k_def)
    have "d_dictSize E \<noteq> 0" using off(2) True lp by auto
    then have de: "d_dictEnd E = d_dictStart E + d_dictSize E" using ok ext by (auto simp: d_dictEnd_def dec_ok_def)
    have k': "off - (op - ?lp) = k" by (simp add: k_def)
    have unfold: "unsafe_copy (unsafe_of E) m op off ml =
      (if k > ml then map_option (\<lambda>m. (m, op + ml)) (LZ4_memmove m op (d_dictEnd E - k) ml)
       else do { m \<leftarrow> LZ4_memmove m op (d_dictEnd E - k) k; m \<leftarrow> copy_bytes m (op + k) ?lp (op + ml); Some (m, op + ml) })"
      using True by (cases "LZ4_memmove m op (d_dictEnd E - k) ml")
        (simp_all add: unsafe_copy_def Let_def k' de copy_bytes.simps [of _ "op + ml" _ "op + ml"])
    show thesis
    proof (cases "k > ml")
      case True
      note b = dict_blit_match [OF ok ext op(1) pos(1) off(2) ml _ op(2), folded k_def]
      have "frame m (blit m op (d_dictEnd E - k) ml) op ?oe" using b(4) True op(2) frame_widen by fastforce
      then show thesis using that unfold True b ml by (simp add: memmove_Some)
    next
      case False
      have kk: "0 \<le> k" "k \<le> ?lp - (op - off)" "op + k \<le> ?oe" using pos False op by (auto simp: k_def)
      note b = dict_blit_match [OF ok ext op(1) pos(1) off(2) kk, folded k_def]
      let ?m1 = "blit m op (d_dictEnd E - k) k"
      have v1: "valid ?m1 ?lp (?oe - ?lp)" using v unfolding frame_valid [OF b(4)] .
      obtain m2 where m2: "copy_bytes ?m1 (op + k) ?lp (op + ml) = Some m2" "copied ?m1 m2 (op + k) ?lp (op + ml) ?oe"
        by (rule bytewise.copy_overlap [OF v1, of ?lp "op + k" "op + ml"]) (use op lp kk False in auto)
      have "frame m m2 op ?oe" "lz_match (vm E m2) op ml off"
        using dict_continue [OF ok ext op(1) pos(1) off(2) _ op(2), of m2] m2(2) False by (auto simp: k_def)
      then show thesis using that unfold False b(1,2) kk m2(1) by (simp add: memmove_Some)
    qed
  qed
qed

lemma unsafe_match_ok:
  assumes ok: "dec_ok E lo m" and ext: "d_dict E = usingExtDict" and ip: "d_src E \<le> ip" "ip \<le> d_iend E"
    and op: "d_dst E \<le> op" and hl: "hist E lo m op = hl"
    and parse: "parse_match lits (nat (token mod 16)) (bytes m ip (d_iend E - ip)) = Some (Seq lits off ml rest)"
    and off: "0 < off" "off \<le> length hl" and fit: "op + int ml + 5 \<le> d_oend E"
  obtains m' ip' where "unsafe_match (unsafe_of E) m ip op token = Some (UNext m' ip' (op + int ml))"
    "frame m m' op (d_oend E)" "rest = bytes m ip' (d_iend E - ip')" "ip < ip'" "ip' \<le> d_iend E"
    "hist E lo m' (op + int ml) = copy_match off ml hl"
proof -
  have two: "ip + 2 \<le> d_iend E" using parse_match_length [OF parse] ip by simp
  have v: "valid m ip 2" "valid m (ip + 2) (d_iend E - (ip + 2))"
    using dec_okD(8)[OF ok] by (rule valid_sub; use ip two in simp)+
  obtain o1 where o1: "LZ4_readLE16 m ip = Some o1" "0 \<le> o1" "nat o1 = unat (the (m ip)) + 256 * unat (the (m (ip + 1)))"
    using v(1) by (rule readLE16_spec)
  have mt: "0 \<le> token mod 16" "token mod 16 < 16" by simp_all
  have p: "nat o1 = off" "4 \<le> ml"
      "get_length (nat (token mod 16)) (bytes m (ip + 2) (d_iend E - (ip + 2))) = Some (ml - 4, rest)"
    using parse bytes_two [OF two, of m] o1(3) by (auto simp: parse_match_def)
  obtain ip' where len: "unsafe_length m (ip + 2) (token mod 16) = Some (int (ml - 4), ip')" "rest = bytes m ip' (d_iend E - ip')"
      "ip + 2 \<le> ip'" "ip' \<le> d_iend E" "int (ml - 4) < 2 ^ 50"
    by (rule unsafe_length_ok [OF p(3) v(2) mt]) (use two ip dec_okD(15)[OF ok] in auto)
  have sz: "0 \<le> op" "d_oend E < 2 ^ 63" using dec_okD(12,14)[OF ok] op by auto
  have mw: "u64 (int (ml - 4) + 4) = int ml" using p(2) len(5) by simp
  have oi: "o1 = int off" using p(1) o1(2) by simp
  have lo: "d_lowPrefix E - d_dictSize E = lo" using ok ext by (auto simp: dec_ok_def)
  have oh: "int off \<le> op - lo" "0 < int off" using off hl dec_okD(2)[OF ok] op by auto
  obtain m' where m': "unsafe_copy (unsafe_of E) m op (int off) (int ml) = Some (m', op + int ml)"
    "frame m m' op (d_oend E)" "lz_match (vm E m') op (int ml) (int off)"
    by (rule unsafe_copy_ok [OF ok ext op _ oh(2,1), of "int ml"]) (use fit in auto)
  have h: "hist E lo m' (op + int ml) = copy_match off ml hl"
    using hist_match [OF ok m'(2) op m'(3) _ oh(1)] hl by simp
  have chk: "\<not> int off > op - d_lowPrefix E + d_dictSize E" using oh(1) lo by linarith
  have "\<not> u64 (d_oend E - op) < int ml" "\<not> u64 (d_oend E - (op + int ml)) < 5" using fit sz by simp_all
  then have "unsafe_match (unsafe_of E) m ip op token = Some (UNext m' ip' (op + int ml))"
    using o1(1) len(1) m'(1) mw chk unfolding unsafe_match_def oi by (simp add: Let_def)
  then show thesis using that m'(2) len(2,3,4) h by simp
qed

lemma unsafe_iter_ok:
  assumes ok: "dec_ok E lo m" and ext: "d_dict E = usingExtDict" and ip: "d_src E \<le> ip" "ip \<le> d_iend E"
    and op: "d_dst E \<le> op" "op \<le> d_oend E" and h: "hist E lo m op = h"
    and parse: "parse_sequence (bytes m ip (d_iend E - ip)) = Some p"
  shows "\<And>lits. p = Last lits \<Longrightarrow> op + int (length lits) = d_oend E \<Longrightarrow>
      \<exists>m'. unsafe_iter (unsafe_of E) m ip op = Some (UBreak m' (d_iend E)) \<and> frame m m' op (d_oend E)
        \<and> hist E lo m' (d_oend E) = h @ lits"
    and "\<And>lits off ml rest. p = Seq lits off ml rest \<Longrightarrow> 0 < off \<Longrightarrow> off \<le> length h + length lits
      \<Longrightarrow> op + int (length lits) + 12 \<le> d_oend E \<Longrightarrow> op + int (length lits) + int ml + 5 \<le> d_oend E \<Longrightarrow>
      \<exists>m' ip' op'. unsafe_iter (unsafe_of E) m ip op = Some (UNext m' ip' op') \<and> frame m m' op (d_oend E)
        \<and> rest = bytes m' ip' (d_iend E - ip') \<and> ip < ip' \<and> ip' \<le> d_iend E \<and> op' = op + int (length lits) + int ml
        \<and> hist E lo m' op' = copy_match off ml (h @ lits)"
proof -
  have lt: "ip < d_iend E" using parse ip by (cases "ip = d_iend E") auto
  obtain t where t: "m ip = Some t" using valid_at [OF dec_okD(8)[OF ok], of ip] ip lt by auto
  have v1: "valid m (ip + 1) (d_iend E - (ip + 1))" using dec_okD(8)[OF ok] by (rule valid_sub) (use ip lt in auto)
  obtain ll bs where g: "get_length (nat (uint t div 16)) (bytes m (ip + 1) (d_iend E - (ip + 1))) = Some (ll, bs)"
      "parse_literals ll (nat (uint t mod 16)) bs = Some p"
    using parse by (auto simp: token_step [of m ip t, OF t lt] token_fields_uint(1,2) split: option.splits)
  obtain ip1 where i1: "unsafe_length m (ip + 1) (uint t div 16) = Some (int ll, ip1)" "bs = bytes m ip1 (d_iend E - ip1)"
      "ip + 1 \<le> ip1" "ip1 \<le> d_iend E" "int ll < 2 ^ 50"
    by (rule unsafe_length_ok [OF g(1) v1 token_fields_uint(3,4)]) (use ip lt dec_okD(15)[OF ok] in auto)
  have sz: "0 \<le> op" "d_oend E < 2 ^ 63" using dec_okD(12,14)[OF ok] op by auto
  have moved: "\<exists>m'. LZ4_memmove m op ip1 (int ll) = Some m' \<and> frame m m' op (d_oend E)
      \<and> hist E lo m' (op + int ll) = h @ take ll bs" if fit: "op + int ll \<le> d_oend E" and ll: "ll \<le> length bs"
  proof -
    obtain m' where "LZ4_memmove m op ip1 (int ll) = Some m'" "frame m m' op (d_oend E)"
        "hist E lo m' (op + int ll) = hist E lo m op @ bytes m ip1 (int ll)"
      by (rule literals_moved [OF ok _ _ op(1) fit, of ip1]) (use ip i1 ll in auto)
    moreover have "bytes m ip1 (int ll) = take ll bs"
      using take_bytes [of "int ll" "d_iend E - ip1" m ip1] ll i1 by simp
    ultimately show ?thesis using h by auto
  qed
  { fix lits assume p: "p = Last lits" and fit: "op + int (length lits) = d_oend E"
    from g(2) p have "length bs = ll" "lits = bs" by (auto elim: parse_literals_cases)
    moreover from this have "ip1 + int ll = d_iend E" using i1(2,4) by auto
    ultimately show "\<exists>m'. unsafe_iter (unsafe_of E) m ip op = Some (UBreak m' (d_iend E)) \<and> frame m m' op (d_oend E)
        \<and> hist E lo m' (d_oend E) = h @ lits"
      using moved fit t i1(1) sz by (auto simp: unsafe_iter_def Let_def) }
  { fix lits off ml rest assume p: "p = Seq lits off ml rest" and off: "0 < off" "off \<le> length h + length lits"
      and fit: "op + int (length lits) + 12 \<le> d_oend E" "op + int (length lits) + int ml + 5 \<le> d_oend E"
    from g(2) p have l: "lits = take ll bs" "ll < length bs"
        "parse_match lits (nat (uint t mod 16)) (drop ll bs) = Some (Seq lits off ml rest)"
      by (auto simp: parse_literals_def split: if_splits dest: parse_match_lits)
    have ll: "int (length lits) = int ll" using l by simp
    obtain m1 where m1: "LZ4_memmove m op ip1 (int ll) = Some m1" "frame m m1 op (d_oend E)"
        "hist E lo m1 (op + int ll) = h @ lits"
      using moved l fit ll by auto
    have ok1: "dec_ok E lo m1" using ok m1(2) by (rule dec_ok_frame)
    have i2: "ip1 + int ll \<le> d_iend E" using l(2) i1(2,4) by auto
    have "drop ll bs = bytes m (ip1 + int ll) (d_iend E - (ip1 + int ll))"
      using drop_bytes [of "int ll" "d_iend E - ip1" m ip1] i1(2) i2 by (simp add: algebra_simps)
    then have "drop ll bs = bytes m1 (ip1 + int ll) (d_iend E - (ip1 + int ll))"
      using src_bytes_frame [OF ok m1(2) op(1), of "ip1 + int ll"] ip i1(3) by simp
    note pm = l(3)[unfolded this]
    obtain m' ip' where r: "unsafe_match (unsafe_of E) m1 (ip1 + int ll) (op + int ll) (uint t) = Some (UNext m' ip' (op + int ll + int ml))"
      "frame m1 m' (op + int ll) (d_oend E)" "rest = bytes m1 ip' (d_iend E - ip')" "ip1 + int ll < ip'" "ip' \<le> d_iend E"
      "hist E lo m' (op + int ll + int ml) = copy_match off ml (h @ lits)"
      by (rule unsafe_match_ok [OF ok1 ext _ _ _ m1(3) pm off(1)]) (use ip i1(3) i2 op off fit ll in auto)
    have "frame m m' op (d_oend E)" using m1(2) r(2) by (rule frame_join) auto
    moreover have "rest = bytes m' ip' (d_iend E - ip')"
      using src_bytes_frame [OF ok1 r(2), of ip'] r(3,4) op ip i1(3) by simp
    moreover have "unsafe_iter (unsafe_of E) m ip op = Some (UNext m' ip' (op + int ll + int ml))"
      using t i1(1) m1(1) r(1) fit ll sz by (simp add: unsafe_iter_def Let_def)
    ultimately show "\<exists>m' ip' op'. unsafe_iter (unsafe_of E) m ip op = Some (UNext m' ip' op') \<and> frame m m' op (d_oend E)
        \<and> rest = bytes m' ip' (d_iend E - ip') \<and> ip < ip' \<and> ip' \<le> d_iend E \<and> op' = op + int (length lits) + int ml
        \<and> hist E lo m' op' = copy_match off ml (h @ lits)"
      using r(4-6) i1(3) ll by auto }
qed

section \<open>Blocks\<close>

lemma unsafe_loop_ok:
  assumes ext: "d_dict E = usingExtDict"
  shows "dec_ok E lo m \<Longrightarrow> d_src E \<le> ip \<Longrightarrow> ip \<le> d_iend E \<Longrightarrow> d_dst E \<le> op \<Longrightarrow> op \<le> d_oend E \<Longrightarrow> hist E lo m op = h
     \<Longrightarrow> bytes m ip (d_iend E - ip) = bs \<Longrightarrow> conforming (Some (cap E lo)) h bs \<Longrightarrow> nonzero_offsets bs
     \<Longrightarrow> decode_block h bs = Some d \<Longrightarrow> int (length d) = cap E lo
     \<Longrightarrow> \<exists>m'. unsafe_loop (unsafe_of E) m ip op = Some (Some (d_iend E), m') \<and> frame m m' op (d_oend E)
          \<and> hist E lo m' (d_oend E) = d"
proof (induction h bs arbitrary: m ip op rule: block_induct)
  case (none h bs)
  then show ?case by (simp add: conforming_unfold)
next
  case (last_seq h bs lits)
  note ok = last_seq.prems(1)
  have l: "int (length h) = op - lo" using last_seq.prems(6) dec_okD(2)[OF ok] last_seq.prems(4) by auto
  have d: "d = h @ lits" "op + int (length lits) = d_oend E"
    using last_seq.prems(10,11) last_seq.hyps l by (auto simp: decode_block_unfold cap_def)
  obtain m' where "unsafe_iter (unsafe_of E) m ip op = Some (UBreak m' (d_iend E))" "frame m m' op (d_oend E)"
      "hist E lo m' (d_oend E) = h @ lits"
    using unsafe_iter_ok(1)[OF ok ext last_seq.prems(2-6), of "Last lits" lits] last_seq.hyps last_seq.prems(7) d(2) by auto
  then show ?case using d(1) by (subst unsafe_loop.simps) simp
next
  case (seq h bs lits off ml rest)
  note ok = seq.prems(1)
  have l: "int (length h) = op - lo" using seq.prems(6) dec_okD(2)[OF ok] seq.prems(4) by auto
  have c: "off \<le> length h + length lits" "op + int (length lits) + 12 \<le> d_oend E"
      "op + int (length lits) + int ml + 5 \<le> d_oend E" "conforming (Some (cap E lo)) (copy_match off ml (h @ lits)) rest"
    using seq.prems(8) seq.hyps l by (auto simp: conforming_unfold cap_def)
  have nz: "0 < off" "nonzero_offsets rest" using seq.prems(9) seq.hyps by (auto simp: nonzero_offsets_unfold)
  have d: "decode_block (copy_match off ml (h @ lits)) rest = Some d" using seq.prems(10) seq.hyps c(1) by (simp add: decode_block_unfold)
  obtain m1 ip1 op1 where 1: "unsafe_iter (unsafe_of E) m ip op = Some (UNext m1 ip1 op1)" "frame m m1 op (d_oend E)"
      "rest = bytes m1 ip1 (d_iend E - ip1)" "ip < ip1" "ip1 \<le> d_iend E" "op1 = op + int (length lits) + int ml"
      "hist E lo m1 op1 = copy_match off ml (h @ lits)"
    using unsafe_iter_ok(2)[OF ok ext seq.prems(2-6), of "Seq lits off ml rest" lits off ml rest] seq.hyps seq.prems(7) c nz(1)
    by auto
  have ok1: "dec_ok E lo m1" using ok 1(2) by (rule dec_ok_frame)
  obtain m' where m': "unsafe_loop (unsafe_of E) m1 ip1 op1 = Some (Some (d_iend E), m')" "frame m1 m' op1 (d_oend E)"
      "hist E lo m' (d_oend E) = d"
    using seq.IH [OF c(1) ok1 _ 1(5) _ _ 1(7) 1(3)[symmetric] c(4) nz(2) d seq.prems(11)] 1(4,6) seq.prems(2,4) c(3) by auto
  have "frame m m' op (d_oend E)" by (rule frame_join [OF 1(2) m'(2)]) (use 1(6) in auto)
  then show ?case using 1(1) m' by (subst unsafe_loop.simps) simp
qed

text \<open>With a prefix of \<open>k\<close> bytes before the output and an external dictionary.\<close>

lemma unsafe_generic_ok:
  assumes io: "io_ok m src dst n osz" and k: "0 \<le> k" "valid m (dst - k) k" and ro: "ro_ok m ds dz dst osz"
    and D: "bytes m ds dz @ bytes m (dst - k) k = D"
    and c: "conforming (Some (int (length D) + osz)) D (bytes m src n)" "nonzero_offsets (bytes m src n)"
    and d: "decode_block D (bytes m src n) = Some (D @ d)" "int (length d) = osz"
  shows "\<exists>m'. LZ4_decompress_unsafe_generic m src dst osz k ds dz = Some (n, m')
     \<and> frame m m' dst (dst + osz) \<and> bytes m' dst osz = d"
proof -
  let ?E = "dec_args src dst n osz decode_full_block usingExtDict (dst - k) ds dz" and ?lo = "dst - k - dz"
  have ok: "dec_ok ?E ?lo m" using dec_ok_ext [OF io k ro] .
  have h: "hist ?E ?lo m dst = D" using hist_ext [of ?E dst m] k ro D by (auto simp: ro_ok_def)
  have sz: "0 \<le> n" "0 \<le> osz" using io by (auto simp: io_ok_def)
  have l: "int (length D) = k + dz" using arg_cong [OF h, of length] k ro by (auto simp: ro_ok_def)
  have cap: "cap ?E ?lo = int (length D) + osz" using l by (simp add: cap_def)
  obtain m' where m': "unsafe_loop (unsafe_of ?E) m src dst = Some (Some (src + n), m')" "frame m m' dst (dst + osz)"
      "hist ?E ?lo m' (dst + osz) = D @ d"
    using unsafe_loop_ok [of ?E ?lo m src dst D "bytes m src n" "D @ d"] ok h c d sz cap by auto
  have "hist ?E ?lo m' (dst + osz) = hist ?E ?lo m' dst @ bytes m' dst osz"
    using hist_append [OF dec_ok_frame [OF ok m'(2)], of dst osz] sz by simp
  moreover have "hist ?E ?lo m' dst = D" using hist_frame [OF ok, of m' dst dst] m'(2) h by simp
  ultimately have "bytes m' dst osz = d" using m'(3) by simp
  then show ?thesis using m'(1,2) by (simp add: LZ4_decompress_unsafe_generic_def unsafe_of_def)
qed

end
