(* ===== verification/LZ4_DecStream.thy ===== *)
theory LZ4_DecStream
  imports LZ4_DecUnsafe
begin

text \<open>
  The streaming decoder: \<open>LZ4_streamDecode_t\<close> records where the previously decoded data is.  Its
  operations keep that record such that the next block finds the last 64 KB of the stream.
\<close>

section \<open>State and operations\<close>

record LZ4_streamDecode_t =
  externalDict :: addr
  prefixEnd :: addr
  extDictSize :: int
  prefixSize :: int

text \<open>A freshly allocated object is zeroed.\<close>

definition LZ4_createStreamDecode :: LZ4_streamDecode_t where
  "LZ4_createStreamDecode = \<lparr>externalDict = 0, prefixEnd = 0, extDictSize = 0, prefixSize = 0\<rparr>"

definition LZ4_setStreamDecode :: "LZ4_streamDecode_t \<Rightarrow> addr \<Rightarrow> int \<Rightarrow> int \<times> LZ4_streamDecode_t" where
  "LZ4_setStreamDecode lz4sd dictionary dictSize =
     (1, lz4sd\<lparr>prefixSize := u64 dictSize,
                prefixEnd := (if dictSize \<noteq> 0 then dictionary + dictSize else dictionary),
                externalDict := 0, extDictSize := 0\<rparr>)"

definition LZ4_DECODER_RING_BUFFER_SIZE :: "int \<Rightarrow> int" where
  "LZ4_DECODER_RING_BUFFER_SIZE maxBlockSize = 65536 + 14 + maxBlockSize"

definition LZ4_decoderRingBufferSize :: "int \<Rightarrow> int" where
  "LZ4_decoderRingBufferSize maxBlockSize =
     (if maxBlockSize < 0 then 0
      else if maxBlockSize > LZ4_MAX_INPUT_SIZE then 0
      else let maxBlockSize = (if maxBlockSize < 16 then 16 else maxBlockSize) in
        LZ4_DECODER_RING_BUFFER_SIZE maxBlockSize)"

definition LZ4_decompress_safe_continue ::
  "LZ4_streamDecode_t \<Rightarrow> mem \<Rightarrow> addr \<Rightarrow> addr \<Rightarrow> int \<Rightarrow> int \<Rightarrow> (int \<times> LZ4_streamDecode_t \<times> mem) option" where
  "LZ4_decompress_safe_continue lz4sd m source dest compressedSize maxOutputSize =
     (if prefixSize lz4sd = 0 then do {
        (result, m) \<leftarrow> LZ4_decompress_safe m source dest compressedSize maxOutputSize;
        if result \<le> 0 then Some (result, lz4sd, m)
        else Some (result, lz4sd\<lparr>prefixSize := result, prefixEnd := dest + result\<rparr>, m) }
      else if prefixEnd lz4sd = dest then do {
        (result, m) \<leftarrow>
          (if prefixSize lz4sd \<ge> 65536 - 1
           then LZ4_decompress_safe_withPrefix64k m source dest compressedSize maxOutputSize
           else if extDictSize lz4sd = 0
           then LZ4_decompress_safe_withSmallPrefix m source dest compressedSize maxOutputSize (prefixSize lz4sd)
           else LZ4_decompress_safe_doubleDict m source dest compressedSize maxOutputSize
                  (prefixSize lz4sd) (externalDict lz4sd) (extDictSize lz4sd));
        if result \<le> 0 then Some (result, lz4sd, m)
        else Some (result, lz4sd\<lparr>prefixSize := prefixSize lz4sd + result, prefixEnd := prefixEnd lz4sd + result\<rparr>, m) }
      else
        let lz4sd = lz4sd\<lparr>extDictSize := prefixSize lz4sd, externalDict := prefixEnd lz4sd - prefixSize lz4sd\<rparr> in do {
        (result, m) \<leftarrow> LZ4_decompress_safe_forceExtDict m source dest compressedSize maxOutputSize
                         (externalDict lz4sd) (extDictSize lz4sd);
        if result \<le> 0 then Some (result, lz4sd, m)
        else Some (result, lz4sd\<lparr>prefixSize := result, prefixEnd := dest + result\<rparr>, m) })"

definition LZ4_decompress_fast_continue ::
  "LZ4_streamDecode_t \<Rightarrow> mem \<Rightarrow> addr \<Rightarrow> addr \<Rightarrow> int \<Rightarrow> (int \<times> LZ4_streamDecode_t \<times> mem) option" where
  "LZ4_decompress_fast_continue lz4sd m source dest originalSize =
     (if prefixSize lz4sd = 0 then do {
        (result, m) \<leftarrow> LZ4_decompress_fast m source dest originalSize;
        if result \<le> 0 then Some (result, lz4sd, m)
        else Some (result, lz4sd\<lparr>prefixSize := originalSize, prefixEnd := dest + originalSize\<rparr>, m) }
      else if prefixEnd lz4sd = dest then do {
        (result, m) \<leftarrow> LZ4_decompress_unsafe_generic m source dest originalSize
                         (prefixSize lz4sd) (externalDict lz4sd) (extDictSize lz4sd);
        if result \<le> 0 then Some (result, lz4sd, m)
        else Some (result, lz4sd\<lparr>prefixSize := prefixSize lz4sd + originalSize,
                                 prefixEnd := prefixEnd lz4sd + originalSize\<rparr>, m) }
      else
        let lz4sd = lz4sd\<lparr>extDictSize := prefixSize lz4sd, externalDict := prefixEnd lz4sd - prefixSize lz4sd\<rparr> in do {
        (result, m) \<leftarrow> LZ4_decompress_fast_extDict m source dest originalSize (externalDict lz4sd) (extDictSize lz4sd);
        if result \<le> 0 then Some (result, lz4sd, m)
        else Some (result, lz4sd\<lparr>prefixSize := originalSize, prefixEnd := dest + originalSize\<rparr>, m) })"

section \<open>What the state remembers\<close>

text \<open>The history a block to be decoded at \<open>dest\<close> may refer to.\<close>

definition sd_hist :: "mem \<Rightarrow> LZ4_streamDecode_t \<Rightarrow> addr \<Rightarrow> byte list" where
  "sd_hist m sd dest =
     (let prefix = bytes m (prefixEnd sd - prefixSize sd) (prefixSize sd) in
      if prefixSize sd \<noteq> 0 \<and> prefixEnd sd = dest \<and> prefixSize sd < 65535
      then bytes m (externalDict sd) (extDictSize sd) @ prefix
      else prefix)"

text \<open>The recorded segments are still in place, and not where the block is to be decoded.\<close>

definition sd_ok :: "mem \<Rightarrow> LZ4_streamDecode_t \<Rightarrow> addr \<Rightarrow> int \<Rightarrow> bool" where
  "sd_ok m sd dest room \<longleftrightarrow>
     0 \<le> prefixSize sd \<and> 0 \<le> extDictSize sd \<and> (prefixSize sd = 0 \<longrightarrow> extDictSize sd = 0) \<and>
     (prefixSize sd \<noteq> 0 \<longrightarrow> ro_ok m (prefixEnd sd - prefixSize sd) (prefixSize sd) dest room) \<and>
     (extDictSize sd \<noteq> 0 \<and> prefixEnd sd = dest \<and> prefixSize sd < 65535
        \<longrightarrow> ro_ok m (externalDict sd) (extDictSize sd) dest room)"

text \<open>A list \<open>T\<close> of everything decoded so far, of which at least the last 65535 bytes are known.\<close>

definition window_of :: "byte list \<Rightarrow> byte list \<Rightarrow> bool" where
  "window_of h T \<longleftrightarrow> (\<exists>p. T = p @ h \<and> (p = [] \<or> 65535 \<le> length h))"

lemma window_decode:
  assumes "window_of h T" "decode_block h bs = Some (h @ d)"
  shows "decode_block T bs = Some (T @ d)"
  using assms decode_block_window [of h] by (auto simp: window_of_def)

lemma window_append:
  assumes "window_of h T" "window_of h' (h @ d)" shows "window_of h' (T @ d)"
proof -
  from assms obtain p q where p: "T = p @ h" "p = [] \<or> 65535 \<le> length h" and q: "h @ d = q @ h'" "q = [] \<or> 65535 \<le> length h'"
    by (auto simp: window_of_def)
  have "T @ d = (p @ q) @ h'" using p q by simp
  moreover have "p @ q = [] \<or> 65535 \<le> length h'"
    using p(2) q arg_cong [OF q(1), of length] by auto
  ultimately show ?thesis by (auto simp: window_of_def)
qed

text \<open>A segment that is neither in nor straddling the output buffer keeps its bytes.\<close>

lemma ro_bytes: "ro_ok m a n dst room \<Longrightarrow> frame m m' dst (dst + room) \<Longrightarrow> bytes m' a n = bytes m a n"
  by (rule bytes_cong) (auto simp: ro_ok_def frame_def)

section \<open>One block of a stream\<close>

text \<open>After a block of \<open>r\<close> bytes at \<open>dst\<close>, the state remembers the previous history and the block.\<close>

lemma sd_hist_rolling:
  assumes ok: "sd_ok m sd dst room" and fr: "frame m m' dst (dst + room)" and r: "0 < r"
    and roll: "prefixSize sd \<noteq> 0" "prefixEnd sd = dst"
  shows "window_of (sd_hist m' (sd\<lparr>prefixSize := prefixSize sd + r, prefixEnd := dst + r\<rparr>) (dst + r))
           (sd_hist m sd dst @ bytes m' dst r)"
proof -
  let ?k = "prefixSize sd" and ?e = "bytes m (externalDict sd) (extDictSize sd)"
  have k: "0 < ?k" "ro_ok m (dst - ?k) ?k dst room" using ok roll by (auto simp: sd_ok_def)
  have p: "bytes m' (dst - ?k) (?k + r) = bytes m (dst - ?k) ?k @ bytes m' dst r"
    using bytes_append [of ?k r m' "dst - ?k"] ro_bytes [OF k(2) fr] k(1) r by simp
  have e: "bytes m' (externalDict sd) (extDictSize sd) = ?e" if "?k < 65535"
    using ok roll that ro_bytes [OF _ fr, of "externalDict sd" "extDictSize sd"]
    by (cases "extDictSize sd = 0") (auto simp: sd_ok_def)
  show ?thesis
    using p e k r roll by (auto simp: sd_hist_def window_of_def Let_def)
qed

lemma sd_hist_switch:
  assumes ok: "sd_ok m sd dst room" and fr: "frame m m' dst (dst + room)" and r: "0 < r"
    and sw: "prefixSize sd = 0 \<or> prefixEnd sd \<noteq> dst"
    and ext: "externalDict sd' = prefixEnd sd - prefixSize sd \<or> prefixSize sd = 0" "extDictSize sd' = prefixSize sd"
  shows "window_of (sd_hist m' (sd'\<lparr>prefixSize := r, prefixEnd := dst + r\<rparr>) (dst + r)) (sd_hist m sd dst @ bytes m' dst r)"
proof -
  have "sd_hist m sd dst = bytes m (prefixEnd sd - prefixSize sd) (prefixSize sd)"
    using sw by (auto simp: sd_hist_def Let_def)
  moreover have "bytes m' (externalDict sd') (extDictSize sd') = bytes m (prefixEnd sd - prefixSize sd) (prefixSize sd)"
    using ok ext ro_bytes [OF _ fr] by (cases "prefixSize sd = 0") (auto simp: sd_ok_def)
  ultimately show ?thesis using r by (auto simp: sd_hist_def window_of_def Let_def)
qed

lemma safe_continue_step:
  assumes io: "io_ok m src dst n room" and ok: "sd_ok m sd dst room"
  obtains r sd' m' where "LZ4_decompress_safe_continue sd m src dst n room = Some (r, sd', m')"
    "decoded (sd_hist m sd dst) (bytes m src n) dst room m r m'"
    "0 < r \<Longrightarrow> prefixEnd sd' = dst + r \<and> window_of (sd_hist m' sd' (dst + r)) (sd_hist m sd dst @ bytes m' dst r)"
proof -
  let ?k = "prefixSize sd"
  have k: "0 \<le> ?k" "?k \<noteq> 0 \<Longrightarrow> ro_ok m (prefixEnd sd - ?k) ?k dst room" using ok by (auto simp: sd_ok_def)
  consider (first) "?k = 0" | (roll) "?k \<noteq> 0" "prefixEnd sd = dst" | (switch) "?k \<noteq> 0" "prefixEnd sd \<noteq> dst" by blast
  then show thesis
  proof cases
    case first
    then have h: "sd_hist m sd dst = []" "extDictSize sd = 0" using ok by (auto simp: sd_hist_def sd_ok_def)
    obtain r m' where r: "LZ4_decompress_safe m src dst n room = Some (r, m')" "decoded [] (bytes m src n) dst room m r m'"
      using plain.decodes [OF io] by blast
    have fr: "frame m m' dst (dst + room)" using r(2) by (simp add: decoded_def)
    show thesis
      using that [of r "if r \<le> 0 then sd else sd\<lparr>prefixSize := r, prefixEnd := dst + r\<rparr>" m'] r first h
        sd_hist_switch [OF ok fr, of r sd]
      by (simp add: LZ4_decompress_safe_continue_def)
  next
    case roll
    have v: "valid m (dst - ?k) ?k" using k roll by (simp add: ro_ok_def)
    let ?dec = "if ?k \<ge> 65536 - 1 then LZ4_decompress_safe_withPrefix64k m src dst n room
       else if extDictSize sd = 0 then LZ4_decompress_safe_withSmallPrefix m src dst n room ?k
       else LZ4_decompress_safe_doubleDict m src dst n room ?k (externalDict sd) (extDictSize sd)"
    have "\<exists>r m'. ?dec = Some (r, m') \<and> decoded (sd_hist m sd dst) (bytes m src n) dst room m r m'"
      using prefix64k.decodes [OF io, of ?k] small.decodes [OF io, of ?k]
        double.decodes [OF io, of ?k "externalDict sd" "extDictSize sd"] ok v k roll
      by (auto simp: sd_hist_def sd_ok_def Let_def)
    then obtain r m' where r: "?dec = Some (r, m')" "decoded (sd_hist m sd dst) (bytes m src n) dst room m r m'" by blast
    have fr: "frame m m' dst (dst + room)" using r(2) by (simp add: decoded_def)
    show thesis
      using that [of r "if r \<le> 0 then sd else sd\<lparr>prefixSize := ?k + r, prefixEnd := dst + r\<rparr>" m'] r roll
        sd_hist_rolling [OF ok fr, of r]
      by (simp add: LZ4_decompress_safe_continue_def)
  next
    case switch
    let ?sd = "sd\<lparr>extDictSize := ?k, externalDict := prefixEnd sd - ?k\<rparr>"
    have h: "sd_hist m sd dst = bytes m (prefixEnd sd - ?k) ?k" using switch by (simp add: sd_hist_def)
    obtain r m' where r: "LZ4_decompress_safe_forceExtDict m src dst n room (prefixEnd sd - ?k) ?k = Some (r, m')"
        "decoded (sd_hist m sd dst) (bytes m src n) dst room m r m'"
      using ext.decodes [OF io k(2)] switch h by auto
    have fr: "frame m m' dst (dst + room)" using r(2) by (simp add: decoded_def)
    show thesis
      using that [of r "if r \<le> 0 then ?sd else ?sd\<lparr>prefixSize := r, prefixEnd := dst + r\<rparr>" m'] r switch
        sd_hist_switch [OF ok fr, of r ?sd]
      by (simp add: LZ4_decompress_safe_continue_def)
  qed
qed

end
