(* ===== verification/LZ4_DecProps.thy ===== *)
theory LZ4_DecProps
  imports LZ4_DecStream
begin

text \<open>
  What the decoding functions of lz4.c promise, stated over the functions themselves, each with an
  instance at a concrete memory.
\<close>

section \<open>Sample buffers\<close>

text \<open>A block at address 1000, an output buffer of 64 bytes at 2000, a dictionary at 3000.\<close>

definition sample_mem :: "byte list \<Rightarrow> mem" where
  "sample_mem bs = mem_of 1000 bs ++ (mem_of 2000 (replicate 64 0) ++ mem_of 3000 [1, 2, 3, 4, 5, 6, 7, 8])"

lemma sample_io:
  "0 \<le> n \<Longrightarrow> n \<le> int (length bs) \<Longrightarrow> n \<le> 100 \<Longrightarrow> 0 \<le> room \<Longrightarrow> room \<le> 64 \<Longrightarrow> io_ok (sample_mem bs) 1000 2000 n room"
  using valid_add_left [OF valid_mem_of, of n bs 1000] valid_add_left [OF valid_mem_of, of room "replicate 64 0" 2000]
  by (auto simp: io_ok_def sample_mem_def simp del: map_add_assoc)

lemma sample_ro: "0 \<le> room \<Longrightarrow> room \<le> 64 \<Longrightarrow> ro_ok (sample_mem bs) 3000 8 2000 room"
  by (auto simp: ro_ok_def sample_mem_def)

lemma sample_block: "length bs \<le> 100 \<Longrightarrow> bytes (sample_mem bs) 1000 (int (length bs)) = bs"
  by (rule nth_equalityI) (auto simp: sample_mem_def mem_of_def map_add_def)

lemma sample_dict: "length bs \<le> 100 \<Longrightarrow> bytes (sample_mem bs) 3000 8 = [1, 2, 3, 4, 5, 6, 7, 8]"
  by (rule nth_equalityI) (auto simp: sample_mem_def mem_of_def map_add_def)

text \<open>Twenty bytes: a literal, a match of fourteen bytes at distance 1, five literals.\<close>

definition sample_seq :: "byte list" where "sample_seq = [0x1A, 97, 1, 0, 0x50, 98, 99, 100, 101, 102]"

text \<open>Twenty bytes: a match of fifteen bytes at distance 8, from the dictionary, five literals.\<close>

definition sample_dictseq :: "byte list" where "sample_dictseq = [0x0B, 8, 0, 0x50, 98, 99, 100, 101, 102]"

lemma sample_seq_bytes: "bytes (sample_mem sample_seq) 1000 10 = sample_seq"
  using sample_block [of sample_seq] by (simp add: sample_seq_def)

lemma sample_dictseq_bytes: "bytes (sample_mem sample_dictseq) 1000 9 = sample_dictseq"
  using sample_block [of sample_dictseq] by (simp add: sample_dictseq_def)

lemma sample_seq_conforming:
  "conforming (Some 20) [] sample_seq" "conforming None [] sample_seq" "nonzero_offsets sample_seq"
  "decode_block [] sample_seq = Some (replicate 15 97 @ [98, 99, 100, 101, 102])"
  unfolding sample_seq_def by code_simp+

lemma sample_dictseq_conforming:
  "conforming (Some 28) [1, 2, 3, 4, 5, 6, 7, 8] sample_dictseq"
  "conforming None [1, 2, 3, 4, 5, 6, 7, 8] sample_dictseq" "nonzero_offsets sample_dictseq"
  "decode_block [1, 2, 3, 4, 5, 6, 7, 8] sample_dictseq
     = Some ([1, 2, 3, 4, 5, 6, 7, 8] @ [1, 2, 3, 4, 5, 6, 7, 8, 1, 2, 3, 4, 5, 6, 7] @ [98, 99, 100, 101, 102])"
  unfolding sample_dictseq_def by code_simp+

section \<open>The full decoders\<close>

text \<open>(C1) Memory safety of \<open>LZ4_decompress_safe\<close>: for every content of the input buffer, also a
  malicious one, it returns after finitely many steps, without reading outside of the input buffer
  and the output written so far, without writing outside of the output buffer, and with a result of
  at most the size of the output buffer.\<close>

theorem decompress_safe_memory_safe:
  assumes "io_ok m src dst n room"
  shows "\<exists>r m'. LZ4_decompress_safe m src dst n room = Some (r, m') \<and> r \<le> room \<and> frame m m' dst (dst + room)"
  using plain.memory_safe [OF assms] by simp

theorem decompress_safe_memory_safe_witness:
  "\<exists>r m'. LZ4_decompress_safe (sample_mem [0xF0, 255, 255]) 1000 2000 3 64 = Some (r, m') \<and> r \<le> 64
     \<and> frame (sample_mem [0xF0, 255, 255]) m' 2000 2064"
  using decompress_safe_memory_safe [OF sample_io [of 3 "[0xF0, 255, 255]" 64]] by simp

text \<open>(C2) Soundness of \<open>LZ4_decompress_safe\<close>: a result \<open>r\<close> that is not negative is the size of the
  decoded block, and the output buffer holds the block as the reference decoder decodes it.\<close>

theorem decompress_safe_sound:
  assumes "io_ok m src dst n room" "LZ4_decompress_safe m src dst n room = Some (r, m')" "0 \<le> r"
  shows "decode_block [] (bytes m src n) = Some (bytes m' dst r)"
  using plain.sound [OF assms(1) _ assms(2,3)] by simp

lemma sample_seq_accepted:
  "\<exists>m'. LZ4_decompress_safe (sample_mem sample_seq) 1000 2000 10 20 = Some (20, m')"
proof -
  have "io_ok (sample_mem sample_seq) 1000 2000 10 20" by (rule sample_io) (simp_all add: sample_seq_def)
  from plain.accepts [OF this] show ?thesis using sample_seq_conforming(1,4) by (auto simp: sample_seq_bytes)
qed

theorem decompress_safe_sound_witness:
  "\<exists>m'. LZ4_decompress_safe (sample_mem sample_seq) 1000 2000 10 20 = Some (20, m')
     \<and> decode_block [] (bytes (sample_mem sample_seq) 1000 10) = Some (bytes m' 2000 20)"
proof -
  obtain m' where m': "LZ4_decompress_safe (sample_mem sample_seq) 1000 2000 10 20 = Some (20, m')"
    using sample_seq_accepted by blast
  have "io_ok (sample_mem sample_seq) 1000 2000 10 20" by (rule sample_io) (simp_all add: sample_seq_def)
  from decompress_safe_sound [OF this m'] m' show ?thesis by auto
qed

text \<open>(C3) Completeness of \<open>LZ4_decompress_safe\<close>: a block that respects the end-of-block conditions of the
  format with regard to the output buffer is accepted, with the size of the decoded block as the
  result and the decoded block in the output buffer.\<close>

theorem decompress_safe_accepts:
  assumes "io_ok m src dst n room" "0 < room" "conforming (Some room) [] (bytes m src n)"
  shows "\<exists>d m'. decode_block [] (bytes m src n) = Some d \<and>
     LZ4_decompress_safe m src dst n room = Some (int (length d), m') \<and> bytes m' dst (int (length d)) = d"
  using plain.accepts [OF assms(1) _ assms(2)] assms(3) by auto

theorem decompress_safe_accepts_witness:
  "\<exists>m'. LZ4_decompress_safe (sample_mem sample_seq) 1000 2000 10 20 = Some (20, m')
     \<and> bytes m' 2000 20 = replicate 15 97 @ [98, 99, 100, 101, 102]"
proof -
  have "io_ok (sample_mem sample_seq) 1000 2000 10 20" by (rule sample_io) (simp_all add: sample_seq_def)
  from decompress_safe_accepts [OF this] show ?thesis
    using sample_seq_conforming(1,4) by (auto simp: sample_seq_bytes)
qed

text \<open>(C7) \<open>LZ4_decompress_safe_usingDict\<close> decodes with the dictionary as the history, wherever the dictionary
  is (right before the output, of any size, or elsewhere): it is memory safe, what it accepts is what
  the reference decoder yields, and it refuses no block that respects the end-of-block conditions.\<close>

theorem decompress_usingDict_decodes:
  assumes "io_ok m src dst n room" "ro_ok m dict dictSize dst room"
  shows "\<exists>r m'. LZ4_decompress_safe_usingDict m src dst n room dict dictSize = Some (r, m') \<and>
     decoded (bytes m dict dictSize) (bytes m src n) dst room m r m'"
  using using_dict.decodes [OF assms] .

theorem decompress_usingDict_decodes_witness:
  "\<exists>r m'. LZ4_decompress_safe_usingDict (sample_mem sample_dictseq) 1000 2000 9 20 3000 8 = Some (r, m') \<and>
     decoded [1, 2, 3, 4, 5, 6, 7, 8] sample_dictseq 2000 20 (sample_mem sample_dictseq) r m'"
proof -
  have io: "io_ok (sample_mem sample_dictseq) 1000 2000 9 20" by (rule sample_io) (simp_all add: sample_dictseq_def)
  have "bytes (sample_mem sample_dictseq) 3000 8 = [1, 2, 3, 4, 5, 6, 7, 8]"
    by (rule sample_dict) (simp add: sample_dictseq_def)
  then show ?thesis using decompress_usingDict_decodes [OF io sample_ro] by (simp add: sample_dictseq_bytes)
qed

text \<open>(C14) The decoder that does not know the size of its input agrees with the safe one on well-formed blocks:
  \<open>LZ4_decompress_fast_usingDict\<close> returns the size of the block it has read, reads nothing beyond the
  block, and writes the bytes that \<open>LZ4_decompress_safe_usingDict\<close> writes.\<close>

theorem decompress_fast_agrees:
  assumes io: "io_ok m src dst n osz" and ro: "ro_ok m dict dictSize dst osz" and pos: "0 < osz"
    and c: "conforming (Some (dictSize + osz)) (bytes m dict dictSize) (bytes m src n)" "nonzero_offsets (bytes m src n)"
    and safe: "LZ4_decompress_safe_usingDict m src dst n osz dict dictSize = Some (osz, m')"
  shows "\<exists>m''. LZ4_decompress_fast_usingDict m src dst osz dict dictSize = Some (n, m'')
     \<and> bytes m'' dst osz = bytes m' dst osz \<and> frame m m'' dst (dst + osz)"
proof -
  let ?D = "bytes m dict dictSize"
  have z: "0 \<le> dictSize" "int (length ?D) = dictSize" using ro by (auto simp: ro_ok_def)
  have d: "decode_block ?D (bytes m src n) = Some (?D @ bytes m' dst osz)"
    using using_dict.sound [OF io ro safe] pos by simp
  have l: "int (length (bytes m' dst osz)) = osz" using pos by simp
  have c': "conforming (Some (int (length ?D) + osz)) ?D (bytes m src n)" using c(1) z by simp
  show ?thesis
  proof (cases "dictSize = 0 \<or> dict + dictSize = dst")
    case True
    then have v: "valid m (dst - dictSize) dictSize" and b: "bytes m (dst - dictSize) dictSize = ?D"
      using ro by (auto simp: ro_ok_def valid_def)
    have ro0: "ro_ok m 0 0 dst osz" using io by (auto simp: ro_ok_def io_ok_def valid_def)
    show ?thesis
      using unsafe_generic_ok [OF io z(1) v ro0 _ c' c(2) d l] b True by (auto simp: LZ4_decompress_fast_usingDict_def)
  next
    case False
    show ?thesis
      using unsafe_generic_ok [OF io _ _ ro _ c' c(2) d l, of 0] False
      by (auto simp: LZ4_decompress_fast_usingDict_def LZ4_decompress_fast_extDict_def valid_def)
  qed
qed

theorem decompress_fast_agrees_witness:
  "\<exists>m' m''. LZ4_decompress_safe_usingDict (sample_mem sample_dictseq) 1000 2000 9 20 3000 8 = Some (20, m')
     \<and> LZ4_decompress_fast_usingDict (sample_mem sample_dictseq) 1000 2000 20 3000 8 = Some (9, m'')
     \<and> bytes m'' 2000 20 = bytes m' 2000 20"
proof -
  let ?m = "sample_mem sample_dictseq"
  have io: "io_ok ?m 1000 2000 9 20" by (rule sample_io) (simp_all add: sample_dictseq_def)
  have D: "bytes ?m 3000 8 = [1, 2, 3, 4, 5, 6, 7, 8]" by (rule sample_dict) (simp add: sample_dictseq_def)
  have ro: "ro_ok ?m 3000 8 2000 20" by (rule sample_ro) simp_all
  obtain m' where m': "LZ4_decompress_safe_usingDict ?m 1000 2000 9 20 3000 8 = Some (20, m')"
    using using_dict.accepts [OF io ro] sample_dictseq_conforming(1,4) by (auto simp: D sample_dictseq_bytes)
  from decompress_fast_agrees [OF io ro _ _ _ m'] m' show ?thesis
    using sample_dictseq_conforming(1,3) by (auto simp: D sample_dictseq_bytes)
qed

section \<open>Partial decoding\<close>

text \<open>(C15) \<open>LZ4_decompress_safe_partial_usingDict\<close> stops at the target size: on a block whose offsets are valid, it
  returns the smaller of the decoded size and the target, and the output holds that prefix of the
  decoded block.  Whatever the block, nothing beyond the target is written.\<close>

theorem decompress_partial_prefix:
  assumes "io_ok m src dst n (min target room)" "ro_ok m dict dictSize dst (min target room)"
  shows "\<exists>r m'. LZ4_decompress_safe_partial_usingDict m src dst n target room dict dictSize = Some (r, m') \<and>
     decoded_partial (bytes m dict dictSize) (bytes m src n) dst (min target room) m r m'"
  using part_using_dict.decodes [OF assms] .

theorem decompress_partial_prefix_witness:
  "\<exists>m'. LZ4_decompress_safe_partial_usingDict (sample_mem sample_dictseq) 1000 2000 9 12 64 3000 8 = Some (12, m')
     \<and> bytes m' 2000 12 = [1, 2, 3, 4, 5, 6, 7, 8, 1, 2, 3, 4]"
proof -
  let ?m = "sample_mem sample_dictseq"
  have io: "io_ok ?m 1000 2000 9 (min 12 64)" by (rule sample_io) (simp_all add: sample_dictseq_def)
  have D: "bytes ?m 3000 8 = [1, 2, 3, 4, 5, 6, 7, 8]" by (rule sample_dict) (simp add: sample_dictseq_def)
  have ro: "ro_ok ?m 3000 8 2000 (min 12 64)" by (rule sample_ro) simp_all
  from decompress_partial_prefix [OF io ro] show ?thesis
    using sample_dictseq_conforming by (auto simp: D sample_dictseq_bytes decoded_partial_def)
qed

section \<open>Streaming\<close>

text \<open>(C8) \<open>LZ4_decompress_safe_continue\<close> refines decoding with the whole stream as the history.  If the state
  remembers at least the last 65535 bytes of the stream \<open>T\<close> decoded so far (or all of it), then a
  block that is decoded to \<open>r > 0\<close> bytes is decoded as if all of \<open>T\<close> were available, and afterwards the
  state remembers the same of the stream extended by the block.\<close>

theorem decompress_continue_refines:
  assumes io: "io_ok m src dst n room" and ok: "sd_ok m sd dst room" and T: "window_of (sd_hist m sd dst) T"
  shows "\<exists>r sd' m'. LZ4_decompress_safe_continue sd m src dst n room = Some (r, sd', m') \<and> r \<le> room
     \<and> frame m m' dst (dst + room)
     \<and> (0 < r \<longrightarrow> decode_block T (bytes m src n) = Some (T @ bytes m' dst r)
                 \<and> prefixEnd sd' = dst + r \<and> window_of (sd_hist m' sd' (dst + r)) (T @ bytes m' dst r))"
proof -
  obtain r sd' m' where r: "LZ4_decompress_safe_continue sd m src dst n room = Some (r, sd', m')"
      "decoded (sd_hist m sd dst) (bytes m src n) dst room m r m'"
      "0 < r \<Longrightarrow> prefixEnd sd' = dst + r \<and> window_of (sd_hist m' sd' (dst + r)) (sd_hist m sd dst @ bytes m' dst r)"
    using safe_continue_step [OF io ok] by metis
  have "decode_block T (bytes m src n) = Some (T @ bytes m' dst r)" if "0 < r"
    using window_decode [OF T] r(2) that by (simp add: decoded_def)
  moreover have "r \<le> room" "frame m m' dst (dst + room)"
    using r(2) io by (auto simp: decoded_def io_ok_def split: if_splits)
  ultimately show ?thesis using r(1,3) window_append [OF T] by blast
qed

theorem decompress_continue_refines_witness:
  "\<exists>r sd' m'. LZ4_decompress_safe_continue (snd (LZ4_setStreamDecode LZ4_createStreamDecode 3000 8))
        (sample_mem sample_dictseq) 1000 2000 9 20 = Some (r, sd', m') \<and> r \<le> 20
     \<and> (0 < r \<longrightarrow> decode_block [1, 2, 3, 4, 5, 6, 7, 8] sample_dictseq = Some ([1, 2, 3, 4, 5, 6, 7, 8] @ bytes m' 2000 r))"
proof -
  let ?m = "sample_mem sample_dictseq" and ?sd = "snd (LZ4_setStreamDecode LZ4_createStreamDecode 3000 8)"
  have io: "io_ok ?m 1000 2000 9 20" by (rule sample_io) (simp_all add: sample_dictseq_def)
  have D: "bytes ?m 3000 8 = [1, 2, 3, 4, 5, 6, 7, 8]" by (rule sample_dict) (simp add: sample_dictseq_def)
  have ok: "sd_ok ?m ?sd 2000 20"
    using sample_ro [of 20] by (simp add: sd_ok_def LZ4_setStreamDecode_def LZ4_createStreamDecode_def)
  have "sd_hist ?m ?sd 2000 = [1, 2, 3, 4, 5, 6, 7, 8]"
    by (simp add: sd_hist_def LZ4_setStreamDecode_def LZ4_createStreamDecode_def D)
  then have "window_of (sd_hist ?m ?sd 2000) [1, 2, 3, 4, 5, 6, 7, 8]" by (simp add: window_of_def)
  from decompress_continue_refines [OF io ok this] show ?thesis by (auto simp: sample_dictseq_bytes)
qed

end
