(* ===== verification/LZ4_Count.thy ===== *)
theory LZ4_Count
  imports LZ4_Prelude
begin

text \<open>
  \<open>LZ4_NbCommonBytes\<close> and \<open>LZ4_count\<close>: the length of a match is counted eight bytes at a time, from
  the number of trailing zero bits of the difference.  It is the length of the longest common prefix.
\<close>

unbundle bit_operations_syntax

section \<open>Definitions\<close>

text \<open>The builtin \<open>__builtin_ctzll\<close> (its argument is not zero).\<close>

function builtin_ctzll :: "int \<Rightarrow> int" where
  "builtin_ctzll v = (if v = 0 \<or> odd v then 0 else 1 + builtin_ctzll (v div 2))"
  by pat_completeness auto
termination
  by (relation "measure (\<lambda>v. nat \<bar>v\<bar>)") auto

declare builtin_ctzll.simps [simp del]

definition LZ4_NbCommonBytes :: "int \<Rightarrow> int" where
  "LZ4_NbCommonBytes val = builtin_ctzll val div 8"

text \<open>The variant without the builtin (\<open>LZ4_FORCE_SW_BITCOUNT\<close>), 64-bit little endian.\<close>

definition LZ4_NbCommonBytes_sw :: "64 word \<Rightarrow> 64 word" where
  "LZ4_NbCommonBytes_sw val =
     (let m = 0x0101010101010101; val = val XOR (val - 1) in drop_bit 56 ((val AND (m - 1)) * m))"

definition STEPSIZE :: int where [simp]: "STEPSIZE = 8"

definition count_tail :: "mem \<Rightarrow> addr \<Rightarrow> addr \<Rightarrow> addr \<Rightarrow> addr \<Rightarrow> int option" where
  "count_tail m pIn pMatch pInLimit pStart = do {
     (pIn, pMatch) \<leftarrow>
       (if pIn < pInLimit - 3 then do {
          a \<leftarrow> LZ4_read32 m pMatch; b \<leftarrow> LZ4_read32 m pIn;
          Some (if a = b then (pIn + 4, pMatch + 4) else (pIn, pMatch)) }
        else Some (pIn, pMatch));
     (pIn, pMatch) \<leftarrow>
       (if pIn < pInLimit - 1 then do {
          a \<leftarrow> LZ4_read16 m pMatch; b \<leftarrow> LZ4_read16 m pIn;
          Some (if a = b then (pIn + 2, pMatch + 2) else (pIn, pMatch)) }
        else Some (pIn, pMatch));
     pIn \<leftarrow>
       (if pIn < pInLimit then do { a \<leftarrow> m pMatch; b \<leftarrow> m pIn; Some (if a = b then pIn + 1 else pIn) }
        else Some pIn);
     Some (u32 (pIn - pStart)) }"

function count_loop :: "mem \<Rightarrow> addr \<Rightarrow> addr \<Rightarrow> addr \<Rightarrow> addr \<Rightarrow> int option" where
  "count_loop m pIn pMatch pInLimit pStart =
     (if pIn < pInLimit - (STEPSIZE - 1) then do {
        a \<leftarrow> LZ4_read_ARCH m pMatch; b \<leftarrow> LZ4_read_ARCH m pIn;
        let diff = a XOR b in
        if diff = 0 then count_loop m (pIn + STEPSIZE) (pMatch + STEPSIZE) pInLimit pStart
        else Some (u32 (pIn + LZ4_NbCommonBytes diff - pStart)) }
      else count_tail m pIn pMatch pInLimit pStart)"
  by pat_completeness auto
termination
  by (relation "measure (\<lambda>(m, pIn, pMatch, pInLimit, pStart). nat (pInLimit - pIn))") auto

declare count_loop.simps [simp del]

definition LZ4_count :: "mem \<Rightarrow> addr \<Rightarrow> addr \<Rightarrow> addr \<Rightarrow> int option" where
  "LZ4_count m pIn pMatch pInLimit =
     (if pIn < pInLimit - (STEPSIZE - 1) then do {
        a \<leftarrow> LZ4_read_ARCH m pMatch; b \<leftarrow> LZ4_read_ARCH m pIn;
        let diff = a XOR b in
        if diff = 0 then count_loop m (pIn + STEPSIZE) (pMatch + STEPSIZE) pInLimit pIn
        else Some (LZ4_NbCommonBytes diff) }
      else count_loop m pIn pMatch pInLimit pIn)"

section \<open>Longest common prefix\<close>

fun lcp :: "'a list \<Rightarrow> 'a list \<Rightarrow> nat" where
  "lcp (x # xs) (y # ys) = (if x = y then Suc (lcp xs ys) else 0)"
| "lcp xs ys = 0"

lemma lcp_le: "lcp xs ys \<le> length xs" "lcp xs ys \<le> length ys"
  by (induction xs ys rule: lcp.induct) auto

lemma lcp_self [simp]: "lcp xs xs = length xs"
  by (induction xs) auto

lemma lcp_nth: "i < lcp xs ys \<Longrightarrow> xs ! i = ys ! i"
  by (induction xs ys arbitrary: i rule: lcp.induct) (auto simp: less_Suc_eq_0_disj split: if_splits)

lemma lcp_maximal: "lcp xs ys < length xs \<Longrightarrow> lcp xs ys < length ys \<Longrightarrow> xs ! lcp xs ys \<noteq> ys ! lcp xs ys"
  by (induction xs ys rule: lcp.induct) (auto split: if_splits)

lemma lcp_append_eq: "lcp (xs @ xs') (xs @ ys') = length xs + lcp xs' ys'"
  by (induction xs) auto

lemma lcp_append_neq: "length xs = length ys \<Longrightarrow> xs \<noteq> ys \<Longrightarrow> lcp (xs @ xs') (ys @ ys') = lcp xs ys"
  by (induction xs ys rule: list_induct2) auto

lemma lcp_neq_less: "length xs = length ys \<Longrightarrow> xs \<noteq> ys \<Longrightarrow> lcp xs ys < length xs"
  by (induction xs ys rule: list_induct2) auto

section \<open>Little-endian values\<close>

fun le_int :: "byte list \<Rightarrow> int" where
  "le_int [] = 0"
| "le_int (b # bs) = uint b + 256 * le_int bs"

lemma byte_concat_bit: "0 \<le> x \<Longrightarrow> x < 256 \<Longrightarrow> x + 256 * a = concat_bit 8 x (a :: int)"
  by (simp add: concat_bit_eq push_bit_eq_mult take_bit_eq_mod)

lemma byte_xor:
  assumes "0 \<le> x" "x < 256" "0 \<le> y" "y < (256 :: int)"
  shows "(x + 256 * a) XOR (y + 256 * b) = (x XOR y) + 256 * (a XOR b)" "0 \<le> x XOR y" "x XOR y < 256"
proof -
  have t: "take_bit 8 x = x" "take_bit 8 y = y" using assms by (simp_all add: take_bit_eq_mod)
  have tx: "take_bit 8 (x XOR y) = x XOR y" using t by (simp add: take_bit_xor)
  have r: "0 \<le> take_bit 8 (x XOR y)" "take_bit 8 (x XOR y) < 2 ^ 8"
    by (rule take_bit_nonnegative take_bit_int_less_exp)+
  then show b: "0 \<le> x XOR y" "x XOR y < 256" unfolding tx by simp_all
  have "concat_bit 8 x a XOR concat_bit 8 y b = concat_bit 8 (x XOR y) (a XOR b)"
    by (rule bit_eqI) (auto simp: bit_concat_bit_iff bit_xor_iff)
  then show "(x + 256 * a) XOR (y + 256 * b) = (x XOR y) + 256 * (a XOR b)"
    using byte_concat_bit assms b by metis
qed

lemma uint_byte_lt: "0 \<le> uint (b :: byte)" "uint b < 256"
  using unsigned_less [of b, where ?'a = int] by simp_all

lemma le_int_xor:
  "le_int (x # xs) XOR le_int (y # ys) = (uint x XOR uint y) + 256 * (le_int xs XOR le_int ys)"
  using byte_xor(1)[of "uint x" "uint y"] uint_byte_lt [of x] uint_byte_lt [of y] by simp

lemma le_int_inj: "length xs = length ys \<Longrightarrow> le_int xs = le_int ys \<longleftrightarrow> xs = ys"
proof (induction xs ys rule: list_induct2)
  case (Cons x xs y ys)
  have "x = y \<and> le_int xs = le_int ys" if e: "uint x + 256 * le_int xs = uint y + 256 * le_int ys"
  proof -
    have "(uint x + 256 * le_int xs) mod 256 = uint x" "(uint y + 256 * le_int ys) mod 256 = uint y"
      using uint_byte_lt [of x] uint_byte_lt [of y] by simp_all
    with e have "uint x = uint y" by simp
    then show ?thesis using e by (simp add: word_uint_eq_iff)
  qed
  then show ?case using Cons.IH by auto
qed simp

section \<open>Trailing zeros of a difference\<close>

lemma ctzll_double: "v \<noteq> 0 \<Longrightarrow> builtin_ctzll (2 * v) = 1 + builtin_ctzll v"
  by (subst builtin_ctzll.simps) simp

lemma ctzll_256: "v \<noteq> 0 \<Longrightarrow> builtin_ctzll (256 * v) = 8 + builtin_ctzll v"
  using ctzll_double [of v] ctzll_double [of "2 * v"] ctzll_double [of "4 * v"] ctzll_double [of "8 * v"]
    ctzll_double [of "16 * v"] ctzll_double [of "32 * v"] ctzll_double [of "64 * v"] ctzll_double [of "128 * v"]
  by simp

lemma ctzll_nonneg: "0 \<le> builtin_ctzll v"
  by (induction v rule: builtin_ctzll.induct) (subst builtin_ctzll.simps, simp)

lemma ctzll_less: "\<not> 2 ^ k dvd v \<Longrightarrow> builtin_ctzll v < int k"
proof (induction k arbitrary: v)
  case 0
  then show ?case by simp
next
  case (Suc k)
  have "\<not> 2 ^ k dvd v div 2" if "even v"
  proof
    assume "2 ^ k dvd v div 2"
    then have "2 * 2 ^ k dvd 2 * (v div 2)" by (intro mult_dvd_mono) auto
    then show False using Suc.prems that by simp
  qed
  moreover have "0 \<le> builtin_ctzll (v div 2)" by (rule ctzll_nonneg)
  ultimately show ?case using Suc.IH [of "v div 2"] by (subst builtin_ctzll.simps) auto
qed

lemma NbCommonBytes_lcp:
  "length xs = length ys \<Longrightarrow> xs \<noteq> ys \<Longrightarrow> LZ4_NbCommonBytes (le_int xs XOR le_int ys) = int (lcp xs ys)"
proof (induction xs ys rule: list_induct2)
  case (Cons x xs y ys)
  show ?case
  proof (cases "x = y")
    case True
    then have ne: "xs \<noteq> ys" using Cons.prems by simp
    let ?d = "le_int xs XOR le_int ys"
    have "?d \<noteq> 0" using le_int_inj [OF Cons.hyps] ne by (metis bit.xor_self xor_self_eq xor.left_neutral xor.assoc xor.right_neutral)
    then have "builtin_ctzll (256 * ?d) div 8 = 1 + builtin_ctzll ?d div 8" by (simp add: ctzll_256)
    then show ?thesis using Cons.IH [OF ne] True by (simp only: le_int_xor) (simp add: LZ4_NbCommonBytes_def)
  next
    case False
    let ?z = "uint x XOR uint y"
    have z: "0 \<le> ?z" "?z < 256" "?z \<noteq> 0"
    proof -
      show "0 \<le> ?z" "?z < 256" using byte_xor(2,3) uint_byte_lt by blast+
      show "?z \<noteq> 0"
      proof
        assume "?z = 0"
        then have "uint x XOR (uint y XOR uint y) = 0 XOR uint y" by (simp only: xor.assoc [symmetric])
        then show False using False by (simp add: word_uint_eq_iff)
      qed
    qed
    have "0 < ?z" using z(1,3) by linarith
    from zdvd_not_zless [OF this z(2)] have "\<not> 2 ^ 8 dvd ?z + 256 * (le_int xs XOR le_int ys)"
      by (simp add: dvd_add_left_iff)
    from ctzll_less [OF this] have "builtin_ctzll (le_int (x # xs) XOR le_int (y # ys)) < 8" by (simp only: le_int_xor)
    then show ?thesis using ctzll_nonneg [of "le_int (x # xs) XOR le_int (y # ys)"] False
      by (simp add: LZ4_NbCommonBytes_def div_pos_pos_trivial)
  qed
qed simp

section \<open>Reading memory\<close>

lemma bytes_take_drop:
  assumes "0 \<le> k" "k \<le> n" shows "bytes m a n = bytes m a k @ bytes m (a + k) (n - k)"
  using bytes_append [of k "n - k" m a] assms by simp

lemma bytes_1: "bytes m a 1 = [the (m a)]"
  using bytes_Cons [of 1 m a] by simp

lemma bytes_2: "bytes m a 2 = [the (m a), the (m (a + 1))]"
  using bytes_Cons [of 2 m a] bytes_1 [of m "a + 1"] by simp

lemma bytes_4: "bytes m a 4 = [the (m a), the (m (a + 1)), the (m (a + 2)), the (m (a + 3))]"
  using bytes_take_drop [of 2 4 m a] by (simp add: bytes_2 add.assoc)

lemma read16_le: "valid m a 2 \<Longrightarrow> LZ4_read16 m a = Some (le_int (bytes m a 2))"
  by (simp add: read16_Some bytes_2)

lemma read32_le: "valid m a 4 \<Longrightarrow> LZ4_read32 m a = Some (le_int (bytes m a 4))"
  by (simp add: read32_Some bytes_4)

lemma le_int_append: "le_int (xs @ ys) = le_int xs + 256 ^ length xs * le_int ys"
  by (induction xs) (simp_all add: algebra_simps)

lemma read_ARCH_le:
  assumes "valid m a 8" shows "LZ4_read_ARCH m a = Some (le_int (bytes m a 8))"
proof -
  have "valid m a 4" "valid m (a + 4) 4" using assms by (auto intro: valid_sub)
  then show ?thesis
    using bytes_take_drop [of 4 8 m a] by (simp add: LZ4_read_ARCH_def read32_le le_int_append)
qed

text \<open>Values read from two places agree iff the bytes do.\<close>

lemma read_eq_iff:
  "valid m a 2 \<Longrightarrow> valid m b 2 \<Longrightarrow> LZ4_read16 m a = LZ4_read16 m b \<longleftrightarrow> bytes m a 2 = bytes m b 2"
  "valid m a 4 \<Longrightarrow> valid m b 4 \<Longrightarrow> LZ4_read32 m a = LZ4_read32 m b \<longleftrightarrow> bytes m a 4 = bytes m b 4"
  by (simp_all add: read16_le read32_le le_int_inj)

lemma xor_zero_iff: "(a :: int) XOR b = 0 \<longleftrightarrow> a = b"
proof
  assume "a XOR b = 0"
  then have "a XOR (b XOR b) = 0 XOR b" by (simp only: xor.assoc [symmetric])
  then show "a = b" by simp
qed simp

section \<open>\<open>LZ4_count\<close>\<close>

text \<open>One compare-and-advance step of \<open>k\<close> bytes.\<close>

lemma lcp_step:
  assumes "0 \<le> k" "k \<le> n"
  shows "lcp (bytes m p n) (bytes m q n) =
    (if bytes m p k = bytes m q k then nat k + lcp (bytes m (p + k) (n - k)) (bytes m (q + k) (n - k))
     else lcp (bytes m p k) (bytes m q k))"
  unfolding bytes_take_drop [OF assms, of m p] bytes_take_drop [OF assms, of m q]
  by (auto simp: lcp_append_eq lcp_append_neq)

lemma lcp_diff_less:
  assumes "0 \<le> k" "k \<le> n" "bytes m p k \<noteq> bytes m q k"
  shows "int (lcp (bytes m p n) (bytes m q n)) < k"
  using lcp_step [OF assms(1,2), of m p q] assms lcp_neq_less [of "bytes m p k" "bytes m q k"] by auto

lemma count_stage:
  fixes k :: int
  assumes rd: "\<And>a. valid m a k \<Longrightarrow> rd m a = Some (le_int (bytes m a k))" and k: "0 < k" "k1 = k - 1"
    and v: "valid m p (lim - p)" "valid m q (lim - p)" and le: "p \<le> lim"
  defines "L \<equiv> \<lambda>p q. int (lcp (bytes m p (lim - p)) (bytes m q (lim - p)))"
  assumes L: "L p q < 2 * k"
  obtains p' q' where "(if p < lim - k1 then do { a \<leftarrow> rd m q; b \<leftarrow> rd m p;
       Some (if a = b then (p + k, q + k) else (p, q)) } else Some (p, q)) = Some (p', q')"
    "p \<le> p'" "p' \<le> lim" "q' = q + (p' - p)" "p' + L p' q' = p + L p q" "L p' q' < k"
proof (cases "p < lim - k1")
  case True
  have vk: "valid m p k" "valid m q k" by (rule valid_sub [OF v(1)] valid_sub [OF v(2)]; use True k in simp)+
  have kl: "0 \<le> k" "k \<le> lim - p" using k True by auto
  show thesis
  proof (cases "bytes m p k = bytes m q k")
    case eq: True
    have "L p q = k + L (p + k) (q + k)"
      using lcp_step [OF kl, of m p q] eq k by (simp add: L_def algebra_simps)
    then have Lk: "p + k + L (p + k) (q + k) = p + L p q" "L (p + k) (q + k) < k" using L by simp_all
    have e: "(if p < lim - k1 then do { a \<leftarrow> rd m q; b \<leftarrow> rd m p;
       Some (if a = b then (p + k, q + k) else (p, q)) } else Some (p, q)) = Some (p + k, q + k)"
      using rd [OF vk(1)] rd [OF vk(2)] eq True by simp
    show thesis by (rule that [OF e _ _ _ Lk]) (use kl in simp_all)
  next
    case ne: False
    have Lk: "L p q < k" unfolding L_def by (rule lcp_diff_less [OF kl ne])
    have "le_int (bytes m q k) \<noteq> le_int (bytes m p k)" using ne by (simp add: le_int_inj)
    then have e: "(if p < lim - k1 then do { a \<leftarrow> rd m q; b \<leftarrow> rd m p;
       Some (if a = b then (p + k, q + k) else (p, q)) } else Some (p, q)) = Some (p, q)"
      using rd [OF vk(1)] rd [OF vk(2)] True by simp
    show thesis by (rule that [OF e _ _ _ _ Lk]) (use le in simp_all)
  qed
next
  case False
  have "L p q \<le> lim - p" using lcp_le(1)[of "bytes m p (lim - p)" "bytes m q (lim - p)"] le by (simp add: L_def)
  then show thesis using that [of p q] False le k by simp
qed

lemma count_tail_ok:
  assumes v: "valid m p (lim - p)" "valid m q (lim - p)" and le: "p \<le> lim" "lim - p < 8"
  shows "count_tail m p q lim st = Some (u32 (p - st + int (lcp (bytes m p (lim - p)) (bytes m q (lim - p)))))"
proof -
  define L where "L = (\<lambda>p q. int (lcp (bytes m p (lim - p)) (bytes m q (lim - p))))"
  have Lle: "L p q \<le> lim - p" if "p \<le> lim" for p q
    using lcp_le(1)[of "bytes m p (lim - p)" "bytes m q (lim - p)"] that by (simp add: L_def)
  have sub: "valid m p' (lim - p')" "valid m (q + (p' - p)) (lim - p')" if "p \<le> p'" "p' \<le> lim" for p'
    using v by (auto intro: valid_sub simp: that)
  have "L p q < 2 * 4" using Lle [OF le(1), of q] le(2) by simp
  then obtain p1 q1 where 1: "(if p < lim - 3 then do { a \<leftarrow> LZ4_read32 m q; b \<leftarrow> LZ4_read32 m p;
       Some (if a = b then (p + 4, q + 4) else (p, q)) } else Some (p, q)) = Some (p1, q1)"
      "p \<le> p1" "p1 \<le> lim" "q1 = q + (p1 - p)" "p1 + L p1 q1 = p + L p q" "L p1 q1 < 4"
    unfolding L_def by - (rule count_stage [of m 4 LZ4_read32 3 p lim q, OF read32_le _ _ v le(1)]; assumption?; simp)
  obtain p2 q2 where 2: "(if p1 < lim - 1 then do { a \<leftarrow> LZ4_read16 m q1; b \<leftarrow> LZ4_read16 m p1;
       Some (if a = b then (p1 + 2, q1 + 2) else (p1, q1)) } else Some (p1, q1)) = Some (p2, q2)"
      "p1 \<le> p2" "p2 \<le> lim" "q2 = q1 + (p2 - p1)" "p2 + L p2 q2 = p1 + L p1 q1" "L p2 q2 < 2"
    using sub [OF 1(2,3)] 1(3,6) unfolding L_def 1(4) [symmetric]
    by - (rule count_stage [of m 2 LZ4_read16 1 p1 lim q1, OF read16_le]; assumption?; simp)
  have v2: "valid m p2 (lim - p2)" "valid m q2 (lim - p2)" using sub [of p2] 1(2,4) 2(2,3,4) by simp_all
  have "(if p2 < lim then do { a \<leftarrow> m q2; b \<leftarrow> m p2; Some (if a = b then p2 + 1 else p2) } else Some p2) = Some (p2 + L p2 q2)"
  proof (cases "p2 < lim")
    case True
    obtain a b where ab: "m p2 = Some a" "m q2 = Some b"
      using valid_at [OF v2(1), of p2] valid_at [OF v2(2), of q2] True by auto
    have "L p2 q2 = (if a = b then 1 + L (p2 + 1) (q2 + 1) else 0)"
      using lcp_step [of 1 "lim - p2" m p2 q2] True ab by (auto simp: L_def bytes_1 algebra_simps)
    then have "L p2 q2 = (if a = b then 1 else 0)" using 2(6) by (auto simp: L_def split: if_splits)
    then show ?thesis using True ab by auto
  next
    case False
    then show ?thesis using Lle [OF 2(3), of q2] 2(3) by (simp add: L_def)
  qed
  then show ?thesis
    unfolding count_tail_def using 1(1,5) 2(1,5) by (simp add: L_def algebra_simps)
qed

lemma count_loop_ok:
  "valid m p (lim - p) \<Longrightarrow> valid m q (lim - p) \<Longrightarrow> p \<le> lim \<Longrightarrow>
   count_loop m p q lim st = Some (u32 (p - st + int (lcp (bytes m p (lim - p)) (bytes m q (lim - p)))))"
proof (induction m p q lim st rule: count_loop.induct)
  case (1 m p q lim st)
  show ?case
  proof (cases "p < lim - 7")
    case True
    have v8: "valid m p 8" "valid m q 8"
      by (rule valid_sub [OF "1.prems"(1)] valid_sub [OF "1.prems"(2)]; use True in simp)+
    have le8: "0 \<le> (8 :: int)" "8 \<le> lim - p" using True by simp_all
    show ?thesis
    proof (cases "bytes m p 8 = bytes m q 8")
      case eq: True
      have "valid m (p + 8) (lim - (p + 8))" "valid m (q + 8) (lim - (p + 8))"
        using "1.prems"(1,2) by (auto intro: valid_sub)
      then have IH: "count_loop m (p + 8) (q + 8) lim st =
          Some (u32 (p + 8 - st + int (lcp (bytes m (p + 8) (lim - (p + 8))) (bytes m (q + 8) (lim - (p + 8))))))"
        using "1.IH" v8 True eq by (simp add: read_ARCH_le)
      then show ?thesis
        using lcp_step [OF le8, of m p q] eq True v8
        by (subst count_loop.simps) (simp add: read_ARCH_le algebra_simps)
    next
      case ne: False
      have "le_int (bytes m q 8) XOR le_int (bytes m p 8) \<noteq> 0" using ne by (simp add: xor_zero_iff le_int_inj)
      moreover have "LZ4_NbCommonBytes (le_int (bytes m q 8) XOR le_int (bytes m p 8)) = int (lcp (bytes m p 8) (bytes m q 8))"
        using NbCommonBytes_lcp [of "bytes m p 8" "bytes m q 8"] ne by (simp add: xor.commute)
      ultimately show ?thesis
        using lcp_step [OF le8, of m p q] ne True v8
        by (subst count_loop.simps) (simp add: read_ARCH_le algebra_simps)
    qed
  next
    case False
    then show ?thesis using count_tail_ok [OF "1.prems"] by (subst count_loop.simps) simp
  qed
qed

text \<open>\<open>LZ4_count\<close> reads no further than the limit and returns the length of the longest common prefix.\<close>

lemma count_ok:
  assumes v: "valid m p (lim - p)" "valid m q (lim - p)" and le: "p \<le> lim" "lim - p < 2 ^ 32"
  shows "LZ4_count m p q lim = Some (int (lcp (bytes m p (lim - p)) (bytes m q (lim - p))))"
proof -
  let ?n = "int (lcp (bytes m p (lim - p)) (bytes m q (lim - p)))"
  have "?n \<le> lim - p" using lcp_le(1)[of "bytes m p (lim - p)" "bytes m q (lim - p)"] le by simp
  then have u: "u32 ?n = ?n" using le by simp
  have loop: "count_loop m p q lim p = Some ?n" using count_loop_ok [OF v le(1), of p] u by simp
  moreover have "LZ4_count m p q lim = count_loop m p q lim p"
  proof (cases "p < lim - 7")
    case True
    have v8: "valid m p 8" "valid m q 8" by (rule valid_sub [OF v(1)] valid_sub [OF v(2)]; use True in simp)+
    have "LZ4_NbCommonBytes d = u32 (LZ4_NbCommonBytes d)"
      if "d = le_int (bytes m q 8) XOR le_int (bytes m p 8)" "d \<noteq> 0" for d
    proof -
      have ne: "bytes m q 8 \<noteq> bytes m p 8" using that by auto
      have "lcp (bytes m q 8) (bytes m p 8) \<le> 8" using lcp_le(1)[of "bytes m q 8" "bytes m p 8"] by simp
      then show ?thesis using NbCommonBytes_lcp [OF _ ne] that(1) by simp
    qed
    then show ?thesis using True v8 by (subst count_loop.simps) (simp add: LZ4_count_def read_ARCH_le Let_def)
  qed (simp add: LZ4_count_def)
  ultimately show ?thesis by simp
qed

text \<open>The same without lists.\<close>

lemma count_spec:
  assumes "valid m p (lim - p)" "valid m q (lim - p)" "p \<le> lim" "lim - p < 2 ^ 32"
  shows "\<exists>k. LZ4_count m p q lim = Some k \<and> 0 \<le> k \<and> p + k \<le> lim \<and> (\<forall>i\<ge>0. i < k \<longrightarrow> m (p + i) = m (q + i))
     \<and> (p + k < lim \<longrightarrow> m (p + k) \<noteq> m (q + k))"
proof -
  let ?xs = "bytes m p (lim - p)" and ?ys = "bytes m q (lim - p)"
  define k where "k = lcp ?xs ?ys"
  have k: "int k \<le> lim - p" using lcp_le(1) [of ?xs ?ys] assms(3) by (simp add: k_def)
  have nth: "?xs ! i = ?ys ! i \<longleftrightarrow> m (p + int i) = m (q + int i)" if i: "int i < lim - p" for i
  proof -
    obtain a b where "m (p + int i) = Some a" "m (q + int i) = Some b"
      using valid_at [OF assms(1), of "p + int i"] valid_at [OF assms(2), of "q + int i"] i by auto
    then show ?thesis using i by (simp add: zless_nat_eq_int_zless)
  qed
  have "m (p + i) = m (q + i)" if "0 \<le> i" "i < int k" for i
    using lcp_nth [of "nat i" ?xs ?ys] nth [of "nat i"] that k by (simp add: k_def nat_less_iff)
  moreover have "m (p + int k) \<noteq> m (q + int k)" if "p + int k < lim"
    using lcp_maximal [of ?xs ?ys] nth [of k] that by (simp add: k_def)
  ultimately show ?thesis using count_ok [OF assms] k by (auto simp: k_def)
qed

lemma count_cases:
  assumes "valid m p (lim - p)" "valid m q (lim - p)" "p \<le> lim" "lim - p < 2 ^ 32"
  obtains k where "LZ4_count m p q lim = Some k" "0 \<le> k" "p + k \<le> lim" "\<And>i. 0 \<le> i \<Longrightarrow> i < k \<Longrightarrow> m (p + i) = m (q + i)"
    "p + k < lim \<Longrightarrow> m (p + k) \<noteq> m (q + k)"
proof -
  from count_spec [OF assms] obtain k where "LZ4_count m p q lim = Some k \<and> 0 \<le> k \<and> p + k \<le> lim
      \<and> (\<forall>i\<ge>0. i < k \<longrightarrow> m (p + i) = m (q + i)) \<and> (p + k < lim \<longrightarrow> m (p + k) \<noteq> m (q + k))" ..
  then show thesis by (intro that [of k]) auto
qed

section \<open>The variant without the builtin\<close>

text \<open>\<open>val XOR (val - 1)\<close> keeps the lowest set bit and all bits below it.\<close>

lemma xor_pred_mask: "v \<noteq> 0 \<Longrightarrow> v XOR (v - 1) = 2 ^ nat (builtin_ctzll v + 1) - 1"
proof (induction v rule: builtin_ctzll.induct)
  case (1 v)
  show ?case
  proof (cases "odd v")
    case True
    then obtain w where w: "v = 2 * w + 1" by (elim oddE)
    have "v XOR (v - 1) = 1" by (simp add: w xor_int_rec [of "2 * w + 1"])
    then show ?thesis using True by (simp add: builtin_ctzll.simps)
  next
    case False
    then have "even v" by simp
    then obtain w where w: "v = 2 * w" by (elim evenE)
    then have w0: "w \<noteq> 0" using "1.prems" by simp
    have c: "builtin_ctzll v = 1 + builtin_ctzll w" using w ctzll_double [OF w0] by simp
    have "(2 * w - 1) div 2 = w - 1" by presburger
    then have "v XOR (v - 1) = 1 + 2 * (w XOR (w - 1))" by (simp add: w xor_int_rec [of "2 * w"])
    moreover have "w XOR (w - 1) = 2 ^ nat (builtin_ctzll w + 1) - 1" using "1.IH" False "1.prems" w by simp
    moreover have "nat (builtin_ctzll v + 1) = Suc (nat (builtin_ctzll w + 1))"
      using c ctzll_nonneg [of w] by (simp add: nat_add_distrib)
    ultimately show ?thesis by simp
  qed
qed

lemma sw_bitcount_table:
  assumes "c < 64"
  shows "drop_bit 56 ((((2 :: 64 word) ^ Suc c - 1) AND (0x0101010101010101 - 1)) * 0x0101010101010101) = of_nat (c div 8)"
proof -
  have less8: "n < 8 \<Longrightarrow> n = 0 \<or> n = 1 \<or> n = 2 \<or> n = 3 \<or> n = 4 \<or> n = 5 \<or> n = 6 \<or> n = 7" for n :: nat by linarith
  have "c div 8 < 8" "c mod 8 < 8" using assms by auto
  then have "drop_bit 56 ((((2 :: 64 word) ^ Suc (8 * (c div 8) + c mod 8) - 1) AND (0x0101010101010101 - 1))
      * 0x0101010101010101) = of_nat (c div 8)"
    by (elim less8 [elim_format]) (elim disjE; simp)
  then show ?thesis by simp
qed

lemma NbCommonBytes_sw_eq:
  assumes "val \<noteq> 0"
  shows "LZ4_NbCommonBytes (uint val) = uint (LZ4_NbCommonBytes_sw val)"
proof -
  have v: "0 < uint val" "uint val < 2 ^ 64"
    using assms unsigned_less [of val, where ?'a = int] by (simp_all add: word_neq_0_conv word_less_def)
  let ?c = "nat (builtin_ctzll (uint val))"
  have "\<not> 2 ^ 64 dvd uint val" using v zdvd_not_zless by blast
  then have c: "?c < 64" using ctzll_less [of 64] ctzll_nonneg [of "uint val"] by (simp add: nat_less_iff)
  have "uint (val - 1) = uint val - 1" using v by (simp add: uint_word_ariths mod_pos_pos_trivial)
  then have u: "uint (val XOR (val - 1)) = 2 ^ Suc ?c - 1"
    using xor_pred_mask [of "uint val"] v ctzll_nonneg [of "uint val"] by (simp add: uint_xor nat_add_distrib)
  have "val XOR (val - 1) = word_of_int (uint (val XOR (val - 1)))" by simp
  also have "\<dots> = 2 ^ Suc ?c - 1" unfolding u of_int_diff of_int_power by simp
  finally have "LZ4_NbCommonBytes_sw val = of_nat (?c div 8)"
    unfolding LZ4_NbCommonBytes_sw_def Let_def by (simp only: sw_bitcount_table [OF c])
  moreover have "uint (of_nat (?c div 8) :: 64 word) = int (?c div 8)"
    using c by (simp add: unsigned_of_nat take_bit_nat_eq_self del: of_nat_div)
  moreover have "int (?c div 8) = builtin_ctzll (uint val) div 8"
    using ctzll_nonneg [of "uint val"] by (simp add: zdiv_int)
  ultimately show ?thesis by (simp only: LZ4_NbCommonBytes_def)
qed

end
