(* ===== verification/LZ4_Hash.thy ===== *)
theory LZ4_Hash
  imports LZ4_Decompress LZ4_Count
begin

text \<open>
  The hash functions and the hash table of the compressor.  A table is the C array
  \<open>hashTable\<close> of a stream, read as \<open>U32\<close> or \<open>U16\<close> entries; every access checks its index against
  the size of the array.  Tables of pointers (\<open>byPtr\<close>) are only used by builds with 32-bit pointers.
\<close>

datatype tableType_t = clearedTable | byPtr | byU32 | byU16

type_synonym table = "int \<Rightarrow> int"

definition LZ4_HASHLOG :: nat where [simp]: "LZ4_HASHLOG = 12"
definition LZ4_HASH_SIZE_U32 :: int where [simp]: "LZ4_HASH_SIZE_U32 = 4096"
definition LZ4_DISTANCE_MAX :: int where [simp]: "LZ4_DISTANCE_MAX = 65535"

text \<open>The number of entries of the array.\<close>

definition table_size :: "tableType_t \<Rightarrow> int" where
  "table_size tableType = (if tableType = byU16 then 2 * LZ4_HASH_SIZE_U32 else LZ4_HASH_SIZE_U32)"

definition LZ4_hash4 :: "int \<Rightarrow> tableType_t \<Rightarrow> int" where
  "LZ4_hash4 sequence tableType =
     (if tableType = byU16 then u32 (sequence * 2654435761) div 2 ^ (4 * 8 - (LZ4_HASHLOG + 1))
      else u32 (sequence * 2654435761) div 2 ^ (4 * 8 - LZ4_HASHLOG))"

definition LZ4_hash5 :: "int \<Rightarrow> tableType_t \<Rightarrow> int" where
  "LZ4_hash5 sequence tableType =
     (let hashLog = (if tableType = byU16 then LZ4_HASHLOG + 1 else LZ4_HASHLOG) in
      u32 (u64 (u64 (sequence * 2 ^ 24) * 889523592379) div 2 ^ (64 - hashLog)))"

definition LZ4_hashPosition :: "mem \<Rightarrow> addr \<Rightarrow> tableType_t \<Rightarrow> int option" where
  "LZ4_hashPosition m p tableType =
     (if tableType \<noteq> byU16 then map_option (\<lambda>v. LZ4_hash5 v tableType) (LZ4_read_ARCH m p)
      else map_option (\<lambda>v. LZ4_hash4 v tableType) (LZ4_read32 m p))"

definition LZ4_clearHash :: "int \<Rightarrow> table \<Rightarrow> tableType_t \<Rightarrow> table option" where
  "LZ4_clearHash h T tableType =
     (if tableType \<in> {byU32, byU16} \<and> 0 \<le> h \<and> h < table_size tableType then Some (T(h := 0)) else None)"

definition LZ4_putIndexOnHash :: "int \<Rightarrow> int \<Rightarrow> table \<Rightarrow> tableType_t \<Rightarrow> table option" where
  "LZ4_putIndexOnHash idx h T tableType =
     (if 0 \<le> h \<and> h < table_size tableType then
        case tableType of
          byU32 \<Rightarrow> Some (T(h := idx))
        | byU16 \<Rightarrow> Some (T(h := u16 idx))
        | _ \<Rightarrow> None
      else None)"

definition LZ4_getIndexOnHash :: "int \<Rightarrow> table \<Rightarrow> tableType_t \<Rightarrow> int option" where
  "LZ4_getIndexOnHash h T tableType =
     (if tableType \<in> {byU32, byU16} \<and> 0 \<le> h \<and> h < table_size tableType then Some (T h) else None)"

section \<open>Hashes are indexes of the table\<close>

definition indexed :: "tableType_t \<Rightarrow> bool" where
  "indexed tableType \<longleftrightarrow> tableType \<in> {byU32, byU16}"

lemma hash4_bounds: "0 \<le> LZ4_hash4 v tt" "LZ4_hash4 v tt < table_size tt"
proof -
  have u: "0 \<le> u32 x" "u32 x < 4294967296" for x by (simp_all add: u32_def)
  show "0 \<le> LZ4_hash4 v tt" using u(1) by (simp add: LZ4_hash4_def pos_imp_zdiv_nonneg_iff)
  have "u32 x div 2 ^ 19 < 8192" "u32 x div 2 ^ 20 < 4096" for x using u(2)[of x] by simp_all
  then show "LZ4_hash4 v tt < table_size tt" by (simp add: LZ4_hash4_def table_size_def)
qed

lemma hash5_bounds: "0 \<le> LZ4_hash5 v tt" "LZ4_hash5 v tt < table_size tt"
proof -
  have u: "0 \<le> u64 x" "u64 x < 18446744073709551616" for x by (simp_all add: u64_def)
  have d: "0 \<le> u64 x div 2 ^ 51" "u64 x div 2 ^ 51 < 8192" "0 \<le> u64 x div 2 ^ 52" "u64 x div 2 ^ 52 < 4096" for x
    using u [of x] by simp_all
  have le: "u32 x < b" if "0 \<le> x" "x < b" for x b
    using that zmod_le_nonneg_dividend [of x "2 ^ 32"] by (simp add: u32_def)
  show "0 \<le> LZ4_hash5 v tt" by (simp add: LZ4_hash5_def u32_def)
  show "LZ4_hash5 v tt < table_size tt"
    using le [OF d(1,2)] le [OF d(3,4)] by (simp add: LZ4_hash5_def table_size_def Let_def)
qed

text \<open>Bytes read to hash a position.\<close>

definition hash_width :: "tableType_t \<Rightarrow> int" where
  "hash_width tt = (if tt = byU16 then 4 else 8)"

lemma hashPosition_ok:
  assumes "valid m p 8"
  obtains h where "LZ4_hashPosition m p tt = Some h" "0 \<le> h" "h < table_size tt"
proof -
  have "valid m p 4" using assms by (rule valid_sub) auto
  then show thesis
    using that assms hash4_bounds hash5_bounds by (cases "tt = byU16") (auto simp: LZ4_hashPosition_def read_ARCH_le read32_le)
qed

lemma hashPosition_bounds: "LZ4_hashPosition m p tt = Some h \<Longrightarrow> 0 \<le> h \<and> h < table_size tt"
  using hash4_bounds hash5_bounds by (auto simp: LZ4_hashPosition_def split: if_splits)

lemma hashPosition_cong:
  assumes "\<And>x. p \<le> x \<Longrightarrow> x < p + 8 \<Longrightarrow> m' x = m x"
  shows "LZ4_hashPosition m' p tt = LZ4_hashPosition m p tt"
  using assms by (simp add: LZ4_hashPosition_def LZ4_read_ARCH_def LZ4_read32_def LZ4_read16_def)

lemma getIndex_ok: "indexed tt \<Longrightarrow> 0 \<le> h \<Longrightarrow> h < table_size tt \<Longrightarrow> LZ4_getIndexOnHash h T tt = Some (T h)"
  by (auto simp: LZ4_getIndexOnHash_def indexed_def)

lemma putIndex_ok:
  "indexed tt \<Longrightarrow> 0 \<le> h \<Longrightarrow> h < table_size tt \<Longrightarrow> 0 \<le> i \<Longrightarrow> tt = byU16 \<longrightarrow> i < 65536
   \<Longrightarrow> LZ4_putIndexOnHash i h T tt = Some (T(h := i))"
  by (cases tt) (auto simp: LZ4_putIndexOnHash_def indexed_def u16_def)

lemma clearHash_ok: "indexed tt \<Longrightarrow> 0 \<le> h \<Longrightarrow> h < table_size tt \<Longrightarrow> LZ4_clearHash h T tt = Some (T(h := 0))"
  by (auto simp: LZ4_clearHash_def indexed_def)

end
