(* ===== verification/LZ4_Compress.thy ===== *)
theory LZ4_Compress
  imports LZ4_Hash
begin

text \<open>
  The block compressor \<open>LZ4_compress_generic_validated\<close>.  Its loop is a machine with two kinds of
  states, the head of the C loop (\<open>AtSearch\<close>) and the label \<open>_next_match\<close> (\<open>AtMatch\<close>); a step ends in
  another state, in the label \<open>_last_literals\<close>, or in the early \<open>return 0\<close> of a limited output.
\<close>

section \<open>Parameters\<close>

datatype limitedOutput_directive = notLimited | limitedOutput | fillOutput
datatype dictIssue_directive = noDictIssue | dictSmall

definition LZ4_skipTrigger :: nat where [simp]: "LZ4_skipTrigger = 6"
definition LZ4_64Klimit :: int where [simp]: "LZ4_64Klimit = 65536 + (MFLIMIT - 1)"
definition LZ4_minLength :: int where [simp]: "LZ4_minLength = MFLIMIT + 1"

record comp_env =
  c_source :: addr
  c_dest :: addr
  c_inputSize :: int
  c_maxOutputSize :: int
  c_outputDirective :: limitedOutput_directive
  c_tableType :: tableType_t
  c_dictDirective :: dict_directive
  c_dictIssue :: dictIssue_directive
  c_acceleration :: int
  c_startIndex :: int
  c_dictionary :: addr
  c_dictSize :: int
  c_dictTable :: table        \<comment> \<open>\<open>dictCtx->hashTable\<close>\<close>
  c_dictOffset :: int         \<comment> \<open>\<open>dictCtx->currentOffset\<close>\<close>

definition c_base :: "comp_env \<Rightarrow> addr" where "c_base C = c_source C - c_startIndex C"
definition c_dictDelta :: "comp_env \<Rightarrow> int" where
  "c_dictDelta C = (if c_dictDirective C = usingDictCtx then u32 (c_startIndex C - c_dictOffset C) else 0)"
definition c_maybe_extMem :: "comp_env \<Rightarrow> bool" where
  "c_maybe_extMem C \<longleftrightarrow> c_dictDirective C = usingExtDict \<or> c_dictDirective C = usingDictCtx"
definition c_prefixIdxLimit :: "comp_env \<Rightarrow> int" where "c_prefixIdxLimit C = u32 (c_startIndex C - c_dictSize C)"
definition c_dictEnd :: "comp_env \<Rightarrow> addr" where
  "c_dictEnd C = (if c_dictionary C \<noteq> 0 then c_dictionary C + c_dictSize C else c_dictionary C)"
definition c_iend :: "comp_env \<Rightarrow> addr" where "c_iend C = c_source C + c_inputSize C"
definition c_mflimitPlusOne :: "comp_env \<Rightarrow> addr" where "c_mflimitPlusOne C = c_iend C - MFLIMIT + 1"
definition c_matchlimit :: "comp_env \<Rightarrow> addr" where "c_matchlimit C = c_iend C - LASTLITERALS"
definition c_dictBase :: "comp_env \<Rightarrow> addr" where
  "c_dictBase C = (if c_dictionary C = 0 then 0
     else if c_dictDirective C = usingDictCtx then c_dictionary C + c_dictSize C - c_dictOffset C
     else c_dictionary C + c_dictSize C - c_startIndex C)"
definition c_olimit :: "comp_env \<Rightarrow> addr" where "c_olimit C = c_dest C + c_maxOutputSize C"

section \<open>Finding a match\<close>

text \<open>Where the index \<open>matchIndex\<close> found at hash \<open>h\<close> points to: \<open>(match, matchIndex, lowLimit)\<close>.\<close>

definition candidate :: "comp_env \<Rightarrow> int \<Rightarrow> int \<Rightarrow> addr \<Rightarrow> (addr \<times> int \<times> addr) option" where
  "candidate C h matchIndex lowLimit =
     (if c_dictDirective C = usingDictCtx then
        if matchIndex < c_startIndex C then do {
          matchIndex \<leftarrow> LZ4_getIndexOnHash h (c_dictTable C) byU32;
          Some (c_dictBase C + matchIndex, u32 (matchIndex + c_dictDelta C), c_dictionary C) }
        else Some (c_base C + matchIndex, matchIndex, c_source C)
      else if c_dictDirective C = usingExtDict then
        if matchIndex < c_startIndex C then Some (c_dictBase C + matchIndex, matchIndex, c_dictionary C)
        else Some (c_base C + matchIndex, matchIndex, c_source C)
      else Some (c_base C + matchIndex, matchIndex, lowLimit))"

text \<open>The two tests a candidate passes before its bytes are compared.\<close>

definition outside_valid_area :: "comp_env \<Rightarrow> int \<Rightarrow> bool" where
  "outside_valid_area C matchIndex \<longleftrightarrow> c_dictIssue C = dictSmall \<and> matchIndex < c_prefixIdxLimit C"

definition too_far :: "comp_env \<Rightarrow> int \<Rightarrow> int \<Rightarrow> bool" where
  "too_far C matchIndex current \<longleftrightarrow> c_tableType C \<noteq> byU16 \<and> u32 (matchIndex + LZ4_DISTANCE_MAX) < current"

datatype find_out =
    Found table addr addr addr int     \<comment> \<open>table, \<open>ip\<close>, \<open>match\<close>, \<open>lowLimit\<close>, \<open>offset\<close>\<close>
  | NotFound table

partial_function (option) find_match ::
  "comp_env \<Rightarrow> mem \<Rightarrow> table \<Rightarrow> addr \<Rightarrow> int \<Rightarrow> int \<Rightarrow> int \<Rightarrow> addr \<Rightarrow> int \<Rightarrow> find_out option" where
  "find_match C m T forwardIp step searchMatchNb forwardH lowLimit offset =
     (let h = forwardH; current = u32 (forwardIp - c_base C) in
      Option.bind (LZ4_getIndexOnHash h T (c_tableType C)) (\<lambda>matchIndex.
      let ip = forwardIp; forwardIp = forwardIp + step; step = searchMatchNb div 2 ^ LZ4_skipTrigger;
          searchMatchNb = searchMatchNb + 1 in
      if forwardIp > c_mflimitPlusOne C then Some (NotFound T)
      else Option.bind (candidate C h matchIndex lowLimit) (\<lambda>(match, matchIndex, lowLimit).
        Option.bind (LZ4_hashPosition m forwardIp (c_tableType C)) (\<lambda>forwardH.
        Option.bind (LZ4_putIndexOnHash current h T (c_tableType C)) (\<lambda>T.
        if outside_valid_area C matchIndex \<or> too_far C matchIndex current
        then find_match C m T forwardIp step searchMatchNb forwardH lowLimit offset
        else Option.bind (LZ4_read32 m match) (\<lambda>a. Option.bind (LZ4_read32 m ip) (\<lambda>b.
          if a = b then Some (Found T ip match lowLimit
            (if c_maybe_extMem C then u32 (current - matchIndex) else offset))
          else find_match C m T forwardIp step searchMatchNb forwardH lowLimit offset)))))))"

declare find_match.simps [code]

section \<open>Catch up\<close>

function catch_up_loop :: "mem \<Rightarrow> addr \<Rightarrow> addr \<Rightarrow> addr \<Rightarrow> addr \<Rightarrow> (addr \<times> addr) option" where
  "catch_up_loop m anchor lowLimit ip match =
     (if ip > anchor \<and> match > lowLimit then do {
        a \<leftarrow> m (ip - 1); b \<leftarrow> m (match - 1);
        if a = b then catch_up_loop m anchor lowLimit (ip - 1) (match - 1) else Some (ip, match) }
      else Some (ip, match))"
  by pat_completeness auto
termination
  by (relation "measure (\<lambda>(m, anchor, lowLimit, ip, match). nat (ip - anchor))") auto

declare catch_up_loop.simps [simp del]

definition catch_up :: "mem \<Rightarrow> addr \<Rightarrow> addr \<Rightarrow> addr \<Rightarrow> addr \<Rightarrow> (addr \<times> addr) option" where
  "catch_up m anchor lowLimit ip match =
     (if match > lowLimit then do {
        a \<leftarrow> m (ip - 1); b \<leftarrow> m (match - 1);
        if a = b then catch_up_loop m anchor lowLimit (ip - 1) (match - 1) else Some (ip, match) }
      else Some (ip, match))"

section \<open>Encoding\<close>

text \<open>\<open>for(; len >= 255 ; len-=255) *op++ = 255; *op++ = (BYTE)len;\<close>\<close>

function write_length :: "mem \<Rightarrow> addr \<Rightarrow> int \<Rightarrow> (mem \<times> addr) option" where
  "write_length m op len =
     (if len \<ge> 255 then do { m \<leftarrow> store8 m op 255; write_length m (op + 1) (len - 255) }
      else do { m \<leftarrow> store8 m op (byte_of len); Some (m, op + 1) })"
  by pat_completeness auto
termination
  by (relation "measure (\<lambda>(m, op, len). nat len)") auto

declare write_length.simps [simp del]

datatype lit_out =
    LitOk mem addr addr       \<comment> \<open>memory, \<open>op\<close>, \<open>token\<close>\<close>
  | LitReturn0
  | LitLast addr              \<comment> \<open>\<open>op\<close>\<close>

definition encode_literals :: "comp_env \<Rightarrow> mem \<Rightarrow> addr \<Rightarrow> addr \<Rightarrow> addr \<Rightarrow> lit_out option" where
  "encode_literals C m anchor ip op =
     (let litLength = u32 (ip - anchor); token = op; op = op + 1 in
      if c_outputDirective C = limitedOutput
         \<and> op + litLength + (2 + 1 + LASTLITERALS) + litLength div 255 > c_olimit C then Some LitReturn0
      else if c_outputDirective C = fillOutput
         \<and> op + (litLength + 240) div 255 + litLength + 2 + 1 + MFLIMIT - MINMATCH > c_olimit C
      then Some (LitLast (op - 1))
      else do {
        (m, op) \<leftarrow>
          (if litLength \<ge> RUN_MASK then do {
             m \<leftarrow> store8 m token (byte_of (RUN_MASK * 16)); write_length m op (litLength - RUN_MASK) }
           else do { m \<leftarrow> store8 m token (byte_of (litLength * 16)); Some (m, op) });
        m \<leftarrow> LZ4_wildCopy8 m op anchor (op + litLength);
        Some (LitOk m (op + litLength) token) })"

text \<open>The length of the match and the position after it.\<close>

definition match_length :: "comp_env \<Rightarrow> mem \<Rightarrow> addr \<Rightarrow> addr \<Rightarrow> addr \<Rightarrow> (int \<times> addr) option" where
  "match_length C m ip match lowLimit =
     (if c_maybe_extMem C \<and> lowLimit = c_dictionary C then
        let limit = ip + (c_dictEnd C - match);
            limit = (if limit > c_matchlimit C then c_matchlimit C else limit) in do {
        matchCode \<leftarrow> LZ4_count m (ip + MINMATCH) (match + MINMATCH) limit;
        let ip = ip + (matchCode + MINMATCH) in
        if ip = limit then do {
          more \<leftarrow> LZ4_count m limit (c_source C) (c_matchlimit C);
          Some (u32 (matchCode + more), ip + more) }
        else Some (matchCode, ip) }
      else do {
        matchCode \<leftarrow> LZ4_count m (ip + MINMATCH) (match + MINMATCH) (c_matchlimit C);
        Some (matchCode, ip + (matchCode + MINMATCH)) })"

function clear_positions :: "comp_env \<Rightarrow> mem \<Rightarrow> table \<Rightarrow> addr \<Rightarrow> addr \<Rightarrow> table option" where
  "clear_positions C m T ptr filledIp =
     (if ptr \<le> filledIp then do {
        h \<leftarrow> LZ4_hashPosition m ptr (c_tableType C);
        T \<leftarrow> LZ4_clearHash h T (c_tableType C);
        clear_positions C m T (ptr + 1) filledIp }
      else Some T)"
  by pat_completeness auto
termination
  by (relation "measure (\<lambda>(C, m, T, ptr, filledIp). nat (filledIp + 1 - ptr))") auto

declare clear_positions.simps [simp del]

text \<open>The output budget of a match: a match that is too long is shortened (\<open>fillOutput\<close>) or refused.\<close>

definition fit_match ::
  "comp_env \<Rightarrow> mem \<Rightarrow> table \<Rightarrow> addr \<Rightarrow> addr \<Rightarrow> int \<Rightarrow> addr \<Rightarrow> (table \<times> int \<times> addr) option option" where
  "fit_match C m T op filledIp matchCode ip =
     (if c_outputDirective C \<noteq> notLimited \<and> op + (1 + LASTLITERALS) + (matchCode + 240) div 255 > c_olimit C then
        if c_outputDirective C = fillOutput then
          let newMatchCode = u32 (15 - 1 + (u32 (c_olimit C - op) - 1 - LASTLITERALS) * 255);
              ip = ip - u32 (matchCode - newMatchCode) in do {
          T \<leftarrow> (if ip \<le> filledIp then clear_positions C m T ip filledIp else Some T);
          Some (Some (T, newMatchCode, ip)) }
        else Some None
      else Some (Some (T, matchCode, ip)))"

function write_match_length :: "mem \<Rightarrow> addr \<Rightarrow> int \<Rightarrow> (mem \<times> addr \<times> int) option" where
  "write_match_length m op matchCode =
     (if matchCode \<ge> 4 * 255 then do {
        m \<leftarrow> LZ4_write32 m (op + 4) 0xFFFFFFFF;
        write_match_length m (op + 4) (matchCode - 4 * 255) }
      else Some (m, op, matchCode))"
  by pat_completeness auto
termination
  by (relation "measure (\<lambda>(m, op, matchCode). nat matchCode)") auto

declare write_match_length.simps [simp del]

definition encode_match_length :: "mem \<Rightarrow> addr \<Rightarrow> addr \<Rightarrow> int \<Rightarrow> (mem \<times> addr) option" where
  "encode_match_length m token op matchCode =
     (if matchCode \<ge> ML_MASK then do {
        t \<leftarrow> m token;
        m \<leftarrow> store8 m token (byte_of (uint t + ML_MASK));
        let matchCode = matchCode - ML_MASK in do {
        m \<leftarrow> LZ4_write32 m op 0xFFFFFFFF;
        (m, op, matchCode) \<leftarrow> write_match_length m op matchCode;
        let op = op + matchCode div 255 in do {
        m \<leftarrow> store8 m op (byte_of (matchCode mod 255));
        Some (m, op + 1) } } }
      else do {
        t \<leftarrow> m token;
        m \<leftarrow> store8 m token (byte_of (uint t + matchCode));
        Some (m, op) })"

section \<open>The loop\<close>

datatype comp_state =
    AtSearch mem table addr addr addr int addr int
      \<comment> \<open>memory, table, \<open>anchor\<close>, \<open>ip\<close>, \<open>op\<close>, \<open>forwardH\<close>, \<open>lowLimit\<close>, \<open>offset\<close>\<close>
  | AtMatch mem table addr addr addr addr int addr addr addr
      \<comment> \<open>memory, table, \<open>anchor\<close>, \<open>ip\<close>, \<open>match\<close>, \<open>lowLimit\<close>, \<open>offset\<close>, \<open>filledIp\<close>, \<open>token\<close>, \<open>op\<close>\<close>

datatype comp_out =
    Continue comp_state
  | LastLiterals mem table addr addr    \<comment> \<open>memory, table, \<open>anchor\<close>, \<open>op\<close>\<close>
  | Return0 mem table

definition search_step :: "comp_env \<Rightarrow> mem \<Rightarrow> table \<Rightarrow> addr \<Rightarrow> addr \<Rightarrow> addr \<Rightarrow> int \<Rightarrow> addr \<Rightarrow> int \<Rightarrow> comp_out option" where
  "search_step C m T anchor ip op forwardH lowLimit offset = do {
     r \<leftarrow> find_match C m T ip 1 (c_acceleration C * 2 ^ LZ4_skipTrigger) forwardH lowLimit offset;
     case r of
       NotFound T \<Rightarrow> Some (LastLiterals m T anchor op)
     | Found T ip match lowLimit offset \<Rightarrow> do {
         let filledIp = ip in do {
         (ip, match) \<leftarrow> catch_up m anchor lowLimit ip match;
         l \<leftarrow> encode_literals C m anchor ip op;
         Some (case l of
           LitReturn0 \<Rightarrow> Return0 m T
         | LitLast op \<Rightarrow> LastLiterals m T anchor op
         | LitOk m op token \<Rightarrow> Continue (AtMatch m T anchor ip match lowLimit offset filledIp token op)) } } }"

text \<open>From the end of a match: fill the table and test the next position.\<close>

definition test_next :: "comp_env \<Rightarrow> mem \<Rightarrow> table \<Rightarrow> addr \<Rightarrow> addr \<Rightarrow> addr \<Rightarrow> int \<Rightarrow> addr \<Rightarrow> comp_out option" where
  "test_next C m T ip op lowLimit offset filledIp =
     (let anchor = ip in
      if ip \<ge> c_mflimitPlusOne C then Some (LastLiterals m T anchor op)
      else do {
        h \<leftarrow> LZ4_hashPosition m (ip - 2) (c_tableType C);
        T \<leftarrow> LZ4_putIndexOnHash (u32 (ip - 2 - c_base C)) h T (c_tableType C);
        h \<leftarrow> LZ4_hashPosition m ip (c_tableType C);
        let current = u32 (ip - c_base C) in do {
        matchIndex \<leftarrow> LZ4_getIndexOnHash h T (c_tableType C);
        (match, matchIndex, lowLimit) \<leftarrow> candidate C h matchIndex lowLimit;
        T \<leftarrow> LZ4_putIndexOnHash current h T (c_tableType C);
        same \<leftarrow> (if outside_valid_area C matchIndex \<or> too_far C matchIndex current then Some False
                 else do { a \<leftarrow> LZ4_read32 m match; b \<leftarrow> LZ4_read32 m ip; Some (a = b) });
        if same then do {
          let token = op; op = op + 1 in do {
          m \<leftarrow> store8 m token 0;
          let offset = (if c_maybe_extMem C then u32 (current - matchIndex) else offset) in
          Some (Continue (AtMatch m T anchor ip match lowLimit offset filledIp token op)) } }
        else do {
          forwardH \<leftarrow> LZ4_hashPosition m (ip + 1) (c_tableType C);
          Some (Continue (AtSearch m T anchor (ip + 1) op forwardH lowLimit offset)) } } })"

definition match_step ::
  "comp_env \<Rightarrow> mem \<Rightarrow> table \<Rightarrow> addr \<Rightarrow> addr \<Rightarrow> addr \<Rightarrow> addr \<Rightarrow> int \<Rightarrow> addr \<Rightarrow> addr \<Rightarrow> addr \<Rightarrow> comp_out option" where
  "match_step C m T anchor ip match lowLimit offset filledIp token op =
     (if c_outputDirective C = fillOutput \<and> op + 2 + 1 + MFLIMIT - MINMATCH > c_olimit C
      then Some (LastLiterals m T anchor token)
      else do {
        m \<leftarrow> LZ4_writeLE16 m op (u16 (if c_maybe_extMem C then offset else ip - match));
        let op = op + 2 in do {
        (matchCode, ip) \<leftarrow> match_length C m ip match lowLimit;
        f \<leftarrow> fit_match C m T op filledIp matchCode ip;
        case f of
          None \<Rightarrow> Some (Return0 m T)
        | Some (T, matchCode, ip) \<Rightarrow> do {
            (m, op) \<leftarrow> encode_match_length m token op matchCode;
            test_next C m T ip op lowLimit offset filledIp } } })"

fun comp_step :: "comp_env \<Rightarrow> comp_state \<Rightarrow> comp_out option" where
  "comp_step C (AtSearch m T anchor ip op forwardH lowLimit offset) =
     search_step C m T anchor ip op forwardH lowLimit offset"
| "comp_step C (AtMatch m T anchor ip match lowLimit offset filledIp token op) =
     match_step C m T anchor ip match lowLimit offset filledIp token op"

partial_function (option) comp_loop :: "comp_env \<Rightarrow> comp_state \<Rightarrow> comp_out option" where
  "comp_loop C s =
     Option.bind (comp_step C s) (\<lambda>r. case r of Continue s \<Rightarrow> comp_loop C s | _ \<Rightarrow> Some r)"

declare comp_loop.simps [code]

section \<open>Last literals\<close>

text \<open>The run of literals that ends the block: \<open>None\<close> for the early return of a limited output,
  otherwise the input position and the output position after it.\<close>

definition last_run :: "comp_env \<Rightarrow> addr \<Rightarrow> addr \<Rightarrow> int option" where
  "last_run C anchor op =
     (let lastRun = c_iend C - anchor in
      if c_outputDirective C \<noteq> notLimited \<and> op + lastRun + 1 + (lastRun + 255 - RUN_MASK) div 255 > c_olimit C then
        if c_outputDirective C = fillOutput then
          let lastRun = u64 (c_olimit C - op - 1) in Some (lastRun - (lastRun + 256 - RUN_MASK) div 256)
        else None
      else Some lastRun)"

definition encode_last_literals :: "mem \<Rightarrow> addr \<Rightarrow> addr \<Rightarrow> int \<Rightarrow> (mem \<times> addr \<times> addr) option" where
  "encode_last_literals m anchor op lastRun = do {
     (m, op) \<leftarrow>
       (if lastRun \<ge> RUN_MASK then do {
          m \<leftarrow> store8 m op (byte_of (RUN_MASK * 16)); write_length m (op + 1) (lastRun - RUN_MASK) }
        else do { m \<leftarrow> store8 m op (byte_of (lastRun * 16)); Some (m, op + 1) });
     m \<leftarrow> LZ4_memcpy m op anchor lastRun;
     Some (m, anchor + lastRun, op + lastRun) }"

section \<open>\<open>LZ4_compress_generic\<close>\<close>

record LZ4_dict_t =
  s_hashTable :: table
  s_dictionary :: addr
  s_currentOffset :: int
  s_tableType :: tableType_t
  s_dictSize :: int

record LZ4_stream_t = LZ4_dict_t +
  s_dictCtx :: "LZ4_dict_t option"

text \<open>The result: return value, \<open>*inputConsumed\<close> if it is written, stream and memory.\<close>

type_synonym comp_result = "int \<times> int option \<times> LZ4_stream_t \<times> mem"

definition comp_finish :: "comp_env \<Rightarrow> LZ4_stream_t \<Rightarrow> comp_out \<Rightarrow> comp_result option" where
  "comp_finish C cctx r = (case r of
     LastLiterals m T anchor op \<Rightarrow>
       (case last_run C anchor op of
          None \<Rightarrow> Some (0, None, cctx\<lparr>s_hashTable := T\<rparr>, m)
        | Some lastRun \<Rightarrow> do {
            (m, ip, op) \<leftarrow> encode_last_literals m anchor op lastRun;
            Some (op - c_dest C, if c_outputDirective C = fillOutput then Some (ip - c_source C) else None,
                  cctx\<lparr>s_hashTable := T\<rparr>, m) })
   | Return0 m T \<Rightarrow> Some (0, None, cctx\<lparr>s_hashTable := T\<rparr>, m)
   | Continue s \<Rightarrow> None)"

definition comp_env_of ::
  "LZ4_stream_t \<Rightarrow> addr \<Rightarrow> addr \<Rightarrow> int \<Rightarrow> int \<Rightarrow> limitedOutput_directive \<Rightarrow> tableType_t \<Rightarrow> dict_directive
     \<Rightarrow> dictIssue_directive \<Rightarrow> int \<Rightarrow> comp_env option" where
  "comp_env_of cctx source dest inputSize maxOutputSize outputDirective tableType dictDirective dictIssue acceleration =
     (let mk = (\<lambda>dictionary dictSize dictTable dictOffset.
        \<lparr>c_source = source, c_dest = dest, c_inputSize = inputSize, c_maxOutputSize = maxOutputSize,
         c_outputDirective = outputDirective, c_tableType = tableType, c_dictDirective = dictDirective,
         c_dictIssue = dictIssue, c_acceleration = acceleration, c_startIndex = s_currentOffset cctx,
         c_dictionary = dictionary, c_dictSize = dictSize, c_dictTable = dictTable, c_dictOffset = dictOffset\<rparr>) in
      if dictDirective = usingDictCtx then
        map_option (\<lambda>d. mk (s_dictionary d) (s_dictSize d) (s_hashTable d) (s_currentOffset d)) (s_dictCtx cctx)
      else Some (mk (s_dictionary cctx) (s_dictSize cctx) (\<lambda>h. 0) 0))"

definition LZ4_compress_generic_validated ::
  "LZ4_stream_t \<Rightarrow> mem \<Rightarrow> addr \<Rightarrow> addr \<Rightarrow> int \<Rightarrow> int \<Rightarrow> limitedOutput_directive \<Rightarrow> tableType_t \<Rightarrow> dict_directive
     \<Rightarrow> dictIssue_directive \<Rightarrow> int \<Rightarrow> comp_result option" where
  "LZ4_compress_generic_validated cctx m source dest inputSize maxOutputSize outputDirective tableType dictDirective
     dictIssue acceleration = do {
     C \<leftarrow> comp_env_of cctx source dest inputSize maxOutputSize outputDirective tableType dictDirective dictIssue acceleration;
     if outputDirective = fillOutput \<and> maxOutputSize < 1 then Some (0, None, cctx, m)
     else
       let lowLimit = source - (if dictDirective = withPrefix64k then c_dictSize C else 0);
           cctx1 = (if dictDirective = usingDictCtx then cctx\<lparr>s_dictCtx := None, s_dictSize := u32 inputSize\<rparr>
                    else cctx\<lparr>s_dictSize := u32 (s_dictSize cctx + u32 inputSize)\<rparr>);
           cctx2 = cctx1\<lparr>s_currentOffset := u32 (s_currentOffset cctx + u32 inputSize), s_tableType := tableType\<rparr>;
           T = s_hashTable cctx in
       if inputSize < LZ4_minLength then comp_finish C cctx2 (LastLiterals m T source dest)
       else do {
         h \<leftarrow> LZ4_hashPosition m source tableType;
         T \<leftarrow> LZ4_putIndexOnHash (c_startIndex C) h T tableType;
         forwardH \<leftarrow> LZ4_hashPosition m (source + 1) tableType;
         r \<leftarrow> comp_loop C (AtSearch m T source (source + 1) dest forwardH lowLimit 0);
         comp_finish C cctx2 r } }"

definition LZ4_compress_generic ::
  "LZ4_stream_t \<Rightarrow> mem \<Rightarrow> addr \<Rightarrow> addr \<Rightarrow> int \<Rightarrow> int \<Rightarrow> limitedOutput_directive \<Rightarrow> tableType_t \<Rightarrow> dict_directive
     \<Rightarrow> dictIssue_directive \<Rightarrow> int \<Rightarrow> comp_result option" where
  "LZ4_compress_generic cctx m src dst srcSize dstCapacity outputDirective tableType dictDirective dictIssue acceleration =
     (if u32 srcSize > u32 LZ4_MAX_INPUT_SIZE then Some (0, None, cctx, m)
      else if srcSize = 0 then
        if outputDirective \<noteq> notLimited \<and> dstCapacity \<le> 0 then Some (0, None, cctx, m)
        else do {
          m \<leftarrow> store8 m dst 0;
          Some (1, if outputDirective = fillOutput then Some 0 else None, cctx, m) }
      else LZ4_compress_generic_validated cctx m src dst srcSize dstCapacity outputDirective tableType dictDirective
             dictIssue acceleration)"

end
