(* ===== verification/LZ4_CompSpec.thy ===== *)
theory LZ4_CompSpec
  imports LZ4_Compress LZ4_Format
begin

text \<open>
  The precondition of the compressor, the text it sees (dictionary and input as one sequence of
  virtual addresses), and the invariant of its hash table: every entry that survives the tests of
  the search points into that text.
\<close>

section \<open>Buffers\<close>

text \<open>The lowest virtual address of the history, the real address behind a virtual one, and the
  lowest virtual address of the segment that a position belongs to.\<close>

definition c_lo :: "comp_env \<Rightarrow> addr" where "c_lo C = c_source C - c_dictSize C"

definition raddr :: "comp_env \<Rightarrow> addr \<Rightarrow> addr" where
  "raddr C v = (if c_maybe_extMem C \<and> v < c_source C then c_dictionary C + c_dictSize C - (c_source C - v) else v)"

definition segment :: "comp_env \<Rightarrow> addr \<Rightarrow> addr" where
  "segment C v = (if c_maybe_extMem C \<and> c_source C \<le> v then c_source C else c_lo C)"

definition cvm :: "comp_env \<Rightarrow> mem \<Rightarrow> mem" where "cvm C m = (\<lambda>v. m (raddr C v))"

text \<open>The history: the content of the dictionary.\<close>

definition chist :: "comp_env \<Rightarrow> mem \<Rightarrow> addr \<Rightarrow> byte list" where
  "chist C m a = bytes (cvm C m) (c_lo C) (a - c_lo C)"

definition compressBound :: "int \<Rightarrow> int" where "compressBound n = n + n div 255 + 16"

text \<open>Indexes of the table of an attached dictionary.\<close>

definition dict_entry :: "comp_env \<Rightarrow> int \<Rightarrow> bool" where
  "dict_entry C j \<longleftrightarrow> 0 \<le> j \<and>
     (c_dictOffset C - c_dictSize C \<le> j \<and> j + 4 \<le> c_dictOffset C \<or> j + 65535 \<le> c_dictOffset C)"

text \<open>The precondition.  \<open>room\<close> is the size of the output buffer.\<close>

definition comp_ok :: "comp_env \<Rightarrow> int \<Rightarrow> mem \<Rightarrow> bool" where
  "comp_ok C room m \<longleftrightarrow>
     0 < c_source C \<and> 0 < c_inputSize C \<and> c_inputSize C \<le> LZ4_MAX_INPUT_SIZE \<and>
     0 \<le> c_startIndex C \<and> c_startIndex C + c_inputSize C \<le> 2 ^ 31 \<and>
     indexed (c_tableType C) \<and> (c_tableType C = byU16 \<longrightarrow> c_startIndex C + c_inputSize C < LZ4_64Klimit) \<and>
     1 \<le> c_acceleration C \<and>
     valid m (c_source C) (c_inputSize C) \<and> 0 \<le> room \<and> valid m (c_dest C) room \<and>
     (c_iend C \<le> c_dest C \<or> c_dest C + room \<le> c_source C) \<and>
     0 \<le> c_dictSize C \<and> c_dictSize C < 2 ^ 31 \<and> (c_dictDirective C = noDict \<longrightarrow> c_dictSize C = 0) \<and>
     (c_dictIssue C = dictSmall \<longrightarrow> c_dictSize C \<le> c_startIndex C) \<and>
     (if c_maybe_extMem C
      then c_dictionary C \<noteq> c_source C \<and> (c_dictionary C = 0 \<longrightarrow> c_dictSize C = 0) \<and>
           valid m (c_dictionary C) (c_dictSize C) \<and>
           (c_dictionary C + c_dictSize C \<le> c_dest C \<or> c_dest C + room \<le> c_dictionary C)
      else valid m (c_lo C) (c_dictSize C) \<and> (c_iend C \<le> c_dest C \<or> c_dest C + room \<le> c_lo C)) \<and>
     (c_dictDirective C = usingDictCtx \<longrightarrow> c_tableType C = byU32 \<and> 0 \<le> c_dictOffset C \<and>
        c_dictOffset C \<le> c_startIndex C \<and> (\<forall>h. 0 \<le> h \<and> h < table_size byU32 \<longrightarrow> dict_entry C (c_dictTable C h))) \<and>
     (c_outputDirective C = notLimited \<longrightarrow> compressBound (c_inputSize C) \<le> room) \<and>
     (c_outputDirective C \<noteq> notLimited \<longrightarrow> c_maxOutputSize C \<le> room \<and> c_maxOutputSize C < 2 ^ 31) \<and>
     (c_outputDirective C = fillOutput \<longrightarrow> c_startIndex C = 0 \<and> c_dictDirective C = noDict \<and> 1 \<le> c_maxOutputSize C)"

lemmas c_defs = c_base_def c_dictDelta_def c_maybe_extMem_def c_prefixIdxLimit_def c_dictEnd_def c_iend_def
  c_mflimitPlusOne_def c_matchlimit_def c_dictBase_def c_olimit_def

lemma comp_okD:
  assumes "comp_ok C room m"
  shows "0 < c_source C" "0 < c_inputSize C" "c_inputSize C < 2 ^ 31" "0 \<le> c_startIndex C"
    "c_startIndex C + c_inputSize C \<le> 2 ^ 31" "indexed (c_tableType C)"
    "c_tableType C = byU16 \<Longrightarrow> c_startIndex C + c_inputSize C < 65547"
    "valid m (c_source C) (c_inputSize C)" "valid m (c_dest C) room" "0 \<le> room"
    "c_iend C \<le> c_dest C \<or> c_dest C + room \<le> c_source C" "0 \<le> c_dictSize C" "c_dictSize C < 2 ^ 31"
    "c_lo C \<le> c_source C" "c_iend C = c_source C + c_inputSize C"
  using assms by (auto simp: comp_ok_def c_lo_def c_iend_def)

lemma comp_ok_ext:
  assumes "comp_ok C room m" "c_maybe_extMem C"
  shows "c_dictionary C \<noteq> c_source C" "c_dictionary C = 0 \<Longrightarrow> c_dictSize C = 0" "valid m (c_dictionary C) (c_dictSize C)"
    "c_dictionary C + c_dictSize C \<le> c_dest C \<or> c_dest C + room \<le> c_dictionary C" "c_dictEnd C = c_dictionary C + c_dictSize C"
  using assms by (simp_all add: comp_ok_def c_dictEnd_def)

lemma comp_ok_fill:
  assumes "comp_ok C room m" "c_outputDirective C = fillOutput"
  shows "c_startIndex C = 0" "c_dictDirective C = noDict" "1 \<le> c_maxOutputSize C"
  using assms by (simp_all add: comp_ok_def)

lemma comp_ok_noDict: "comp_ok C room m \<Longrightarrow> c_dictDirective C = noDict \<Longrightarrow> c_dictSize C = 0"
  by (simp add: comp_ok_def)

lemma comp_ok_frame: "comp_ok C room m \<Longrightarrow> frame m m' a b \<Longrightarrow> comp_ok C room m'"
  by (simp add: comp_ok_def frame_valid)

lemma raddr_source [simp]: "c_source C \<le> v \<Longrightarrow> raddr C v = v"
  by (simp add: raddr_def)

lemma cvm_source [simp]: "c_source C \<le> v \<Longrightarrow> cvm C m v = m v"
  by (simp add: cvm_def)

text \<open>The text is outside of the output buffer.\<close>

lemma raddr_out:
  assumes "comp_ok C room m" "c_lo C \<le> v" "v < c_iend C"
  shows "raddr C v < c_dest C \<or> c_dest C + room \<le> raddr C v"
proof (cases "c_maybe_extMem C \<and> v < c_source C")
  case True
  then have "c_dictionary C + c_dictSize C \<le> c_dest C \<or> c_dest C + room \<le> c_dictionary C"
    using assms(1) by (simp add: comp_ok_def)
  then show ?thesis using True assms(2) by (auto simp: raddr_def c_lo_def)
next
  case False
  have "v < c_dest C \<or> c_dest C + room \<le> v"
  proof (cases "c_maybe_extMem C")
    case True
    then show ?thesis using False comp_okD(11) [OF assms(1)] assms(3) by auto
  next
    case False
    then have "c_iend C \<le> c_dest C \<or> c_dest C + room \<le> c_lo C" using assms(1) by (simp add: comp_ok_def)
    then show ?thesis using assms(2,3) by auto
  qed
  then show ?thesis using False by (auto simp: raddr_def)
qed

lemma cvm_frame:
  assumes "comp_ok C room m" "frame m m' (c_dest C) (c_dest C + room)" "c_lo C \<le> v" "v < c_iend C"
  shows "cvm C m' v = cvm C m v"
  unfolding cvm_def by (rule frame_out [OF assms(2) raddr_out [OF assms(1,3,4)]])

lemma source_frame:
  assumes "comp_ok C room m" "frame m m' (c_dest C) (c_dest C + room)" "c_source C \<le> v" "v < c_iend C"
  shows "m' v = m v"
  using cvm_frame [OF assms(1,2), of v] assms(3,4) comp_okD(14) [OF assms(1)] by simp

lemma raddr_valid:
  assumes "comp_ok C room m" "c_lo C \<le> v" "v + n \<le> c_iend C" "c_maybe_extMem C \<and> v < c_source C \<longrightarrow> v + n \<le> c_source C"
  shows "valid m (raddr C v) n"
proof (cases "c_maybe_extMem C \<and> v < c_source C")
  case True
  then have "valid m (c_dictionary C) (c_dictSize C)" using assms(1) by (simp add: comp_ok_def)
  then show ?thesis by (rule valid_sub) (use True assms(2,4) in \<open>auto simp: raddr_def c_lo_def\<close>)
next
  case False
  show ?thesis
  proof (cases "v < c_source C")
    case True
    with False have "valid m (c_lo C) (c_dictSize C)" using assms(1) by (simp add: comp_ok_def)
    from this comp_okD(8) [OF assms(1)] show ?thesis
      by (rule valid_join) (use assms(2,3) True False in \<open>auto simp: raddr_def c_lo_def c_iend_def\<close>)
  next
    case False
    with comp_okD(8) [OF assms(1)] show ?thesis
      by (elim valid_sub) (use assms(3) False in \<open>auto simp: c_iend_def\<close>)
  qed
qed

lemma source_valid: "comp_ok C room m \<Longrightarrow> c_source C \<le> v \<Longrightarrow> v + n \<le> c_iend C \<Longrightarrow> valid m v n"
  using raddr_valid [of C room m v n] comp_okD(14) [of C room m] by simp

lemma cvm_valid:
  assumes "comp_ok C room m" "c_lo C \<le> v" "v < c_iend C"
  shows "\<exists>b. cvm C m v = Some b"
  using raddr_valid [OF assms(1,2), of 1] assms(3) valid_at [of m "raddr C v" 1 "raddr C v"]
  by (auto simp: cvm_def)

section \<open>The hash table\<close>

text \<open>An index from before the current input: a position of the history, or one that the tests of
  the search reject.  The table of the current stream is not asked for those when a dictionary
  context is attached.\<close>

definition old_ok :: "comp_env \<Rightarrow> int \<Rightarrow> bool" where
  "old_ok C i \<longleftrightarrow> c_dictDirective C = usingDictCtx \<or> outside_valid_area C i
     \<or> c_tableType C \<noteq> byU16 \<and> i + 65535 \<le> c_startIndex C
     \<or> c_startIndex C - c_dictSize C \<le> i \<and> (c_maybe_extMem C \<longrightarrow> i + 4 \<le> c_startIndex C)"

text \<open>All indexes are below \<open>b\<close>, and \<open>P\<close> holds for those from before the current input (it is at least as
  strong as \<open>old_ok\<close>); for \<open>fillOutput\<close>, an index is stored at its hash.\<close>

definition tbl :: "(int \<Rightarrow> bool) \<Rightarrow> comp_env \<Rightarrow> mem \<Rightarrow> int \<Rightarrow> table \<Rightarrow> bool" where
  "tbl P C m b T \<longleftrightarrow> (\<forall>h. 0 \<le> h \<and> h < table_size (c_tableType C) \<longrightarrow>
     0 \<le> T h \<and> T h < b \<and> (T h < c_startIndex C \<longrightarrow> P (T h)) \<and>
     (c_outputDirective C = fillOutput \<and> T h \<noteq> 0 \<longrightarrow> LZ4_hashPosition m (c_base C + T h) (c_tableType C) = Some h))"

lemma tblD:
  assumes "tbl P C m b T" "0 \<le> h" "h < table_size (c_tableType C)"
  shows "0 \<le> T h" "T h < b" "T h < c_startIndex C \<Longrightarrow> P (T h)"
    "c_outputDirective C = fillOutput \<Longrightarrow> T h \<noteq> 0 \<Longrightarrow> LZ4_hashPosition m (c_base C + T h) (c_tableType C) = Some h"
  using assms by (auto simp: tbl_def)

lemma tbl_mono: "tbl P C m b T \<Longrightarrow> b \<le> b' \<Longrightarrow> tbl P C m b' T"
  by (auto simp: tbl_def)

lemma tbl_put:
  assumes "tbl P C m b T" "c_startIndex C \<le> i" "0 \<le> i" "i < b'" "b \<le> b'"
    and "LZ4_hashPosition m (c_base C + i) (c_tableType C) = Some h"
  shows "tbl P C m b' (T(h := i))"
  using assms by (auto simp: tbl_def)

lemma put_ok:
  assumes "comp_ok C room m" "c_base C + i + 12 \<le> c_iend C" "0 \<le> i" "0 \<le> h" "h < table_size (c_tableType C)"
  shows "LZ4_putIndexOnHash i h T (c_tableType C) = Some (T(h := i))"
  using assms(2-) comp_okD(6,7) [OF assms(1)] by (intro putIndex_ok) (auto simp: c_defs)

text \<open>The hash of a position does not change while the output is written.\<close>

lemma hash_frame:
  assumes "comp_ok C room m" "frame m m' (c_dest C) (c_dest C + room)" "c_source C \<le> p" "p + 8 \<le> c_iend C"
  shows "LZ4_hashPosition m' p tt = LZ4_hashPosition m p tt"
  by (rule hashPosition_cong) (use source_frame [OF assms(1,2)] assms(3,4) in auto)

lemma tbl_frame:
  assumes "comp_ok C room m" "frame m m' (c_dest C) (c_dest C + room)" "c_base C + b + 7 \<le> c_iend C"
  shows "tbl P C m' b T = tbl P C m b T"
proof -
  have "LZ4_hashPosition m' (c_base C + i) tt = LZ4_hashPosition m (c_base C + i) tt"
    if "c_outputDirective C = fillOutput" "0 \<le> i" "i < b" for i tt
    using that assms(1,3) by (intro hash_frame [OF assms(1,2)]) (auto simp: comp_ok_def c_base_def)
  then show ?thesis by (auto simp: tbl_def)
qed

lemma hash_ok:
  assumes "comp_ok C room m" "c_source C \<le> p" "p + 8 \<le> c_iend C"
  obtains h where "LZ4_hashPosition m p tt = Some h" "0 \<le> h" "h < table_size tt"
  using hashPosition_ok [OF source_valid [OF assms]] by blast

section \<open>Candidates\<close>

text \<open>A position \<open>d\<close> bytes back, with the pointer and the lower limit that belong to it.\<close>

definition cand :: "comp_env \<Rightarrow> addr \<Rightarrow> addr \<Rightarrow> addr \<Rightarrow> int \<Rightarrow> bool" where
  "cand C ip match low d \<longleftrightarrow> 0 < d \<and> d \<le> 65535 \<and> c_lo C \<le> ip - d \<and> match = raddr C (ip - d) \<and>
     low = raddr C (segment C (ip - d)) \<and> (c_maybe_extMem C \<and> ip - d < c_source C \<longrightarrow> ip - d + 4 \<le> c_source C)"

lemma candI:
  assumes "c_lo C \<le> c_base C + i" "i < cur" "cur - i \<le> 65535"
    and "c_maybe_extMem C \<Longrightarrow> i < c_startIndex C \<Longrightarrow> i + 4 \<le> c_startIndex C"
    and "match = raddr C (c_base C + i)" "low = raddr C (segment C (c_base C + i))"
  shows "cand C (c_base C + cur) match low (cur - i)"
  using assms by (auto simp: cand_def c_base_def algebra_simps)

lemma candidate_ok:
  assumes ok: "comp_ok C room m" and t: "0 \<le> i" "i < cur" "i < c_startIndex C \<Longrightarrow> old_ok C i"
    and h: "0 \<le> h" "h < table_size (c_tableType C)"
    and cur: "c_startIndex C < cur" "cur + 12 \<le> c_startIndex C + c_inputSize C"
    and low: "\<not> c_maybe_extMem C \<Longrightarrow> lowLimit = c_lo C"
  obtains match mi low where "candidate C h i lowLimit = Some (match, mi, low)"
    "\<not> outside_valid_area C mi \<Longrightarrow> \<not> too_far C mi cur \<Longrightarrow> cand C (c_base C + cur) match low (cur - mi) \<and> 0 \<le> mi \<and> mi < cur"
    "\<not> c_maybe_extMem C \<Longrightarrow> low = c_lo C"
proof -
  have b: "c_startIndex C + c_inputSize C \<le> 2147483648" "0 \<le> c_startIndex C" "0 \<le> c_dictSize C"
    using comp_okD [OF ok] by auto
  have far: "too_far C mi cur" if "c_tableType C \<noteq> byU16" "0 \<le> mi" "mi + 65535 \<le> c_startIndex C" for mi
    using that cur b by (simp add: too_far_def)
  have dist: "cur - mi \<le> 65535" if "\<not> too_far C mi cur" "0 \<le> mi" "mi < cur" for mi
  proof (cases "c_tableType C = byU16")
    case True
    then show ?thesis using comp_okD(7) [OF ok True] cur that by simp
  next
    case False
    then show ?thesis using that cur b by (simp add: too_far_def)
  qed
  show thesis
  proof (cases "c_maybe_extMem C \<and> i < c_startIndex C")
    case False
    have c: "candidate C h i lowLimit = Some (c_base C + i, i, if c_maybe_extMem C then c_source C else lowLimit)"
      using False by (auto simp: candidate_def c_maybe_extMem_def)
    show thesis
    proof (rule that [OF c])
      assume f: "\<not> outside_valid_area C i" "\<not> too_far C i cur"
      have i: "c_startIndex C - c_dictSize C \<le> i"
        using t(1,3) far f False b by (cases "i < c_startIndex C") (auto simp: old_ok_def c_maybe_extMem_def)
      have "cand C (c_base C + cur) (c_base C + i) (if c_maybe_extMem C then c_source C else lowLimit) (cur - i)"
      proof (rule candI)
        show "c_base C + i = raddr C (c_base C + i)" using False by (auto simp: raddr_def c_base_def)
        show "(if c_maybe_extMem C then c_source C else lowLimit) = raddr C (segment C (c_base C + i))"
          using False low by (auto simp: segment_def c_base_def raddr_def)
      qed (use i t(2) dist [OF f(2) t(1,2)] False in \<open>auto simp: c_base_def c_lo_def\<close>)
      then show "cand C (c_base C + cur) (c_base C + i) (if c_maybe_extMem C then c_source C else lowLimit) (cur - i)
          \<and> 0 \<le> i \<and> i < cur" using t by simp
    qed (use low in auto)
  next
    case ext: True
    show thesis
    proof (cases "c_dictDirective C = usingDictCtx")
      case False
      then have c: "candidate C h i lowLimit = Some (c_dictBase C + i, i, c_dictionary C)"
        using ext by (auto simp: candidate_def c_maybe_extMem_def)
      show thesis
      proof (rule that [OF c])
        assume f: "\<not> outside_valid_area C i" "\<not> too_far C i cur"
        have i: "c_startIndex C - c_dictSize C \<le> i" "i + 4 \<le> c_startIndex C"
          using t(1,3) far f False ext by (auto simp: old_ok_def)
        then have nz: "c_dictionary C \<noteq> 0" using ok ext by (auto simp: comp_ok_def)
        have "cand C (c_base C + cur) (c_dictBase C + i) (c_dictionary C) (cur - i)"
        proof (rule candI)
          show "c_dictBase C + i = raddr C (c_base C + i)" using ext False nz by (simp add: raddr_def c_base_def c_dictBase_def)
          show "c_dictionary C = raddr C (segment C (c_base C + i))"
            using ext i by (simp add: segment_def c_base_def raddr_def c_lo_def)
        qed (use i t(2) dist [OF f(2) t(1,2)] in \<open>auto simp: c_base_def c_lo_def\<close>)
        then show "cand C (c_base C + cur) (c_dictBase C + i) (c_dictionary C) (cur - i) \<and> 0 \<le> i \<and> i < cur"
          using t by simp
      qed (use ext in auto)
    next
      case True
      let ?j = "c_dictTable C h" and ?mi = "c_dictTable C h + c_startIndex C - c_dictOffset C"
      have o: "0 \<le> c_dictOffset C" "c_dictOffset C \<le> c_startIndex C" "c_tableType C = byU32" "dict_entry C ?j"
        using ok True h by (auto simp: comp_ok_def)
      have j: "0 \<le> ?j" "?j \<le> c_dictOffset C" using o(1,4) by (auto simp: dict_entry_def)
      have u: "u32 (?j + c_dictDelta C) = ?mi" using j o b cur True by (simp add: c_dictDelta_def algebra_simps)
      have c: "candidate C h i lowLimit = Some (c_dictBase C + ?j, ?mi, c_dictionary C)"
        using ext True h o(3) u by (simp add: candidate_def getIndex_ok indexed_def)
      show thesis
      proof (rule that [OF c])
        assume f: "\<not> outside_valid_area C ?mi" "\<not> too_far C ?mi cur"
        have mi: "0 \<le> ?mi" "?mi < cur" using o j cur by auto
        have "\<not> ?j + 65535 \<le> c_dictOffset C"
        proof
          assume "?j + 65535 \<le> c_dictOffset C"
          then have "too_far C ?mi cur" using mi by (intro far) (simp_all add: o(3))
          with f(2) show False ..
        qed
        then have i: "c_dictOffset C - c_dictSize C \<le> ?j" "?j + 4 \<le> c_dictOffset C"
          using o(4) by (auto simp: dict_entry_def)
        then have nz: "c_dictionary C \<noteq> 0" using ok ext by (auto simp: comp_ok_def)
        have "cand C (c_base C + cur) (c_dictBase C + ?j) (c_dictionary C) (cur - ?mi)"
        proof (rule candI)
          show "c_dictBase C + ?j = raddr C (c_base C + ?mi)"
            using ext True nz i by (simp add: raddr_def c_base_def c_dictBase_def)
          show "c_dictionary C = raddr C (segment C (c_base C + ?mi))"
            using ext i by (simp add: segment_def c_base_def raddr_def c_lo_def)
          show "cur - ?mi \<le> 65535" by (rule dist [OF f(2) mi])
        qed (use i mi(2) in \<open>simp_all add: c_base_def c_lo_def\<close>)
        then show "cand C (c_base C + cur) (c_dictBase C + ?j) (c_dictionary C) (cur - ?mi) \<and> 0 \<le> ?mi \<and> ?mi < cur"
          using mi by simp
      qed (use ext in auto)
    qed
  qed
qed

end
