(* ===== verification/LZ4_CompSearch.thy ===== *)
theory LZ4_CompSearch
  imports LZ4_CompSpec LZ4_DecSpec
begin

text \<open>
  The search of the compressor: what \<open>find_match\<close> finds is a match in the text, \<open>catch_up\<close> extends
  it backwards, \<open>match_length\<close> forwards as far as possible.
\<close>

section \<open>Matches in the text\<close>

lemma raddr_shift: "0 \<le> k \<Longrightarrow> c_maybe_extMem C \<and> v < c_source C \<longrightarrow> v + k < c_source C \<Longrightarrow> raddr C (v + k) = raddr C v + k"
  by (auto simp: raddr_def)

lemma lz_match_cvm_frame:
  assumes "comp_ok C room m" "frame m m' (c_dest C) (c_dest C + room)" "c_lo C \<le> ip - d" "0 < d" "ip + len \<le> c_iend C"
  shows "lz_match (cvm C m') ip len d = lz_match (cvm C m) ip len d"
proof -
  have "cvm C m' x = cvm C m x" if "ip - d \<le> x" "x < ip + len" for x
    using cvm_frame [OF assms(1,2), of x] that assms(3,5) by simp
  then show ?thesis using assms(4) by (auto simp: lz_match_def)
qed

text \<open>Equal bytes at a candidate are a match, as long as the candidate stays in its segment.\<close>

lemma cand_match:
  assumes "cand C ip match low d" "c_source C \<le> ip"
    and "c_maybe_extMem C \<and> ip - d < c_source C \<longrightarrow> ip - d + k \<le> c_source C"
    and "\<And>i. 0 \<le> i \<Longrightarrow> i < k \<Longrightarrow> m (ip + i) = m (match + i)"
  shows "lz_match (cvm C m) ip k d"
proof -
  have "cvm C m x = cvm C m (x - d)" if x: "ip \<le> x" "x < ip + k" for x
  proof -
    have "raddr C (ip - d + (x - ip)) = match + (x - ip)"
      using assms(1,3) x raddr_shift [of "x - ip" C "ip - d"] by (auto simp: cand_def)
    then have "raddr C (x - d) = match + (x - ip)" by (simp add: algebra_simps)
    moreover have "m x = m (match + (x - ip))" using assms(4) [of "x - ip"] x by simp
    ultimately show ?thesis using x assms(2) by (simp add: cvm_def)
  qed
  then show ?thesis using assms(1) by (auto simp: lz_match_def cand_def)
qed

lemma cand_valid:
  assumes "comp_ok C room m" "cand C ip match low d" "ip + k \<le> c_iend C"
    and "c_maybe_extMem C \<and> ip - d < c_source C \<longrightarrow> ip - d + k \<le> c_source C"
  shows "valid m match k"
  using raddr_valid [OF assms(1), of "ip - d" k] assms(2-4) by (auto simp: cand_def)

section \<open>\<open>find_match\<close>\<close>

definition found :: "(int \<Rightarrow> bool) \<Rightarrow> comp_env \<Rightarrow> mem \<Rightarrow> addr \<Rightarrow> find_out \<Rightarrow> bool" where
  "found P C m ip r = (case r of
     NotFound T \<Rightarrow> tbl P C m (c_mflimitPlusOne C - c_base C) T
   | Found T ip' match low off \<Rightarrow> ip \<le> ip' \<and> ip' < c_mflimitPlusOne C \<and> tbl P C m (ip' + 1 - c_base C) T
       \<and> (\<not> c_maybe_extMem C \<longrightarrow> low = c_lo C)
       \<and> (\<exists>d. cand C ip' match low d \<and> lz_match (cvm C m) ip' 4 d \<and> (c_maybe_extMem C \<longrightarrow> off = d)))"

lemma found_mono: "found P C m ip' r \<Longrightarrow> ip \<le> ip' \<Longrightarrow> found P C m ip r"
  by (auto simp: found_def split: find_out.splits)

lemma read32_match:
  assumes ok: "comp_ok C room m" and c: "cand C ip match low d" and ip: "c_source C \<le> ip" "ip + 12 \<le> c_iend C"
  obtains a b where "LZ4_read32 m match = Some a" "LZ4_read32 m ip = Some b" "a = b \<Longrightarrow> lz_match (cvm C m) ip 4 d"
proof -
  have v: "valid m match 4" using ip c by (intro cand_valid [OF ok c]) (auto simp: cand_def)
  have w: "valid m ip 4" by (rule source_valid [OF ok]) (use ip in auto)
  have "m (ip + i) = m (match + i)" if e: "bytes m match 4 = bytes m ip 4" and i: "0 \<le> i" "i < 4" for i
  proof -
    have "bytes m match 4 ! nat i = bytes m ip 4 ! nat i" using e by simp
    then have "the (m (match + i)) = the (m (ip + i))" using nth_bytes [of "nat i" 4 m] i by simp
    moreover obtain x y where "m (match + i) = Some x" "m (ip + i) = Some y"
      using valid_at [OF v, of "match + i"] valid_at [OF w, of "ip + i"] i by auto
    ultimately show ?thesis by simp
  qed
  then have "lz_match (cvm C m) ip 4 d" if "bytes m match 4 = bytes m ip 4"
    using that c ip by (intro cand_match [OF c]) (auto simp: cand_def)
  then show thesis
    using that [OF read32_le [OF v] read32_le [OF w]] le_int_inj [of "bytes m match 4" "bytes m ip 4"] by simp
qed

lemma find_match_ok:
  assumes ok: "comp_ok C room m" and ip: "c_source C < ip" "ip \<le> c_mflimitPlusOne C"
    and P: "\<And>i. P i \<Longrightarrow> old_ok C i" and T: "tbl P C m (ip - c_base C) T" and fh: "LZ4_hashPosition m ip (c_tableType C) = Some fh"
    and st: "1 \<le> step" "64 \<le> nb" and low: "\<not> c_maybe_extMem C \<Longrightarrow> lowLimit = c_lo C"
  shows "\<exists>r. find_match C m T ip step nb fh lowLimit offset = Some r \<and> found P C m ip r"
  using ip T fh st low
proof (induction "nat (c_mflimitPlusOne C - ip)" arbitrary: ip T step nb fh lowLimit rule: less_induct)
  case less
  note prems = less.prems and IH = less.hyps
  let ?tt = "c_tableType C" and ?cur = "ip - c_base C" and ?next = "ip + step"
  have h: "0 \<le> fh" "fh < table_size ?tt" using hashPosition_bounds [OF prems(4)] by auto
  have g: "LZ4_getIndexOnHash fh T ?tt = Some (T fh)" using getIndex_ok [OF comp_okD(6) [OF ok] h] .
  have cur: "u32 ?cur = ?cur" using prems(1,2) comp_okD(2,4,5) [OF ok] by (simp add: c_defs)
  show ?case
  proof (cases "?next > c_mflimitPlusOne C")
    case True
    then have "find_match C m T ip step nb fh lowLimit offset = Some (NotFound T)"
      by (subst find_match.simps) (simp add: g Let_def)
    moreover have "tbl P C m (c_mflimitPlusOne C - c_base C) T" by (rule tbl_mono [OF prems(3)]) (use prems(2) in simp)
    ultimately show ?thesis by (simp add: found_def)
  next
    case False
    then have ip12: "ip + 12 \<le> c_iend C" using prems(5) by (simp add: c_defs)
    obtain match mi low where c: "candidate C fh (T fh) lowLimit = Some (match, mi, low)"
      "\<not> outside_valid_area C mi \<Longrightarrow> \<not> too_far C mi ?cur
         \<Longrightarrow> cand C (c_base C + ?cur) match low (?cur - mi) \<and> 0 \<le> mi \<and> mi < ?cur"
      "\<not> c_maybe_extMem C \<Longrightarrow> low = c_lo C"
      using candidate_ok [OF ok tblD(1,2) [OF prems(3) h] P [OF tblD(3) [OF prems(3) h]] h, of lowLimit] prems(1,7) ip12
      by (auto simp: c_defs)
    obtain fh' where fh': "LZ4_hashPosition m ?next ?tt = Some fh'"
      by (rule hash_ok [OF ok, of ?next]) (use False prems(1,5) in \<open>auto simp: c_defs\<close>)
    have put: "LZ4_putIndexOnHash ?cur fh T ?tt = Some (T(fh := ?cur))"
      by (rule put_ok [OF ok]) (use ip12 prems(1) h comp_okD(4) [OF ok] in \<open>auto simp: c_defs\<close>)
    let ?T = "T(fh := ?cur)"
    have T1: "tbl P C m (ip + 1 - c_base C) ?T"
      by (rule tbl_put [OF prems(3)]) (use prems(1,4) comp_okD(4) [OF ok] in \<open>auto simp: c_defs\<close>)
    have again: "\<exists>r. find_match C m ?T ?next (nb div 64) (nb + 1) fh' low offset = Some r \<and> found P C m ip r"
    proof -
      have "\<exists>r. find_match C m ?T ?next (nb div 64) (nb + 1) fh' low offset = Some r \<and> found P C m ?next r"
        by (rule IH) (use False prems(1,5,6) c(3) fh' tbl_mono [OF T1] in auto)
      then show ?thesis using prems(5) found_mono by (meson le_add_same_cancel1 order_trans zero_le_one)
    qed
    note unfold = find_match.simps [of C m T ip step nb fh lowLimit offset]
    show ?thesis
    proof (cases "outside_valid_area C mi \<or> too_far C mi ?cur")
      case True
      then show ?thesis using again False by (simp add: unfold g cur c(1) fh' put Let_def)
    next
      case near: False
      then have cd: "cand C ip match low (?cur - mi)" "0 \<le> mi" "mi < ?cur" using c(2) by auto
      obtain a b where ab: "LZ4_read32 m match = Some a" "LZ4_read32 m ip = Some b"
          "a = b \<Longrightarrow> lz_match (cvm C m) ip 4 (?cur - mi)"
        by (rule read32_match [OF ok cd(1)]) (use prems(1) ip12 in auto)
      have u: "u32 (?cur - mi) = ?cur - mi" using cd by (simp add: cand_def)
      show ?thesis
      proof (cases "a = b")
        case True
        have "find_match C m T ip step nb fh lowLimit offset
            = Some (Found ?T ip match low (if c_maybe_extMem C then ?cur - mi else offset))"
          using False near True by (simp add: unfold g cur c(1) fh' put Let_def ab u)
        moreover have "ip < c_mflimitPlusOne C" using ip12 by (simp add: c_defs)
        ultimately show ?thesis using T1 c(3) cd(1) ab(3) [OF True] by (auto simp: found_def)
      next
        case ne: False
        then show ?thesis using again False near by (simp add: unfold g cur c(1) fh' put Let_def ab)
      qed
    qed
  qed
qed

section \<open>Catch up\<close>

text \<open>One byte back: the candidate stays in its segment.\<close>

lemma cand_back:
  assumes "cand C ip match low d" "low < match" "c_lo C \<le> c_source C"
  shows "cand C (ip - 1) (match - 1) low d" "raddr C (ip - 1 - d) = match - 1"
proof -
  have v: "segment C (ip - d) < ip - d"
    using assms by (auto simp: cand_def raddr_def segment_def split: if_splits)
  then have s: "segment C (ip - 1 - d) = segment C (ip - d)" by (auto simp: segment_def)
  have r: "raddr C (ip - 1 - d) = raddr C (ip - d) - 1" using v by (auto simp: raddr_def segment_def)
  have "c_lo C \<le> ip - 1 - d" using v assms(1,3) by (auto simp: segment_def cand_def split: if_splits)
  moreover have "c_maybe_extMem C \<and> ip - 1 - d < c_source C \<longrightarrow> ip - 1 - d + 4 \<le> c_source C"
    using v assms(1) by (auto simp: segment_def cand_def split: if_splits)
  ultimately show "cand C (ip - 1) (match - 1) low d" "raddr C (ip - 1 - d) = match - 1"
    using assms(1) r s by (simp_all add: cand_def)
qed

definition caught_up :: "comp_env \<Rightarrow> mem \<Rightarrow> addr \<Rightarrow> addr \<Rightarrow> addr \<Rightarrow> addr \<Rightarrow> int \<Rightarrow> int \<Rightarrow> addr \<times> addr \<Rightarrow> bool" where
  "caught_up C m anchor ip match low d len r \<longleftrightarrow> (case r of (ip', match') \<Rightarrow>
     anchor \<le> ip' \<and> ip' \<le> ip \<and> cand C ip' match' low d \<and> lz_match (cvm C m) ip' (ip + len - ip') d)"

lemma back_match:
  assumes "comp_ok C room m" "cand C ip match low d" "low < match" "c_source C < ip" "ip \<le> c_iend C"
    and "lz_match (cvm C m) ip len d"
  obtains a b where "m (ip - 1) = Some a" "m (match - 1) = Some b"
    "a = b \<Longrightarrow> lz_match (cvm C m) (ip - 1) (len + 1) d"
proof -
  note c = cand_back [OF assms(2,3) comp_okD(14) [OF assms(1)]]
  have lo: "c_lo C \<le> ip - 1 - d" "0 < d" using c(1) by (auto simp: cand_def)
  obtain a b where ab: "m (ip - 1) = Some a" "m (match - 1) = Some b"
    using cvm_valid [OF assms(1), of "ip - 1"] cvm_valid [OF assms(1), of "ip - 1 - d"] assms(4,5) lo c(2)
      comp_okD(14) [OF assms(1)] by (auto simp: cvm_def)
  have "lz_match (cvm C m) (ip - 1) (len + 1) d" if e: "a = b"
  proof (rule lz_match_join [where k = 1])
    have "cvm C m (ip - 1) = cvm C m (ip - 1 - d)" using ab e assms(4) c(2) by (simp add: cvm_def)
    moreover have "ip - 1 \<le> x \<and> x < ip - 1 + 1 \<longleftrightarrow> x = ip - 1" for x by linarith
    ultimately show "lz_match (cvm C m) (ip - 1) 1 d" using lo(2) unfolding lz_match_def by simp
    show "lz_match (cvm C m) (ip - 1 + 1) (len + 1 - 1) d" using assms(6) by simp
  qed
  with ab show thesis by (rule that)
qed

lemma catch_up_loop_ok:
  assumes ok: "comp_ok C room m" and a: "c_source C \<le> anchor" "anchor \<le> ip" "ip \<le> c_iend C"
    and c: "cand C ip match low d" and l: "lz_match (cvm C m) ip len d"
  shows "\<exists>r. catch_up_loop m anchor low ip match = Some r \<and> caught_up C m anchor ip match low d len r"
  using a(2-) c l
proof (induction "nat (ip - anchor)" arbitrary: ip match len rule: less_induct)
  case less
  note unfold = catch_up_loop.simps [of m anchor low ip match]
  have stop: "caught_up C m anchor ip match low d len (ip, match)"
    using less.prems by (simp add: caught_up_def)
  show ?case
  proof (cases "anchor < ip \<and> low < match")
    case False
    then show ?thesis using stop by (auto simp: unfold)
  next
    case True
    obtain x y where xy: "m (ip - 1) = Some x" "m (match - 1) = Some y"
        "x = y \<Longrightarrow> lz_match (cvm C m) (ip - 1) (len + 1) d"
      by (rule back_match [OF ok less.prems(3) _ _ less.prems(2,4)]) (use True a(1) in auto)
    show ?thesis
    proof (cases "x = y")
      case ne: False
      then show ?thesis using stop True by (simp add: unfold xy)
    next
      case eq: True
      have "\<exists>r. catch_up_loop m anchor low (ip - 1) (match - 1) = Some r
          \<and> caught_up C m anchor (ip - 1) (match - 1) low d (len + 1) r"
        by (rule less.hyps) (use True less.prems cand_back(1) [OF _ _ comp_okD(14) [OF ok]] xy(3) [OF eq] in auto)
      then show ?thesis using True eq by (auto simp: unfold xy caught_up_def)
    qed
  qed
qed

lemma catch_up_ok:
  assumes ok: "comp_ok C room m" and a: "c_source C \<le> anchor" "anchor < ip" "ip \<le> c_iend C"
    and c: "cand C ip match low d" and l: "lz_match (cvm C m) ip len d"
  shows "\<exists>r. catch_up m anchor low ip match = Some r \<and> caught_up C m anchor ip match low d len r"
proof -
  have "catch_up m anchor low ip match = catch_up_loop m anchor low ip match"
    using a(2) by (subst catch_up_loop.simps) (simp add: catch_up_def)
  then show ?thesis using catch_up_loop_ok [OF ok a(1) _ a(3) c l] a(2) by simp
qed

section \<open>The length of a match\<close>

definition longest :: "comp_env \<Rightarrow> mem \<Rightarrow> addr \<Rightarrow> int \<Rightarrow> addr \<Rightarrow> bool" where
  "longest C m ip d e \<longleftrightarrow> ip + 4 \<le> e \<and> e \<le> c_matchlimit C \<and> lz_match (cvm C m) ip (e - ip) d
     \<and> (e = c_matchlimit C \<or> cvm C m e \<noteq> cvm C m (e - d))"

lemma longest_reaches:
  assumes "longest C m ip d e" "lz_match (cvm C m) ip k d" "ip + k \<le> c_matchlimit C" "0 < d"
  shows "ip + k \<le> e"
proof (rule ccontr)
  assume "\<not> ip + k \<le> e"
  then have "cvm C m e = cvm C m (e - d)" using assms(1,2,4) by (auto simp: longest_def lz_match_def)
  then show False using assms(1,3) \<open>\<not> ip + k \<le> e\<close> by (auto simp: longest_def)
qed

lemma lz_match_tail:
  assumes "cand C ip match low d" "c_source C \<le> ip" "0 \<le> k"
    and "c_maybe_extMem C \<and> ip - d < c_source C \<longrightarrow> ip - d + 4 + k \<le> c_source C"
    and "\<And>i. 0 \<le> i \<Longrightarrow> i < k \<Longrightarrow> m (ip + 4 + i) = m (match + 4 + i)"
  shows "lz_match (cvm C m) (ip + 4) k d"
proof -
  have "cvm C m x = cvm C m (x - d)" if x: "ip + 4 \<le> x" "x < ip + 4 + k" for x
  proof -
    have "raddr C (ip - d + (x - ip)) = match + (x - ip)"
      using assms(1,4) x raddr_shift [of "x - ip" C "ip - d"] by (auto simp: cand_def)
    then have "raddr C (x - d) = match + (x - ip)" by (simp add: algebra_simps)
    moreover have "m x = m (match + (x - ip))" using assms(5) [of "x - ip - 4"] x by simp
    ultimately show ?thesis using x assms(2) by (simp add: cvm_def)
  qed
  then show ?thesis using assms(1) by (auto simp: lz_match_def cand_def)
qed

lemma match_length_ok:
  assumes ok: "comp_ok C room m" and c: "cand C ip match low d" and l: "lz_match (cvm C m) ip 4 d"
    and ip: "c_source C \<le> ip" "ip + 12 \<le> c_iend C"
  shows "\<exists>mc. match_length C m ip match low = Some (mc, ip + 4 + mc) \<and> 0 \<le> mc \<and> mc < 2 ^ 31 \<and> longest C m ip d (ip + 4 + mc)"
proof -
  let ?ml = "c_matchlimit C"
  have ml: "ip + 4 \<le> ?ml" "?ml \<le> c_iend C" "?ml < c_source C + 2147483648" using ip comp_okD(3) [OF ok] by (auto simp: c_defs)
  have d: "0 < d" "c_lo C \<le> ip - d" "match = raddr C (ip - d)" using c by (auto simp: cand_def)
  show ?thesis
  proof (cases "c_maybe_extMem C \<and> ip - d < c_source C")
    case False
    have "\<not> (c_maybe_extMem C \<and> low = c_dictionary C)"
      using False c comp_ok_ext(1) [OF ok] by (auto simp: cand_def segment_def)
    moreover
    have "valid m match (?ml - ip)" by (rule cand_valid [OF ok c]) (use ml False in auto)
    then have v: "valid m (match + 4) (?ml - (ip + 4))" by (rule valid_sub) auto
    have "valid m (ip + 4) (?ml - (ip + 4))" by (rule source_valid [OF ok]) (use ip ml in auto)
    from this v obtain k where k: "LZ4_count m (ip + 4) (match + 4) ?ml = Some k" "0 \<le> k" "ip + 4 + k \<le> ?ml"
        "\<And>i. 0 \<le> i \<Longrightarrow> i < k \<Longrightarrow> m (ip + 4 + i) = m (match + 4 + i)"
        "ip + 4 + k < ?ml \<Longrightarrow> m (ip + 4 + k) \<noteq> m (match + 4 + k)"
      by (rule count_cases) (use ml ip in auto)
    have "lz_match (cvm C m) ip (4 + k) d"
      using l by (rule lz_match_join) (use lz_match_tail [OF c ip(1) k(2)] k(4) False in auto)
    moreover have "cvm C m (ip + 4 + k) \<noteq> cvm C m (ip + 4 + k - d)" if "ip + 4 + k \<noteq> ?ml"
    proof -
      have "raddr C (ip - d + (4 + k)) = match + (4 + k)" using raddr_shift [of "4 + k" C "ip - d"] k(2) False d by auto
      then show ?thesis using k(2,3,5) that ip by (simp add: cvm_def algebra_simps)
    qed
    ultimately show ?thesis using k ml ip by (auto simp: match_length_def longest_def algebra_simps)
  next
    case True
    define lim where "lim = min (c_source C + d) ?ml"
    note ext = comp_ok_ext [OF ok conjunct1 [OF True]]
    have d4: "ip - d + 4 \<le> c_source C" using c True by (simp add: cand_def)
    have low: "low = c_dictionary C" using c True by (simp add: cand_def segment_def raddr_def c_lo_def)
    have lim: "(if ip + (c_dictEnd C - match) > ?ml then ?ml else ip + (c_dictEnd C - match)) = lim"
      using True ext(5) d(3) by (auto simp: raddr_def min_def lim_def)
    have l4: "ip + 4 \<le> lim" "lim \<le> ?ml" "lim \<le> c_source C + d" "lim \<noteq> ?ml \<Longrightarrow> lim = c_source C + d"
      using d4 ml by (auto simp: lim_def min_def split: if_splits)
    have "valid m match (lim - ip)" by (rule cand_valid [OF ok c]) (use l4 ml in auto)
    then have v: "valid m (match + 4) (lim - (ip + 4))" by (rule valid_sub) auto
    have "valid m (ip + 4) (lim - (ip + 4))" by (rule source_valid [OF ok]) (use ip l4 ml in auto)
    from this v obtain k where k: "LZ4_count m (ip + 4) (match + 4) lim = Some k" "0 \<le> k" "ip + 4 + k \<le> lim"
        "\<And>i. 0 \<le> i \<Longrightarrow> i < k \<Longrightarrow> m (ip + 4 + i) = m (match + 4 + i)"
        "ip + 4 + k < lim \<Longrightarrow> m (ip + 4 + k) \<noteq> m (match + 4 + k)"
      by (rule count_cases) (use l4 ml ip in auto)
    have l4k: "lz_match (cvm C m) ip (4 + k) d"
      using l by (rule lz_match_join) (use lz_match_tail [OF c ip(1) k(2)] k(3,4) l4(3) in auto)
    show ?thesis
    proof (cases "ip + 4 + k = lim")
      case False
      then have lt: "ip + 4 + k < lim" using k(3) by (rule order_le_neq_trans [rotated])
      then have "raddr C (ip - d + (4 + k)) = match + (4 + k)" using raddr_shift [of "4 + k" C "ip - d"] k(2) d l4(3) by simp
      then have "cvm C m (ip + 4 + k) \<noteq> cvm C m (ip + 4 + k - d)"
        using k(2,5) lt ip by (simp add: cvm_def algebra_simps)
      then have "longest C m ip d (ip + 4 + k)" using l4k k(2) lt l4(2) by (simp add: longest_def algebra_simps)
      moreover have "match_length C m ip match low = Some (k, ip + 4 + k)"
        using True low k(1) False unfolding match_length_def Let_def lim MINMATCH_def by (simp add: algebra_simps)
      ultimately show ?thesis using k(2) lt l4(2) ml ip by (intro exI [of _ k]) auto
    next
      case stop: True
      have "valid m lim (?ml - lim)" by (rule source_valid [OF ok]) (use ip l4 ml in auto)
      moreover have "valid m (c_source C) (?ml - lim)" by (rule source_valid [OF ok]) (use ip l4 ml in auto)
      ultimately obtain j where j: "LZ4_count m lim (c_source C) ?ml = Some j" "0 \<le> j" "lim + j \<le> ?ml"
          "\<And>i. 0 \<le> i \<Longrightarrow> i < j \<Longrightarrow> m (lim + i) = m (c_source C + i)"
          "lim + j < ?ml \<Longrightarrow> m (lim + j) \<noteq> m (c_source C + j)"
        by (rule count_cases) (use l4 ml ip in auto)
      have "lz_match (cvm C m) lim j d"
      proof (cases "lim = ?ml")
        case True
        then show ?thesis using j(2,3) by (auto simp: lz_match_def)
      next
        case False
        have "cvm C m x = cvm C m (x - d)" if x: "lim \<le> x" "x < lim + j" for x
        proof -
          have "m (lim + (x - lim)) = m (c_source C + (x - lim))" by (rule j(4)) (use x in auto)
          then have "m x = m (x - d)" unfolding l4(4) [OF False] by (simp add: algebra_simps)
          moreover have "c_source C \<le> x - d" using x(1) unfolding l4(4) [OF False] by simp
          ultimately show ?thesis using d(1) by simp
        qed
        then show ?thesis using d(1) by (simp add: lz_match_def)
      qed
      then have "lz_match (cvm C m) (ip + (4 + k)) j d" using stop by (simp add: algebra_simps)
      then have l4j: "lz_match (cvm C m) ip (4 + k + j) d" by (intro lz_match_join [OF l4k]) simp
      have ne: "cvm C m (lim + j) \<noteq> cvm C m (lim + j - d)" if "lim + j \<noteq> ?ml"
      proof (cases "lim = ?ml")
        case False
        have "m (lim + j) \<noteq> m (c_source C + j)" by (rule j(5)) (use j(3) that in simp)
        then show ?thesis using j(2) d(1) unfolding l4(4) [OF False] by simp
      qed (use j(2,3) that in simp)
      have u: "u32 (k + j) = k + j" using k(2) j(2,3) stop ml ip by simp
      have "match_length C m ip match low = Some (k + j, ip + 4 + (k + j))"
        using True low k(1) j(1) stop u unfolding match_length_def Let_def lim MINMATCH_def by (simp add: algebra_simps)
      moreover have e: "ip + 4 + (k + j) = lim + j" using stop by simp
      have "longest C m ip d (ip + 4 + (k + j))"
        using l4j ne j(2,3) l4(1) stop unfolding longest_def e by (auto simp: algebra_simps)
      ultimately show ?thesis using k(2) j(2,3) stop ml ip by (intro exI [of _ "k + j"]) auto
    qed
  qed
qed

section \<open>Clearing positions\<close>

lemma clear_positions_ok:
  assumes ok: "comp_ok C room m" and p: "c_source C \<le> ptr" "filledIp + 8 \<le> c_iend C"
  shows "\<exists>T'. clear_positions C m T ptr filledIp = Some T' \<and> (\<forall>h. T' h = T h \<or> T' h = 0)
     \<and> (\<forall>q h. ptr \<le> q \<and> q \<le> filledIp \<and> LZ4_hashPosition m q (c_tableType C) = Some h \<longrightarrow> T' h = 0)"
  using p(1)
proof (induction "nat (filledIp + 1 - ptr)" arbitrary: ptr T rule: less_induct)
  case less
  note unfold = clear_positions.simps [of C m T ptr filledIp]
  show ?case
  proof (cases "ptr \<le> filledIp")
    case False
    then show ?thesis by (auto simp: unfold)
  next
    case True
    obtain h where h: "LZ4_hashPosition m ptr (c_tableType C) = Some h" "0 \<le> h" "h < table_size (c_tableType C)"
      by (rule hash_ok [OF ok less.prems]) (use True p(2) in auto)
    have "\<exists>T'. clear_positions C m (T(h := 0)) (ptr + 1) filledIp = Some T' \<and> (\<forall>h'. T' h' = (T(h := 0)) h' \<or> T' h' = 0)
        \<and> (\<forall>q h. ptr + 1 \<le> q \<and> q \<le> filledIp \<and> LZ4_hashPosition m q (c_tableType C) = Some h \<longrightarrow> T' h = 0)"
      by (rule less.hyps) (use True less.prems in auto)
    then obtain T' where T': "clear_positions C m (T(h := 0)) (ptr + 1) filledIp = Some T'"
        "\<And>h'. T' h' = (T(h := 0)) h' \<or> T' h' = 0"
        "\<And>q h. ptr + 1 \<le> q \<Longrightarrow> q \<le> filledIp \<Longrightarrow> LZ4_hashPosition m q (c_tableType C) = Some h \<Longrightarrow> T' h = 0"
      by blast
    have "clear_positions C m T ptr filledIp = Some T'"
      using True h T'(1) clearHash_ok [OF comp_okD(6) [OF ok] h(2,3)] by (simp add: unfold)
    moreover have "T' h' = T h' \<or> T' h' = 0" for h' using T'(2) [of h'] by (auto split: if_splits)
    moreover have "T' k = 0" if "ptr \<le> q" "q \<le> filledIp" "LZ4_hashPosition m q (c_tableType C) = Some k" for q k
      using T'(2) [of h] T'(3) [of q k] that h(1) by (cases "q = ptr") auto
    ultimately show ?thesis by blast
  qed
qed

text \<open>After a match that ends at \<open>ip\<close> has been shortened, no index from \<open>ip\<close> on is left.\<close>

lemma clear_positions_tbl:
  assumes ok: "comp_ok C room m" and p: "c_source C < ip" "filledIp + 8 \<le> c_iend C"
    and T: "tbl P C m (filledIp + 1 - c_base C) T" and fill: "c_outputDirective C = fillOutput"
  obtains T' where "clear_positions C m T ip filledIp = Some T'" "tbl P C m (ip - c_base C) T'"
proof -
  obtain T' where T': "clear_positions C m T ip filledIp = Some T'" "\<And>h. T' h = T h \<or> T' h = 0"
      "\<And>q h. ip \<le> q \<Longrightarrow> q \<le> filledIp \<Longrightarrow> LZ4_hashPosition m q (c_tableType C) = Some h \<Longrightarrow> T' h = 0"
    using clear_positions_ok [OF ok _ p(2), of ip T] p(1) by auto
  have si: "c_startIndex C = 0" using ok fill by (simp add: comp_ok_def)
  have "0 \<le> T' h \<and> T' h < ip - c_base C \<and> (T' h \<noteq> 0 \<longrightarrow> LZ4_hashPosition m (c_base C + T' h) (c_tableType C) = Some h)"
    if h: "0 \<le> h" "h < table_size (c_tableType C)" for h
  proof (cases "T' h = 0")
    case True
    then show ?thesis using p(1) si by (simp add: c_base_def)
  next
    case False
    then have e: "T' h = T h" using T'(2) by blast
    have hp: "LZ4_hashPosition m (c_base C + T h) (c_tableType C) = Some h" using tblD(4) [OF T h fill] False e by simp
    have "T h < ip - c_base C"
      using T'(3) [OF _ _ hp] tblD(2) [OF T h] False by (cases "ip \<le> c_base C + T h") auto
    then show ?thesis using tblD(1) [OF T h] e hp by simp
  qed
  then have "tbl P C m (ip - c_base C) T'" using si by (force simp: tbl_def)
  with T'(1) show thesis by (rule that)
qed

end
