(* ===== verification/LZ4_CompEncode.thy ===== *)
theory LZ4_CompEncode
  imports LZ4_CompSpec LZ4_Copy
begin

text \<open>
  The writers of the compressor produce the encodings of \<open>LZ4_Format\<close>.
\<close>

section \<open>Writing a list of bytes\<close>

text \<open>\<open>wrote m m' a bs hi\<close>: the step from \<open>m\<close> to \<open>m'\<close> stores \<open>bs\<close> at \<open>a\<close>, and changes nothing outside
  of \<open>[a, hi)\<close>.\<close>

definition wrote :: "mem \<Rightarrow> mem \<Rightarrow> addr \<Rightarrow> byte list \<Rightarrow> addr \<Rightarrow> bool" where
  "wrote m m' a bs hi \<longleftrightarrow> frame m m' a hi \<and> bytes m' a (int (length bs)) = bs \<and> a + int (length bs) \<le> hi"

lemma wrote_Nil [simp]: "a \<le> hi \<Longrightarrow> wrote m m a [] hi"
  by (simp add: wrote_def)

lemma wrote_valid: "wrote m m' a bs hi \<Longrightarrow> valid m' b n = valid m b n"
  by (auto simp: wrote_def frame_valid)

lemma wrote_append:
  assumes "wrote m m1 a bs hi" "wrote m1 m2 (a + int (length bs)) cs hi"
  shows "wrote m m2 a (bs @ cs) hi"
proof -
  have f: "frame m m2 a hi"
    using assms by (auto simp: wrote_def intro: frame_join [of m m1 a hi m2 "a + int (length bs)" hi])
  have "bytes m2 a (int (length bs)) = bytes m1 a (int (length bs))"
    by (rule bytes_frame) (use assms(2) in \<open>auto simp: wrote_def\<close>)
  then show ?thesis using assms f by (simp add: wrote_def bytes_append)
qed

lemma wrote_take: "wrote m m' a (bs @ cs) hi \<Longrightarrow> wrote m m' a bs hi"
  by (auto simp: wrote_def bytes_append)

lemma wrote_mono: "wrote m m' a bs hi \<Longrightarrow> hi \<le> hi' \<Longrightarrow> wrote m m' a bs hi'"
  by (auto simp: wrote_def intro: frame_widen)

lemma wrote_store8:
  assumes "valid m a 1" "a < hi"
  shows "store8 m a b = Some (m(a \<mapsto> b)) \<and> wrote m (m(a \<mapsto> b)) a [b] hi"
proof -
  have a: "m a \<noteq> None" using assms(1) by (auto simp: valid_def)
  have "frame m (m(a \<mapsto> b)) a hi" by (rule frame_widen [OF frame_upd [of m a b, OF a]]) (use assms in auto)
  then show ?thesis using a assms(2) by (simp add: wrote_def store8_Some bytes_def)
qed

lemma wrote_fill:
  assumes "valid m a (int (length bs))" "a + int (length bs) \<le> hi"
  shows "store_bytes m a bs = Some (fill m a bs) \<and> wrote m (fill m a bs) a bs hi"
  using assms frame_widen [OF frame_fill [OF assms(1)], of a hi]
  by (simp add: wrote_def store_bytes_Some bytes_fill)

section \<open>Lengths\<close>

lemma write_length_ok:
  assumes "valid m op (hi - op)" "0 \<le> len" "op + len div 255 + 1 \<le> hi"
  shows "\<exists>m'. write_length m op len = Some (m', op + len div 255 + 1) \<and> wrote m m' op (enc_length (nat len)) hi"
  using assms
proof (induction "nat len" arbitrary: m op len rule: less_induct)
  case less
  note unfold = write_length.simps [of m op len]
  have "0 \<le> len div 255" using less.prems(2) by simp
  then have op: "valid m op 1" "op < hi" using less.prems(3) by (auto intro: valid_sub [OF less.prems(1)])
  show ?case
  proof (cases "255 \<le> len")
    case True
    let ?m = "m(op \<mapsto> 255)"
    have w: "store8 m op 255 = Some ?m" "wrote m ?m op [255] hi" using wrote_store8 [OF op] by auto
    have q: "len div 255 = (len - 255) div 255 + 1" by simp
    have "valid ?m (op + 1) (hi - (op + 1))"
      using valid_sub [OF less.prems(1), of "op + 1" "hi - (op + 1)"] wrote_valid [OF w(2)] by simp
    then have "\<exists>m'. write_length ?m (op + 1) (len - 255) = Some (m', op + 1 + (len - 255) div 255 + 1)
        \<and> wrote ?m m' (op + 1) (enc_length (nat (len - 255))) hi"
      using less.prems True by (intro less.hyps) auto
    then obtain m' where m': "write_length ?m (op + 1) (len - 255) = Some (m', op + 1 + (len - 255) div 255 + 1)"
        "wrote ?m m' (op + 1) (enc_length (nat (len - 255))) hi" by blast
    have "wrote m m' op ([255] @ enc_length (nat (len - 255))) hi" by (rule wrote_append [OF w(2)]) (use m'(2) in simp)
    moreover have "[255] @ enc_length (nat (len - 255)) = enc_length (nat len)"
      using True by (subst (2) enc_length.simps) (simp add: nat_diff_distrib)
    ultimately show ?thesis using True w(1) m'(1) q by (simp add: unfold)
  next
    case False
    have "enc_length (nat len) = [byte_of len]"
      using False less.prems(2) by (subst enc_length.simps) (simp add: byte_of_def nat_less_iff)
    then show ?thesis using False less.prems wrote_store8 [OF op, of "byte_of len"] by (simp add: unfold)
  qed
qed

lemma enc_ext_long: "15 \<le> n \<Longrightarrow> enc_ext (nat n) = enc_length (nat (n - 15))"
  by (simp add: enc_ext_def nat_diff_distrib nat_less_iff)

text \<open>A token with the extension bytes of the length of the literals.\<close>

definition lit_head :: "int \<Rightarrow> byte list" where
  "lit_head n = byte_of (16 * min n 15) # enc_ext (nat n)"

lemma enc_token_int: "0 \<le> n \<Longrightarrow> 0 \<le> k \<Longrightarrow> enc_token (nat n) (nat k) = byte_of (16 * min n 15 + min k 15)"
  by (cases "n \<le> 15"; cases "k \<le> 15") (simp_all add: enc_token_def byte_of_def nat_le_iff)

lemma token_match:
  assumes "0 \<le> n" "0 \<le> k"
  shows "byte_of (uint (byte_of (16 * min n 15)) + min k 15) = enc_token (nat n) (nat k)"
  using assms by (simp add: enc_token_int)

lemma length_lit_head: "0 \<le> n \<Longrightarrow> int (length (lit_head n)) = 1 + (n + 240) div 255"
  by (simp add: lit_head_def zdiv_int nat_add_distrib)

lemma write_head_ok:
  assumes v: "valid m op (hi - op)" and n: "0 \<le> n" "op + 1 + (n + 240) div 255 \<le> hi"
  shows "\<exists>m'. (if n \<ge> RUN_MASK then do {
             m \<leftarrow> store8 m op (byte_of (RUN_MASK * 16)); write_length m (op + 1) (n - RUN_MASK) }
           else do { m \<leftarrow> store8 m op (byte_of (n * 16)); Some (m, op + 1) })
     = Some (m', op + 1 + (n + 240) div 255) \<and> wrote m m' op (lit_head n) hi"
proof -
  have d: "0 \<le> (n + 240) div 255" using n(1) by simp
  have op: "valid m op 1" "op < hi" using n d by (auto intro: valid_sub [OF v])
  show ?thesis
  proof (cases "15 \<le> n")
    case True
    let ?m = "m(op \<mapsto> byte_of 240)"
    have w: "store8 m op (byte_of 240) = Some ?m" "wrote m ?m op [byte_of 240] hi" using wrote_store8 [OF op] by auto
    have q: "(n + 240) div 255 = (n - 15) div 255 + 1" using div_add_self2 [of 255 "n - 15"] by simp
    have "valid ?m (op + 1) (hi - (op + 1))"
      using valid_sub [OF v, of "op + 1" "hi - (op + 1)"] wrote_valid [OF w(2)] by simp
    from write_length_ok [OF this, of "n - 15"] True n(2) q
    obtain m' where m': "write_length ?m (op + 1) (n - 15) = Some (m', op + 1 + (n - 15) div 255 + 1)"
        "wrote ?m m' (op + 1) (enc_length (nat (n - 15))) hi" by auto
    have "wrote m m' op ([byte_of 240] @ enc_length (nat (n - 15))) hi" by (rule wrote_append [OF w(2)]) (use m'(2) in simp)
    then show ?thesis using True w(1) m'(1) q by (simp add: lit_head_def enc_ext_long)
  next
    case False
    then have "lit_head n = [byte_of (n * 16)]" using n(1) by (simp add: lit_head_def enc_ext_def mult.commute nat_less_iff)
    moreover have "(n + 240) div 255 = 0" using False n(1) by simp
    ultimately show ?thesis using False wrote_store8 [OF op, of "byte_of (n * 16)"] by simp
  qed
qed

section \<open>Literals\<close>

text \<open>What is known of the space left in front of a match, after its literals (\<open>op\<close> at \<open>ip\<close>), and in
  front of a sequence (\<open>op\<close> at \<open>anchor\<close>).\<close>

definition match_space :: "comp_env \<Rightarrow> addr \<Rightarrow> addr \<Rightarrow> bool" where
  "match_space C ip op \<longleftrightarrow> (case c_outputDirective C of
     notLimited \<Rightarrow> op - c_dest C \<le> (ip - c_source C) + (ip - c_source C) div 255 + 2
   | limitedOutput \<Rightarrow> op + 5 \<le> c_olimit C
   | fillOutput \<Rightarrow> op \<le> c_olimit C)"

definition seq_space :: "comp_env \<Rightarrow> addr \<Rightarrow> addr \<Rightarrow> bool" where
  "seq_space C anchor op \<longleftrightarrow> (case c_outputDirective C of
     notLimited \<Rightarrow> op - c_dest C \<le> (anchor - c_source C) + (anchor - c_source C) div 255
   | limitedOutput \<Rightarrow> op = c_dest C \<or> op + 6 \<le> c_olimit C
   | fillOutput \<Rightarrow> op < c_olimit C)"

lemma div255_add: "0 \<le> a \<Longrightarrow> 0 \<le> b \<Longrightarrow> a div 255 + b div 255 \<le> (a + b) div (255 :: int)"
  by linarith

lemma room_bounds:
  assumes "comp_ok C room m"
  shows "c_outputDirective C = notLimited \<Longrightarrow> c_inputSize C + c_inputSize C div 255 + 16 \<le> room"
    "c_outputDirective C \<noteq> notLimited \<Longrightarrow> c_olimit C \<le> c_dest C + room"
  using assms by (auto simp: comp_ok_def compressBound_def c_olimit_def)

definition literals_out :: "comp_env \<Rightarrow> int \<Rightarrow> mem \<Rightarrow> addr \<Rightarrow> addr \<Rightarrow> addr \<Rightarrow> lit_out \<Rightarrow> bool" where
  "literals_out C room m anchor ip op r = (case r of
     LitReturn0 \<Rightarrow> c_outputDirective C = limitedOutput
   | LitLast op' \<Rightarrow> c_outputDirective C = fillOutput \<and> op' = op
   | LitOk m' op' token \<Rightarrow> token = op \<and> op' = op + 1 + (ip - anchor + 240) div 255 + (ip - anchor) \<and>
       wrote m m' op (lit_head (ip - anchor) @ bytes m anchor (ip - anchor)) (c_dest C + room) \<and> match_space C ip op')"

lemma wild_literals:
  assumes ok: "comp_ok C room m" and fr: "frame m m' (c_dest C) (c_dest C + room)"
    and a: "c_source C \<le> anchor" "anchor \<le> ip" "ip + 8 \<le> c_iend C"
    and op: "c_dest C \<le> op" "op + (ip - anchor) + 7 \<le> c_dest C + room" "op + 8 \<le> c_dest C + room"
  obtains m'' where "LZ4_wildCopy8 m' op anchor (op + (ip - anchor)) = Some m''"
    "wrote m' m'' op (bytes m anchor (ip - anchor)) (c_dest C + room)"
proof -
  let ?n = "ip - anchor" let ?k = "max 8 (?n + 7)" let ?hi = "op + ?k"
  have v: "valid m' op (?hi - op)" "valid m' anchor (?hi - op)"
    using valid_sub [OF comp_okD(9) [OF ok], of op ?k] source_valid [OF ok, of anchor ?k] a op
    by (simp_all add: frame_valid [OF fr])
  have dis: "anchor + 8 \<le> op \<and> anchor + (op + ?n - op) \<le> op \<or> ?hi \<le> anchor"
    using comp_okD(11) [OF ok] a op by auto
  obtain m'' where m'': "LZ4_wildCopy8 m' op anchor (op + ?n) = Some m''" "frame m' m'' op ?hi"
      "bytes m'' op (op + ?n - op) = bytes m' anchor (op + ?n - op)"
    by (rule wild8.copy_disjoint [OF v _ _ dis]) (use a in auto)
  have "bytes m' anchor ?n = bytes m anchor ?n"
    by (rule bytes_cong, rule source_frame [OF ok fr]) (use a in auto)
  then have "wrote m' m'' op (bytes m anchor ?n) (c_dest C + room)"
    using m''(2,3) a op frame_widen [OF m''(2), of op "c_dest C + room"] by (simp add: wrote_def)
  with m''(1) show thesis by (rule that)
qed

lemma encode_literals_ok:
  assumes ok: "comp_ok C room m0" and fr: "frame m0 m (c_dest C) (c_dest C + room)"
    and a: "c_source C \<le> anchor" "anchor \<le> ip" "ip + 12 \<le> c_iend C"
    and op: "c_dest C \<le> op" "seq_space C anchor op"
  shows "\<exists>r. encode_literals C m anchor ip op = Some r \<and> literals_out C room m anchor ip op r"
proof -
  let ?n = "ip - anchor" let ?e = "(?n + 240) div 255" let ?od = "c_outputDirective C"
  have n: "0 \<le> ?n" "u32 ?n = ?n" using a comp_okD(3,15) [OF ok] by auto
  have e: "0 \<le> ?e" "?e \<le> ?n div 255 + 1" using n(1) by auto
  have short: "?e = 0 \<or> 1 \<le> ?n" using n(1) by (cases "?n = 0") auto
  have okm: "comp_ok C room m" using comp_ok_frame [OF ok fr] .
  show ?thesis
  proof (cases "?od = limitedOutput \<and> op + 1 + ?n + 8 + ?n div 255 > c_olimit C")
    case True
    then show ?thesis using n by (simp add: encode_literals_def literals_out_def)
  next
    case lim: False
    show ?thesis
    proof (cases "?od = fillOutput \<and> op + 1 + ?e + ?n + 2 + 1 + 12 - 4 > c_olimit C")
      case True
      then show ?thesis using n by (simp add: encode_literals_def literals_out_def Let_def)
    next
      case fill: False
      let ?op = "op + 1 + ?e + ?n"
      have sp: "match_space C ip ?op" "?op + 7 \<le> c_dest C + room" "op + 1 + ?e + 8 \<le> c_dest C + room"
      proof -
        have "match_space C ip ?op \<and> ?op + 7 \<le> c_dest C + room \<and> op + 1 + ?e + 8 \<le> c_dest C + room"
        proof (cases ?od)
          case notLimited
          have "(anchor - c_source C) div 255 + ?n div 255 \<le> (ip - c_source C) div 255"
            using div255_add [of "anchor - c_source C" ?n] a by simp
          moreover have "(ip - c_source C) div 255 \<le> c_inputSize C div 255" using a(3) comp_okD(15) [OF ok] by (intro zdiv_mono1) auto
          ultimately show ?thesis
            using notLimited op(2) e room_bounds(1) [OF ok] a comp_okD(15) [OF ok] by (simp add: match_space_def seq_space_def)
        next
          case limitedOutput
          then show ?thesis using lim e room_bounds(2) [OF ok] n short by (auto simp: match_space_def)
        next
          case fillOutput
          then show ?thesis using fill room_bounds(2) [OF ok] n by (simp add: match_space_def)
        qed
        then show "match_space C ip ?op" "?op + 7 \<le> c_dest C + room" "op + 1 + ?e + 8 \<le> c_dest C + room" by auto
      qed
      have "valid m op (c_dest C + room - op)" by (rule valid_sub [OF comp_okD(9) [OF okm]]) (use op in auto)
      from write_head_ok [OF this n(1)] sp(3) obtain m1 where m1: "(if ?n \<ge> RUN_MASK then do {
             m \<leftarrow> store8 m op (byte_of (RUN_MASK * 16)); write_length m (op + 1) (?n - RUN_MASK) }
           else do { m \<leftarrow> store8 m op (byte_of (?n * 16)); Some (m, op + 1) }) = Some (m1, op + 1 + ?e)"
          "wrote m m1 op (lit_head ?n) (c_dest C + room)" by auto
      have "frame m m1 (c_dest C) (c_dest C + room)" using m1(2) op(1) by (auto simp: wrote_def intro: frame_widen)
      then obtain m2 where m2: "LZ4_wildCopy8 m1 (op + 1 + ?e) anchor (op + 1 + ?e + ?n) = Some m2"
          "wrote m1 m2 (op + 1 + ?e) (bytes m anchor ?n) (c_dest C + room)"
        by (rule wild_literals [OF okm, of m1 anchor ip "op + 1 + ?e"]) (use a op e sp in auto)
      have "wrote m m2 op (lit_head ?n @ bytes m anchor ?n) (c_dest C + room)"
        by (rule wrote_append [OF m1(2)]) (use m2(2) length_lit_head [OF n(1)] in \<open>simp add: add.assoc\<close>)
      moreover have "encode_literals C m anchor ip op = Some (LitOk m2 ?op op)"
        using lim fill m1(1) m2(1) n(2) by (simp add: encode_literals_def Let_def)
      ultimately show ?thesis using sp(1) by (simp add: literals_out_def)
    qed
  qed
qed

section \<open>Matches\<close>

lemma enc_length_replicate: "enc_length n = replicate (n div 255) 255 @ [of_nat (n mod 255)]"
proof (induction n rule: enc_length.induct)
  case (1 n)
  show ?case
  proof (cases "n < 255")
    case False
    then have "n div 255 = Suc ((n - 255) div 255)" "n mod 255 = (n - 255) mod 255" by (simp_all add: div_if mod_if)
    then show ?thesis using False 1 by (subst enc_length.simps) simp
  qed (subst enc_length.simps, simp)
qed

lemma write32_ones: "LZ4_write32 m a 0xFFFFFFFF = store_bytes m a (replicate 4 255)"
proof -
  have "byte_of 0xFFFFFFFF = 255" "byte_of 0xFFFFFF = 255" "byte_of 0xFFFF = 255" "byte_of 0xFF = 255" by code_simp+
  then show ?thesis by (simp add: LZ4_write32_def numeral_eq_Suc)
qed

lemma wrote_ones:
  assumes "valid m a 4" "a + 4 \<le> hi"
  shows "\<exists>m'. LZ4_write32 m a 0xFFFFFFFF = Some m' \<and> wrote m m' a (replicate 4 255) hi"
  using wrote_fill [of m a "replicate 4 255" hi] assms by (auto simp: write32_ones)

lemma write_match_length_ok:
  assumes "valid m op (hi - op)" "0 \<le> mc" "op + 4 * (mc div 1020) + 4 \<le> hi" "wrote m0 m op (replicate 4 255) hi"
  shows "\<exists>m'. write_match_length m op mc = Some (m', op + 4 * (mc div 1020), mc mod 1020)
     \<and> wrote m0 m' op (replicate (4 * nat (mc div 1020) + 4) 255) hi"
  using assms
proof (induction "nat mc" arbitrary: m m0 op mc rule: less_induct)
  case less
  note unfold = write_match_length.simps [of m op mc]
  show ?case
  proof (cases "1020 \<le> mc")
    case True
    have q: "(mc - 1020) div 1020 = mc div 1020 - 1" "(mc - 1020) mod 1020 = mc mod 1020" by (simp_all add: mod_diff_right_eq)
    have nn: "0 \<le> (mc - 1020) div 1020" using True by simp
    have "valid m (op + 4) 4" by (rule valid_sub [OF less.prems(1)]) (use less.prems(3) q nn in auto)
    then obtain m1 where m1: "LZ4_write32 m (op + 4) 0xFFFFFFFF = Some m1" "wrote m m1 (op + 4) (replicate 4 255) hi"
      using wrote_ones [of m "op + 4" hi] less.prems(3) q nn by auto
    have "valid m1 (op + 4) (hi - (op + 4))"
      using valid_sub [OF less.prems(1), of "op + 4" "hi - (op + 4)"] wrote_valid [OF m1(2)] by simp
    then have "\<exists>m'. write_match_length m1 (op + 4) (mc - 1020) = Some (m', op + 4 + 4 * ((mc - 1020) div 1020), (mc - 1020) mod 1020)
        \<and> wrote m m' (op + 4) (replicate (4 * nat ((mc - 1020) div 1020) + 4) 255) hi"
      using less.prems(3) True q m1(2) by (intro less.hyps) auto
    then obtain m' where m': "write_match_length m1 (op + 4) (mc - 1020) = Some (m', op + 4 + 4 * ((mc - 1020) div 1020), (mc - 1020) mod 1020)"
        "wrote m m' (op + 4) (replicate (4 * nat ((mc - 1020) div 1020) + 4) 255) hi" by blast
    have "wrote m0 m' op (replicate 4 255 @ replicate (4 * nat ((mc - 1020) div 1020) + 4) 255) hi"
      by (rule wrote_append [OF less.prems(4)]) (use m'(2) in simp)
    moreover have "4 + (4 * nat ((mc - 1020) div 1020) + 4) = 4 * nat (mc div 1020) + 4" using q nn by (simp add: nat_add_distrib)
    ultimately have "wrote m0 m' op (replicate (4 * nat (mc div 1020) + 4) 255) hi" by (simp add: replicate_add [symmetric])
    then show ?thesis using True m1(1) m'(1) q by (simp add: unfold)
  next
    case False
    then show ?thesis using less.prems by (simp add: unfold)
  qed
qed

text \<open>The extension bytes of the match length; the token at \<open>token\<close> gets the low four bits.\<close>

lemma match_ext_ok:
  assumes v: "valid m op (hi - op)" and mc: "15 \<le> mc" "op + (mc + 240) div 255 + 3 \<le> hi"
  shows "\<exists>m'. do { m \<leftarrow> LZ4_write32 m op 0xFFFFFFFF;
        (m, op, matchCode) \<leftarrow> write_match_length m op (mc - 15);
        let op = op + matchCode div 255 in do {
        m \<leftarrow> store8 m op (byte_of (matchCode mod 255));
        Some (m, op + 1) } } = Some (m', op + (mc + 240) div 255) \<and> wrote m m' op (enc_ext (nat mc)) hi"
proof -
  let ?c = "mc - 15" let ?q = "?c div 255"
  have q: "(mc + 240) div 255 = ?q + 1" using div_add_self2 [of 255 ?c] by simp
  have c: "0 \<le> ?c" "0 \<le> ?q" using mc by auto
  have "?c = ?c mod 1020 + 4 * (?c div 1020) * 255" by simp
  then have d2: "?q = 4 * (?c div 1020) + ?c mod 1020 div 255" using div_mult_self1 [of 255 "?c mod 1020" "4 * (?c div 1020)"] by simp
  have r: "0 \<le> ?c mod 1020" "?c mod 1020 < 1020" by simp_all
  then have "0 \<le> ?c mod 1020 div 255" "?c mod 1020 div 255 < 4" by (simp_all add: div_less_iff_less_mult)
  then have d: "4 * (?c div 1020) \<le> ?q" "?q = 4 * (?c div 1020) + ?c mod 1020 div 255" "?c mod 1020 mod 255 = ?c mod 255"
    "0 \<le> ?c div 1020" "?q \<le> 4 * (?c div 1020) + 3" using d2 c(1) by (simp_all add: mod_mod_cancel)
  obtain m1 where m1: "LZ4_write32 m op 0xFFFFFFFF = Some m1" "wrote m m1 op (replicate 4 255) hi"
    using wrote_ones [of m op hi] valid_sub [OF v, of op 4] mc q c by auto
  have v1: "valid m1 op (hi - op)" using v wrote_valid [OF m1(2)] by simp
  obtain m2 where m2: "write_match_length m1 op ?c = Some (m2, op + 4 * (?c div 1020), ?c mod 1020)"
      "wrote m m2 op (replicate (4 * nat (?c div 1020) + 4) 255) hi"
    using write_match_length_ok [OF v1 c(1) _ m1(2)] mc q d(1) by auto
  have q2: "op + 4 * (?c div 1020) + ?c mod 1020 div 255 = op + ?q" using d(2) by simp
  have "valid m2 (op + ?q) 1"
    using valid_sub [OF v, of "op + ?q" 1] wrote_valid [OF m2(2)] mc q c by simp
  then have m3: "store8 m2 (op + ?q) (byte_of (?c mod 255)) = Some (m2(op + ?q \<mapsto> byte_of (?c mod 255)))"
      "wrote m2 (m2(op + ?q \<mapsto> byte_of (?c mod 255))) (op + ?q) [byte_of (?c mod 255)] hi"
    using wrote_store8 [of m2 "op + ?q" hi "byte_of (?c mod 255)"] mc q by auto
  have "wrote m m2 op (replicate (nat ?q) 255) hi"
  proof (rule wrote_take)
    have "nat ?q \<le> 4 * nat (?c div 1020) + 4" using d(4,5) by simp
    then show "wrote m m2 op (replicate (nat ?q) 255 @ replicate (4 * nat (?c div 1020) + 4 - nat ?q) 255) hi"
      using m2(2) by (simp flip: replicate_add)
  qed
  then have "wrote m (m2(op + ?q \<mapsto> byte_of (?c mod 255))) op (replicate (nat ?q) 255 @ [byte_of (?c mod 255)]) hi"
    using m3(2) c by (intro wrote_append) auto
  moreover have "nat ?c mod 255 = nat (?c mod 255)" "nat ?c div 255 = nat ?q" using c(1) by (simp_all add: nat_mod_distrib nat_div_distrib)
  then have "replicate (nat ?q) 255 @ [byte_of (?c mod 255)] = enc_ext (nat mc)"
    unfolding enc_ext_long [OF mc(1)] enc_length_replicate by (simp add: byte_of_def)
  ultimately show ?thesis
    unfolding m1(1) m2(1) Option.bind_lunit prod.case Let_def q2 d(3) m3(1) q by (simp add: add.assoc)
qed

lemma encode_match_length_ok:
  assumes v: "valid m op (hi - op)" and t: "m token = Some t" "token < op"
    and mc: "0 \<le> mc" "15 \<le> mc \<Longrightarrow> op + (mc + 240) div 255 + 3 \<le> hi" "op \<le> hi"
  shows "\<exists>m'. encode_match_length m token op mc = Some (m', op + (mc + 240) div 255)
     \<and> wrote (m(token \<mapsto> byte_of (uint t + min mc 15))) m' op (enc_ext (nat mc)) hi"
proof -
  let ?m = "m(token \<mapsto> byte_of (uint t + min mc 15))"
  have st: "store8 m token (byte_of (uint t + min mc 15)) = Some ?m" using t(1) by (simp add: store8_def)
  show ?thesis
  proof (cases "15 \<le> mc")
    case True
    have "valid ?m op (hi - op)" using v by (auto simp: valid_def)
    from match_ext_ok [OF this True mc(2) [OF True]] show ?thesis
      using True st t(1) by (simp add: encode_match_length_def Let_def)
  next
    case False
    then show ?thesis using mc st t(1) by (simp add: encode_match_length_def enc_ext_def nat_less_iff)
  qed
qed

section \<open>Last literals\<close>

lemma encode_last_ok:
  assumes ok: "comp_ok C room m" and a: "c_source C \<le> anchor" "0 \<le> n" "anchor + n \<le> c_iend C"
    and op: "c_dest C \<le> op" "op + 1 + (n + 240) div 255 + n \<le> c_dest C + room"
  shows "\<exists>m'. encode_last_literals m anchor op n = Some (m', anchor + n, op + 1 + (n + 240) div 255 + n)
     \<and> wrote m m' op (enc_last (bytes m anchor n)) (c_dest C + room)"
proof -
  let ?e = "(n + 240) div 255" let ?op = "op + 1 + ?e" let ?hi = "c_dest C + room"
  have e: "0 \<le> ?e" using a(2) by simp
  have "valid m op (?hi - op)" by (rule valid_sub [OF comp_okD(9) [OF ok]]) (use op in auto)
  from write_head_ok [OF this a(2)] op(2) a(2) obtain m1 where m1: "(if n \<ge> RUN_MASK then do {
         m \<leftarrow> store8 m op (byte_of (RUN_MASK * 16)); write_length m (op + 1) (n - RUN_MASK) }
       else do { m \<leftarrow> store8 m op (byte_of (n * 16)); Some (m, op + 1) }) = Some (m1, ?op)"
      "wrote m m1 op (lit_head n) ?hi" by auto
  have fr: "frame m m1 (c_dest C) ?hi" using m1(2) op(1) by (auto simp: wrote_def intro: frame_widen)
  have v: "valid m1 ?op n" "valid m1 anchor n"
    using valid_sub [OF comp_okD(9) [OF ok], of ?op n] source_valid [OF ok, of anchor n] op e a
    by (simp_all add: frame_valid [OF fr])
  have c: "LZ4_memcpy m1 ?op anchor n = Some (blit m1 ?op anchor n)"
    using comp_okD(11) [OF ok] a op e by (intro memcpy_Some [OF a(2) v]) auto
  have "bytes m1 anchor n = bytes m anchor n" by (rule bytes_cong, rule source_frame [OF ok fr]) (use a in auto)
  then have "wrote m1 (blit m1 ?op anchor n) ?op (bytes m anchor n) ?hi"
    using bytes_blit [OF a(2)] frame_widen [OF frame_blit [OF v], of ?op ?hi] op(2) a(2) by (simp add: wrote_def)
  then have "wrote m (blit m1 ?op anchor n) op (lit_head n @ bytes m anchor n) ?hi"
    by (intro wrote_append [OF m1(2)]) (use length_lit_head [OF a(2)] in \<open>simp add: add.assoc\<close>)
  moreover have "lit_head n @ bytes m anchor n = enc_last (bytes m anchor n)"
    using a(2) enc_token_int [of n 0] by (simp add: lit_head_def enc_last_def)
  moreover have "encode_last_literals m anchor op n = Some (blit m1 ?op anchor n, anchor + n, ?op + n)"
    unfolding encode_last_literals_def m1(1) by (simp add: c)
  ultimately show ?thesis by simp
qed

end
