(* ===== verification/LZ4_CompLoop.thy ===== *)
theory LZ4_CompLoop
  imports LZ4_CompSearch LZ4_CompEncode
begin

text \<open>
  The loop of the compressor.  Its invariant says that the output so far encodes sequences that
  expand to the input up to \<open>anchor\<close>; a step emits one more sequence.  At the end the output is a
  block that the reference decoder turns back into the input, and that respects the end-of-block
  conditions of the format.
\<close>

section \<open>The history\<close>

lemma length_chist [simp]: "length (chist C m a) = nat (a - c_lo C)"
  by (simp add: chist_def)

lemma chist_append:
  assumes "comp_ok C room m" "c_source C \<le> a" "0 \<le> n"
  shows "chist C m (a + n) = chist C m a @ bytes m a n"
proof -
  have lo: "c_lo C \<le> a" using comp_okD(14) [OF assms(1)] assms(2) by simp
  have "bytes (cvm C m) (c_lo C) (a - c_lo C + n) = bytes (cvm C m) (c_lo C) (a - c_lo C) @ bytes (cvm C m) (c_lo C + (a - c_lo C)) n"
    using lo assms(3) by (intro bytes_append) auto
  moreover have "bytes (cvm C m) a n = bytes m a n" by (rule bytes_cong) (use assms(2) in simp)
  ultimately show ?thesis by (simp add: chist_def algebra_simps)
qed

lemma chist_match:
  assumes "lz_match (cvm C m) ip len d" "0 < d" "c_lo C \<le> ip - d" "0 \<le> len"
  shows "chist C m (ip + len) = copy_match (nat d) (nat len) (chist C m ip)"
  unfolding chist_def by (rule bytes_copy_match [OF assms(1)]) (use assms in auto)

section \<open>The invariant\<close>

text \<open>The number of literals that still fit, as \<open>fillOutput\<close> computes it.\<close>

definition fill_run :: "int \<Rightarrow> int" where "fill_run r = r - (r + 241) div 256"

definition encodes :: "comp_env \<Rightarrow> mem \<Rightarrow> mem \<Rightarrow> addr \<Rightarrow> addr \<Rightarrow> sequence list \<Rightarrow> bool" where
  "encodes C m0 m anchor op sqs \<longleftrightarrow> (let D = chist C m0 (c_source C) in
     seqs_ok D sqs \<and> expand D sqs = chist C m0 anchor \<and>
     bytes m (c_dest C) (op - c_dest C) = concat (map enc_seq sqs) \<and>
     seqs_fit (c_iend C - c_lo C) D sqs \<and>
     (c_outputDirective C = fillOutput \<longrightarrow> seqs_fit (anchor - c_lo C + fill_run (c_olimit C - op - 1)) D sqs))"

definition at_seq :: "comp_env \<Rightarrow> int \<Rightarrow> mem \<Rightarrow> mem \<Rightarrow> addr \<Rightarrow> addr \<Rightarrow> bool" where
  "at_seq C room m0 m anchor op \<longleftrightarrow>
     frame m0 m (c_dest C) (c_dest C + room) \<and> c_dest C \<le> op \<and> op \<le> c_dest C + room \<and>
     c_source C \<le> anchor \<and> anchor \<le> c_iend C \<and> seq_space C anchor op \<and> (\<exists>sqs. encodes C m0 m anchor op sqs)"

lemma at_seqD:
  assumes "at_seq C room m0 m anchor op"
  shows "frame m0 m (c_dest C) (c_dest C + room)" "c_dest C \<le> op" "op \<le> c_dest C + room"
    "c_source C \<le> anchor" "anchor \<le> c_iend C" "seq_space C anchor op"
  using assms by (auto simp: at_seq_def)

text \<open>Writing after \<open>op\<close> keeps what has been emitted.\<close>

lemma at_seq_frame:
  assumes "at_seq C room m0 m anchor op" "frame m m' op (c_dest C + room)"
  shows "at_seq C room m0 m' anchor op"
proof -
  have "frame m0 m' (c_dest C) (c_dest C + room)"
    using at_seqD(1) [OF assms(1)] assms(2) by (rule frame_join) (use at_seqD(2) [OF assms(1)] in auto)
  moreover have "bytes m' (c_dest C) (op - c_dest C) = bytes m (c_dest C) (op - c_dest C)"
    by (rule bytes_frame [OF assms(2)]) simp
  ultimately show ?thesis using assms(1) by (simp add: at_seq_def encodes_def)
qed

text \<open>A match has been found at \<open>ip\<close>: the indexes in the table are below \<open>b\<close>, and the match reaches beyond
  all of them.\<close>

definition pending :: "(int \<Rightarrow> bool) \<Rightarrow> comp_env \<Rightarrow> mem \<Rightarrow> table \<Rightarrow> addr \<Rightarrow> addr \<Rightarrow> addr \<Rightarrow> int \<Rightarrow> addr \<Rightarrow> bool" where
  "pending P C m0 T ip match low off filledIp \<longleftrightarrow>
     (\<exists>d b. cand C ip match low d \<and> (c_maybe_extMem C \<longrightarrow> off = d) \<and> ip < b \<and> b \<le> max ip filledIp + 1
        \<and> lz_match (cvm C m0) ip (b + 3 - ip) d \<and> tbl P C m0 (b - c_base C) T)"

lemma pendingI:
  "cand C ip match low d \<Longrightarrow> (c_maybe_extMem C \<Longrightarrow> off = d) \<Longrightarrow> ip < b \<Longrightarrow> b \<le> max ip filledIp + 1
   \<Longrightarrow> lz_match (cvm C m0) ip (b + 3 - ip) d \<Longrightarrow> tbl P C m0 (b - c_base C) T \<Longrightarrow> pending P C m0 T ip match low off filledIp"
  by (auto simp: pending_def)

fun comp_inv :: "(int \<Rightarrow> bool) \<Rightarrow> comp_env \<Rightarrow> int \<Rightarrow> mem \<Rightarrow> comp_state \<Rightarrow> bool" where
  "comp_inv P C room m0 (AtSearch m T anchor ip op forwardH lowLimit offset) =
     (at_seq C room m0 m anchor op \<and> anchor < ip \<and> ip \<le> c_mflimitPlusOne C \<and> tbl P C m0 (ip - c_base C) T \<and>
      LZ4_hashPosition m0 ip (c_tableType C) = Some forwardH \<and> (\<not> c_maybe_extMem C \<longrightarrow> lowLimit = c_lo C))"
| "comp_inv P C room m0 (AtMatch m T anchor ip match lowLimit offset filledIp token op) =
     (at_seq C room m0 m anchor token \<and> anchor \<le> ip \<and> ip + 12 \<le> c_iend C \<and> filledIp + 12 \<le> c_iend C \<and>
      op = token + 1 + (ip - anchor + 240) div 255 + (ip - anchor) \<and> op \<le> c_dest C + room \<and>
      bytes m token (op - token) = lit_head (ip - anchor) @ bytes m0 anchor (ip - anchor) \<and>
      match_space C ip op \<and> (\<not> c_maybe_extMem C \<longrightarrow> lowLimit = c_lo C) \<and>
      pending P C m0 T ip match lowLimit offset filledIp)"

fun rank :: "comp_env \<Rightarrow> comp_state \<Rightarrow> nat" where
  "rank C (AtSearch m T anchor ip op forwardH lowLimit offset) = 2 * nat (c_iend C - anchor) + 1"
| "rank C (AtMatch m T anchor ip match lowLimit offset filledIp token op) = 2 * nat (c_iend C - anchor)"

definition out_ok :: "(int \<Rightarrow> bool) \<Rightarrow> comp_env \<Rightarrow> int \<Rightarrow> mem \<Rightarrow> nat \<Rightarrow> comp_out \<Rightarrow> bool" where
  "out_ok P C room m0 k r = (case r of
     Continue s \<Rightarrow> comp_inv P C room m0 s \<and> rank C s < k
   | LastLiterals m T anchor op \<Rightarrow> at_seq C room m0 m anchor op \<and> tbl P C m0 (c_mflimitPlusOne C - c_base C) T
   | Return0 m T \<Rightarrow> c_outputDirective C = limitedOutput \<and> frame m0 m (c_dest C) (c_dest C + room)
       \<and> tbl P C m0 (c_mflimitPlusOne C - c_base C) T)"

section \<open>Searching\<close>

lemma search_step_ok:
  assumes ok: "comp_ok C room m0" and P: "\<And>i. P i \<Longrightarrow> old_ok C i"
    and inv: "comp_inv P C room m0 (AtSearch m T anchor ip op fh low off)"
  shows "\<exists>r. search_step C m T anchor ip op fh low off = Some r
     \<and> out_ok P C room m0 (rank C (AtSearch m T anchor ip op fh low off)) r"
proof -
  let ?hi = "c_dest C + room"
  from inv have s: "at_seq C room m0 m anchor op" and ip: "anchor < ip" "ip \<le> c_mflimitPlusOne C"
    and T: "tbl P C m0 (ip - c_base C) T" and fh: "LZ4_hashPosition m0 ip (c_tableType C) = Some fh"
    and low: "\<not> c_maybe_extMem C \<Longrightarrow> low = c_lo C" by auto
  note fr = at_seqD(1) [OF s] and a = at_seqD(4,5) [OF s]
  have okm: "comp_ok C room m" using comp_ok_frame [OF ok fr] .
  have b: "c_base C + (x - c_base C) + 7 \<le> c_iend C" if "x \<le> c_mflimitPlusOne C" for x using that by (simp add: c_defs)
  note tf = tbl_frame [OF ok fr b, of _ P]
  have Tm: "tbl P C m (ip - c_base C) T" using T tf [OF ip(2)] by simp
  have fhm: "LZ4_hashPosition m ip (c_tableType C) = Some fh"
    using hash_frame [OF ok fr, of ip] fh ip a by (simp add: c_defs)
  have "c_acceleration C * 2 ^ LZ4_skipTrigger \<ge> 64" using ok by (simp add: comp_ok_def)
  then have "\<exists>f. find_match C m T ip 1 (c_acceleration C * 2 ^ LZ4_skipTrigger) fh low off = Some f \<and> found P C m ip f"
    using a ip by (intro find_match_ok [OF okm _ ip(2) P Tm fhm _ _ low]) auto
  then obtain f where f: "find_match C m T ip 1 (c_acceleration C * 2 ^ LZ4_skipTrigger) fh low off = Some f" "found P C m ip f"
    by blast
  show ?thesis
  proof (cases f)
    case (NotFound T')
    then show ?thesis using f s tf [of "c_mflimitPlusOne C"] by (simp add: search_step_def found_def out_ok_def)
  next
    case (Found T' ip' match low' off')
    then obtain d where d: "ip \<le> ip'" "ip' < c_mflimitPlusOne C" "tbl P C m (ip' + 1 - c_base C) T'"
        "\<not> c_maybe_extMem C \<Longrightarrow> low' = c_lo C" "cand C ip' match low' d" "lz_match (cvm C m) ip' 4 d" "c_maybe_extMem C \<Longrightarrow> off' = d"
      using f(2) by (auto simp: found_def)
    have ip12: "ip' + 12 \<le> c_iend C" using d(2) by (simp add: c_defs)
    have T0: "tbl P C m0 (ip' + 1 - c_base C) T'" using d(2,3) tf [of "ip' + 1"] by simp
    obtain ip2 mt2 where cu: "catch_up m anchor low' ip' match = Some (ip2, mt2)" "anchor \<le> ip2" "ip2 \<le> ip'"
        "cand C ip2 mt2 low' d" "lz_match (cvm C m) ip2 (ip' + 4 - ip2) d"
      using catch_up_ok [OF okm a(1) _ _ d(5,6)] ip d(1) ip12 by (auto simp: caught_up_def)
    have cd: "0 < d" "c_lo C \<le> ip2 - d" using cu(4) by (auto simp: cand_def)
    have l0: "lz_match (cvm C m0) ip2 (ip' + 4 - ip2) d"
      using cu(5) lz_match_cvm_frame [OF ok fr cd(2,1), of "ip' + 4 - ip2"] ip12 by simp
    obtain l where l: "encode_literals C m anchor ip2 op = Some l" "literals_out C room m anchor ip2 op l"
      using encode_literals_ok [OF ok fr a(1) cu(2) _ at_seqD(2,6) [OF s]] cu(3) ip12 by auto
    have Tl: "tbl P C m0 (c_mflimitPlusOne C - c_base C) T'" by (rule tbl_mono [OF T0]) (use d(2) in simp)
    have step: "search_step C m T anchor ip op fh low off = Some (case l of LitReturn0 \<Rightarrow> Return0 m T'
        | LitLast op \<Rightarrow> LastLiterals m T' anchor op
        | LitOk m op token \<Rightarrow> Continue (AtMatch m T' anchor ip2 mt2 low' off' ip' token op))"
      using f(1) Found cu(1) l(1) by (simp add: search_step_def)
    show ?thesis
    proof (cases l)
      case (LitOk m' op' token)
      then have w: "token = op" "op' = op + 1 + (ip2 - anchor + 240) div 255 + (ip2 - anchor)"
          "wrote m m' op (lit_head (ip2 - anchor) @ bytes m anchor (ip2 - anchor)) ?hi" "match_space C ip2 op'"
        using l(2) by (auto simp: literals_out_def)
      have "bytes m anchor (ip2 - anchor) = bytes m0 anchor (ip2 - anchor)"
        by (rule bytes_cong, rule source_frame [OF ok fr]) (use a cu ip12 in auto)
      moreover have "int (length (lit_head (ip2 - anchor) @ bytes m anchor (ip2 - anchor))) = op' - op"
        using length_lit_head [of "ip2 - anchor"] cu(2) w(2) by simp
      ultimately have b2: "bytes m' op (op' - op) = lit_head (ip2 - anchor) @ bytes m0 anchor (ip2 - anchor)" "op' \<le> ?hi"
        using w(3) by (auto simp: wrote_def)
      have "at_seq C room m0 m' anchor op" by (rule at_seq_frame [OF s]) (use w(3) in \<open>simp add: wrote_def\<close>)
      moreover have "pending P C m0 T' ip2 mt2 low' off' ip'"
        by (rule pendingI [OF cu(4) d(7) _ _ _ T0]) (use cu(3) l0 in \<open>auto simp: algebra_simps\<close>)
      ultimately have "comp_inv P C room m0 (AtMatch m' T' anchor ip2 mt2 low' off' ip' token op')"
        using w(1,2,4) b2 cu(2,3) ip12 d(4) by auto
      then show ?thesis using LitOk step by (simp add: out_ok_def del: comp_inv.simps)
    qed (use step l(2) s Tl fr in \<open>auto simp: out_ok_def literals_out_def\<close>)
  qed
qed

section \<open>Emitting a match\<close>

lemma longest_frame:
  assumes "comp_ok C room m0" "frame m0 m (c_dest C) (c_dest C + room)" "c_lo C \<le> ip - d" "0 < d"
  shows "longest C m ip d e = longest C m0 ip d e"
proof -
  have e: "cvm C m x = cvm C m0 x" if "ip - d \<le> x" "x < c_iend C" for x
    using cvm_frame [OF assms(1,2), of x] that assms(3) by simp
  have "lz_match (cvm C m) ip (e - ip) d = lz_match (cvm C m0) ip (e - ip) d" if "e \<le> c_matchlimit C"
    using lz_match_cvm_frame [OF assms, of "e - ip"] that by (simp add: c_defs)
  moreover have "cvm C m e = cvm C m0 e" "cvm C m (e - d) = cvm C m0 (e - d)" if "ip + 4 \<le> e" "e \<le> c_matchlimit C"
    using e [of e] e [of "e - d"] that assms(4) by (auto simp: c_defs)
  ultimately show ?thesis by (auto simp: longest_def)
qed

lemma fill_run_bounds: "8 \<le> r \<Longrightarrow> 8 \<le> fill_run r" "5 \<le> r \<Longrightarrow> 5 \<le> fill_run r"
  unfolding fill_run_def by linarith+

text \<open>One more sequence has been written.\<close>

lemma at_seq_step:
  assumes ok: "comp_ok C room m0" and s: "at_seq C room m0 m anchor token"
    and ip: "anchor \<le> ip" "ip + 12 \<le> c_iend C" and d: "0 < d" "d \<le> 65535" "c_lo C \<le> ip - d"
    and mc: "0 \<le> mc" "ip + 4 + mc \<le> c_matchlimit C" and l: "lz_match (cvm C m0) ip (4 + mc) d"
    and fr: "frame m m' token (c_dest C + room)" and op: "token \<le> op" "op \<le> c_dest C + room"
    and enc: "bytes m' token (op - token) = enc_seq (bytes m0 anchor (ip - anchor), nat d, nat (4 + mc))"
    and sp: "seq_space C (ip + 4 + mc) op"
    and fill: "c_outputDirective C = fillOutput \<Longrightarrow> op + 9 \<le> c_olimit C \<or> 15 \<le> mc \<and> op + 6 \<le> c_olimit C"
  shows "at_seq C room m0 m' (ip + 4 + mc) op"
proof -
  let ?D = "chist C m0 (c_source C)" and ?lits = "bytes m0 anchor (ip - anchor)" and ?e = "ip + 4 + mc"
  note a = at_seqD [OF s]
  have lo: "c_lo C \<le> c_source C" using comp_okD(14) [OF ok] .
  obtain sqs where sqs: "seqs_ok ?D sqs" "expand ?D sqs = chist C m0 anchor"
      "bytes m (c_dest C) (token - c_dest C) = concat (map enc_seq sqs)" "seqs_fit (c_iend C - c_lo C) ?D sqs"
    using s by (auto simp: at_seq_def encodes_def Let_def)
  let ?s = "(?lits, nat d, nat (4 + mc))" let ?sqs = "sqs @ [?s]"
  have hip: "chist C m0 ip = chist C m0 anchor @ ?lits" using chist_append [OF ok a(4), of "ip - anchor"] ip(1) by simp
  have len: "int (length (chist C m0 anchor) + length ?lits) = ip - c_lo C" using a(4) ip lo by simp
  have he: "expand ?D ?sqs = chist C m0 ?e"
    using chist_match [OF l d(1,3)] mc(1) hip sqs(2) by (simp add: add.assoc)
  have ok1: "seqs_ok ?D ?sqs" using sqs(1,2) d mc(1) len by (auto simp: nat_le_iff nat_less_iff le_nat_iff)
  have "bytes m' (c_dest C) (token - c_dest C) = concat (map enc_seq sqs)"
    using bytes_frame [OF fr, of "c_dest C" "token - c_dest C"] sqs(3) by simp
  then have b: "bytes m' (c_dest C) (op - c_dest C) = concat (map enc_seq ?sqs)"
    using bytes_append [of "token - c_dest C" "op - token" m' "c_dest C"] a(2) op(1) enc by simp
  have fit: "seqs_fit e ?D ?sqs" if "seqs_fit e ?D sqs" "ip - c_lo C + 12 \<le> e" "?e - c_lo C + 5 \<le> e" for e
    using that sqs(2) len mc(1) by simp
  have "seqs_fit (c_iend C - c_lo C) ?D ?sqs" by (rule fit [OF sqs(4)]) (use ip mc in \<open>auto simp: c_defs\<close>)
  moreover have "seqs_fit (?e - c_lo C + fill_run (c_olimit C - op - 1)) ?D ?sqs" if f: "c_outputDirective C = fillOutput"
    using fill [OF f]
  proof
    assume "op + 9 \<le> c_olimit C"
    then show ?thesis using fill_run_bounds(1) [of "c_olimit C - op - 1"] ok1 he a(4) ip lo mc(1) by (intro seqs_fit_8) auto
  next
    assume "15 \<le> mc \<and> op + 6 \<le> c_olimit C"
    then show ?thesis using fill_run_bounds(2) [of "c_olimit C - op - 1"] sqs(1,2) a(4) ip lo
      by (intro fit seqs_fit_8) auto
  qed
  ultimately have "encodes C m0 m' ?e op ?sqs" using ok1 he b by (simp add: encodes_def Let_def)
  moreover have "frame m0 m' (c_dest C) (c_dest C + room)" using a(1) fr by (rule frame_join) (use a(2) in auto)
  ultimately show ?thesis using a(2,4) op ip mc sp by (auto simp: at_seq_def c_defs)
qed

text \<open>Shortening a match so that five literals can follow it.\<close>

lemma new_match_code:
  assumes "c_olimit C - op = k + 6" "3 \<le> k" "op + 6 + (mc + 240) div 255 > c_olimit C" "mc < 2 ^ 31"
  shows "u32 (15 - 1 + (u32 (c_olimit C - op) - 1 - LASTLITERALS) * 255) = 14 + 255 * k" "14 + 255 * k < mc"
    "u32 (mc - (14 + 255 * k)) = mc - (14 + 255 * k)"
proof -
  have "k + 1 \<le> (mc + 240) div 255" using assms(1,3) by simp
  then have mc: "255 * (k + 1) \<le> mc + 240" using mult_div_mod_eq [of 255 "mc + 240"] pos_mod_sign [of 255 "mc + 240"] by simp
  then show "14 + 255 * k < mc" by simp
  show "u32 (15 - 1 + (u32 (c_olimit C - op) - 1 - LASTLITERALS) * 255) = 14 + 255 * k"
    using mc assms(2,4) by (simp add: assms(1))
  show "u32 (mc - (14 + 255 * k)) = mc - (14 + 255 * k)" using mc assms(2,4) by simp
qed

definition fitted :: "(int \<Rightarrow> bool) \<Rightarrow> comp_env \<Rightarrow> int \<Rightarrow> mem \<Rightarrow> addr \<Rightarrow> addr \<Rightarrow> int \<Rightarrow> (table \<times> int \<times> addr) option \<Rightarrow> bool" where
  "fitted P C room m0 ip op mc r = (case r of None \<Rightarrow> c_outputDirective C = limitedOutput
   | Some (T, mc', e) \<Rightarrow> e = ip + 4 + mc' \<and> 0 \<le> mc' \<and> mc' \<le> mc \<and> tbl P C m0 (min e (c_mflimitPlusOne C) - c_base C) T \<and>
       (let op3 = op + (mc' + 240) div 255 in
        op3 + 3 \<le> c_dest C + room \<and> seq_space C e op3 \<and> (c_outputDirective C = limitedOutput \<longrightarrow> op3 + 6 \<le> c_olimit C) \<and>
        (c_outputDirective C = fillOutput \<longrightarrow> op3 + 9 \<le> c_olimit C \<or> 15 \<le> mc' \<and> op3 + 6 \<le> c_olimit C)))"

lemma fit_match_ok:
  assumes ok: "comp_ok C room m0" and fr: "frame m0 m (c_dest C) (c_dest C + room)"
    and ip: "c_source C \<le> ip" "ip + 12 \<le> c_iend C" "filledIp + 12 \<le> c_iend C"
    and mc: "0 \<le> mc" "mc < 2 ^ 31" and lg: "longest C m0 ip d (ip + 4 + mc)"
    and b: "0 < d" "ip < b" "b \<le> max ip filledIp + 1" "lz_match (cvm C m0) ip (b + 3 - ip) d" and T: "tbl P C m0 (b - c_base C) T"
    and sp: "match_space C ip op" "c_outputDirective C = fillOutput \<Longrightarrow> op + 11 \<le> c_olimit C"
  shows "\<exists>r. fit_match C m T (op + 2) filledIp mc (ip + 4 + mc) = Some r \<and> fitted P C room m0 ip (op + 2) mc r"
proof -
  let ?e = "ip + 4 + mc" and ?E = "(mc + 240) div 255" and ?od = "c_outputDirective C"
  have E: "0 \<le> ?E" "?E \<le> mc" "mc < 15 \<Longrightarrow> ?E = 0" using mc(1) by auto
  have be: "b + 3 \<le> ?e" using longest_reaches [OF lg b(4) _ b(1)] ip b(3) by (auto simp: c_defs)
  have bl: "b \<le> c_mflimitPlusOne C" using ip b(3) by (auto simp: c_defs)
  have T1: "tbl P C m0 (min ?e (c_mflimitPlusOne C) - c_base C) T" by (rule tbl_mono [OF T]) (use be bl in auto)
  have em: "?e \<le> c_iend C - 5" using lg by (simp add: longest_def c_defs)
  show ?thesis
  proof (cases "?od \<noteq> notLimited \<and> op + 2 + 6 + ?E > c_olimit C")
    case False
    have "fitted P C room m0 ip (op + 2) mc (Some (T, mc, ?e))"
    proof (cases ?od)
      case notLimited
      have "(ip - c_source C) div 255 \<le> (?e - c_source C) div 255" "(?e - c_source C) div 255 \<le> c_inputSize C div 255"
        using mc(1) em comp_okD(15) [OF ok] by (auto intro!: zdiv_mono1)
      then show ?thesis using notLimited sp(1) E room_bounds(1) [OF ok] T1 mc(1) em comp_okD(15) [OF ok]
        by (simp add: fitted_def match_space_def seq_space_def Let_def)
    next
      case limitedOutput
      then show ?thesis using False E room_bounds(2) [OF ok] T1 mc(1) by (simp add: fitted_def seq_space_def Let_def)
    next
      case fillOutput
      then show ?thesis using False sp(2) E room_bounds(2) [OF ok] T1 mc(1)
        by (cases "mc < 15") (auto simp: fitted_def seq_space_def Let_def)
    qed
    moreover have c: "\<not> (?od \<noteq> notLimited \<and> op + 2 + (1 + LASTLITERALS) + ?E > c_olimit C)" using False by simp
    have "fit_match C m T (op + 2) filledIp mc ?e = Some (Some (T, mc, ?e))" unfolding fit_match_def if_not_P [OF c] ..
    ultimately show ?thesis by blast
  next
    case True
    show ?thesis
    proof (cases "?od = fillOutput")
      case False
      then have "fit_match C m T (op + 2) filledIp mc ?e = Some None"
        using True by (simp add: fit_match_def add.assoc)
      moreover have "?od = limitedOutput" using True False by (cases ?od) auto
      ultimately show ?thesis by (simp add: fitted_def)
    next
      case fill: True
      define k where "k = c_olimit C - (op + 2) - 6"
      let ?mc = "14 + 255 * k" let ?e' = "ip + 4 + ?mc"
      have k: "3 \<le> k" "c_olimit C - (op + 2) = k + 6" using sp(2) [OF fill] by (auto simp: k_def)
      note nm = new_match_code [OF k(2,1) _ mc(2)]
      have E': "(?mc + 240) div 255 = k" by simp
      have "\<exists>T'. (if ?e' \<le> filledIp then clear_positions C m T ?e' filledIp else Some T) = Some T'
          \<and> tbl P C m0 (min ?e' (c_mflimitPlusOne C) - c_base C) T'"
      proof (cases "?e' \<le> filledIp")
        case True
        have tf: "tbl P C m (x - c_base C) T' = tbl P C m0 (x - c_base C) T'" if "x \<le> c_mflimitPlusOne C" for x T'
          by (rule tbl_frame [OF ok fr]) (use that in \<open>simp add: c_defs\<close>)
        have "tbl P C m0 (filledIp + 1 - c_base C) T" by (rule tbl_mono [OF T]) (use b(3) True k(1) in auto)
        then have tm: "tbl P C m (filledIp + 1 - c_base C) T" using tf [of "filledIp + 1"] ip(3) by (simp add: c_defs)
        obtain T' where "clear_positions C m T ?e' filledIp = Some T'" "tbl P C m (?e' - c_base C) T'"
          by (rule clear_positions_tbl [OF comp_ok_frame [OF ok fr] _ _ tm fill, of ?e']) (use ip k(1) in auto)
        then show ?thesis using True tf [of ?e'] ip(3) by (auto simp: c_defs min_def)
      next
        case False
        have "tbl P C m0 (min ?e' (c_mflimitPlusOne C) - c_base C) T"
          by (rule tbl_mono [OF T]) (use b(3) bl False k(1) in auto)
        then show ?thesis using False by simp
      qed
      then obtain T' where T': "(if ?e' \<le> filledIp then clear_positions C m T ?e' filledIp else Some T) = Some T'"
          "tbl P C m0 (min ?e' (c_mflimitPlusOne C) - c_base C) T'" by blast
      have cond: "op + 2 + 6 + ?E > c_olimit C" and c: "?od \<noteq> notLimited \<and> op + 2 + (1 + LASTLITERALS) + ?E > c_olimit C"
        using True by simp_all
      have eq: "?e - (mc - ?mc) = ?e'" by simp
      have "fit_match C m T (op + 2) filledIp mc ?e = Some (Some (T', ?mc, ?e'))"
        unfolding fit_match_def if_P [OF c] if_P [OF fill] Let_def nm(1,3) [OF cond] eq T'(1) by simp
      moreover have "fitted P C room m0 ip (op + 2) mc (Some (T', ?mc, ?e'))"
        using fill nm(2) [OF cond] k T'(2) room_bounds(2) [OF ok] E' by (simp add: fitted_def seq_space_def Let_def)
      ultimately show ?thesis by blast
    qed
  qed
qed

section \<open>Testing the next position\<close>

lemma same_test:
  assumes ok: "comp_ok C room m" and e: "c_source C \<le> e" "e + 12 \<le> c_iend C"
    and c: "\<not> outside_valid_area C mi \<Longrightarrow> \<not> too_far C mi cur \<Longrightarrow> cand C e match low d"
  shows "\<exists>same. (if outside_valid_area C mi \<or> too_far C mi cur then Some False
          else do { a \<leftarrow> LZ4_read32 m match; b \<leftarrow> LZ4_read32 m e; Some (a = b) }) = Some same
     \<and> (same \<longrightarrow> cand C e match low d \<and> lz_match (cvm C m) e 4 d)"
proof (cases "outside_valid_area C mi \<or> too_far C mi cur")
  case False
  then have cd: "cand C e match low d" using c by blast
  obtain a b where "LZ4_read32 m match = Some a" "LZ4_read32 m e = Some b" "a = b \<Longrightarrow> lz_match (cvm C m) e 4 d"
    using read32_match [OF ok cd e] by metis
  then show ?thesis using False cd by auto
qed auto

lemma next_match_inv:
  assumes ok: "comp_ok C room m0" and s: "at_seq C room m0 m e op" and e: "e + 12 \<le> c_iend C" "filledIp + 12 \<le> c_iend C"
    and sp: "c_outputDirective C = limitedOutput \<Longrightarrow> op + 6 \<le> c_olimit C"
    and low: "\<not> c_maybe_extMem C \<Longrightarrow> low = c_lo C" and p: "pending P C m0 T e match low off filledIp"
  obtains m' where "store8 m op 0 = Some m'" "comp_inv P C room m0 (AtMatch m' T e e match low off filledIp op (op + 1))"
proof -
  note a = at_seqD [OF s]
  have "(e - c_source C) div 255 \<le> c_inputSize C div 255" using e comp_okD(15) [OF ok] by (intro zdiv_mono1) auto
  then have room: "op + 1 \<le> c_dest C + room" "match_space C e (op + 1)"
    using a(6) sp room_bounds [OF ok] e comp_okD(15) [OF ok]
    by (cases "c_outputDirective C"; force simp: seq_space_def match_space_def)+
  have "valid m op 1"
    using valid_sub [OF comp_okD(9) [OF ok], of op 1] a(2) room(1) by (simp add: frame_valid [OF a(1)])
  then have w: "store8 m op 0 = Some (m(op \<mapsto> 0))" "wrote m (m(op \<mapsto> 0)) op [0] (c_dest C + room)"
    using wrote_store8 [of m op "c_dest C + room" 0] room(1) by auto
  have "at_seq C room m0 (m(op \<mapsto> 0)) e op" by (rule at_seq_frame [OF s]) (use w(2) in \<open>simp add: wrote_def\<close>)
  moreover have "lit_head 0 = [0]" by (simp add: lit_head_def enc_ext_def byte_of_def)
  ultimately have "comp_inv P C room m0 (AtMatch (m(op \<mapsto> 0)) T e e match low off filledIp op (op + 1))"
    using e low p room w(2) by (simp add: wrote_def)
  with w(1) show thesis by (rule that)
qed

lemma test_next_ok:
  assumes ok: "comp_ok C room m0" and P: "\<And>i. P i \<Longrightarrow> old_ok C i" and s: "at_seq C room m0 m e op"
    and e: "c_source C + 4 \<le> e" "filledIp + 12 \<le> c_iend C"
    and sp: "c_outputDirective C = limitedOutput \<Longrightarrow> op + 6 \<le> c_olimit C"
    and low: "\<not> c_maybe_extMem C \<Longrightarrow> low = c_lo C"
    and T: "tbl P C m0 (min e (c_mflimitPlusOne C) - c_base C) T" and k: "2 * nat (c_iend C - e) + 1 < k"
  shows "\<exists>r. test_next C m T e op low off filledIp = Some r \<and> out_ok P C room m0 k r"
proof (cases "e \<ge> c_mflimitPlusOne C")
  case True
  then show ?thesis using s T by (simp add: test_next_def out_ok_def min_def split: if_splits)
next
  case False
  then have e12: "e + 12 \<le> c_iend C" by (simp add: c_defs)
  note fr = at_seqD(1) [OF s]
  let ?tt = "c_tableType C" and ?cur = "e - c_base C"
  have okm: "comp_ok C room m" using comp_ok_frame [OF ok fr] .
  have hm: "LZ4_hashPosition m p ?tt = LZ4_hashPosition m0 p ?tt" if "c_source C \<le> p" "p \<le> e + 1" for p
    using hash_frame [OF ok fr that(1)] that e12 by simp
  obtain h2 where h2: "LZ4_hashPosition m0 (e - 2) ?tt = Some h2" "0 \<le> h2" "h2 < table_size ?tt"
    by (rule hash_ok [OF ok, of "e - 2"]) (use e e12 in auto)
  obtain h where h: "LZ4_hashPosition m0 e ?tt = Some h" "0 \<le> h" "h < table_size ?tt"
    by (rule hash_ok [OF ok, of e]) (use e e12 in auto)
  obtain fh where fh: "LZ4_hashPosition m0 (e + 1) ?tt = Some fh"
    by (rule hash_ok [OF ok, of "e + 1"]) (use e e12 in auto)
  have u: "u32 (e - 2 - c_base C) = e - 2 - c_base C" "u32 ?cur = ?cur"
    using e e12 comp_okD(2,4,5,15) [OF ok] by (simp_all add: c_base_def)
  let ?T1 = "T(h2 := e - 2 - c_base C)"
  have put1: "LZ4_putIndexOnHash (e - 2 - c_base C) h2 T ?tt = Some ?T1"
    by (rule put_ok [OF ok _ _ h2(2,3)]) (use e e12 comp_okD(4) [OF ok] in \<open>auto simp: c_base_def\<close>)
  have T1: "tbl P C m0 ?cur ?T1"
    using T False e comp_okD(4) [OF ok] h2(1) by (intro tbl_put [of P C m0 ?cur]) (auto simp: c_base_def min_def)
  let ?T2 = "?T1(h := ?cur)"
  have put2: "LZ4_putIndexOnHash ?cur h ?T1 ?tt = Some ?T2"
    by (rule put_ok [OF ok _ _ h(2,3)]) (use e e12 comp_okD(4) [OF ok] in \<open>auto simp: c_base_def\<close>)
  have T2: "tbl P C m0 (e + 1 - c_base C) ?T2"
    by (rule tbl_put [OF T1]) (use e comp_okD(4) [OF ok] h(1) in \<open>auto simp: c_base_def\<close>)
  obtain match mi low' where c: "candidate C h (?T1 h) low = Some (match, mi, low')"
      "\<not> outside_valid_area C mi \<Longrightarrow> \<not> too_far C mi ?cur
         \<Longrightarrow> cand C (c_base C + ?cur) match low' (?cur - mi) \<and> 0 \<le> mi \<and> mi < ?cur"
      "\<not> c_maybe_extMem C \<Longrightarrow> low' = c_lo C"
    using candidate_ok [OF ok tblD(1,2) [OF T1 h(2,3)] P [OF tblD(3) [OF T1 h(2,3)]] h(2,3), of low] e low e12
    by (auto simp: c_defs)
  obtain same where same: "(if outside_valid_area C mi \<or> too_far C mi ?cur then Some False
        else do { a \<leftarrow> LZ4_read32 m match; b \<leftarrow> LZ4_read32 m e; Some (a = b) }) = Some same"
      "same \<Longrightarrow> cand C e match low' (?cur - mi) \<and> lz_match (cvm C m) e 4 (?cur - mi)"
    using same_test [OF okm _ e12, of mi ?cur match low' "?cur - mi"] c(2) e by auto
  have g: "LZ4_getIndexOnHash h ?T1 ?tt = Some (?T1 h)" using getIndex_ok [OF comp_okD(6) [OF ok] h(2,3)] .
  note unfold = test_next_def hm h2(1) h(1) fh u put1 put2 g c(1) same(1) Let_def
  show ?thesis
  proof (cases same)
    case True
    note cd = same(2) [OF True]
    have dd: "0 < ?cur - mi" "c_lo C \<le> e - (?cur - mi)" "u32 (?cur - mi) = ?cur - mi" using cd by (auto simp: cand_def)
    have l0: "lz_match (cvm C m0) e 4 (?cur - mi)" using cd lz_match_cvm_frame [OF ok fr dd(2,1), of 4] e12 by simp
    let ?off = "if c_maybe_extMem C then ?cur - mi else off"
    have p: "pending P C m0 ?T2 e match low' ?off filledIp"
      by (rule pendingI [OF _ _ _ _ _ T2, where d = "?cur - mi"]) (use cd l0 in auto)
    obtain m' where m': "store8 m op 0 = Some m'" "comp_inv P C room m0 (AtMatch m' ?T2 e e match low' ?off filledIp op (op + 1))"
      using next_match_inv [OF ok s e12 e(2) sp c(3) p] by metis
    have "test_next C m T e op low off filledIp = Some (Continue (AtMatch m' ?T2 e e match low' ?off filledIp op (op + 1)))"
      using False True e m'(1) dd(3) by (simp add: unfold del: fun_upd_apply)
    then show ?thesis using m'(2) k by (simp add: out_ok_def del: comp_inv.simps)
  next
    case ne: False
    have "test_next C m T e op low off filledIp = Some (Continue (AtSearch m ?T2 e (e + 1) op fh low' off))"
      using False ne e by (simp add: unfold del: fun_upd_apply)
    moreover have "comp_inv P C room m0 (AtSearch m ?T2 e (e + 1) op fh low' off)"
      using s False T2 fh c(3) by (simp add: algebra_simps)
    ultimately show ?thesis using k by (simp add: out_ok_def del: comp_inv.simps)
  qed
qed

section \<open>The step at a match\<close>

lemma bytes_token:
  assumes "0 < n" "m a = Some t" shows "bytes (m(a \<mapsto> x)) a n = x # bytes m (a + 1) (n - 1)"
  using assms(1) bytes_Cons [of n "m(a \<mapsto> x)" a] bytes_cong [of "a + 1" "n - 1" "m(a \<mapsto> x)" m] by simp

lemma offset_bytes:
  assumes "0 < d" "d \<le> 65535"
  shows "[byte_of d, byte_of (d div 256)] = [of_nat (nat d mod 256), of_nat (nat d div 256)]"
proof -
  have "byte_of d = byte_of (d mod 256)" by (rule word_uint_eqI) (simp add: uint_byte_of)
  moreover have "nat d mod 256 = nat (d mod 256)" "nat d div 256 = nat (d div 256)"
    using assms(1) by (simp_all add: nat_mod_distrib nat_div_distrib)
  ultimately show ?thesis using assms by (simp add: byte_of_def)
qed

text \<open>The bytes of the sequence: token and literals from before, then the offset and the length.\<close>

lemma sequence_bytes:
  assumes n: "0 \<le> n" "op = token + 1 + (n + 240) div 255 + n" and mc: "0 \<le> mc" and d: "0 < d" "d \<le> 65535"
    and lits: "length lits = nat n" "bytes m token (op - token) = lit_head n @ lits"
    and w1: "wrote m m1 op [byte_of d, byte_of (d div 256)] hi"
    and t: "m1 token = Some t"
    and w2: "wrote (m1(token \<mapsto> byte_of (uint t + min mc 15))) m2 (op + 2) (enc_ext (nat mc)) hi"
  shows "bytes m2 token (op + 2 + (mc + 240) div 255 - token) = enc_seq (lits, nat d, nat (4 + mc))"
proof -
  let ?b = "byte_of (uint t + min mc 15)" let ?m = "m1(token \<mapsto> ?b)" let ?E = "(mc + 240) div 255"
  have le: "token < op" "0 \<le> ?E" using n mc by auto
  have f1: "bytes m1 token (op - token) = lit_head n @ lits"
    using bytes_frame [of m m1 op hi token "op - token"] w1 lits(2) by (simp add: wrote_def)
  have t0: "t = byte_of (16 * min n 15)"
    using f1 bytes_Cons [of "op - token" m1 token] le t by (simp add: lit_head_def)
  have b: "?b = enc_token (nat n) (nat mc)" using token_match [OF n(1) mc] t0 by simp
  have "bytes ?m token (op - token) = ?b # bytes m1 (token + 1) (op - token - 1)" by (rule bytes_token) (use le t in auto)
  moreover have "bytes m1 (token + 1) (op - token - 1) = enc_ext (nat n) @ lits"
    using f1 bytes_Cons [of "op - token" m1 token] le by (simp add: lit_head_def)
  moreover have "bytes ?m op 2 = bytes m1 op 2" by (rule bytes_cong) (use le in auto)
  moreover have "bytes m1 op 2 = [byte_of d, byte_of (d div 256)]" using w1 by (simp add: wrote_def)
  ultimately have "bytes ?m token (op + 2 - token) = enc_token (nat n) (nat mc) # enc_ext (nat n) @ lits @ [byte_of d, byte_of (d div 256)]"
    using bytes_append [of "op - token" 2 ?m token] le b by (simp add: algebra_simps)
  moreover have "bytes m2 token (op + 2 - token) = bytes ?m token (op + 2 - token)"
    using w2 by (intro bytes_frame [of _ _ "op + 2" hi]) (auto simp: wrote_def)
  moreover have "bytes m2 (op + 2) ?E = enc_ext (nat mc)"
    using w2 mc by (simp add: wrote_def zdiv_int)
  ultimately show ?thesis
    using bytes_append [of "op + 2 - token" ?E m2 token] le offset_bytes [OF d] lits(1) n(1) mc
    by (simp add: algebra_simps nat_add_distrib)
qed

lemma match_step_ok:
  assumes ok: "comp_ok C room m0" and P: "\<And>i. P i \<Longrightarrow> old_ok C i"
    and inv: "comp_inv P C room m0 (AtMatch m T anchor ip match low off filledIp token op)"
  shows "\<exists>r. match_step C m T anchor ip match low off filledIp token op = Some r
     \<and> out_ok P C room m0 (rank C (AtMatch m T anchor ip match low off filledIp token op)) r"
proof -
  let ?hi = "c_dest C + room" let ?od = "c_outputDirective C" and ?n = "ip - anchor"
  from inv have s: "at_seq C room m0 m anchor token" and ip: "anchor \<le> ip" "ip + 12 \<le> c_iend C" "filledIp + 12 \<le> c_iend C"
    and op: "op = token + 1 + (?n + 240) div 255 + ?n" "op \<le> ?hi"
    and lits: "bytes m token (op - token) = lit_head ?n @ bytes m0 anchor ?n"
    and sp: "match_space C ip op" and low: "\<not> c_maybe_extMem C \<Longrightarrow> low = c_lo C" by auto
  from inv obtain d b where d: "cand C ip match low d" "c_maybe_extMem C \<Longrightarrow> off = d" "ip < b" "b \<le> max ip filledIp + 1"
      "lz_match (cvm C m0) ip (b + 3 - ip) d" "tbl P C m0 (b - c_base C) T" by (auto simp: pending_def)
  note a = at_seqD [OF s]
  have dd: "0 < d" "d \<le> 65535" "c_lo C \<le> ip - d" using d(1) by (auto simp: cand_def)
  have bl: "b \<le> c_mflimitPlusOne C" using ip d(4) by (auto simp: c_defs)
  have Tl: "tbl P C m0 (c_mflimitPlusOne C - c_base C) T" by (rule tbl_mono [OF d(6)]) (use bl in simp)
  have tok: "c_dest C \<le> token" "token < op" using a(2) op ip(1) by auto
  show ?thesis
  proof (cases "?od = fillOutput \<and> op + 2 + 1 + MFLIMIT - MINMATCH > c_olimit C")
    case True
    then show ?thesis using s Tl by (simp add: match_step_def out_ok_def)
  next
    case nofull: False
    have fl: "?od = fillOutput \<Longrightarrow> op + 11 \<le> c_olimit C" using nofull by auto
    have "(ip - c_source C) div 255 \<le> c_inputSize C div 255" using ip comp_okD(15) [OF ok] by (intro zdiv_mono1) auto
    then have op2: "op + 2 \<le> ?hi"
      using sp fl room_bounds [OF ok] ip comp_okD(15) [OF ok] by (cases ?od) (auto simp: match_space_def)
    have off: "u16 (if c_maybe_extMem C then off else ip - match) = d"
      using d(1,2) dd by (auto simp: cand_def raddr_def)
    have v: "valid m x (?hi - x)" if "c_dest C \<le> x" for x
      using valid_sub [OF comp_okD(9) [OF ok], of x "?hi - x"] that by (simp add: frame_valid [OF a(1)])
    have "valid m op 2" by (rule valid_sub [OF v [of op]]) (use tok op2 in auto)
    then obtain m1 where m1: "LZ4_writeLE16 m op d = Some m1" "wrote m m1 op [byte_of d, byte_of (d div 256)] ?hi"
      using wrote_fill [of m op "[byte_of d, byte_of (d div 256)]" ?hi] op2 by (auto simp: LZ4_writeLE16_def LZ4_write16_def)
    have fr1: "frame m m1 token ?hi" using m1(2) tok by (auto simp: wrote_def intro: frame_widen)
    have fr01: "frame m0 m1 (c_dest C) ?hi" using a(1) fr1 by (rule frame_join) (use tok in auto)
    have l4: "lz_match (cvm C m0) ip 4 d" using lz_match_mono [OF d(5)] d(3) by simp
    then have "lz_match (cvm C m1) ip 4 d" using lz_match_cvm_frame [OF ok fr01 dd(3,1), of 4] ip by simp
    then obtain mc where mc: "match_length C m1 ip match low = Some (mc, ip + 4 + mc)" "0 \<le> mc" "mc < 2 ^ 31" "longest C m0 ip d (ip + 4 + mc)"
      using match_length_ok [OF comp_ok_frame [OF ok fr01] d(1)] a(4) ip longest_frame [OF ok fr01 dd(3,1)] by auto
    obtain f where f: "fit_match C m1 T (op + 2) filledIp mc (ip + 4 + mc) = Some f" "fitted P C room m0 ip (op + 2) mc f"
      using fit_match_ok [OF ok fr01 _ ip(2,3) mc(2,3,4) dd(1) d(3,4,5,6) sp fl] a(4) ip(1) by auto
    have step: "match_step C m T anchor ip match low off filledIp token op = (case f of None \<Rightarrow> Some (Return0 m1 T)
        | Some (T, matchCode, ip) \<Rightarrow> do { (m, op) \<leftarrow> encode_match_length m1 token (op + 2) matchCode;
            test_next C m T ip op low off filledIp })"
      unfolding match_step_def if_not_P [OF nofull] off m1(1) by (simp add: mc(1) f(1))
    show ?thesis
    proof (cases f)
      case None
      then show ?thesis using f(2) Tl fr01 by (simp add: step out_ok_def fitted_def)
    next
      case (Some g)
      obtain T' mc' e where g: "g = (T', mc', e)" by (cases g)
      let ?op3 = "op + 2 + (mc' + 240) div 255"
      have ft: "e = ip + 4 + mc'" "0 \<le> mc'" "mc' \<le> mc" "tbl P C m0 (min e (c_mflimitPlusOne C) - c_base C) T'"
          "?op3 + 3 \<le> ?hi" "seq_space C e ?op3" "?od = limitedOutput \<Longrightarrow> ?op3 + 6 \<le> c_olimit C"
          "?od = fillOutput \<Longrightarrow> ?op3 + 9 \<le> c_olimit C \<or> 15 \<le> mc' \<and> ?op3 + 6 \<le> c_olimit C"
        using f(2) Some g by (auto simp: fitted_def Let_def)
      have v1: "valid m1 x (?hi - x)" if "c_dest C \<le> x" for x using v [OF that] by (simp add: frame_valid [OF fr1])
      obtain t where t: "m1 token = Some t" using valid_at [OF v1 [OF tok(1)], of token] tok op(2) by auto
      let ?m = "m1(token \<mapsto> byte_of (uint t + min mc' 15))"
      obtain m2 where m2: "encode_match_length m1 token (op + 2) mc' = Some (m2, ?op3)" "wrote ?m m2 (op + 2) (enc_ext (nat mc')) ?hi"
        using encode_match_length_ok [OF v1 t, of "op + 2" mc'] tok ft(2,5) op2 by auto
      have "frame m1 ?m token ?hi" by (rule frame_widen [OF frame_upd [of m1 token]]) (use t tok op(2) in auto)
      then have "frame m1 m2 token ?hi" using m2(2) tok by (auto simp: wrote_def intro: frame_join)
      then have fr2: "frame m m2 token ?hi" using fr1 frame_trans by blast
      have l: "lz_match (cvm C m0) ip (4 + mc') d" "ip + 4 + mc' \<le> c_matchlimit C"
        using mc(4) ft(3) by (auto simp: longest_def algebra_simps elim: lz_match_mono)
      have "bytes m2 token (?op3 - token) = enc_seq (bytes m0 anchor ?n, nat d, nat (4 + mc'))"
        by (rule sequence_bytes [OF _ op(1) ft(2) dd(1,2) _ lits m1(2) t m2(2)]) (use ip in auto)
      then have s2: "at_seq C room m0 m2 e ?op3"
        unfolding ft(1) using tok ft(1,2,5,6,8)
        by (intro at_seq_step [OF ok s ip(1,2) dd ft(2) l(2,1) fr2]) auto
      have "\<exists>r. test_next C m2 T' e ?op3 low off filledIp = Some r
          \<and> out_ok P C room m0 (rank C (AtMatch m T anchor ip match low off filledIp token op)) r"
        by (rule test_next_ok [OF ok P s2 _ ip(3) ft(7) low ft(4)]) (use ft(1,2) a(4) ip l(2) in \<open>auto simp: c_defs\<close>)
      then show ?thesis using Some g m2(1) by (simp add: step)
    qed
  qed
qed

section \<open>The loop\<close>

lemma comp_loop_ok:
  assumes ok: "comp_ok C room m0" and P: "\<And>i. P i \<Longrightarrow> old_ok C i" and inv: "comp_inv P C room m0 s"
  shows "\<exists>r. comp_loop C s = Some r \<and> (\<forall>s. r \<noteq> Continue s) \<and> out_ok P C room m0 (rank C s) r"
  using inv
proof (induction "rank C s" arbitrary: s rule: less_induct)
  case less
  obtain r where r: "comp_step C s = Some r" "out_ok P C room m0 (rank C s) r"
    using search_step_ok [OF ok P] match_step_ok [OF ok P] less.prems by (cases s) (metis comp_step.simps)+
  show ?case
  proof (cases r)
    case (Continue s')
    then have s': "comp_inv P C room m0 s'" "rank C s' < rank C s" using r(2) by (auto simp: out_ok_def)
    from less.hyps [OF s'(2,1)] obtain r' where "comp_loop C s' = Some r'" "\<forall>s. r' \<noteq> Continue s" "out_ok P C room m0 (rank C s') r'"
      by blast
    then show ?thesis using r(1) Continue by (subst comp_loop.simps) (auto simp: out_ok_def split: comp_out.splits)
  next
    case (LastLiterals m T anchor op)
    then show ?thesis using r by (subst comp_loop.simps) auto
  next
    case (Return0 m T)
    then show ?thesis using r by (subst comp_loop.simps) auto
  qed
qed

section \<open>The end of the block\<close>

lemma fill_run_fits:
  assumes "0 \<le> r"
  shows "0 \<le> fill_run r" "(fill_run r + 240) div 255 + fill_run r \<le> r"
    "r < R + (R + 240) div 255 \<Longrightarrow> 0 \<le> R \<Longrightarrow> fill_run r \<le> R"
proof -
  let ?q = "(r + 241) div 256"
  have q: "256 * ?q \<le> r + 241" "r + 241 < 256 * ?q + 256" by linarith+
  show n: "0 \<le> fill_run r" using q assms unfolding fill_run_def by linarith
  have "r - x + 240 < 255 * (x + 1)" if "r + 241 < 256 * x + 256" for x using that by simp
  from this [OF q(2)] have "fill_run r + 240 < 255 * (?q + 1)" unfolding fill_run_def .
  then have "(fill_run r + 240) div 255 < ?q + 1" by (simp add: div_less_iff_less_mult)
  then show "(fill_run r + 240) div 255 + fill_run r \<le> r" unfolding fill_run_def by linarith
  then show "fill_run r \<le> R" if "r < R + (R + 240) div 255" "0 \<le> R"
    using that zdiv_mono1 [of "R + 240" "fill_run r + 240" 255] by linarith
qed

lemma last_run_ok:
  assumes ok: "comp_ok C room m0" and s: "at_seq C room m0 m anchor op"
  shows "case last_run C anchor op of None \<Rightarrow> c_outputDirective C = limitedOutput
    | Some n \<Rightarrow> 0 \<le> n \<and> anchor + n \<le> c_iend C \<and> op + 1 + (n + 240) div 255 + n \<le> c_dest C + room
        \<and> (c_outputDirective C \<noteq> fillOutput \<longrightarrow> anchor + n = c_iend C)
        \<and> (\<exists>sqs. encodes C m0 m anchor op sqs \<and> seqs_fit (anchor - c_lo C + n) (chist C m0 (c_source C)) sqs)"
proof -
  let ?od = "c_outputDirective C" and ?R = "c_iend C - anchor"
  note a = at_seqD [OF s]
  obtain sqs where sqs: "encodes C m0 m anchor op sqs" using s by (auto simp: at_seq_def)
  have fit: "seqs_fit (anchor - c_lo C + ?R) (chist C m0 (c_source C)) sqs" using sqs by (simp add: encodes_def Let_def)
  show ?thesis
  proof (cases "?od \<noteq> notLimited \<and> op + ?R + 1 + (?R + 255 - RUN_MASK) div 255 > c_olimit C")
    case False
    have "op + 1 + (?R + 240) div 255 + ?R \<le> c_dest C + room"
    proof (cases "?od = notLimited")
      case True
      have "(anchor - c_source C) div 255 + ?R div 255 \<le> c_inputSize C div 255" "(?R + 240) div 255 \<le> ?R div 255 + 1"
        using div255_add [of "anchor - c_source C" ?R] a comp_okD(15) [OF ok] by auto
      then show ?thesis using True a(6) room_bounds(1) [OF ok True] comp_okD(15) [OF ok] by (simp add: seq_space_def)
    next
      case lim: False
      then show ?thesis using False room_bounds(2) [OF ok lim] by (simp add: algebra_simps)
    qed
    then show ?thesis using False a(5) sqs fit unfolding last_run_def Let_def by (simp only: if_False option.case) auto
  next
    case True
    show ?thesis
    proof (cases "?od = fillOutput")
      case False
      then show ?thesis using True by (cases ?od) (auto simp: last_run_def Let_def)
    next
      case fill: True
      let ?r = "c_olimit C - op - 1"
      have r: "0 \<le> ?r" "?r < 18446744073709551616" using a(2,6) fill ok by (auto simp: seq_space_def comp_ok_def c_olimit_def)
      have lr: "last_run C anchor op = Some (fill_run ?r)"
        using True fill r by (simp add: last_run_def fill_run_def algebra_simps)
      have "fill_run ?r \<le> ?R" by (rule fill_run_fits(3) [OF r(1)]) (use True a(5) in \<open>auto simp: algebra_simps\<close>)
      moreover have "op + 1 + (fill_run ?r + 240) div 255 + fill_run ?r \<le> c_dest C + room"
        using fill_run_fits(2) [OF r(1)] room_bounds(2) [OF ok] fill by simp
      moreover have "seqs_fit (anchor - c_lo C + fill_run ?r) (chist C m0 (c_source C)) sqs"
        using sqs fill by (simp add: encodes_def Let_def)
      ultimately show ?thesis using lr fill_run_fits(1) [OF r(1)] sqs fill by auto
    qed
  qed
qed

text \<open>What a successful compression promises of the block at \<open>dst\<close>: the reference decoder turns it into
  the text, and every conforming decoder accepts it.\<close>

definition encoded :: "byte list \<Rightarrow> byte list \<Rightarrow> mem \<Rightarrow> addr \<Rightarrow> int \<Rightarrow> bool" where
  "encoded D txt m dst r \<longleftrightarrow> decode_block D (bytes m dst r) = Some (D @ txt)
     \<and> conforming (Some (int (length D + length txt))) D (bytes m dst r) \<and> nonzero_offsets (bytes m dst r)"

definition finished :: "comp_env \<Rightarrow> int \<Rightarrow> mem \<Rightarrow> int \<Rightarrow> int option \<Rightarrow> mem \<Rightarrow> bool" where
  "finished C room m0 r consumed m' \<longleftrightarrow>
     frame m0 m' (c_dest C) (c_dest C + room) \<and> 0 \<le> r \<and> r \<le> room \<and>
     (c_outputDirective C \<noteq> limitedOutput \<longrightarrow> 0 < r) \<and> (c_outputDirective C \<noteq> fillOutput \<longrightarrow> consumed = None) \<and>
     (0 < r \<longrightarrow> (\<exists>k. 0 \<le> k \<and> k \<le> c_inputSize C \<and>
        (if c_outputDirective C = fillOutput then consumed = Some k else k = c_inputSize C) \<and>
        encoded (chist C m0 (c_source C)) (bytes m0 (c_source C) k) m' (c_dest C) r))"

lemma comp_finish_last:
  assumes ok: "comp_ok C room m0" and s: "at_seq C room m0 m anchor op"
  shows "\<exists>r c m'. comp_finish C cctx (LastLiterals m T anchor op) = Some (r, c, cctx\<lparr>s_hashTable := T\<rparr>, m')
     \<and> finished C room m0 r c m'"
proof (cases "last_run C anchor op")
  case None
  then have "c_outputDirective C = limitedOutput" using last_run_ok [OF ok s] by simp
  then show ?thesis using None at_seqD(1) [OF s] comp_okD(10) [OF ok] by (simp add: comp_finish_def finished_def)
next
  case (Some n)
  let ?D = "chist C m0 (c_source C)" and ?lits = "bytes m0 anchor n" and ?op = "op + 1 + (n + 240) div 255 + n"
  let ?k = "anchor + n - c_source C"
  note a = at_seqD [OF s]
  obtain sqs where n: "0 \<le> n" "anchor + n \<le> c_iend C" "?op \<le> c_dest C + room" "c_outputDirective C \<noteq> fillOutput \<Longrightarrow> anchor + n = c_iend C"
      and sqs: "encodes C m0 m anchor op sqs" "seqs_fit (anchor - c_lo C + n) ?D sqs"
    using last_run_ok [OF ok s] Some by auto
  have e: "seqs_ok ?D sqs" "expand ?D sqs = chist C m0 anchor" "bytes m (c_dest C) (op - c_dest C) = concat (map enc_seq sqs)"
    using sqs(1) by (auto simp: encodes_def Let_def)
  obtain m' where m': "encode_last_literals m anchor op n = Some (m', anchor + n, ?op)"
      "wrote m m' op (enc_last (bytes m anchor n)) (c_dest C + room)"
    using encode_last_ok [OF comp_ok_frame [OF ok a(1)] a(4) n(1,2) a(2) n(3)] by auto
  have lits: "bytes m anchor n = ?lits" by (rule bytes_cong, rule source_frame [OF ok a(1)]) (use a n in auto)
  have len: "int (length (enc_last ?lits)) = ?op - op" using n(1) by (simp add: length_enc_last zdiv_int)
  have "bytes m' (c_dest C) (op - c_dest C) = concat (map enc_seq sqs)"
    using bytes_frame [of m m' op "c_dest C + room" "c_dest C" "op - c_dest C"] m'(2) e(3) by (simp add: wrote_def)
  moreover have "bytes m' op (?op - op) = enc_last ?lits" using m'(2) lits len by (simp add: wrote_def)
  ultimately have b: "bytes m' (c_dest C) (?op - c_dest C) = enc_block sqs ?lits"
    using bytes_append [of "op - c_dest C" "?op - op" m' "c_dest C"] a(2) n(1) by (simp add: enc_block_def algebra_simps)
  have h: "chist C m0 anchor @ ?lits = ?D @ bytes m0 (c_source C) ?k"
    using chist_append [OF ok a(4) n(1)] chist_append [OF ok order_refl, of ?k] a(4) n(1) by simp
  have hl: "int (length (expand ?D sqs @ ?lits)) = anchor - c_lo C + n"
    using e(2) a(4) n(1) comp_okD(14) [OF ok] by simp
  have "5 \<le> length ?lits" if "sqs \<noteq> []"
    using seqs_fit_nonempty [OF sqs(2) that] hl n(1) by (simp add: le_nat_iff)
  then have cf: "conforming (Some (anchor - c_lo C + n)) ?D (enc_block sqs ?lits) \<and> nonzero_offsets (enc_block sqs ?lits)"
    using hl by (intro enc_block_conforming [OF e(1) sqs(2)]) auto
  have "encoded ?D (bytes m0 (c_source C) ?k) m' (c_dest C) (?op - c_dest C)"
    using decode_enc_block_hist [OF e(1), of ?lits] e(2) h cf comp_okD(14) [OF ok] a(4) n(1)
    by (simp add: encoded_def b diff_add_eq)
  moreover have "frame m0 m' (c_dest C) (c_dest C + room)"
    using a(1) m'(2) a(2) by (auto simp: wrote_def intro: frame_join)
  moreover have "0 < ?op - c_dest C" using a(2) n(1) pos_imp_zdiv_nonneg_iff [of 255 "n + 240"] by linarith
  ultimately have "finished C room m0 (?op - c_dest C) (if c_outputDirective C = fillOutput then Some ?k else None) m'"
    using n a(4) comp_okD(15) [OF ok] unfolding finished_def by (auto intro!: exI [of _ ?k])
  then show ?thesis using Some m'(1) by (simp add: comp_finish_def)
qed

section \<open>\<open>LZ4_compress_generic_validated\<close>\<close>

text \<open>The stream after a call, but for its table.\<close>

definition advance :: "LZ4_stream_t \<Rightarrow> int \<Rightarrow> tableType_t \<Rightarrow> dict_directive \<Rightarrow> LZ4_stream_t" where
  "advance cctx inputSize tableType dictDirective =
     (if dictDirective = usingDictCtx then cctx\<lparr>s_dictCtx := None, s_dictSize := u32 inputSize\<rparr>
      else cctx\<lparr>s_dictSize := u32 (s_dictSize cctx + u32 inputSize)\<rparr>)
     \<lparr>s_currentOffset := u32 (s_currentOffset cctx + u32 inputSize), s_tableType := tableType\<rparr>"

lemma comp_env_of_simps:
  assumes "comp_env_of cctx source dest n osz od tt dd di acc = Some C"
  shows "c_source C = source" "c_dest C = dest" "c_inputSize C = n" "c_maxOutputSize C = osz" "c_outputDirective C = od"
    "c_tableType C = tt" "c_dictDirective C = dd" "c_dictIssue C = di" "c_acceleration C = acc" "c_startIndex C = s_currentOffset cctx"
  using assms by (auto simp: comp_env_of_def Let_def split: if_splits)

theorem compress_validated_ok:
  assumes C: "comp_env_of cctx source dest n osz od tt dd di acc = Some C" and ok: "comp_ok C room m"
    and P: "\<And>i. P i \<Longrightarrow> old_ok C i" and T: "tbl P C m (c_startIndex C + 1) (s_hashTable cctx)"
  shows "\<exists>r c T' m'. LZ4_compress_generic_validated cctx m source dest n osz od tt dd di acc
       = Some (r, c, (advance cctx n tt dd)\<lparr>s_hashTable := T'\<rparr>, m') \<and> finished C room m r c m'
     \<and> (if n < 13 then T' = s_hashTable cctx else tbl P C m (c_startIndex C + n - 11) T')"
proof -
  note f = comp_env_of_simps [OF C]
  let ?T = "s_hashTable cctx" and ?lo = "source - (if dd = withPrefix64k then c_dictSize C else 0)"
  have full: "\<not> (od = fillOutput \<and> osz < 1)" using comp_ok_fill(3) [OF ok] f by auto
  have s0: "at_seq C room m m source dest"
  proof -
    have "encodes C m m source dest []" using f comp_okD(14,15) [OF ok] by (simp add: encodes_def Let_def)
    then show ?thesis using f full comp_okD(2,10,15) [OF ok]
      by (cases od) (auto simp: at_seq_def seq_space_def c_olimit_def)
  qed
  note unfold = LZ4_compress_generic_validated_def C advance_def [of cctx n tt dd, symmetric]
  show ?thesis
  proof (cases "n < 13")
    case True
    obtain r c m' where "comp_finish C (advance cctx n tt dd) (LastLiterals m ?T source dest)
        = Some (r, c, (advance cctx n tt dd)\<lparr>s_hashTable := ?T\<rparr>, m')" "finished C room m r c m'"
      using comp_finish_last [OF ok s0] by blast
    then show ?thesis using True full by (auto simp: unfold Let_def)
  next
    case False
    obtain h where h: "LZ4_hashPosition m source tt = Some h" "0 \<le> h" "h < table_size tt"
      by (rule hash_ok [OF ok, of source]) (use f False comp_okD(15) [OF ok] in auto)
    obtain fh where fh: "LZ4_hashPosition m (source + 1) tt = Some fh"
      by (rule hash_ok [OF ok, of "source + 1"]) (use f False comp_okD(15) [OF ok] in auto)
    let ?T1 = "?T(h := c_startIndex C)"
    have put: "LZ4_putIndexOnHash (c_startIndex C) h ?T tt = Some ?T1"
      using put_ok [OF ok, of "c_startIndex C" h ?T] f h False comp_okD(4,15) [OF ok] by (simp add: c_base_def)
    have T1: "tbl P C m (source + 1 - c_base C) ?T1"
      using f h(1) comp_okD(4) [OF ok] by (intro tbl_put [OF T]) (auto simp: c_base_def)
    have "\<not> c_maybe_extMem C \<longrightarrow> ?lo = c_lo C"
      using f comp_ok_noDict [OF ok] by (cases dd) (auto simp: c_maybe_extMem_def c_lo_def)
    then have "comp_inv P C room m (AtSearch m ?T1 source (source + 1) dest fh ?lo 0)"
      using s0 T1 fh f False comp_okD(15) [OF ok] by (simp add: c_mflimitPlusOne_def)
    then obtain r where r: "comp_loop C (AtSearch m ?T1 source (source + 1) dest fh ?lo 0) = Some r" "\<forall>s. r \<noteq> Continue s"
        "out_ok P C room m (rank C (AtSearch m ?T1 source (source + 1) dest fh ?lo 0)) r"
      using comp_loop_ok [OF ok P] by blast
    have bound: "c_mflimitPlusOne C - c_base C = c_startIndex C + n - 11" using f by (simp add: c_defs)
    have run: "LZ4_compress_generic_validated cctx m source dest n osz od tt dd di acc = comp_finish C (advance cctx n tt dd) r"
      using False full h(1) put fh r(1) by (auto simp: unfold Let_def)
    show ?thesis
    proof (cases r)
      case (LastLiterals m1 T' anchor op)
      then have l: "at_seq C room m m1 anchor op" "tbl P C m (c_startIndex C + n - 11) T'"
        using r(3) by (auto simp: out_ok_def bound)
      then show ?thesis using False run LastLiterals comp_finish_last [OF ok l(1), of "advance cctx n tt dd" T'] by auto
    next
      case (Return0 m1 T')
      then show ?thesis using r(3) run False comp_okD(10) [OF ok]
        by (auto simp: comp_finish_def out_ok_def finished_def bound)
    qed (use r(2) in auto)
  qed
qed

end
