(* ===== verification/LZ4_CompAPI.thy ===== *)
theory LZ4_CompAPI
  imports LZ4_CompLoop LZ4_DecAPI
begin

text \<open>
  The one-shot compression functions of lz4.c: the state they work on, its initialisation and its
  reuse, and what each of them promises of the block it writes.
\<close>

section \<open>Bounds and states\<close>

definition LZ4_ACCELERATION_DEFAULT :: int where [simp]: "LZ4_ACCELERATION_DEFAULT = 1"
definition LZ4_ACCELERATION_MAX :: int where [simp]: "LZ4_ACCELERATION_MAX = 65537"
definition sizeof_LZ4_stream_t :: int where [simp]: "sizeof_LZ4_stream_t = 2 ^ 14 + 32"

definition LZ4_compressBound :: "int \<Rightarrow> int" where
  "LZ4_compressBound isize = (if u32 isize > u32 LZ4_MAX_INPUT_SIZE then 0 else isize + isize div 255 + 16)"

text \<open>\<open>MEM_INIT(state, 0, sizeof(LZ4_stream_t_internal))\<close>.\<close>

definition zeroed_stream :: LZ4_stream_t where
  "zeroed_stream = \<lparr>s_hashTable = (\<lambda>h. 0), s_dictionary = 0, s_currentOffset = 0, s_tableType = clearedTable,
     s_dictSize = 0, s_dictCtx = None\<rparr>"

text \<open>\<open>None\<close> is the buffer \<open>NULL\<close>, and the result \<open>NULL\<close>.\<close>

definition LZ4_initStream :: "LZ4_stream_t option \<Rightarrow> int \<Rightarrow> LZ4_stream_t option" where
  "LZ4_initStream buffer sz =
     (if buffer = None then None else if sz < sizeof_LZ4_stream_t then None else Some zeroed_stream)"

definition LZ4_resetStream :: "LZ4_stream_t \<Rightarrow> LZ4_stream_t" where
  "LZ4_resetStream s = zeroed_stream"

definition LZ4_prepareTable :: "LZ4_stream_t \<Rightarrow> int \<Rightarrow> tableType_t \<Rightarrow> LZ4_stream_t" where
  "LZ4_prepareTable cctx inputSize tableType =
     (let cctx1 =
        (if s_tableType cctx \<noteq> clearedTable
            \<and> (s_tableType cctx \<noteq> tableType
               \<or> tableType = byU16 \<and> u32 (s_currentOffset cctx + u32 inputSize) \<ge> 0xFFFF
               \<or> tableType = byU32 \<and> s_currentOffset cctx > 2 ^ 30
               \<or> tableType = byPtr
               \<or> inputSize \<ge> 4096)
         then cctx\<lparr>s_hashTable := \<lambda>h. 0, s_currentOffset := 0, s_tableType := clearedTable\<rparr>
         else cctx);
       cctx2 =
        (if s_currentOffset cctx1 \<noteq> 0 \<and> tableType = byU32
         then cctx1\<lparr>s_currentOffset := u32 (s_currentOffset cctx1 + 65536)\<rparr>
         else cctx1) in
      cctx2\<lparr>s_dictCtx := None, s_dictionary := 0, s_dictSize := 0\<rparr>)"

definition LZ4_resetStream_fast :: "LZ4_stream_t \<Rightarrow> LZ4_stream_t" where
  "LZ4_resetStream_fast ctx = LZ4_prepareTable ctx 0 byU32"

section \<open>One-shot compression\<close>

definition clamp_acceleration :: "int \<Rightarrow> int" where
  "clamp_acceleration acceleration =
     (let acceleration = (if acceleration < 1 then LZ4_ACCELERATION_DEFAULT else acceleration) in
      if acceleration > LZ4_ACCELERATION_MAX then LZ4_ACCELERATION_MAX else acceleration)"

text \<open>The result of a function without \<open>inputConsumed\<close>.\<close>

definition drop_consumed :: "comp_result option \<Rightarrow> (int \<times> LZ4_stream_t \<times> mem) option" where
  "drop_consumed r = map_option (\<lambda>(r, _, s, m). (r, s, m)) r"

definition LZ4_compress_fast_extState ::
  "LZ4_stream_t \<Rightarrow> mem \<Rightarrow> addr \<Rightarrow> addr \<Rightarrow> int \<Rightarrow> int \<Rightarrow> int \<Rightarrow> (int \<times> LZ4_stream_t \<times> mem) option" where
  "LZ4_compress_fast_extState state m source dest inputSize maxOutputSize acceleration = do {
     ctx \<leftarrow> LZ4_initStream (Some state) sizeof_LZ4_stream_t;
     let acceleration = clamp_acceleration acceleration in
     drop_consumed
      (if maxOutputSize \<ge> LZ4_compressBound inputSize then
         if inputSize < LZ4_64Klimit
         then LZ4_compress_generic ctx m source dest inputSize 0 notLimited byU16 noDict noDictIssue acceleration
         else LZ4_compress_generic ctx m source dest inputSize 0 notLimited byU32 noDict noDictIssue acceleration
       else
         if inputSize < LZ4_64Klimit
         then LZ4_compress_generic ctx m source dest inputSize maxOutputSize limitedOutput byU16 noDict noDictIssue acceleration
         else LZ4_compress_generic ctx m source dest inputSize maxOutputSize limitedOutput byU32 noDict noDictIssue acceleration) }"

definition LZ4_compress_fast_extState_fastReset ::
  "LZ4_stream_t \<Rightarrow> mem \<Rightarrow> addr \<Rightarrow> addr \<Rightarrow> int \<Rightarrow> int \<Rightarrow> int \<Rightarrow> (int \<times> LZ4_stream_t \<times> mem) option" where
  "LZ4_compress_fast_extState_fastReset ctx m src dst srcSize dstCapacity acceleration =
     (let acceleration = clamp_acceleration acceleration in
      drop_consumed
       (if dstCapacity \<ge> LZ4_compressBound srcSize then
          if srcSize < LZ4_64Klimit then
            let ctx = LZ4_prepareTable ctx srcSize byU16 in
            if s_currentOffset ctx \<noteq> 0
            then LZ4_compress_generic ctx m src dst srcSize 0 notLimited byU16 noDict dictSmall acceleration
            else LZ4_compress_generic ctx m src dst srcSize 0 notLimited byU16 noDict noDictIssue acceleration
          else
            let ctx = LZ4_prepareTable ctx srcSize byU32 in
            LZ4_compress_generic ctx m src dst srcSize 0 notLimited byU32 noDict noDictIssue acceleration
        else
          if srcSize < LZ4_64Klimit then
            let ctx = LZ4_prepareTable ctx srcSize byU16 in
            if s_currentOffset ctx \<noteq> 0
            then LZ4_compress_generic ctx m src dst srcSize dstCapacity limitedOutput byU16 noDict dictSmall acceleration
            else LZ4_compress_generic ctx m src dst srcSize dstCapacity limitedOutput byU16 noDict noDictIssue acceleration
          else
            let ctx = LZ4_prepareTable ctx srcSize byU32 in
            LZ4_compress_generic ctx m src dst srcSize dstCapacity limitedOutput byU32 noDict noDictIssue acceleration))"

text \<open>\<open>ctx\<close> is the indeterminate content of the automatic variable of that name.\<close>

definition LZ4_compress_fast :: "LZ4_stream_t \<Rightarrow> mem \<Rightarrow> addr \<Rightarrow> addr \<Rightarrow> int \<Rightarrow> int \<Rightarrow> int \<Rightarrow> (int \<times> mem) option" where
  "LZ4_compress_fast ctx m src dest srcSize dstCapacity acceleration = do {
     (result, ctx, m) \<leftarrow> LZ4_compress_fast_extState ctx m src dest srcSize dstCapacity acceleration;
     Some (result, m) }"

definition LZ4_compress_default :: "LZ4_stream_t \<Rightarrow> mem \<Rightarrow> addr \<Rightarrow> addr \<Rightarrow> int \<Rightarrow> int \<Rightarrow> (int \<times> mem) option" where
  "LZ4_compress_default ctx m src dst srcSize dstCapacity = LZ4_compress_fast ctx m src dst srcSize dstCapacity 1"

text \<open>The functions with a \<open>srcSizePtr\<close> take the value \<open>srcSize\<close> it points to, and return the value it
  points to afterwards.\<close>

definition LZ4_compress_destSize_extState_internal ::
  "LZ4_stream_t \<Rightarrow> mem \<Rightarrow> addr \<Rightarrow> addr \<Rightarrow> int \<Rightarrow> int \<Rightarrow> int \<Rightarrow> (int \<times> int \<times> LZ4_stream_t \<times> mem) option" where
  "LZ4_compress_destSize_extState_internal state m src dst srcSize targetDstSize acceleration = do {
     state \<leftarrow> LZ4_initStream (Some state) sizeof_LZ4_stream_t;
     if targetDstSize \<ge> LZ4_compressBound srcSize then do {
       (r, state, m) \<leftarrow> LZ4_compress_fast_extState state m src dst srcSize targetDstSize acceleration;
       Some (r, srcSize, state, m) }
     else do {
       (r, consumed, state, m) \<leftarrow>
         (if srcSize < LZ4_64Klimit
          then LZ4_compress_generic state m src dst srcSize targetDstSize fillOutput byU16 noDict noDictIssue acceleration
          else LZ4_compress_generic state m src dst srcSize targetDstSize fillOutput byU32 noDict noDictIssue acceleration);
       Some (r, (case consumed of None \<Rightarrow> srcSize | Some k \<Rightarrow> k), state, m) } }"

definition LZ4_compress_destSize_extState ::
  "LZ4_stream_t \<Rightarrow> mem \<Rightarrow> addr \<Rightarrow> addr \<Rightarrow> int \<Rightarrow> int \<Rightarrow> int \<Rightarrow> (int \<times> int \<times> LZ4_stream_t \<times> mem) option" where
  "LZ4_compress_destSize_extState state m src dst srcSize targetDstSize acceleration = do {
     (r, srcSize, state, m) \<leftarrow> LZ4_compress_destSize_extState_internal state m src dst srcSize targetDstSize acceleration;
     state \<leftarrow> LZ4_initStream (Some state) sizeof_LZ4_stream_t;
     Some (r, srcSize, state, m) }"

definition LZ4_compress_destSize ::
  "LZ4_stream_t \<Rightarrow> mem \<Rightarrow> addr \<Rightarrow> addr \<Rightarrow> int \<Rightarrow> int \<Rightarrow> (int \<times> int \<times> mem) option" where
  "LZ4_compress_destSize ctx m src dst srcSize targetDstSize = do {
     (result, srcSize, ctx, m) \<leftarrow> LZ4_compress_destSize_extState_internal ctx m src dst srcSize targetDstSize 1;
     Some (result, srcSize, m) }"

text \<open>Obsolete names.\<close>

definition LZ4_compress_limitedOutput :: "LZ4_stream_t \<Rightarrow> mem \<Rightarrow> addr \<Rightarrow> addr \<Rightarrow> int \<Rightarrow> int \<Rightarrow> (int \<times> mem) option" where
  "LZ4_compress_limitedOutput ctx m source dest inputSize maxOutputSize =
     LZ4_compress_default ctx m source dest inputSize maxOutputSize"

definition LZ4_compress :: "LZ4_stream_t \<Rightarrow> mem \<Rightarrow> addr \<Rightarrow> addr \<Rightarrow> int \<Rightarrow> (int \<times> mem) option" where
  "LZ4_compress ctx m src dest srcSize = LZ4_compress_default ctx m src dest srcSize (LZ4_compressBound srcSize)"

definition LZ4_compress_limitedOutput_withState ::
  "LZ4_stream_t \<Rightarrow> mem \<Rightarrow> addr \<Rightarrow> addr \<Rightarrow> int \<Rightarrow> int \<Rightarrow> (int \<times> LZ4_stream_t \<times> mem) option" where
  "LZ4_compress_limitedOutput_withState state m src dst srcSize dstSize =
     LZ4_compress_fast_extState state m src dst srcSize dstSize 1"

definition LZ4_compress_withState :: "LZ4_stream_t \<Rightarrow> mem \<Rightarrow> addr \<Rightarrow> addr \<Rightarrow> int \<Rightarrow> (int \<times> LZ4_stream_t \<times> mem) option" where
  "LZ4_compress_withState state m src dst srcSize =
     LZ4_compress_fast_extState state m src dst srcSize (LZ4_compressBound srcSize) 1"

section \<open>The block of one call\<close>

text \<open>Whatever the result, only the output buffer changes; a positive result is the size of a block that
  decodes to \<open>txt\<close> with the history \<open>D\<close>, for every decoder that respects the format.\<close>

definition block_written :: "byte list \<Rightarrow> byte list \<Rightarrow> mem \<Rightarrow> addr \<Rightarrow> int \<Rightarrow> int \<Rightarrow> mem \<Rightarrow> bool" where
  "block_written D txt m dst room r m' \<longleftrightarrow>
     frame m m' dst (dst + room) \<and> 0 \<le> r \<and> r \<le> room \<and> (0 < r \<longrightarrow> encoded D txt m' dst r)"

lemma compressBound_eq: "0 \<le> n \<Longrightarrow> n \<le> LZ4_MAX_INPUT_SIZE \<Longrightarrow> LZ4_compressBound n = compressBound n"
  by (simp add: LZ4_compressBound_def compressBound_def)

lemma compressBound_pos: "0 \<le> n \<Longrightarrow> 0 < compressBound n"
  using pos_imp_zdiv_nonneg_iff [of 255 n] by (simp add: compressBound_def)

lemma clamp_bounds: "1 \<le> clamp_acceleration a" "clamp_acceleration a \<le> 65537"
  by (simp_all add: clamp_acceleration_def)

lemma encoded_empty: "bytes m dst 1 = [0] \<Longrightarrow> encoded D [] m dst 1"
  by (simp add: encoded_def decode_block_unfold conforming_unfold nonzero_offsets.simps [of "[0]"] get_length_def parse_literals_def)

lemma empty_block:
  assumes "valid m dst room" "1 \<le> room"
  shows "store8 m dst 0 = Some (m(dst \<mapsto> 0))" "block_written D [] m dst room 1 (m(dst \<mapsto> 0))"
proof -
  have d: "m dst \<noteq> None" using valid_at [OF assms(1), of dst] assms(2) by auto
  show "store8 m dst 0 = Some (m(dst \<mapsto> 0))" using d by (rule store8_Some)
  have "bytes (m(dst \<mapsto> 0)) dst 1 = [0]" by (simp add: bytes_Cons)
  then show "block_written D [] m dst room 1 (m(dst \<mapsto> 0))"
    using frame_widen [OF frame_upd [of m dst 0], of dst "dst + room"] d assms(2) encoded_empty
    by (simp add: block_written_def)
qed

text \<open>Compression without history, on a table whose entries the search cannot take for positions.\<close>

definition blank_table :: "tableType_t \<Rightarrow> LZ4_stream_t \<Rightarrow> bool" where
  "blank_table tt s \<longleftrightarrow> (\<forall>h. 0 \<le> h \<and> h < table_size tt \<longrightarrow> s_hashTable s h = 0)"

definition old_table :: "tableType_t \<Rightarrow> LZ4_stream_t \<Rightarrow> bool" where
  "old_table tt s \<longleftrightarrow> (\<forall>h. 0 \<le> h \<and> h < table_size tt \<longrightarrow>
     0 \<le> s_hashTable s h \<and> (s_hashTable s h = 0 \<or> s_hashTable s h < s_currentOffset s))"

lemma blank_old: "blank_table tt s \<Longrightarrow> old_table tt s"
  by (simp add: blank_table_def old_table_def)

text \<open>How the state of a call without history may be prepared.\<close>

definition start_ok :: "LZ4_stream_t \<Rightarrow> int \<Rightarrow> limitedOutput_directive \<Rightarrow> tableType_t \<Rightarrow> dictIssue_directive \<Rightarrow> bool" where
  "start_ok s n od tt di \<longleftrightarrow> s_dictSize s = 0 \<and> 0 \<le> s_currentOffset s \<and> s_currentOffset s + n \<le> 2 ^ 31 \<and>
     indexed tt \<and> (tt = byU16 \<longrightarrow> s_currentOffset s + n < 65547) \<and>
     (if s_currentOffset s = 0 then blank_table tt s else od \<noteq> fillOutput \<and> di = dictSmall \<and> old_table tt s)"

lemma generic_noDict_ok:
  assumes io: "io_ok m src dst n room" and n: "n \<le> LZ4_MAX_INPUT_SIZE" and acc: "1 \<le> acc" and s: "start_ok s n od tt di"
    and unlim: "od = notLimited \<Longrightarrow> compressBound n \<le> room" and lim: "od \<noteq> notLimited \<Longrightarrow> room = max 0 osz"
  shows "\<exists>r c s' m'. LZ4_compress_generic s m src dst n osz od tt noDict di acc = Some (r, c, s', m')
     \<and> (case c of None \<Rightarrow> block_written [] (bytes m src n) m dst room r m' | Some k \<Rightarrow>
          od = fillOutput \<and> 0 \<le> k \<and> k \<le> n \<and> block_written [] (bytes m src k) m dst room r m')
     \<and> (od = notLimited \<or> od = fillOutput \<and> 0 < osz \<longrightarrow> 0 < r) \<and> (od = fillOutput \<and> 0 < r \<longrightarrow> c \<noteq> None)
     \<and> (s' = s \<or> s_tableType s' = tt \<and> s_currentOffset s' = s_currentOffset s + n \<and> 0 < n \<and> old_table tt s')"
proof -
  have b: "0 < src" "0 \<le> n" "valid m src n" "valid m dst room" "src + n \<le> dst \<or> dst + room \<le> src" "0 \<le> room" "room < 2 ^ 31"
    using io by (auto simp: io_ok_def)
  have nm: "\<not> u32 n > u32 LZ4_MAX_INPUT_SIZE" using b n by simp
  have fr0: "block_written [] t m dst room 0 m" for t using b by (simp add: block_written_def)
  show ?thesis
  proof (cases "n = 0 \<or> od = fillOutput \<and> osz < 1")
    case True
    have room: "1 \<le> room" if "\<not> (od \<noteq> notLimited \<and> osz < 1)"
      using that unlim lim compressBound_pos [OF b(2)] by (cases "od = notLimited") auto
    show ?thesis
    proof (cases "od \<noteq> notLimited \<and> osz < 1")
      case none: True
      then show ?thesis using nm fr0 True
        by (auto simp: LZ4_compress_generic_def LZ4_compress_generic_validated_def comp_env_of_def Let_def)
    next
      case False
      then show ?thesis using nm True empty_block [OF b(4) room [OF False]]
        by (auto simp: LZ4_compress_generic_def)
    qed
  next
    case False
    obtain C where C: "comp_env_of s src dst n osz od tt noDict di acc = Some C" by (simp add: comp_env_of_def Let_def)
    note f = comp_env_of_simps [OF C]
    have d: "c_dictSize C = 0" using C s by (auto simp: comp_env_of_def start_ok_def Let_def)
    have ok: "comp_ok C room m"
      using f d b n acc s False unlim lim
      by (auto simp: comp_ok_def c_defs c_lo_def start_ok_def split: if_splits)
    define P where "P i \<longleftrightarrow> di = dictSmall \<and> 0 \<le> i \<and> i < s_currentOffset s" for i
    have T: "tbl P C m (c_startIndex C + 1) (s_hashTable s)"
      using s f by (auto simp: tbl_def start_ok_def blank_table_def old_table_def P_def split: if_splits)
    have P: "P i \<Longrightarrow> old_ok C i" for i
      using f d s b(2) by (auto simp: P_def old_ok_def outside_valid_area_def c_prefixIdxLimit_def start_ok_def)
    obtain r c T' m' where run: "LZ4_compress_generic_validated s m src dst n osz od tt noDict di acc
        = Some (r, c, (advance s n tt noDict)\<lparr>s_hashTable := T'\<rparr>, m')" "finished C room m r c m'"
        "if n < 13 then T' = s_hashTable s else tbl P C m (c_startIndex C + n - 11) T'"
      using compress_validated_ok [OF C ok P T] by blast
    let ?s = "(advance s n tt noDict)\<lparr>s_hashTable := T'\<rparr>"
    have cur: "s_currentOffset ?s = s_currentOffset s + n" "s_tableType ?s = tt"
      using s b(2) n by (auto simp: advance_def start_ok_def)
    have "old_table tt ?s"
      using run(3) cur(1) s f b(2) by (auto simp: old_table_def tbl_def start_ok_def blank_table_def split: if_splits)
    moreover have "LZ4_compress_generic s m src dst n osz od tt noDict di acc = Some (r, c, ?s, m')"
      using nm False run(1) by (simp add: LZ4_compress_generic_def)
    moreover have "case c of None \<Rightarrow> block_written [] (bytes m src n) m dst room r m' | Some k \<Rightarrow>
          od = fillOutput \<and> 0 \<le> k \<and> k \<le> n \<and> block_written [] (bytes m src k) m dst room r m'"
      "od = notLimited \<or> od = fillOutput \<and> 0 < osz \<longrightarrow> 0 < r" "od = fillOutput \<and> 0 < r \<longrightarrow> c \<noteq> None"
      using run(2) f d by (auto simp: finished_def block_written_def chist_def c_lo_def split: option.splits if_splits)
    moreover have "s_tableType ?s = tt \<and> s_currentOffset ?s = s_currentOffset s + n \<and> 0 < n" using cur False b(2) by simp
    ultimately show ?thesis by blast
  qed
qed

section \<open>What the functions promise\<close>

text \<open>The contract of a one-shot compressor, of which \<open>state_ok\<close> holds before and after.\<close>

locale block_compressor =
  fixes compress :: "'s \<Rightarrow> mem \<Rightarrow> addr \<Rightarrow> addr \<Rightarrow> int \<Rightarrow> int \<Rightarrow> (int \<times> 's \<times> mem) option"
    and state_ok :: "'s \<Rightarrow> bool"
  assumes compresses: "\<lbrakk>io_ok m src dst n room; n \<le> LZ4_MAX_INPUT_SIZE; state_ok s\<rbrakk> \<Longrightarrow>
    \<exists>r s' m'. compress s m src dst n room = Some (r, s', m') \<and> block_written [] (bytes m src n) m dst room r m'
      \<and> (LZ4_compressBound n \<le> room \<longrightarrow> 0 < r) \<and> state_ok s'"
begin

text \<open>What is compressed into a buffer is decompressed again, into any buffer that is large enough.\<close>

lemma round_trip:
  assumes io: "io_ok m src dst n room" "n \<le> LZ4_MAX_INPUT_SIZE" "state_ok s"
    and run: "compress s m src dst n room = Some (r, s', m')" "0 < r"
    and dec: "io_ok m' dst out r room'" "n \<le> room'" "0 < room'"
  shows "\<exists>m''. LZ4_decompress_safe m' dst out r room' = Some (n, m'') \<and> bytes m'' out n = bytes m src n"
proof -
  have e: "encoded [] (bytes m src n) m' dst r" using compresses [OF io] run by (auto simp: block_written_def)
  then have "conforming (Some n) [] (bytes m' dst r)" using io(1) by (simp add: encoded_def io_ok_def)
  then have c: "conforming (Some room') [] (bytes m' dst r)" by (rule conforming_mono) (use dec(2) in simp)
  show ?thesis using plain.accepts [OF dec(1) _ dec(3)] c e io(1) by (auto simp: encoded_def io_ok_def)
qed

text \<open>A buffer of \<open>LZ4_compressBound\<close> bytes is always enough.\<close>

lemma succeeds:
  assumes "io_ok m src dst n room" "n \<le> LZ4_MAX_INPUT_SIZE" "state_ok s" "LZ4_compressBound n \<le> room"
  shows "\<exists>r s' m'. compress s m src dst n room = Some (r, s', m') \<and> 0 < r \<and> r \<le> room"
  using compresses [OF assms(1-3)] assms(4) by (auto simp: block_written_def)

text \<open>Whatever the output size, nothing outside of the buffer changes.\<close>

lemma contained:
  assumes "io_ok m src dst n room" "n \<le> LZ4_MAX_INPUT_SIZE" "state_ok s"
  shows "\<exists>r s' m'. compress s m src dst n room = Some (r, s', m') \<and> 0 \<le> r \<and> r \<le> room \<and> frame m m' dst (dst + room)"
  using compresses [OF assms(1-3)] by (auto simp: block_written_def)

end

text \<open>The two sizes of output buffers of the one-shot functions.\<close>

lemma generic_one_shot:
  assumes io: "io_ok m src dst n room" and n: "n \<le> LZ4_MAX_INPUT_SIZE" and acc: "1 \<le> acc"
    and s: "start_ok s n od tt di" and od: "if LZ4_compressBound n \<le> room then od = notLimited else od = limitedOutput"
    and osz: "od = limitedOutput \<Longrightarrow> osz = room"
  shows "\<exists>r s' m'. drop_consumed (LZ4_compress_generic s m src dst n osz od tt noDict di acc) = Some (r, s', m')
     \<and> block_written [] (bytes m src n) m dst room r m' \<and> (LZ4_compressBound n \<le> room \<longrightarrow> 0 < r)
     \<and> (s' = s \<or> s_tableType s' = tt \<and> s_currentOffset s' = s_currentOffset s + n \<and> 0 < n \<and> old_table tt s')"
proof -
  have b: "0 \<le> n" "0 \<le> room" using io by (auto simp: io_ok_def)
  then have bound: "LZ4_compressBound n = compressBound n" using n by (simp add: compressBound_eq)
  have "od = notLimited \<Longrightarrow> compressBound n \<le> room" "od \<noteq> notLimited \<Longrightarrow> room = max 0 osz"
    using od osz b bound by (auto split: if_splits)
  note g = generic_noDict_ok [OF io n acc s this]
  obtain r c s' m' where "LZ4_compress_generic s m src dst n osz od tt noDict di acc = Some (r, c, s', m')"
    and r: "case c of None \<Rightarrow> block_written [] (bytes m src n) m dst room r m' | Some k \<Rightarrow>
          od = fillOutput \<and> 0 \<le> k \<and> k \<le> n \<and> block_written [] (bytes m src k) m dst room r m'"
      "od = notLimited \<or> od = fillOutput \<and> 0 < osz \<longrightarrow> 0 < r"
      "s' = s \<or> s_tableType s' = tt \<and> s_currentOffset s' = s_currentOffset s + n \<and> 0 < n \<and> old_table tt s'"
    using g by blast
  moreover have "od \<noteq> fillOutput" using od by (auto split: if_splits)
  ultimately show ?thesis using od by (auto simp: drop_consumed_def split: option.splits if_splits)
qed

text \<open>A state that \<open>LZ4_compress_fast_extState_fastReset\<close> and \<open>LZ4_resetStream_fast\<close> may reuse.\<close>

definition reusable :: "LZ4_stream_t \<Rightarrow> bool" where
  "reusable s \<longleftrightarrow> 0 \<le> s_currentOffset s \<and> s_currentOffset s \<le> 2 ^ 31 \<and>
     (case s_tableType s of
        clearedTable \<Rightarrow> blank_table byU16 s \<and> s_currentOffset s = 0
      | byPtr \<Rightarrow> False
      | byU32 \<Rightarrow> old_table byU32 s
      | byU16 \<Rightarrow> old_table byU16 s \<and> s_currentOffset s < 65547)"

lemma blank_zeroed: "blank_table tt zeroed_stream"
  by (simp add: blank_table_def zeroed_stream_def)

lemma start_zeroed: "n \<le> LZ4_MAX_INPUT_SIZE \<Longrightarrow> tt = byU32 \<or> tt = byU16 \<and> n < LZ4_64Klimit \<Longrightarrow> start_ok zeroed_stream n od tt di"
  using blank_zeroed [of tt] by (auto simp: start_ok_def indexed_def zeroed_stream_def)

text \<open>The table that \<open>LZ4_prepareTable\<close> leaves is blank, or all its entries are before the next input.\<close>

lemma prepareTable_start:
  assumes s: "reusable s" and n: "0 \<le> n" "n \<le> LZ4_MAX_INPUT_SIZE" and tt: "if n < LZ4_64Klimit then tt = byU16 else tt = byU32"
    and od: "od \<noteq> fillOutput"
  shows "start_ok (LZ4_prepareTable s n tt) n od tt (if s_currentOffset (LZ4_prepareTable s n tt) = 0 then di else dictSmall)"
    and "tt = byU32 \<Longrightarrow> s_currentOffset (LZ4_prepareTable s n tt) = 0"
    and "reusable (LZ4_prepareTable s n tt)"
proof -
  let ?s = "LZ4_prepareTable s n tt"
  have d: "s_dictSize ?s = 0" "indexed tt" using tt by (auto simp: LZ4_prepareTable_def Let_def indexed_def split: if_splits)
  have "s_currentOffset ?s = 0 \<and> s_tableType ?s = clearedTable \<and> blank_table byU16 ?s
     \<or> tt = byU16 \<and> s_tableType ?s = byU16 \<and> s_currentOffset ?s + n < 65535 \<and> old_table byU16 ?s \<and> 0 \<le> s_currentOffset ?s"
    using s tt n
    by (cases "s_tableType s") (auto simp: reusable_def LZ4_prepareTable_def Let_def blank_table_def old_table_def split: if_splits)
  then consider (cleared) "s_currentOffset ?s = 0" "s_tableType ?s = clearedTable" "blank_table byU16 ?s"
    | (reuse) "tt = byU16" "s_tableType ?s = byU16" "s_currentOffset ?s + n < 65535" "old_table byU16 ?s" "0 \<le> s_currentOffset ?s"
    by blast
  then have "start_ok ?s n od tt (if s_currentOffset ?s = 0 then di else dictSmall)
     \<and> (tt = byU32 \<longrightarrow> s_currentOffset ?s = 0) \<and> reusable ?s"
  proof cases
    case cleared
    moreover from this have "blank_table tt ?s" by (auto simp: blank_table_def table_size_def split: if_splits)
    ultimately show ?thesis using d n tt by (auto simp: start_ok_def reusable_def split: if_splits)
  next
    case reuse
    then have "blank_table byU16 ?s" if "s_currentOffset ?s = 0" using that by (force simp: old_table_def blank_table_def)
    with reuse show ?thesis using d n od by (auto simp: start_ok_def reusable_def)
  qed
  then show "start_ok ?s n od tt (if s_currentOffset ?s = 0 then di else dictSmall)" "tt = byU32 \<Longrightarrow> s_currentOffset ?s = 0" "reusable ?s"
    by blast+
qed

lemma reusable_after:
  assumes "reusable s \<and> s' = s \<or> s_tableType s' = tt \<and> s_currentOffset s' = s_currentOffset s + n \<and> 0 < n \<and> old_table tt s'"
    and "start_ok s n od tt di"
  shows "reusable s'"
  using assms by (auto simp: reusable_def start_ok_def indexed_def)

interpretation ext_state: block_compressor "\<lambda>s m src dst n room. LZ4_compress_fast_extState s m src dst n room acc" "\<lambda>s. True" for acc
proof
  fix m src dst n room s assume io: "io_ok m src dst n room" and n: "n \<le> LZ4_MAX_INPUT_SIZE"
  let ?tt = "if n < LZ4_64Klimit then byU16 else byU32" and ?od = "if LZ4_compressBound n \<le> room then notLimited else limitedOutput"
  let ?osz = "if LZ4_compressBound n \<le> room then 0 else room"
  have s: "start_ok zeroed_stream n ?od ?tt noDictIssue" using start_zeroed [OF n, of ?tt ?od] by (auto split: if_splits)
  have "LZ4_compress_fast_extState s m src dst n room acc
     = drop_consumed (LZ4_compress_generic zeroed_stream m src dst n ?osz ?od ?tt noDict noDictIssue (clamp_acceleration acc))"
    by (simp add: LZ4_compress_fast_extState_def LZ4_initStream_def)
  then show "\<exists>r s' m'. LZ4_compress_fast_extState s m src dst n room acc = Some (r, s', m')
      \<and> block_written [] (bytes m src n) m dst room r m' \<and> (LZ4_compressBound n \<le> room \<longrightarrow> 0 < r) \<and> True"
    using generic_one_shot [OF io n clamp_bounds(1) s, of ?osz acc] by auto
qed

interpretation fast_reset: block_compressor "\<lambda>s m src dst n room. LZ4_compress_fast_extState_fastReset s m src dst n room acc"
  reusable for acc
proof
  fix m src dst n room s assume io: "io_ok m src dst n room" and n: "n \<le> LZ4_MAX_INPUT_SIZE" and s: "reusable s"
  let ?tt = "if n < LZ4_64Klimit then byU16 else byU32" and ?od = "if LZ4_compressBound n \<le> room then notLimited else limitedOutput"
  let ?osz = "if LZ4_compressBound n \<le> room then 0 else room" and ?s = "LZ4_prepareTable s n (if n < LZ4_64Klimit then byU16 else byU32)"
  let ?di = "if s_currentOffset ?s = 0 then noDictIssue else dictSmall"
  have nn: "0 \<le> n" using io by (simp add: io_ok_def)
  have tt: "if n < LZ4_64Klimit then ?tt = byU16 else ?tt = byU32" "?od \<noteq> fillOutput" by simp_all
  have st: "start_ok ?s n ?od ?tt ?di" "reusable ?s" and p: "\<not> n < LZ4_64Klimit \<Longrightarrow> s_currentOffset ?s = 0"
    using prepareTable_start [OF s nn n tt] by simp_all
  have "LZ4_compress_fast_extState_fastReset s m src dst n room acc
     = drop_consumed (LZ4_compress_generic ?s m src dst n ?osz ?od ?tt noDict ?di (clamp_acceleration acc))"
    using p by (simp add: LZ4_compress_fast_extState_fastReset_def Let_def)
  then show "\<exists>r s' m'. LZ4_compress_fast_extState_fastReset s m src dst n room acc = Some (r, s', m')
      \<and> block_written [] (bytes m src n) m dst room r m' \<and> (LZ4_compressBound n \<le> room \<longrightarrow> 0 < r) \<and> reusable s'"
    using generic_one_shot [OF io n clamp_bounds(1) st(1), of ?osz acc] reusable_after [OF _ st(1)] st(2) by auto
qed

section \<open>Filling the output buffer\<close>

lemma destSize_internal_ok:
  assumes io: "io_ok m src dst n room" and n: "n \<le> LZ4_MAX_INPUT_SIZE" and acc: "1 \<le> acc"
  shows "\<exists>r k s' m'. LZ4_compress_destSize_extState_internal s m src dst n room acc = Some (r, k, s', m')
     \<and> 0 \<le> k \<and> k \<le> n \<and> block_written [] (bytes m src k) m dst room r m' \<and> (0 < room \<longrightarrow> 0 < r)"
proof (cases "LZ4_compressBound n \<le> room")
  case True
  then show ?thesis using ext_state.compresses [OF io n, of zeroed_stream acc] io
    by (auto simp: LZ4_compress_destSize_extState_internal_def LZ4_initStream_def io_ok_def)
next
  case False
  let ?tt = "if n < LZ4_64Klimit then byU16 else byU32"
  have st: "start_ok zeroed_stream n fillOutput ?tt noDictIssue" using start_zeroed [OF n, of ?tt] by auto
  have nn: "0 \<le> n" "room = max 0 room" using io by (auto simp: io_ok_def)
  obtain r c s' m' where run: "LZ4_compress_generic zeroed_stream m src dst n room fillOutput ?tt noDict noDictIssue acc = Some (r, c, s', m')"
    and r: "case c of None \<Rightarrow> block_written [] (bytes m src n) m dst room r m' | Some k \<Rightarrow>
          0 \<le> k \<and> k \<le> n \<and> block_written [] (bytes m src k) m dst room r m'" "0 < room \<longrightarrow> 0 < r"
    using generic_noDict_ok [OF io n acc st _ nn(2)] by (auto split: option.splits)
  have "LZ4_compress_destSize_extState_internal s m src dst n room acc = Some (r, (case c of None \<Rightarrow> n | Some k \<Rightarrow> k), s', m')"
    using False run by (simp add: LZ4_compress_destSize_extState_internal_def LZ4_initStream_def split: if_splits)
  then show ?thesis using r nn(1) by (cases c) auto
qed

end
