(* ===== verification/LZ4_CompStream.thy ===== *)
theory LZ4_CompStream
  imports LZ4_CompAPI LZ4_DecStream "HOL-Library.Sublist"
begin

text \<open>
  Streaming compression: dictionaries, blocks that refer to the previous ones, and the invariant of
  the stream that makes every block decodable with what was compressed before it.
\<close>

section \<open>Dictionaries\<close>

datatype LoadDict_mode_e = ld_fast | ld_slow

text \<open>A fresh stream, or \<open>NULL\<close> when the allocation fails.\<close>

definition LZ4_createStream :: "bool \<Rightarrow> LZ4_stream_t option" where
  "LZ4_createStream allocated = (if allocated then LZ4_initStream (Some zeroed_stream) sizeof_LZ4_stream_t else None)"

text \<open>The first pass of \<open>LZ4_loadDict_internal\<close>, over every third position, and the second, over all of them.\<close>

function load_positions :: "mem \<Rightarrow> table \<Rightarrow> addr \<Rightarrow> int \<Rightarrow> addr \<Rightarrow> table option" where
  "load_positions m T p idx32 dictEnd =
     (if p \<le> dictEnd - 8 then do {
        h \<leftarrow> LZ4_hashPosition m p byU32;
        T \<leftarrow> LZ4_putIndexOnHash idx32 h T byU32;
        load_positions m T (p + 3) (u32 (idx32 + 3)) dictEnd }
      else Some T)"
  by pat_completeness auto
termination
  by (relation "measure (\<lambda>(m, T, p, idx32, dictEnd). nat (dictEnd - p))") auto

function load_more_positions :: "mem \<Rightarrow> table \<Rightarrow> int \<Rightarrow> addr \<Rightarrow> int \<Rightarrow> addr \<Rightarrow> table option" where
  "load_more_positions m T lim p idx32 dictEnd =
     (if p \<le> dictEnd - 8 then do {
        h \<leftarrow> LZ4_hashPosition m p byU32;
        i \<leftarrow> LZ4_getIndexOnHash h T byU32;
        T \<leftarrow> (if i \<le> lim then LZ4_putIndexOnHash idx32 h T byU32 else Some T);
        load_more_positions m T lim (p + 1) (u32 (idx32 + 1)) dictEnd }
      else Some T)"
  by pat_completeness auto
termination
  by (relation "measure (\<lambda>(m, T, lim, p, idx32, dictEnd). nat (dictEnd - p))") auto

declare load_positions.simps [simp del] load_more_positions.simps [simp del]

definition LZ4_loadDict_internal ::
  "LZ4_stream_t \<Rightarrow> mem \<Rightarrow> addr \<Rightarrow> int \<Rightarrow> LoadDict_mode_e \<Rightarrow> (int \<times> LZ4_stream_t) option" where
  "LZ4_loadDict_internal s m dictionary dictSize ld =
     (let p = dictionary; dictEnd = p + dictSize;
          dict = LZ4_resetStream s;
          dict = dict\<lparr>s_currentOffset := u32 (s_currentOffset dict + 65536)\<rparr> in
      if dictSize < 8 then Some (0, dict)
      else
        let p = (if dictEnd - p > 65536 then dictEnd - 65536 else p);
            dict = dict\<lparr>s_dictionary := p, s_dictSize := u32 (dictEnd - p), s_tableType := byU32\<rparr>;
            idx32 = u32 (s_currentOffset dict - s_dictSize dict) in do {
        T \<leftarrow> load_positions m (s_hashTable dict) p idx32 dictEnd;
        T \<leftarrow> (if ld = ld_slow
              then load_more_positions m T (u32 (s_currentOffset dict - 65536)) (s_dictionary dict) idx32 dictEnd
              else Some T);
        Some (s_dictSize dict, dict\<lparr>s_hashTable := T\<rparr>) })"

definition LZ4_loadDict :: "LZ4_stream_t \<Rightarrow> mem \<Rightarrow> addr \<Rightarrow> int \<Rightarrow> (int \<times> LZ4_stream_t) option" where
  "LZ4_loadDict s m dictionary dictSize = LZ4_loadDict_internal s m dictionary dictSize ld_fast"

definition LZ4_loadDictSlow :: "LZ4_stream_t \<Rightarrow> mem \<Rightarrow> addr \<Rightarrow> int \<Rightarrow> (int \<times> LZ4_stream_t) option" where
  "LZ4_loadDictSlow s m dictionary dictSize = LZ4_loadDict_internal s m dictionary dictSize ld_slow"

text \<open>The stream refers to the dictionary stream, which must not change in the meantime.\<close>

definition LZ4_attach_dictionary :: "LZ4_stream_t \<Rightarrow> LZ4_stream_t option \<Rightarrow> LZ4_stream_t" where
  "LZ4_attach_dictionary workingStream dictionaryStream =
     (case dictionaryStream of
        None \<Rightarrow> workingStream\<lparr>s_dictCtx := None\<rparr>
      | Some d \<Rightarrow>
          let workingStream = (if s_currentOffset workingStream = 0 then workingStream\<lparr>s_currentOffset := 65536\<rparr> else workingStream) in
          workingStream\<lparr>s_dictCtx := (if s_dictSize d = 0 then None else Some (LZ4_dict_t.truncate d))\<rparr>)"

section \<open>Blocks\<close>

definition LZ4_renormDictT :: "LZ4_stream_t \<Rightarrow> int \<Rightarrow> LZ4_stream_t" where
  "LZ4_renormDictT s nextSize =
     (if u32 (s_currentOffset s + u32 nextSize) > 0x80000000 then
        let delta = u32 (s_currentOffset s - 65536);
            dictEnd = s_dictionary s + s_dictSize s;
            T = (\<lambda>i. if 0 \<le> i \<and> i < LZ4_HASH_SIZE_U32
                     then if s_hashTable s i < delta then 0 else s_hashTable s i - delta
                     else s_hashTable s i);
            dictSize = (if s_dictSize s > 65536 then 65536 else s_dictSize s) in
        s\<lparr>s_hashTable := T, s_currentOffset := 65536, s_dictSize := dictSize, s_dictionary := dictEnd - dictSize\<rparr>
      else s)"

text \<open>\<open>LZ4_compress_fast_continue\<close> up to the choice of the mode: the stream and \<open>dictEnd\<close>.\<close>

definition continue_dict :: "LZ4_stream_t \<Rightarrow> addr \<Rightarrow> int \<Rightarrow> LZ4_stream_t \<times> addr" where
  "continue_dict s source inputSize =
     (let dictEnd = (if s_dictSize s \<noteq> 0 then s_dictionary s + s_dictSize s else 0);
          s = LZ4_renormDictT s inputSize;
          (s, dictEnd) =
            (if s_dictSize s < 4 \<and> dictEnd \<noteq> source \<and> inputSize > 0 \<and> s_dictCtx s = None
             then (s\<lparr>s_dictSize := 0, s_dictionary := source\<rparr>, source) else (s, dictEnd));
          sourceEnd = source + inputSize;
          s = (if sourceEnd > s_dictionary s \<and> sourceEnd < dictEnd then
                 let dictSize = u32 (dictEnd - sourceEnd);
                     dictSize = (if dictSize > 65536 then 65536 else dictSize);
                     dictSize = (if dictSize < 4 then 0 else dictSize) in
                 s\<lparr>s_dictSize := dictSize, s_dictionary := dictEnd - dictSize\<rparr>
               else s) in
      (s, dictEnd))"

definition small_dict :: "LZ4_stream_t \<Rightarrow> dictIssue_directive" where
  "small_dict s = (if s_dictSize s < 65536 \<and> s_dictSize s < s_currentOffset s then dictSmall else noDictIssue)"

definition LZ4_compress_fast_continue ::
  "LZ4_stream_t \<Rightarrow> mem \<Rightarrow> addr \<Rightarrow> addr \<Rightarrow> int \<Rightarrow> int \<Rightarrow> int \<Rightarrow> (int \<times> LZ4_stream_t \<times> mem) option" where
  "LZ4_compress_fast_continue s m source dest inputSize maxOutputSize acceleration =
     (let acceleration = clamp_acceleration acceleration;
          (s, dictEnd) = continue_dict s source inputSize in
      if dictEnd = source then
        drop_consumed (LZ4_compress_generic s m source dest inputSize maxOutputSize limitedOutput byU32 withPrefix64k
          (small_dict s) acceleration)
      else do {
        (result, s, m) \<leftarrow> drop_consumed
          (case s_dictCtx s of
             Some d \<Rightarrow>
               if inputSize > 4096 then
                 LZ4_compress_generic (LZ4_dict_t.extend d (LZ4_stream_t.fields None)) m source dest inputSize maxOutputSize
                   limitedOutput byU32 usingExtDict noDictIssue acceleration
               else
                 LZ4_compress_generic s m source dest inputSize maxOutputSize limitedOutput byU32 usingDictCtx noDictIssue
                   acceleration
           | None \<Rightarrow>
               LZ4_compress_generic s m source dest inputSize maxOutputSize limitedOutput byU32 usingExtDict (small_dict s)
                 acceleration);
        Some (result, s\<lparr>s_dictionary := source, s_dictSize := u32 inputSize\<rparr>, m) })"

definition LZ4_compress_forceExtDict ::
  "LZ4_stream_t \<Rightarrow> mem \<Rightarrow> addr \<Rightarrow> addr \<Rightarrow> int \<Rightarrow> (int \<times> LZ4_stream_t \<times> mem) option" where
  "LZ4_compress_forceExtDict s m source dest srcSize =
     (let s = LZ4_renormDictT s srcSize in do {
      (result, s, m) \<leftarrow> drop_consumed
        (LZ4_compress_generic s m source dest srcSize 0 notLimited byU32 usingExtDict (small_dict s) 1);
      Some (result, s\<lparr>s_dictionary := source, s_dictSize := u32 srcSize\<rparr>, m) })"

definition LZ4_saveDict :: "LZ4_stream_t \<Rightarrow> mem \<Rightarrow> addr \<Rightarrow> int \<Rightarrow> (int \<times> LZ4_stream_t \<times> mem) option" where
  "LZ4_saveDict dict m safeBuffer dictSize =
     (let dictSize = (if u32 dictSize > 65536 then 65536 else dictSize);
          dictSize = (if u32 dictSize > s_dictSize dict then s_dictSize dict else dictSize) in do {
      m \<leftarrow> (if dictSize > 0
            then LZ4_memmove m safeBuffer (s_dictionary dict + s_dictSize dict - dictSize) dictSize
            else Some m);
      Some (dictSize, dict\<lparr>s_dictionary := safeBuffer, s_dictSize := u32 dictSize\<rparr>, m) })"

text \<open>Obsolete names.\<close>

definition LZ4_compress_limitedOutput_continue ::
  "LZ4_stream_t \<Rightarrow> mem \<Rightarrow> addr \<Rightarrow> addr \<Rightarrow> int \<Rightarrow> int \<Rightarrow> (int \<times> LZ4_stream_t \<times> mem) option" where
  "LZ4_compress_limitedOutput_continue s m src dst srcSize dstCapacity =
     LZ4_compress_fast_continue s m src dst srcSize dstCapacity 1"

definition LZ4_compress_continue :: "LZ4_stream_t \<Rightarrow> mem \<Rightarrow> addr \<Rightarrow> addr \<Rightarrow> int \<Rightarrow> (int \<times> LZ4_stream_t \<times> mem) option" where
  "LZ4_compress_continue s m source dest inputSize =
     LZ4_compress_fast_continue s m source dest inputSize (LZ4_compressBound inputSize) 1"

definition LZ4_sizeofStreamState :: int where "LZ4_sizeofStreamState = sizeof_LZ4_stream_t"

definition LZ4_resetStreamState :: "LZ4_stream_t \<Rightarrow> int \<times> LZ4_stream_t" where
  "LZ4_resetStreamState state = (0, LZ4_resetStream state)"

definition LZ4_slideInputBuffer :: "LZ4_stream_t \<Rightarrow> addr" where
  "LZ4_slideInputBuffer state = s_dictionary state"

section \<open>The invariant of a stream\<close>

text \<open>An entry is a position from which four bytes of the compressed data follow, or nothing.\<close>

definition entries_ok :: "LZ4_stream_t \<Rightarrow> bool" where
  "entries_ok s \<longleftrightarrow> (\<forall>h. 0 \<le> h \<and> h < LZ4_HASH_SIZE_U32 \<longrightarrow>
     0 \<le> s_hashTable s h \<and> (s_hashTable s h = 0 \<or> s_hashTable s h + 4 \<le> s_currentOffset s))"

text \<open>A dictionary as \<open>LZ4_loadDict\<close> prepares it.\<close>

definition loaded :: "LZ4_dict_t \<Rightarrow> bool" where
  "loaded d \<longleftrightarrow> s_currentOffset d = 65536 \<and> 0 < s_dictSize d \<and> s_dictSize d \<le> 65536 \<and>
     (\<forall>h. 0 \<le> h \<and> h < LZ4_HASH_SIZE_U32 \<longrightarrow>
        s_hashTable d h = 0 \<or> 65536 - s_dictSize d \<le> s_hashTable d h \<and> s_hashTable d h + 8 \<le> 65536)"

definition stream_ok :: "LZ4_stream_t \<Rightarrow> bool" where
  "stream_ok s \<longleftrightarrow> 0 \<le> s_dictSize s \<and> s_dictSize s \<le> s_currentOffset s \<and> s_currentOffset s \<le> 2 ^ 31 \<and> entries_ok s \<and>
     (case s_dictCtx s of None \<Rightarrow> True | Some d \<Rightarrow> s_dictSize s = 0 \<and> 65536 \<le> s_currentOffset s \<and> loaded d)"

text \<open>Where the history of the next block is.\<close>

fun dict_area :: "LZ4_stream_t \<Rightarrow> addr \<times> int" where
  "dict_area s = (case s_dictCtx s of None \<Rightarrow> (s_dictionary s, s_dictSize s) | Some d \<Rightarrow> (s_dictionary d, s_dictSize d))"

definition stream_hist :: "LZ4_stream_t \<Rightarrow> mem \<Rightarrow> byte list" where
  "stream_hist s m = (case dict_area s of (a, k) \<Rightarrow> bytes m a k)"

text \<open>The buffers of a call: the history is in place, outside of the output; the input does not cover
  its end.\<close>

definition continue_ok :: "LZ4_stream_t \<Rightarrow> mem \<Rightarrow> addr \<Rightarrow> addr \<Rightarrow> int \<Rightarrow> int \<Rightarrow> bool" where
  "continue_ok s m src dst n room \<longleftrightarrow> io_ok m src dst n room \<and> 0 < room \<and> n \<le> LZ4_MAX_INPUT_SIZE \<and> stream_ok s \<and>
     (case dict_area s of (a, k) \<Rightarrow> 0 \<le> a \<and> ro_ok m a k dst room \<and>
        (if s_dictCtx s = None then k = 0 \<or> src + n < a + k \<or> a + k \<le> src else src + n \<le> a \<or> a + k \<le> src))"

text \<open>The history that a call uses: the part of the dictionary that the input does not overlap.\<close>

definition continue_hist :: "LZ4_stream_t \<Rightarrow> mem \<Rightarrow> addr \<Rightarrow> int \<Rightarrow> byte list" where
  "continue_hist s m src n = stream_hist (fst (continue_dict s src n)) m"

section \<open>Preparing a block\<close>

lemma renorm_ok:
  assumes s: "stream_ok s" and n: "0 \<le> n" "n \<le> LZ4_MAX_INPUT_SIZE"
  defines "s' \<equiv> LZ4_renormDictT s n"
  shows "stream_ok s'" "s_currentOffset s' + n \<le> 2 ^ 31" "s_dictCtx s' = s_dictCtx s"
    "s_dictSize s' \<le> s_dictSize s" "s_dictionary s' + s_dictSize s' = s_dictionary s + s_dictSize s"
    "s_dictSize s' = 0 \<longleftrightarrow> s_dictSize s = 0" "s_dictSize s' < 4 \<longleftrightarrow> s_dictSize s < 4"
proof -
  have c: "0 \<le> s_dictSize s" "s_dictSize s \<le> s_currentOffset s" "s_currentOffset s \<le> 2 ^ 31" using s by (auto simp: stream_ok_def)
  have w: "u32 (s_currentOffset s + u32 n) = s_currentOffset s + n" using c n by simp
  have d: "u32 (s_currentOffset s - 65536) = s_currentOffset s - 65536" if "s_currentOffset s + n > 2 ^ 31"
    using that c n by simp
  show "stream_ok s'"
    using s c n w d unfolding s'_def stream_ok_def LZ4_renormDictT_def Let_def
    by (auto simp: entries_ok_def split: option.splits)
  show "s_currentOffset s' + n \<le> 2 ^ 31" "s_dictCtx s' = s_dictCtx s"
    "s_dictSize s' \<le> s_dictSize s" "s_dictionary s' + s_dictSize s' = s_dictionary s + s_dictSize s"
    "s_dictSize s' = 0 \<longleftrightarrow> s_dictSize s = 0" "s_dictSize s' < 4 \<longleftrightarrow> s_dictSize s < 4"
    using c n w by (auto simp: s'_def LZ4_renormDictT_def Let_def)
qed

text \<open>What is left of a dictionary of \<open>k\<close> bytes that ends at \<open>e\<close>.\<close>

definition tail_of :: "LZ4_stream_t \<Rightarrow> addr \<Rightarrow> int \<Rightarrow> bool" where
  "tail_of s e k \<longleftrightarrow> 0 \<le> s_dictSize s \<and> s_dictSize s \<le> k \<and> (s_dictSize s = 0 \<or> s_dictionary s + s_dictSize s = e)"

lemma stream_ok_dict:
  "stream_ok s \<Longrightarrow> 0 \<le> k \<Longrightarrow> k \<le> s_dictSize s \<Longrightarrow> stream_ok (s\<lparr>s_dictSize := k, s_dictionary := a\<rparr>)"
  by (auto simp: stream_ok_def entries_ok_def split: option.splits)

lemma continue_dict_ok:
  assumes ok: "continue_ok s m src dst n room" and cd: "continue_dict s src n = (s1, e)"
  shows "stream_ok s1" "s_currentOffset s1 + n \<le> 2 ^ 31" "s_dictCtx s1 = s_dictCtx s"
    "s_dictCtx s = None \<Longrightarrow> tail_of s1 (s_dictionary s + s_dictSize s) (s_dictSize s)"
    "e = src \<Longrightarrow> s_dictCtx s = None \<and> s_dictionary s1 + s_dictSize s1 = src"
    "e \<noteq> src \<Longrightarrow> s_dictCtx s = None \<Longrightarrow> 0 < n \<Longrightarrow> (s_dictSize s1 = 0 \<or> 4 \<le> s_dictSize s1) \<and> 0 < s_dictionary s1 \<and>
       s_dictionary s1 \<noteq> src \<and> (src + n \<le> s_dictionary s1 \<or> s_dictionary s1 + s_dictSize s1 \<le> src)
       \<and> s_dictionary s1 + s_dictSize s1 = s_dictionary s + s_dictSize s"
proof -
  let ?r = "LZ4_renormDictT s n" and ?e = "if s_dictSize s \<noteq> 0 then s_dictionary s + s_dictSize s else 0"
  let ?inv = "s_dictSize ?r < 4 \<and> ?e \<noteq> src \<and> n > 0 \<and> s_dictCtx ?r = None"
  have io: "0 < src" "0 \<le> n" "n \<le> LZ4_MAX_INPUT_SIZE" "stream_ok s" using ok by (auto simp: continue_ok_def io_ok_def)
  note r = renorm_ok [OF io(4,2,3)]
  have dz: "0 \<le> s_dictSize s" "s_dictSize s \<le> 2 ^ 31" "s_dictCtx s \<noteq> None \<Longrightarrow> s_dictSize s = 0"
    using io(4) by (auto simp: stream_ok_def)
  have area: "s_dictCtx s = None \<Longrightarrow> 0 \<le> s_dictionary s \<and> (s_dictionary s = 0 \<longrightarrow> s_dictSize s = 0)
      \<and> (s_dictSize s = 0 \<or> src + n < s_dictionary s + s_dictSize s \<or> s_dictionary s + s_dictSize s \<le> src)"
    using ok by (auto simp: continue_ok_def ro_ok_def)
  let ?out = "stream_ok s1 \<and> s_currentOffset s1 + n \<le> 2 ^ 31 \<and> s_dictCtx s1 = s_dictCtx s \<and>
    (s_dictCtx s = None \<longrightarrow> tail_of s1 (s_dictionary s + s_dictSize s) (s_dictSize s)) \<and>
    (e = src \<longrightarrow> s_dictCtx s = None \<and> s_dictionary s1 + s_dictSize s1 = src) \<and>
    (e \<noteq> src \<longrightarrow> s_dictCtx s = None \<longrightarrow> 0 < n \<longrightarrow> (s_dictSize s1 = 0 \<or> 4 \<le> s_dictSize s1) \<and> 0 < s_dictionary s1 \<and>
       s_dictionary s1 \<noteq> src \<and> (src + n \<le> s_dictionary s1 \<or> s_dictionary s1 + s_dictSize s1 \<le> src)
       \<and> s_dictionary s1 + s_dictSize s1 = s_dictionary s + s_dictSize s)"
  have ?out
  proof (cases ?inv)
    case True
    then have "s1 = ?r\<lparr>s_dictSize := 0, s_dictionary := src\<rparr>" "e = src" using cd by (auto simp: continue_dict_def Let_def)
    then show ?thesis using True r dz stream_ok_dict [OF r(1), of 0 src] by (simp add: tail_of_def stream_ok_def)
  next
    case False
    have k: "0 \<le> s_dictSize ?r" "s_dictSize ?r \<le> 2 ^ 31" using r(1) by (auto simp: stream_ok_def)
    have e: "e = ?e" using cd False by (auto simp: continue_dict_def Let_def split: if_splits)
    show ?thesis
    proof (cases "src + n > s_dictionary ?r \<and> src + n < ?e")
      case True
      then have sz: "s_dictSize s \<noteq> 0" "s_dictCtx s = None" "?e = s_dictionary s + s_dictSize s" "?e \<noteq> src"
        using io dz by (cases "s_dictCtx s"; auto split: if_splits)+
      let ?gap = "?e - (src + n)"
      let ?k = "if ?gap < 4 then 0 else min 65536 ?gap"
      have gap: "0 < ?gap" "?gap < s_dictSize ?r" using True sz(3) r(5) by linarith+
      have s1: "s1 = ?r\<lparr>s_dictSize := ?k, s_dictionary := ?e - ?k\<rparr>"
        using cd False True gap k by (auto simp: continue_dict_def Let_def)
      have kk: "0 \<le> ?k" "?k \<le> s_dictSize ?r" "?k \<le> ?gap" using gap by auto
      have "stream_ok s1" using stream_ok_dict [OF r(1) kk(1,2), of "?e - ?k"] s1 by simp
      moreover have "tail_of s1 (s_dictionary s + s_dictSize s) (s_dictSize s)"
        using kk r(4) sz(3) by (simp add: tail_of_def s1)
      moreover have "0 < s_dictionary s1 \<and> src + n \<le> s_dictionary s1" using kk(3) io by (simp add: s1)
      moreover have "s_dictSize s1 = 0 \<or> 4 \<le> s_dictSize s1" by (simp add: s1)
      ultimately show ?thesis using r(2,3) e sz by (simp add: s1 algebra_simps)
    next
      case nt: False
      then have s1: "s1 = ?r" using cd False by (auto simp: continue_dict_def Let_def split: if_splits)
      have "tail_of s1 (s_dictionary s + s_dictSize s) (s_dictSize s)" using k r by (simp add: tail_of_def s1)
      moreover have "s_dictCtx s = None \<and> s_dictionary s1 + s_dictSize s1 = src" if "e = src"
        using that e dz io r(5) s1 by (cases "s_dictCtx s") (auto split: if_splits)
      moreover have "4 \<le> s_dictSize s1 \<and> 0 < s_dictionary s1 \<and> s_dictionary s1 \<noteq> src
          \<and> (src + n \<le> s_dictionary s1 \<or> s_dictionary s1 + s_dictSize s1 \<le> src)
       \<and> s_dictionary s1 + s_dictSize s1 = s_dictionary s + s_dictSize s"
        if "e \<noteq> src" "s_dictCtx s = None" "0 < n"
      proof -
        have sz: "4 \<le> s_dictSize ?r" "s_dictSize s \<noteq> 0" using that False e r(3,6) by auto
        then have "src + n \<le> s_dictionary ?r \<or> s_dictionary s + s_dictSize s \<le> src" using nt area [OF that(2)] by auto
        moreover have "0 < s_dictionary ?r" using area [OF that(2)] r(4,5) sz(2) by linarith
        ultimately show ?thesis using s1 sz r(5) that(3) by auto
      qed
      ultimately show ?thesis using r(1,2,3) s1 by auto
    qed
  qed
  then show "stream_ok s1" "s_currentOffset s1 + n \<le> 2 ^ 31" "s_dictCtx s1 = s_dictCtx s"
    "s_dictCtx s = None \<Longrightarrow> tail_of s1 (s_dictionary s + s_dictSize s) (s_dictSize s)"
    "e = src \<Longrightarrow> s_dictCtx s = None \<and> s_dictionary s1 + s_dictSize s1 = src"
    "e \<noteq> src \<Longrightarrow> s_dictCtx s = None \<Longrightarrow> 0 < n \<Longrightarrow> (s_dictSize s1 = 0 \<or> 4 \<le> s_dictSize s1) \<and> 0 < s_dictionary s1 \<and>
       s_dictionary s1 \<noteq> src \<and> (src + n \<le> s_dictionary s1 \<or> s_dictionary s1 + s_dictSize s1 \<le> src)
       \<and> s_dictionary s1 + s_dictSize s1 = s_dictionary s + s_dictSize s"
    by blast+
qed

section \<open>Compressing a block\<close>

lemma chist_prefix: "\<not> c_maybe_extMem C \<Longrightarrow> chist C m (c_source C) = bytes m (c_source C - c_dictSize C) (c_dictSize C)"
  by (simp add: chist_def c_lo_def cvm_def raddr_def)

lemma chist_ext:
  assumes "c_maybe_extMem C" shows "chist C m (c_source C) = bytes m (c_dictionary C) (c_dictSize C)"
  using assms by (intro nth_equalityI) (auto simp: chist_def c_lo_def cvm_def raddr_def algebra_simps)

text \<open>A block on a table whose old entries satisfy \<open>P\<close>.\<close>

lemma generic_stream_ok:
  assumes C: "comp_env_of s src dst n osz od byU32 dd di acc = Some C" and ok: "comp_ok C room m" and od: "od \<noteq> fillOutput"
    and P: "\<And>i. P i \<Longrightarrow> old_ok C i" and s: "stream_ok s"
    and T: "\<And>h. 0 \<le> h \<Longrightarrow> h < LZ4_HASH_SIZE_U32 \<Longrightarrow> s_hashTable s h < s_currentOffset s \<Longrightarrow> P (s_hashTable s h)"
  shows "\<exists>r s' m'. drop_consumed (LZ4_compress_generic s m src dst n osz od byU32 dd di acc) = Some (r, s', m')
     \<and> block_written (chist C m src) (bytes m src n) m dst room r m' \<and> (od = notLimited \<longrightarrow> 0 < r)
     \<and> entries_ok s' \<and> s_currentOffset s' = s_currentOffset s + n \<and> s_dictionary s' = s_dictionary s
     \<and> s_dictSize s' = (if dd = usingDictCtx then n else s_dictSize s + n)
     \<and> s_dictCtx s' = (if dd = usingDictCtx then None else s_dictCtx s)"
proof -
  note f = comp_env_of_simps [OF C] and b = comp_okD [OF ok]
  have c: "0 \<le> s_dictSize s" "s_dictSize s \<le> s_currentOffset s" "entries_ok s" using s by (auto simp: stream_ok_def)
  have n: "0 < n" "n \<le> LZ4_MAX_INPUT_SIZE" "s_currentOffset s + n \<le> 2 ^ 31" using ok f by (auto simp: comp_ok_def)
  define Q where "Q i \<longleftrightarrow> P i \<and> (i = 0 \<or> i + 4 \<le> s_currentOffset s)" for i
  have e: "0 \<le> s_hashTable s h" "s_hashTable s h = 0 \<or> s_hashTable s h + 4 \<le> s_currentOffset s"
    if "0 \<le> h" "h < LZ4_HASH_SIZE_U32" for h using c(3) that by (auto simp: entries_ok_def)
  have "tbl Q C m (c_startIndex C + 1) (s_hashTable s)"
    unfolding tbl_def
  proof (intro allI impI, goal_cases)
    case (1 h)
    then have h: "0 \<le> h" "h < LZ4_HASH_SIZE_U32" using f by (auto simp: table_size_def)
    show ?case using e [OF h] T [OF h] f od c(1,2) by (auto simp: Q_def)
  qed
  with compress_validated_ok [OF C ok, of Q] P obtain r co T' m' where run:
      "LZ4_compress_generic_validated s m src dst n osz od byU32 dd di acc
        = Some (r, co, (advance s n byU32 dd)\<lparr>s_hashTable := T'\<rparr>, m')" "finished C room m r co m'"
      "if n < 13 then T' = s_hashTable s else tbl Q C m (c_startIndex C + n - 11) T'"
    by (auto simp: Q_def)
  let ?s = "(advance s n byU32 dd)\<lparr>s_hashTable := T'\<rparr>"
  have cur: "s_currentOffset ?s = s_currentOffset s + n" using n c by (simp add: advance_def)
  have "entries_ok ?s"
    unfolding entries_ok_def
  proof (intro allI impI, goal_cases)
    case (1 h)
    then have h: "0 \<le> h" "h < table_size (c_tableType C)" using f by (auto simp: table_size_def)
    show ?case
    proof (cases "n < 13")
      case True
      then show ?thesis using run(3) e [of h] 1 n cur by auto
    next
      case False
      then have t: "tbl Q C m (c_startIndex C + n - 11) T'" using run(3) by simp
      show ?thesis using tblD(1-3) [OF t h] f cur n(1) False by (cases "T' h < c_startIndex C") (auto simp: Q_def)
    qed
  qed
  moreover have "\<not> u32 n > u32 LZ4_MAX_INPUT_SIZE" using n by simp
  then have "drop_consumed (LZ4_compress_generic s m src dst n osz od byU32 dd di acc) = Some (r, ?s, m')"
    using n(1) run(1) by (simp add: LZ4_compress_generic_def drop_consumed_def)
  moreover have "block_written (chist C m src) (bytes m src n) m dst room r m'" "od = notLimited \<longrightarrow> 0 < r"
    using run(2) f od by (auto simp: finished_def block_written_def)
  moreover have "s_dictionary ?s = s_dictionary s" "s_dictSize ?s = (if dd = usingDictCtx then n else s_dictSize s + n)"
    "s_dictCtx ?s = (if dd = usingDictCtx then None else s_dictCtx s)"
    using n c by (auto simp: advance_def)
  ultimately show ?thesis using cur by blast
qed

lemma generic_empty:
  assumes "valid m dst room" "0 < room"
  shows "drop_consumed (LZ4_compress_generic s m src dst 0 room limitedOutput tt dd di acc) = Some (1, s, m(dst \<mapsto> 0))"
  using empty_block(1) [OF assms(1)] assms(2) by (simp add: LZ4_compress_generic_def drop_consumed_def)

definition old_entry :: "LZ4_stream_t \<Rightarrow> int \<Rightarrow> bool" where
  "old_entry s i \<longleftrightarrow> 0 \<le> i \<and> i < s_currentOffset s \<and> (i = 0 \<or> i + 4 \<le> s_currentOffset s)"

lemma stream_old_entry:
  "stream_ok s \<Longrightarrow> 0 \<le> h \<Longrightarrow> h < LZ4_HASH_SIZE_U32 \<Longrightarrow> s_hashTable s h < s_currentOffset s \<Longrightarrow> old_entry s (s_hashTable s h)"
  by (auto simp: stream_ok_def entries_ok_def old_entry_def)

text \<open>The search can take the old entries of a stream for positions of its dictionary.\<close>

lemma small_dict_old_ok:
  assumes "c_dictIssue C = small_dict s" "c_startIndex C = s_currentOffset s" "c_dictSize C = s_dictSize s" "c_tableType C = byU32"
    and "stream_ok s" "old_entry s i"
    and "c_maybe_extMem C \<Longrightarrow> s_dictSize s = 0 \<or> 4 \<le> s_dictSize s"
  shows "old_ok C i"
proof -
  have c: "0 \<le> s_dictSize s" "s_dictSize s \<le> s_currentOffset s" "s_currentOffset s \<le> 2 ^ 31" using assms(5) by (auto simp: stream_ok_def)
  show ?thesis
  proof (cases "i < s_currentOffset s - s_dictSize s")
    case True
    then show ?thesis using assms c
      by (auto simp: old_ok_def outside_valid_area_def c_prefixIdxLimit_def small_dict_def old_entry_def)
  next
    case False
    then show ?thesis using assms c by (auto simp: old_ok_def old_entry_def)
  qed
qed

text \<open>The outcome of a call: the block, the invariant, and a stream that remembers the block.\<close>

definition continued :: "byte list \<Rightarrow> mem \<Rightarrow> addr \<Rightarrow> addr \<Rightarrow> int \<Rightarrow> int \<Rightarrow> int \<Rightarrow> LZ4_stream_t \<Rightarrow> mem \<Rightarrow> bool" where
  "continued H m src dst n room r s' m' \<longleftrightarrow> block_written H (bytes m src n) m dst room r m' \<and> stream_ok s' \<and>
     suffix (stream_hist s' m') (H @ bytes m src n)"

lemma comp_env_of_stream:
  "dd \<noteq> usingDictCtx \<Longrightarrow> \<exists>C. comp_env_of s src dst n osz od tt dd di acc = Some C \<and> c_dictionary C = s_dictionary s \<and> c_dictSize C = s_dictSize s"
  by (auto simp: comp_env_of_def Let_def)

text \<open>Prefix mode: the input follows the dictionary.\<close>

lemma continue_prefix:
  assumes io: "io_ok m src dst n room" "0 < room" "0 < n" "n \<le> LZ4_MAX_INPUT_SIZE" and acc: "1 \<le> acc"
    and s: "stream_ok s" "s_currentOffset s + n \<le> 2 ^ 31" "s_dictCtx s = None"
    and d: "s_dictionary s + s_dictSize s = src" "s_dictSize s = 0 \<or> ro_ok m (s_dictionary s) (s_dictSize s) dst room"
  shows "\<exists>r s' m'. drop_consumed (LZ4_compress_generic s m src dst n room limitedOutput byU32 withPrefix64k (small_dict s) acc)
      = Some (r, s', m') \<and> continued (stream_hist s m) m src dst n room r s' m'"
proof -
  obtain C where C: "comp_env_of s src dst n room limitedOutput byU32 withPrefix64k (small_dict s) acc = Some C"
      "c_dictionary C = s_dictionary s" "c_dictSize C = s_dictSize s"
    using comp_env_of_stream by blast
  note f = comp_env_of_simps [OF C(1)]
  have c: "0 \<le> s_dictSize s" "s_dictSize s \<le> s_currentOffset s" using s by (auto simp: stream_ok_def)
  have lo: "c_lo C = s_dictionary s" using f C(3) d(1) by (simp add: c_lo_def)
  have dd: "valid m (s_dictionary s) (s_dictSize s)" "s_dictSize s = 0 \<or> src \<le> dst \<or> dst + room \<le> s_dictionary s"
    using d by (auto simp: ro_ok_def)
  have iob: "0 < src" "valid m src n" "valid m dst room" "src + n \<le> dst \<or> dst + room \<le> src" "room < 2 ^ 31"
    using io(1) by (auto simp: io_ok_def)
  have out: "src + n \<le> dst \<or> dst + room \<le> s_dictionary s" using dd(2) iob(4) io(2) d(1) by auto
  have ok: "comp_ok C room m"
    using f C lo c dd out iob io acc s(2)
    by (simp add: comp_ok_def c_iend_def c_maybe_extMem_def indexed_def)
  have P: "old_entry s i \<Longrightarrow> old_ok C i" for i
    by (rule small_dict_old_ok [where s = s]) (use f C s(1) in \<open>auto simp: c_maybe_extMem_def\<close>)
  have od: "limitedOutput \<noteq> fillOutput" by simp
  note g = generic_stream_ok [where P = "old_entry s", OF C(1) ok od P s(1) stream_old_entry [OF s(1)]]
  obtain r s' m' where run: "drop_consumed (LZ4_compress_generic s m src dst n room limitedOutput byU32 withPrefix64k (small_dict s) acc)
      = Some (r, s', m')" "block_written (chist C m src) (bytes m src n) m dst room r m'" "entries_ok s'"
      "s_currentOffset s' = s_currentOffset s + n" "s_dictionary s' = s_dictionary s"
      "s_dictSize s' = (if withPrefix64k = usingDictCtx then n else s_dictSize s + n)"
      "s_dictCtx s' = (if withPrefix64k = usingDictCtx then None else s_dictCtx s)"
    using g by blast
  have "src - s_dictSize s = s_dictionary s" using d(1) by simp
  then have h: "chist C m src = stream_hist s m"
    using chist_prefix [of C m] f C s(3) by (simp add: c_maybe_extMem_def stream_hist_def)
  have "frame m m' dst (dst + room)" using run(2) by (simp add: block_written_def)
  then have "bytes m' (s_dictionary s) (s_dictSize s + n) = bytes m (s_dictionary s) (s_dictSize s + n)"
    by (rule bytes_frame) (use out d(1) in auto)
  also have "\<dots> = stream_hist s m @ bytes m src n"
    using bytes_append [of "s_dictSize s" n m "s_dictionary s"] c io(3) s(3) d(1) by (simp add: stream_hist_def)
  finally have "continued (stream_hist s m) m src dst n room r s' m'"
    using run s c io(3) h by (simp add: continued_def stream_ok_def stream_hist_def)
  then show ?thesis using run(1) by blast
qed

text \<open>The two modes with an external dictionary, of which the block of the call becomes the next.\<close>

lemma continue_ext:
  assumes io: "io_ok m src dst n room" "0 < room" "0 < n" "n \<le> LZ4_MAX_INPUT_SIZE" and acc: "1 \<le> acc"
    and s: "stream_ok s" "s_currentOffset s + n \<le> 2 ^ 31"
    and C: "comp_env_of s src dst n room limitedOutput byU32 dd di acc = Some C" "dd = usingExtDict \<or> dd = usingDictCtx"
    and d: "c_dictionary C \<noteq> src" "0 \<le> c_dictSize C" "c_dictSize C \<le> s_currentOffset s" "ro_ok m (c_dictionary C) (c_dictSize C) dst room"
    and P: "\<And>i. P i \<Longrightarrow> old_ok C i"
    and T: "\<And>h. 0 \<le> h \<Longrightarrow> h < LZ4_HASH_SIZE_U32 \<Longrightarrow> s_hashTable s h < s_currentOffset s \<Longrightarrow> P (s_hashTable s h)"
    and ctx: "dd = usingDictCtx \<Longrightarrow> 0 \<le> c_dictOffset C \<and> c_dictOffset C \<le> s_currentOffset s
        \<and> (\<forall>h. 0 \<le> h \<and> h < table_size byU32 \<longrightarrow> dict_entry C (c_dictTable C h))"
      "dd = usingExtDict \<Longrightarrow> s_dictCtx s = None"
  shows "\<exists>r s' m'. drop_consumed (LZ4_compress_generic s m src dst n room limitedOutput byU32 dd di acc) = Some (r, s', m')
     \<and> continued (bytes m (c_dictionary C) (c_dictSize C)) m src dst n room r (s'\<lparr>s_dictionary := src, s_dictSize := u32 n\<rparr>) m'"
proof -
  note f = comp_env_of_simps [OF C(1)]
  have e: "c_maybe_extMem C" using f C(2) by (auto simp: c_maybe_extMem_def)
  have iob: "0 < src" "valid m src n" "valid m dst room" "src + n \<le> dst \<or> dst + room \<le> src" "room < 2 ^ 31"
    using io(1) by (auto simp: io_ok_def)
  have c: "0 \<le> s_currentOffset s" using d by linarith
  have ok: "comp_ok C room m"
    using f e d c iob io acc s(2) C(2) ctx(1)
    by (simp add: comp_ok_def c_iend_def indexed_def ro_ok_def) auto
  have od: "limitedOutput \<noteq> fillOutput" by simp
  obtain r s' m' where run: "drop_consumed (LZ4_compress_generic s m src dst n room limitedOutput byU32 dd di acc)
      = Some (r, s', m')" "block_written (chist C m src) (bytes m src n) m dst room r m'" "entries_ok s'"
      "s_currentOffset s' = s_currentOffset s + n" "s_dictCtx s' = (if dd = usingDictCtx then None else s_dictCtx s)"
    using generic_stream_ok [where P = P, OF C(1) ok od P s(1) T] by blast
  have h: "chist C m src = bytes m (c_dictionary C) (c_dictSize C)" using chist_ext [OF e, of m] f by simp
  have "frame m m' dst (dst + room)" using run(2) by (simp add: block_written_def)
  then have "bytes m' src n = bytes m src n" by (rule bytes_frame) (use iob in auto)
  moreover have "s_dictCtx s' = None" using run(5) ctx(2) C(2) by auto
  ultimately have "continued (bytes m (c_dictionary C) (c_dictSize C)) m src dst n room r (s'\<lparr>s_dictionary := src, s_dictSize := u32 n\<rparr>) m'"
    using run(2-4) s(2) io(3,4) c h by (simp add: continued_def stream_ok_def stream_hist_def entries_ok_def suffixI)
  then show ?thesis using run(1) by blast
qed

text \<open>A dictionary context with a large input: its table and dictionary are copied.\<close>

lemma loaded_copy:
  assumes "loaded d" defines "s \<equiv> LZ4_dict_t.extend d (LZ4_stream_t.fields None)"
  shows "stream_ok s" "s_currentOffset s = 65536" "s_dictCtx s = None" "s_dictionary s = s_dictionary d" "s_dictSize s = s_dictSize d"
  using assms(1) by (force simp: s_def LZ4_dict_t.defs LZ4_stream_t.defs loaded_def stream_ok_def entries_ok_def)+

lemma continue_ctx:
  assumes io: "io_ok m src dst n room" "0 < room" "0 < n" "n \<le> LZ4_MAX_INPUT_SIZE" and acc: "1 \<le> acc"
    and s: "stream_ok s" "s_currentOffset s + n \<le> 2 ^ 31" "s_dictCtx s = Some d"
    and d: "s_dictionary d \<noteq> src" "ro_ok m (s_dictionary d) (s_dictSize d) dst room"
  shows "\<exists>r s' m'. drop_consumed
      (if n > 4096
       then LZ4_compress_generic (LZ4_dict_t.extend d (LZ4_stream_t.fields None)) m src dst n room limitedOutput byU32 usingExtDict noDictIssue acc
       else LZ4_compress_generic s m src dst n room limitedOutput byU32 usingDictCtx noDictIssue acc) = Some (r, s', m')
     \<and> continued (bytes m (s_dictionary d) (s_dictSize d)) m src dst n room r (s'\<lparr>s_dictionary := src, s_dictSize := u32 n\<rparr>) m'"
proof -
  have l: "loaded d" "65536 \<le> s_currentOffset s" using s(1,3) by (auto simp: stream_ok_def)
  then have dz: "0 < s_dictSize d" "s_dictSize d \<le> 65536" "s_currentOffset d = 65536" by (auto simp: loaded_def)
  show ?thesis
  proof (cases "n > 4096")
    case True
    let ?s = "LZ4_dict_t.extend d (LZ4_stream_t.fields None)"
    note k = loaded_copy [OF l(1)]
    obtain C where C: "comp_env_of ?s src dst n room limitedOutput byU32 usingExtDict noDictIssue acc = Some C"
        "c_dictionary C = s_dictionary d" "c_dictSize C = s_dictSize d"
      using comp_env_of_stream [of usingExtDict ?s] k(4,5) by fastforce
    note f = comp_env_of_simps [OF C(1)]
    let ?P = "\<lambda>i. i = 0 \<or> 65536 - s_dictSize d \<le> i \<and> i + 8 \<le> 65536"
    have P: "?P i \<Longrightarrow> old_ok C i" for i using f k(2) C(3) by (auto simp: old_ok_def)
    have T: "?P (s_hashTable ?s h)" if "0 \<le> h" "h < LZ4_HASH_SIZE_U32" for h
      using l(1) that by (auto simp: loaded_def LZ4_dict_t.defs)
    show ?thesis
      using True continue_ext [where P = ?P, OF io acc k(1) _ C(1) _ _ _ _ _ P T] C(2,3) k(2,3) d dz io(4) by auto
  next
    case False
    obtain C where C: "comp_env_of s src dst n room limitedOutput byU32 usingDictCtx noDictIssue acc = Some C"
        "c_dictionary C = s_dictionary d" "c_dictSize C = s_dictSize d" "c_dictOffset C = 65536" "c_dictTable C = s_hashTable d"
      using s(3) dz(3) by (auto simp: comp_env_of_def Let_def)
    note f = comp_env_of_simps [OF C(1)]
    have "\<forall>h. 0 \<le> h \<and> h < table_size byU32 \<longrightarrow> dict_entry C (c_dictTable C h)"
      using l(1) C(3-5) dz(2) by (force simp: loaded_def dict_entry_def table_size_def)
    moreover have "old_ok C i" for i using f by (simp add: old_ok_def)
    ultimately show ?thesis
      using False continue_ext [where P = "\<lambda>i. True", OF io acc s(1,2) C(1)] C d dz l(2) by auto
  qed
qed

text \<open>The part of the dictionary that a call uses is readable.\<close>

lemma continue_ro:
  assumes ok: "continue_ok s m src dst n room" and cd: "continue_dict s src n = (s1, e)" and z: "s_dictSize s1 \<noteq> 0 \<or> e \<noteq> src \<and> 0 < n" "s_dictCtx s = None"
  shows "ro_ok m (s_dictionary s1) (s_dictSize s1) dst room"
proof -
  have t: "0 \<le> s_dictSize s1" "s_dictSize s1 \<le> s_dictSize s" "s_dictionary s1 + s_dictSize s1 = s_dictionary s + s_dictSize s"
    using continue_dict_ok(4,6) [OF ok cd] z by (auto simp: tail_of_def)
  have a: "0 \<le> s_dictionary s" "ro_ok m (s_dictionary s) (s_dictSize s) dst room" using ok z(2) by (auto simp: continue_ok_def)
  then have "s_dictionary s1 = 0 \<Longrightarrow> s_dictSize s1 = 0" using t by (auto simp: ro_ok_def)
  moreover have "valid m (s_dictionary s1) (s_dictSize s1)"
    by (rule valid_sub [of m "s_dictionary s" "s_dictSize s"]) (use a t in \<open>auto simp: ro_ok_def\<close>)
  ultimately show ?thesis using a t by (auto simp: ro_ok_def)
qed

theorem continue_step:
  assumes ok: "continue_ok s m src dst n room"
  shows "\<exists>r s' m'. LZ4_compress_fast_continue s m src dst n room acc = Some (r, s', m')
     \<and> continued (continue_hist s m src n) m src dst n room r s' m'"
proof -
  obtain s1 e where cd: "continue_dict s src n = (s1, e)" by fastforce
  note k = continue_dict_ok [OF ok cd]
  have io: "io_ok m src dst n room" "0 < room" "n \<le> LZ4_MAX_INPUT_SIZE" "0 \<le> n" using ok by (auto simp: continue_ok_def io_ok_def)
  have H: "continue_hist s m src n = stream_hist s1 m" using cd by (simp add: continue_hist_def)
  note acc = clamp_bounds(1) [of acc]
  show ?thesis
  proof (cases "n = 0")
    case True
    have v: "valid m dst room" using io(1) by (simp add: io_ok_def)
    let ?s = "if e = src then s1 else s1\<lparr>s_dictionary := src, s_dictSize := 0\<rparr>" and ?m = "m(dst \<mapsto> 0)"
    have run: "LZ4_compress_fast_continue s m src dst n room acc = Some (1, ?s, ?m)"
      using True cd generic_empty [OF v io(2)] by (cases "s_dictCtx s1") (simp_all add: LZ4_compress_fast_continue_def Let_def)
    have b: "block_written (stream_hist s1 m) [] m dst room 1 ?m" using empty_block(2) [OF v] io(2) by simp
    have fr: "frame m ?m dst (dst + room)" using b by (simp add: block_written_def)
    have ok1: "stream_ok ?s" using k(1) by (auto simp: stream_ok_def entries_ok_def split: option.splits)
    have "stream_hist s1 ?m = stream_hist s1 m"
    proof (cases "s_dictCtx s")
      case None
      then show ?thesis using continue_ro [OF ok cd _ None] k(3) ro_bytes [OF _ fr]
        by (cases "s_dictSize s1 = 0") (auto simp: stream_hist_def)
    next
      case (Some d)
      then show ?thesis using ok k(3) ro_bytes [OF _ fr] by (auto simp: continue_ok_def stream_hist_def)
    qed
    then have "suffix (stream_hist ?s ?m) (stream_hist s1 m)"
      by (cases "s_dictCtx s1") (auto simp: stream_hist_def)
    then show ?thesis using run b ok1 True H by (auto simp: continued_def)
  next
    case False
    with io(4) have n: "0 < n" by simp
    show ?thesis
    proof (cases "e = src")
      case True
      then show ?thesis
        using continue_prefix [OF io(1,2) n io(3) acc k(1,2)] k(3,5) continue_ro [OF ok cd] cd H
        by (auto simp: LZ4_compress_fast_continue_def)
    next
      case ext: False
      show ?thesis
      proof (cases "s_dictCtx s")
        case None
        obtain C where C: "comp_env_of s1 src dst n room limitedOutput byU32 usingExtDict (small_dict s1) (clamp_acceleration acc) = Some C"
            "c_dictionary C = s_dictionary s1" "c_dictSize C = s_dictSize s1"
          using comp_env_of_stream [of usingExtDict] by blast
        note f = comp_env_of_simps [OF C(1)] and d = k(6) [OF ext None n]
        have P: "old_entry s1 i \<Longrightarrow> old_ok C i" for i
          by (rule small_dict_old_ok [where s = s1]) (use f C k(1) d in auto)
        have ro: "ro_ok m (c_dictionary C) (c_dictSize C) dst room"
          using continue_ro [OF ok cd _ None] ext n C(2,3) by simp
        then show ?thesis
          using continue_ext [where P = "old_entry s1", OF io(1,2) n io(3) acc k(1,2) C(1) _ _ _ _ ro P stream_old_entry [OF k(1)]]
            ext None k(1,3) C(2,3) d cd H
          by (auto simp: LZ4_compress_fast_continue_def stream_hist_def stream_ok_def)
      next
        case (Some dc)
        then have a: "ro_ok m (s_dictionary dc) (s_dictSize dc) dst room" "s_dictionary dc \<noteq> src" "s_dictCtx s1 = Some dc"
          using ok k(3) n by (auto simp: continue_ok_def stream_ok_def loaded_def)
        show ?thesis
          using continue_ctx [OF io(1,2) n io(3) acc k(1,2) a(3,2,1)] ext cd H a(3)
          by (auto simp: LZ4_compress_fast_continue_def stream_hist_def)
      qed
    qed
  qed
qed

section \<open>The other operations keep the invariant\<close>

lemma zeroed_stream_ok: "stream_ok zeroed_stream" "stream_hist zeroed_stream m = []"
  by (simp_all add: stream_ok_def entries_ok_def zeroed_stream_def stream_hist_def)

text \<open>The states that \<open>LZ4_resetStream_fast\<close> accepts.\<close>

definition resettable :: "LZ4_stream_t \<Rightarrow> bool" where
  "resettable s \<longleftrightarrow> reusable s \<or> stream_ok s \<and> (s_tableType s = byU32 \<or> s_tableType s = clearedTable \<and> s_currentOffset s \<le> 2 ^ 30)"

lemma resetStream_fast_ok:
  assumes "resettable s"
  shows "stream_ok (LZ4_resetStream_fast s)" "stream_hist (LZ4_resetStream_fast s) m = []"
    "s_currentOffset (LZ4_resetStream_fast s) = 0 \<or> 65536 \<le> s_currentOffset (LZ4_resetStream_fast s)"
    "s_dictCtx (LZ4_resetStream_fast s) = None" "s_dictSize (LZ4_resetStream_fast s) = 0"
proof -
  let ?s = "LZ4_resetStream_fast s"
  have o: "s_tableType s = byU16 \<or> old_table byU32 s" "0 \<le> s_currentOffset s" "s_tableType s \<noteq> byPtr"
      "s_tableType s = clearedTable \<Longrightarrow> s_currentOffset s \<le> 2 ^ 30"
    using assms by (auto simp: resettable_def reusable_def stream_ok_def entries_ok_def old_table_def blank_table_def table_size_def
        split: tableType_t.splits)
  have f: "s_dictCtx ?s = None" "s_dictSize ?s = 0" by (simp_all add: LZ4_resetStream_fast_def LZ4_prepareTable_def Let_def)
  let ?reset = "s_tableType s \<noteq> clearedTable \<and> (s_tableType s \<noteq> byU32 \<or> s_currentOffset s > 2 ^ 30)"
  have c: "s_currentOffset ?s = 0 \<and> (\<forall>h. 0 \<le> h \<and> h < LZ4_HASH_SIZE_U32 \<longrightarrow> s_hashTable ?s h = 0)
      \<or> s_hashTable ?s = s_hashTable s \<and> old_table byU32 s \<and> s_currentOffset ?s = s_currentOffset s + 65536 \<and> s_currentOffset s \<le> 2 ^ 30"
  proof (cases ?reset)
    case True
    then show ?thesis by (auto simp: LZ4_resetStream_fast_def LZ4_prepareTable_def Let_def)
  next
    case False
    then have t: "old_table byU32 s" "s_currentOffset s \<le> 2 ^ 30" using o by auto
    then have z: "s_currentOffset s = 0 \<Longrightarrow> 0 \<le> h \<Longrightarrow> h < LZ4_HASH_SIZE_U32 \<Longrightarrow> s_hashTable s h = 0" for h
      by (force simp: old_table_def table_size_def)
    show ?thesis using False t o(2) z by (cases "s_currentOffset s = 0") (auto simp: LZ4_resetStream_fast_def LZ4_prepareTable_def Let_def)
  qed
  then have "entries_ok ?s" using o(2) by (fastforce simp: entries_ok_def old_table_def table_size_def)
  then show "stream_ok ?s" using c o(2) f by (auto simp: stream_ok_def)
  show "stream_hist ?s m = []" using f by (simp add: stream_hist_def)
  show "s_currentOffset ?s = 0 \<or> 65536 \<le> s_currentOffset ?s" using c o(2) by auto
  show "s_dictCtx ?s = None" "s_dictSize ?s = 0" using f by simp_all
qed

text \<open>Loading a dictionary fills the table with positions of the dictionary.\<close>

definition dict_table :: "int \<Rightarrow> table \<Rightarrow> bool" where
  "dict_table dz T \<longleftrightarrow> (\<forall>h. 0 \<le> h \<and> h < LZ4_HASH_SIZE_U32 \<longrightarrow> T h = 0 \<or> 65536 - dz \<le> T h \<and> T h + 8 \<le> 65536)"

lemma load_put:
  assumes "valid m p (e - p)" "p \<le> e - 8" "e - p \<le> dz" "dz \<le> 65536" "dict_table dz T"
  obtains h where "LZ4_hashPosition m p byU32 = Some h" "LZ4_getIndexOnHash h T byU32 = Some (T h)"
    "LZ4_putIndexOnHash (65536 - (e - p)) h T byU32 = Some (T(h := 65536 - (e - p)))" "dict_table dz (T(h := 65536 - (e - p)))"
proof -
  have "valid m p 8" using assms(1) by (rule valid_sub) (use assms(2) in auto)
  then obtain h where h: "LZ4_hashPosition m p byU32 = Some h" "0 \<le> h" "h < table_size byU32" by (rule hashPosition_ok)
  show thesis
    by (rule that [OF h(1)])
      (use h assms in \<open>auto simp: getIndex_ok putIndex_ok indexed_def dict_table_def\<close>)
qed

lemma load_positions_ok:
  assumes "valid m p (e - p)" "p \<le> e" "e - p \<le> dz" "dz \<le> 65536" "dict_table dz T"
  shows "\<exists>T'. load_positions m T p (65536 - (e - p)) e = Some T' \<and> dict_table dz T'"
  using assms
proof (induction "nat (e - p)" arbitrary: p T rule: less_induct)
  case less
  show ?case
  proof (cases "p \<le> e - 8")
    case True
    obtain h where h: "LZ4_hashPosition m p byU32 = Some h" "LZ4_putIndexOnHash (65536 - (e - p)) h T byU32 = Some (T(h := 65536 - (e - p)))"
        "dict_table dz (T(h := 65536 - (e - p)))"
      using load_put [OF less.prems(1) True less.prems(3-5)] by blast
    have v: "valid m (p + 3) (e - (p + 3))" using less.prems(1) by (rule valid_sub) auto
    have "u32 (65536 - (e - p) + 3) = 65536 - (e - (p + 3))" using less.prems True by simp
    then show ?thesis using less.hyps [of "p + 3" "T(h := 65536 - (e - p))"] h v less.prems True
      by (subst load_positions.simps) simp
  next
    case False
    then show ?thesis using less.prems by (subst load_positions.simps) simp
  qed
qed

lemma load_more_positions_ok:
  assumes "valid m p (e - p)" "p \<le> e" "e - p \<le> dz" "dz \<le> 65536" "dict_table dz T"
  shows "\<exists>T'. load_more_positions m T lim p (65536 - (e - p)) e = Some T' \<and> dict_table dz T'"
  using assms
proof (induction "nat (e - p)" arbitrary: p T rule: less_induct)
  case less
  show ?case
  proof (cases "p \<le> e - 8")
    case True
    obtain h where h: "LZ4_hashPosition m p byU32 = Some h" "LZ4_getIndexOnHash h T byU32 = Some (T h)"
        "LZ4_putIndexOnHash (65536 - (e - p)) h T byU32 = Some (T(h := 65536 - (e - p)))" "dict_table dz (T(h := 65536 - (e - p)))"
      using load_put [OF less.prems(1) True less.prems(3-5)] by blast
    have v: "valid m (p + 1) (e - (p + 1))" using less.prems(1) by (rule valid_sub) auto
    have "u32 (65536 - (e - p) + 1) = 65536 - (e - (p + 1))" using less.prems True by simp
    then show ?thesis using less.hyps [of "p + 1" "T(h := 65536 - (e - p))"] less.hyps [of "p + 1" T] h v less.prems True
      by (subst load_more_positions.simps) simp
  next
    case False
    then show ?thesis using less.prems by (subst load_more_positions.simps) simp
  qed
qed

theorem loadDict_ok:
  assumes v: "valid m a k" and k: "k < 2 ^ 31"
  shows "\<exists>s'. LZ4_loadDict_internal s m a k ld = Some (if k < 8 then 0 else min k 65536, s') \<and> stream_ok s' \<and> s_dictCtx s' = None
     \<and> s_currentOffset s' = 65536 \<and> stream_hist s' m = (if k < 8 then [] else bytes m (a + k - min k 65536) (min k 65536))
     \<and> (8 \<le> k \<longrightarrow> loaded (LZ4_dict_t.truncate s') \<and> s_dictionary s' = a + k - min k 65536)
     \<and> s_dictSize s' = (if k < 8 then 0 else min k 65536)"
proof (cases "k < 8")
  case True
  then show ?thesis
    by (simp add: LZ4_loadDict_internal_def LZ4_resetStream_def zeroed_stream_def stream_ok_def entries_ok_def stream_hist_def)
next
  case False
  let ?k = "min k 65536" and ?e = "a + k"
  have vk: "valid m (?e - ?k) (?e - (?e - ?k))" using v by (rule valid_sub) auto
  have kk: "?e - ?k \<le> ?e" "?e - (?e - ?k) \<le> ?k" "?k \<le> 65536" using False by auto
  have "dict_table ?k (\<lambda>h. 0)" by (simp add: dict_table_def)
  then obtain T where T: "load_positions m (\<lambda>h. 0) (?e - ?k) (65536 - ?k) ?e = Some T" "dict_table ?k T"
    using load_positions_ok [OF vk kk] by auto
  obtain T' where T': "load_more_positions m T 0 (?e - ?k) (65536 - ?k) ?e = Some T'" "dict_table ?k T'"
    using load_more_positions_ok [OF vk kk T(2), of 0] by auto
  let ?T = "if ld = ld_slow then T' else T"
  let ?s = "zeroed_stream\<lparr>s_currentOffset := 65536, s_dictionary := ?e - ?k, s_dictSize := ?k, s_tableType := byU32, s_hashTable := ?T\<rparr>"
  have p: "(if k > 65536 then ?e - 65536 else a) = ?e - ?k" by (simp add: min_def)
  have u: "u32 ?k = ?k" "u32 (65536 - ?k) = 65536 - ?k" using False by simp_all
  have "LZ4_loadDict_internal s m a k ld = Some (?k, ?s)"
    using False T(1) T'(1) u unfolding LZ4_loadDict_internal_def Let_def LZ4_resetStream_def
    by (simp add: p zeroed_stream_def)
  moreover have "dict_table ?k ?T" using T(2) T'(2) by simp
  then have "stream_ok ?s \<and> loaded (LZ4_dict_t.truncate ?s)"
    using False by (fastforce simp: stream_ok_def entries_ok_def loaded_def dict_table_def zeroed_stream_def LZ4_dict_t.defs)
  ultimately show ?thesis using False by (simp add: stream_hist_def zeroed_stream_def)
qed

lemma attach_ok:
  assumes "stream_ok w" "s_dictSize w = 0" "s_currentOffset w = 0 \<or> 65536 \<le> s_currentOffset w"
    and "s_dictSize d = 0 \<or> loaded (LZ4_dict_t.truncate d)"
  shows "stream_ok (LZ4_attach_dictionary w (Some d))"
    "stream_hist (LZ4_attach_dictionary w (Some d)) m = bytes m (s_dictionary d) (s_dictSize d)"
  using assms by (auto simp: LZ4_attach_dictionary_def stream_ok_def entries_ok_def stream_hist_def LZ4_dict_t.defs Let_def split: option.splits)

lemma bytes_suffix:
  assumes "0 \<le> k" "k \<le> n" "b + k = a + n" shows "suffix (bytes m b k) (bytes m a n)"
proof -
  have b: "b = a + (n - k)" using assms(3) by simp
  show ?thesis unfolding b using bytes_split [of "n - k" n m a] assms(1,2) by (simp add: suffixI)
qed

theorem saveDict_ok:
  assumes s: "stream_ok s" "s_dictCtx s = None" and v: "valid m (s_dictionary s) (s_dictSize s)" "0 \<le> k" "k < 2 ^ 31"
    and b: "valid m buf (min k 65536)"
  shows "\<exists>j s' m'. LZ4_saveDict s m buf k = Some (j, s', m') \<and> j = min (min k 65536) (s_dictSize s) \<and> frame m m' buf (buf + j)
     \<and> stream_ok s' \<and> s_dictCtx s' = None \<and> s_dictionary s' = buf \<and> s_dictSize s' = j \<and> suffix (stream_hist s' m') (stream_hist s m)"
proof -
  let ?j = "min (min k 65536) (s_dictSize s)" and ?e = "s_dictionary s + s_dictSize s"
  have z: "0 \<le> s_dictSize s" "s_dictSize s \<le> s_currentOffset s" "s_currentOffset s \<le> 2 ^ 31" "entries_ok s" using s by (auto simp: stream_ok_def)
  have j: "0 \<le> ?j" "u32 ?j = ?j" using z v by auto
  have vs: "valid m (?e - ?j) ?j" "valid m buf ?j"
    by (rule valid_sub [OF v(1)]; simp) (rule valid_sub [OF b]; auto)
  let ?m = "if ?j > 0 then blit m buf (?e - ?j) ?j else m"
  have "LZ4_saveDict s m buf k = Some (?j, s\<lparr>s_dictionary := buf, s_dictSize := ?j\<rparr>, ?m)"
    using memmove_Some [OF j(1) vs(2,1)] v z j by (auto simp: LZ4_saveDict_def Let_def min_def)
  moreover have "frame m ?m buf (buf + ?j)" using frame_blit [OF vs(2,1)] by simp
  moreover have "bytes ?m buf ?j = bytes m (?e - ?j) ?j" using bytes_blit [OF j(1), of m buf "?e - ?j"] by (cases "?j > 0") auto
  then have "suffix (bytes ?m buf ?j) (bytes m (s_dictionary s) (s_dictSize s))"
    using bytes_suffix [of ?j "s_dictSize s" "?e - ?j" "s_dictionary s" m] z j by simp
  moreover have "stream_ok (s\<lparr>s_dictionary := buf, s_dictSize := ?j\<rparr>)"
    using s z j by (auto simp: stream_ok_def entries_ok_def)
  ultimately show ?thesis using s(2) by (simp add: stream_hist_def)
qed

section \<open>The history over many calls\<close>

text \<open>The caller writes the next input, possibly over the start of the dictionary: what the call uses of
  the dictionary is still what it was.\<close>

theorem continue_hist_kept:
  assumes ok: "continue_ok s m src dst n room" and fr: "frame m0 m src (src + n)"
  shows "suffix (continue_hist s m src n) (stream_hist s m0)"
proof -
  obtain s1 e where cd: "continue_dict s src n = (s1, e)" by fastforce
  note k = continue_dict_ok [OF ok cd]
  have n: "0 \<le> n" using ok by (simp add: continue_ok_def io_ok_def)
  show ?thesis
  proof (cases "s_dictCtx s")
    case None
    let ?a = "s_dictionary s1" and ?k = "s_dictSize s1"
    have t: "0 \<le> ?k" "?k \<le> s_dictSize s" "?k = 0 \<or> ?a + ?k = s_dictionary s + s_dictSize s"
      using k(4) [OF None] by (auto simp: tail_of_def)
    have H: "continue_hist s m src n = bytes m ?a ?k" using cd None k(3) by (simp add: continue_hist_def stream_hist_def)
    have "?k = 0 \<or> n = 0 \<or> src + n \<le> ?a \<or> ?a + ?k \<le> src" using k(5,6) None n by (cases "e = src") auto
    moreover have "n = 0 \<Longrightarrow> m = m0" using frame_out [OF fr] by (metis add.right_neutral ext linorder_not_less)
    ultimately have "bytes m ?a ?k = bytes m0 ?a ?k" using bytes_frame [OF fr, of ?a ?k] by auto
    then show ?thesis
      using H None t bytes_suffix [of ?k "s_dictSize s" ?a "s_dictionary s" m0]
      by (cases "?k = 0") (auto simp: stream_hist_def)
  next
    case (Some d)
    then show ?thesis
      using ok cd k(3) bytes_frame [OF fr, of "s_dictionary d" "s_dictSize d"]
      by (auto simp: continue_hist_def stream_hist_def continue_ok_def)
  qed
qed

text \<open>Decoding a sequence of blocks, each with all the previous ones as its history.\<close>

fun decode_blocks :: "byte list \<Rightarrow> byte list list \<Rightarrow> byte list option" where
  "decode_blocks h [] = Some h"
| "decode_blocks h (b # bs) = Option.bind (decode_block h b) (\<lambda>h. decode_blocks h bs)"

lemma decode_blocks_append: "decode_blocks h (as @ bs) = Option.bind (decode_blocks h as) (\<lambda>h. decode_blocks h bs)"
  by (induction "as" arbitrary: h) (auto split: bind_splits)

text \<open>A session of a stream whose decoder starts with the history \<open>D\<close>: the caller writes an input and
  compresses it, saves the dictionary, or changes the memory elsewhere.  \<open>X\<close> is the history and
  everything compressed so far.\<close>

inductive session :: "byte list \<Rightarrow> LZ4_stream_t \<Rightarrow> mem \<Rightarrow> byte list \<Rightarrow> byte list list \<Rightarrow> bool" for D where
  start: "stream_ok s \<Longrightarrow> suffix (stream_hist s m) D \<Longrightarrow> session D s m D []"
| compress: "session D s m0 X bs \<Longrightarrow> frame m0 m src (src + n) \<Longrightarrow> continue_ok s m src dst n room \<Longrightarrow>
    LZ4_compress_fast_continue s m src dst n room acc = Some (r, s', m') \<Longrightarrow> 0 < r \<Longrightarrow>
    session D s' m' (X @ bytes m src n) (bs @ [bytes m' dst r])"
| save: "session D s m X bs \<Longrightarrow> s_dictCtx s = None \<Longrightarrow> valid m (s_dictionary s) (s_dictSize s) \<Longrightarrow> 0 \<le> k \<Longrightarrow> k < 2 ^ 31 \<Longrightarrow>
    valid m buf (min k 65536) \<Longrightarrow> LZ4_saveDict s m buf k = Some (j, s', m') \<Longrightarrow> session D s' m' X bs"
| elsewhere: "session D s m X bs \<Longrightarrow> stream_hist s m' = stream_hist s m \<Longrightarrow> session D s m' X bs"

lemma session_inv: "session D s m X bs \<Longrightarrow> stream_ok s \<and> suffix (stream_hist s m) X \<and> decode_blocks D bs = Some X"
proof (induction rule: session.induct)
  case (compress s m0 X bs m src n dst room acc r s' m')
  let ?H = "continue_hist s m src n" and ?t = "bytes m src n"
  have c: "continued ?H m src dst n room r s' m'" using continue_step [OF compress.hyps(3), of acc] compress.hyps(4) by auto
  have "suffix ?H X" using continue_hist_kept [OF compress.hyps(3,2)] compress.IH suffix_order.trans by blast
  then obtain p where p: "X = p @ ?H" by (auto simp: suffix_def)
  have "decode_block ?H (bytes m' dst r) = Some (?H @ ?t)" "stream_ok s'" "suffix (stream_hist s' m') (?H @ ?t)"
    using c compress.hyps(5) by (auto simp: continued_def block_written_def encoded_def)
  moreover from this have "suffix (stream_hist s' m') (X @ ?t)" by (auto simp: p suffix_append)
  ultimately show ?case using decode_block_longer compress.IH by (auto simp: decode_blocks_append p)
next
  case (save s m X bs k buf j s' m')
  then show ?case using saveDict_ok [of s m k buf] suffix_order.trans by fastforce
qed auto

end
