(* ===== verification/LZ4_CompProps.thy ===== *)
theory LZ4_CompProps
  imports LZ4_CompStream
begin

text \<open>
  What the compressing functions of lz4.c promise, stated over the functions themselves, each with an
  instance at a concrete memory.
\<close>

section \<open>Counting a match\<close>

text \<open>(C20) \<open>LZ4_count\<close> reads eight, four, two and one bytes at a time, always inside the two regions
  that end at the limit, and returns the length of the longest common prefix of the regions: the
  bytes before it are equal, and it ends at the limit or at a difference.\<close>

theorem count_longest_common_prefix:
  assumes "valid m p (lim - p)" "valid m q (lim - p)" "p \<le> lim" "lim - p < 2 ^ 32"
  shows "\<exists>k. LZ4_count m p q lim = Some k \<and> 0 \<le> k \<and> p + k \<le> lim \<and> (\<forall>i\<ge>0. i < k \<longrightarrow> m (p + i) = m (q + i))
     \<and> (p + k < lim \<longrightarrow> m (p + k) \<noteq> m (q + k))"
  using count_spec [OF assms] .

theorem count_longest_common_prefix_witness:
  "\<exists>k. LZ4_count (mem_of 0 (replicate 40 7)) 20 3 40 = Some k \<and> 0 \<le> k \<and> 20 + k \<le> 40"
proof -
  let ?m = "mem_of 0 (replicate 40 7)"
  have "valid ?m 20 20" "valid ?m 3 20" by (auto intro: valid_sub [OF valid_mem_of [of 40]])
  with count_longest_common_prefix [of ?m 20 40 3] show ?thesis by auto
qed

text \<open>(C21) The branch-free computation of \<open>LZ4_NbCommonBytes\<close> for compilers without a count of trailing zeros
  (a subtraction, a mask, a wrapping multiplication and a shift) agrees with the one that uses the
  builtin, on every 64-bit value that is not zero.\<close>

theorem NbCommonBytes_variants_agree:
  assumes "val \<noteq> 0"
  shows "uint (LZ4_NbCommonBytes_sw val) = LZ4_NbCommonBytes (uint val)"
  using NbCommonBytes_sw_eq [OF assms] by simp

theorem NbCommonBytes_variants_agree_witness:
  "(0x12345600000000 :: 64 word) \<noteq> 0 \<and>
     uint (LZ4_NbCommonBytes_sw 0x12345600000000) = LZ4_NbCommonBytes (uint (0x12345600000000 :: 64 word))"
  using NbCommonBytes_variants_agree [of "0x12345600000000"] by simp

section \<open>Sample buffers\<close>

text \<open>A text at address 1000, a buffer for the block at 2000, and one for the decoded text at 3000.\<close>

definition text_mem :: "byte list \<Rightarrow> mem" where
  "text_mem txt = mem_of 1000 txt ++ (mem_of 2000 (replicate 64 0) ++ mem_of 3000 (replicate 64 0))"

lemma text_mem_valid:
  "n \<le> int (length txt) \<Longrightarrow> valid (text_mem txt) 1000 n" "n \<le> 64 \<Longrightarrow> valid (text_mem txt) 2000 n" "n \<le> 64 \<Longrightarrow> valid (text_mem txt) 3000 n"
  using valid_add_left [OF valid_mem_of, of n "txt" 1000] valid_add_left [OF valid_mem_of, of n "replicate 64 0" 2000]
  by (auto simp: text_mem_def simp del: map_add_assoc)

lemma text_io: "0 \<le> n \<Longrightarrow> n \<le> int (length txt) \<Longrightarrow> n \<le> 64 \<Longrightarrow> 0 \<le> room \<Longrightarrow> room \<le> 64 \<Longrightarrow> io_ok (text_mem txt) 1000 2000 n room"
  using text_mem_valid by (simp add: io_ok_def)

lemma text_io_back:
  "frame (text_mem txt) m' lo hi \<Longrightarrow> 0 \<le> r \<Longrightarrow> r \<le> 64 \<Longrightarrow> 0 \<le> room \<Longrightarrow> room \<le> 64 \<Longrightarrow> io_ok m' 2000 3000 r room"
  using text_mem_valid by (simp add: io_ok_def frame_valid)

text \<open>Twenty-four bytes with a repetition.\<close>

definition sample_text :: "byte list" where
  "sample_text = [1, 2, 3, 4, 5, 6, 7, 8, 1, 2, 3, 4, 5, 6, 7, 8, 1, 2, 3, 4, 5, 6, 7, 8]"

lemma length_sample_text [simp]: "length sample_text = 24" by (simp add: sample_text_def)

section \<open>One-shot compression\<close>

lemma compress_default_ext:
  "LZ4_compress_default ctx m src dst n room = map_option (\<lambda>(r, s, m). (r, m)) (LZ4_compress_fast_extState ctx m src dst n room 1)"
  by (cases "LZ4_compress_fast_extState ctx m src dst n room 1") (auto simp: LZ4_compress_default_def LZ4_compress_fast_def)

text \<open>(C4) Round trip: a block that \<open>LZ4_compress_default\<close> reports to have written is decoded by
  \<open>LZ4_decompress_safe\<close> to exactly the bytes of the input, into every output buffer that can hold them.\<close>

theorem compress_default_round_trip:
  assumes "io_ok m src dst n room" "n \<le> LZ4_MAX_INPUT_SIZE" "LZ4_compress_default ctx m src dst n room = Some (r, m')" "0 < r"
    and "io_ok m' dst out r room'" "n \<le> room'" "0 < room'"
  shows "\<exists>m''. LZ4_decompress_safe m' dst out r room' = Some (n, m'') \<and> bytes m'' out n = bytes m src n"
  using ext_state.round_trip [OF assms(1,2) _ _ assms(4-7), of ctx 1] assms(3) by (auto simp: compress_default_ext)

lemma sample_compresses:
  "\<exists>r m'. LZ4_compress_default ctx (text_mem sample_text) 1000 2000 24 64 = Some (r, m') \<and> 0 < r \<and> r \<le> 64
     \<and> frame (text_mem sample_text) m' 2000 2064"
  using ext_state.compresses [OF text_io [of 24 sample_text 64], of ctx 1]
  by (auto simp: compress_default_ext block_written_def LZ4_compressBound_def)

theorem compress_default_round_trip_witness:
  "\<exists>r m' m''. LZ4_compress_default zeroed_stream (text_mem sample_text) 1000 2000 24 64 = Some (r, m') \<and> 0 < r
     \<and> LZ4_decompress_safe m' 2000 3000 r 30 = Some (24, m'') \<and> bytes m'' 3000 24 = bytes (text_mem sample_text) 1000 24"
proof -
  obtain r m' where r: "LZ4_compress_default zeroed_stream (text_mem sample_text) 1000 2000 24 64 = Some (r, m')" "0 < r" "r \<le> 64"
      "frame (text_mem sample_text) m' 2000 2064"
    using sample_compresses by blast
  have "io_ok (text_mem sample_text) 1000 2000 24 64" by (rule text_io) simp_all
  moreover have "io_ok m' 2000 3000 r 30" by (rule text_io_back [OF r(4)]) (use r in auto)
  ultimately show ?thesis using compress_default_round_trip [of _ _ _ 24 64 zeroed_stream r m' 3000 30] r by fastforce
qed

text \<open>(C10) \<open>LZ4_compressBound\<close> is enough: with an output buffer of at least that size every function of the
  family succeeds, the block takes at most \<open>LZ4_compressBound\<close> bytes, and no byte beyond those is touched.\<close>

theorem compressBound_suffices:
  assumes "io_ok m src dst n room" "n \<le> LZ4_MAX_INPUT_SIZE" "LZ4_compressBound n \<le> room"
  shows "\<exists>r s' m'. LZ4_compress_fast_extState s m src dst n room acc = Some (r, s', m') \<and> 0 < r \<and> r \<le> LZ4_compressBound n
     \<and> frame m m' dst (dst + LZ4_compressBound n)"
proof -
  let ?b = "LZ4_compressBound n"
  have "0 \<le> n" using assms(1) by (simp add: io_ok_def)
  then have b: "0 \<le> ?b" using assms(2) compressBound_pos [of n] by (simp add: compressBound_eq)
  have "valid m dst ?b" by (rule valid_sub [of m dst room]) (use assms b in \<open>auto simp: io_ok_def\<close>)
  then have io: "io_ok m src dst n ?b" using assms b by (auto simp: io_ok_def)
  have "LZ4_compress_fast_extState s m src dst n room acc = LZ4_compress_fast_extState s m src dst n ?b acc"
    using assms(3) by (simp add: LZ4_compress_fast_extState_def)
  then show ?thesis using ext_state.compresses [OF io assms(2), of s acc] by (auto simp: block_written_def)
qed

theorem compressBound_suffices_witness:
  "\<exists>r s' m'. LZ4_compress_fast_extState zeroed_stream (text_mem sample_text) 1000 2000 24 64 5 = Some (r, s', m') \<and> 0 < r
     \<and> r \<le> LZ4_compressBound 24"
  using compressBound_suffices [OF text_io [of 24 sample_text 64], of zeroed_stream 5] by (auto simp: LZ4_compressBound_def)

text \<open>(C9) Limited output: whatever the size of the output buffer, \<open>LZ4_compress_fast\<close> returns, writes inside
  of the buffer only, and returns 0 or the size of a block that decodes to the input.\<close>

theorem compress_fast_contained:
  assumes "io_ok m src dst n room" "n \<le> LZ4_MAX_INPUT_SIZE"
  shows "\<exists>r m'. LZ4_compress_fast ctx m src dst n room acc = Some (r, m') \<and> 0 \<le> r \<and> r \<le> room \<and> frame m m' dst (dst + room)
     \<and> (r = 0 \<or> decode_block [] (bytes m' dst r) = Some (bytes m src n))"
  using ext_state.compresses [OF assms, of ctx acc] by (auto simp: LZ4_compress_fast_def block_written_def encoded_def)

theorem compress_fast_contained_witness:
  "\<exists>r m'. LZ4_compress_fast zeroed_stream (text_mem sample_text) 1000 2000 24 7 1 = Some (r, m') \<and> r \<le> 7
     \<and> frame (text_mem sample_text) m' 2000 2007"
  using compress_fast_contained [OF text_io [of 24 sample_text 7], of zeroed_stream 1] by auto

text \<open>(C19) An input size that is negative or larger than \<open>LZ4_MAX_INPUT_SIZE\<close> is refused: the result is 0, and
  neither the output nor anything else is written.\<close>

theorem compress_fast_refuses:
  assumes "n < 0 \<or> LZ4_MAX_INPUT_SIZE < n" "- (2 ^ 31) \<le> n" "n < 2 ^ 31"
  shows "LZ4_compress_fast ctx m src dst n room acc = Some (0, m) \<and> LZ4_compressBound n = 0"
proof (rule conjI)
  have "u32 n = (n + 4294967296) mod 4294967296" by (simp add: u32_def)
  then have "n < 0 \<Longrightarrow> u32 n = n + 4294967296" using assms(2) by (simp add: mod_pos_pos_trivial del: mod_add_self2)
  then have "LZ4_MAX_INPUT_SIZE < u32 n" using assms by (cases "n < 0") auto
  then have big: "u32 n > u32 LZ4_MAX_INPUT_SIZE" by simp
  then have g: "LZ4_compress_generic s m src dst n osz od tt dd di a = Some (0, None, s, m)" for s osz od tt dd di a
    by (simp add: LZ4_compress_generic_def)
  show "LZ4_compressBound n = 0" using big by (simp add: LZ4_compressBound_def)
  show "LZ4_compress_fast ctx m src dst n room acc = Some (0, m)"
    by (simp add: LZ4_compress_fast_def LZ4_compress_fast_extState_def LZ4_initStream_def g drop_consumed_def Let_def)
qed

theorem compress_fast_refuses_witness:
  "LZ4_compress_fast zeroed_stream (text_mem sample_text) 1000 2000 (- 1) 64 1 = Some (0, text_mem sample_text)
     \<and> LZ4_compressBound 0x7F000000 = 0"
  using compress_fast_refuses [of "- 1"] compress_fast_refuses [of "0x7F000000"] by simp

text \<open>(C11) \<open>LZ4_compress_destSize\<close> always fills a non-empty output buffer with a block: it reports how much of
  the input it consumed, and the block decodes to exactly that prefix.\<close>

theorem destSize_prefix:
  assumes "io_ok m src dst n room" "n \<le> LZ4_MAX_INPUT_SIZE" "0 < room"
  shows "\<exists>r k m'. LZ4_compress_destSize ctx m src dst n room = Some (r, k, m') \<and> 0 < r \<and> r \<le> room \<and> 0 \<le> k \<and> k \<le> n
     \<and> frame m m' dst (dst + room) \<and> decode_block [] (bytes m' dst r) = Some (bytes m src k)"
  using destSize_internal_ok [OF assms(1,2), of 1 ctx] assms(3)
  by (fastforce simp: LZ4_compress_destSize_def block_written_def encoded_def)

theorem destSize_prefix_witness:
  "\<exists>r k m'. LZ4_compress_destSize zeroed_stream (text_mem sample_text) 1000 2000 24 6 = Some (r, k, m') \<and> 0 < r \<and> r \<le> 6
     \<and> decode_block [] (bytes m' 2000 r) = Some (bytes (text_mem sample_text) 1000 k)"
  using destSize_prefix [OF text_io [of 24 sample_text 6], of zeroed_stream] by auto

text \<open>(C12) A state may be reused without a full reset: from a state that a compression left behind,
  \<open>LZ4_compress_fast_extState_fastReset\<close> writes a block that decodes to its input without any history, and
  leaves a state that may be reused again.\<close>

theorem fastReset_invariant:
  assumes "io_ok m src dst n room" "n \<le> LZ4_MAX_INPUT_SIZE" "reusable s"
  shows "\<exists>r s' m'. LZ4_compress_fast_extState_fastReset s m src dst n room acc = Some (r, s', m') \<and> reusable s'
     \<and> frame m m' dst (dst + room) \<and> 0 \<le> r \<and> r \<le> room \<and> (LZ4_compressBound n \<le> room \<longrightarrow> 0 < r)
     \<and> (0 < r \<longrightarrow> decode_block [] (bytes m' dst r) = Some (bytes m src n))"
  using fast_reset.compresses [OF assms, of acc] by (auto simp: block_written_def encoded_def)

lemma reusable_zeroed: "reusable zeroed_stream"
  using blank_zeroed [of byU16] by (simp add: reusable_def zeroed_stream_def)

theorem fastReset_invariant_witness:
  "\<exists>r s m' r' s' m''. LZ4_compress_fast_extState_fastReset zeroed_stream (text_mem sample_text) 1000 2000 24 64 1 = Some (r, s, m')
     \<and> LZ4_compress_fast_extState_fastReset s m' 1000 2000 24 64 1 = Some (r', s', m'') \<and> 0 < r' \<and> reusable s'"
proof -
  have io: "io_ok (text_mem sample_text) 1000 2000 24 64" by (rule text_io) simp_all
  obtain r s m' where 1: "LZ4_compress_fast_extState_fastReset zeroed_stream (text_mem sample_text) 1000 2000 24 64 1 = Some (r, s, m')"
      "reusable s" "frame (text_mem sample_text) m' 2000 2064"
    using fastReset_invariant [OF io _ reusable_zeroed, of 1] by auto
  have "io_ok m' 1000 2000 24 64" using io 1(3) by (simp add: io_ok_def frame_valid)
  then show ?thesis using fastReset_invariant [of m' 1000 2000 24 64 s 1] 1 by (auto simp: LZ4_compressBound_def)
qed

section \<open>Streaming compression\<close>

text \<open>(C6) One block of a stream: \<open>LZ4_compress_fast_continue\<close> returns and writes inside of its output buffer
  only; the block decodes to the input with the part of the dictionary that the input does not overlap
  as its history; the stream keeps its invariant, and its new dictionary is a tail of that history and
  the input.\<close>

theorem compress_continue_block:
  assumes "continue_ok s m src dst n room"
  shows "\<exists>r s' m'. LZ4_compress_fast_continue s m src dst n room acc = Some (r, s', m') \<and> frame m m' dst (dst + room) \<and> r \<le> room
     \<and> stream_ok s' \<and> suffix (stream_hist s' m') (continue_hist s m src n @ bytes m src n)
     \<and> (0 < r \<longrightarrow> decode_block (continue_hist s m src n) (bytes m' dst r) = Some (continue_hist s m src n @ bytes m src n))"
  using continue_step [OF assms, of acc] by (auto simp: continued_def block_written_def encoded_def)

lemma text_continue:
  assumes "0 \<le> n" "n \<le> int (length bs)" "n \<le> 64" "0 < room" "room \<le> 64"
  shows "continue_ok zeroed_stream (text_mem bs) 1000 2000 n room"
  using assms text_io zeroed_stream_ok by (auto simp: continue_ok_def ro_ok_def zeroed_stream_def)

theorem compress_continue_block_witness:
  "\<exists>r s' m'. LZ4_compress_fast_continue zeroed_stream (text_mem sample_text) 1000 2000 24 64 1 = Some (r, s', m') \<and> r \<le> 64 \<and> stream_ok s'"
  using compress_continue_block [OF text_continue [of 24 sample_text 64], of 1] by auto

text \<open>(C5) Round trip of a session: whatever inputs a caller compresses with \<open>LZ4_compress_fast_continue\<close>, also
  in a ring buffer where an input overwrites the start of the dictionary, and whenever it saves the
  dictionary with \<open>LZ4_saveDict\<close>, the blocks decode one after the other to the inputs.\<close>

theorem session_round_trip:
  assumes "session D s m X bs"
  shows "decode_blocks D bs = Some X"
  using session_inv [OF assms] by simp

text \<open>A first block, after which the last twelve bytes are saved at another place.\<close>

lemma sample_continue:
  "map_option (\<lambda>(r, s, m). (r, s_dictSize s, s_dictionary s, s_dictCtx s = None))
     (LZ4_compress_fast_continue zeroed_stream (text_mem sample_text) 1000 2000 24 64 1) = Some (17, 24, 1000, True)"
  by code_simp

lemma sample_session:
  "\<exists>s m b. session [] s m (bytes (text_mem sample_text) 1000 24) [b] \<and> s_dictionary s = 3000 \<and> s_dictSize s = 12"
proof -
  let ?m = "text_mem sample_text"
  have c: "continue_ok zeroed_stream ?m 1000 2000 24 64" by (rule text_continue) simp_all
  obtain s m' where r: "LZ4_compress_fast_continue zeroed_stream ?m 1000 2000 24 64 1 = Some (17, s, m')"
      "s_dictSize s = 24" "s_dictionary s = 1000" "s_dictCtx s = None"
    using sample_continue by (auto simp: map_option_case split: option.splits)
  have 1: "session [] s m' ([] @ bytes ?m 1000 24) ([] @ [bytes m' 2000 17])"
    using zeroed_stream_ok by (intro session.compress [OF session.start [of _ ?m] frame_refl c r(1)]) auto
  have "frame ?m m' 2000 2064" using continue_step [OF c, of 1] r(1) by (auto simp: continued_def block_written_def)
  then have v: "valid m' 1000 24" "valid m' 3000 12" using text_mem_valid(1,3) [of 24 sample_text] text_mem_valid(3) [of 12 sample_text]
    by (simp_all add: frame_valid)
  obtain s' m'' where s: "LZ4_saveDict s m' 3000 12 = Some (12, s', m'')" "s_dictionary s' = 3000" "s_dictSize s' = 12"
    using saveDict_ok [of s m' 12 3000] session_inv [OF 1] r v by auto
  show ?thesis using session.save [OF 1 r(4) _ _ _ _ s(1)] r v s by auto
qed

theorem session_round_trip_witness:
  "\<exists>s m b. session [] s m (bytes (text_mem sample_text) 1000 24) [b] \<and> decode_blocks [] [b] = Some (bytes (text_mem sample_text) 1000 24)"
  using sample_session session_round_trip by blast

text \<open>(C13) Round trip of a block of a stream, with the block sent to another memory: \<open>LZ4_decompress_safe_usingDict\<close>
  decodes it, given a dictionary that ends with the history the compressor used.\<close>

theorem continue_usingDict_round_trip:
  assumes ok: "continue_ok s m src dst n room" and run: "LZ4_compress_fast_continue s m src dst n room acc = Some (r, s', m')" "0 < r"
    and io: "io_ok m2 blk out r room'" "ro_ok m2 ds dz out room'" "n \<le> room'" "0 < room'" and sent: "bytes m2 blk r = bytes m' dst r"
    and D: "suffix (continue_hist s m src n) (bytes m2 ds dz)"
  shows "\<exists>m3. LZ4_decompress_safe_usingDict m2 blk out r room' ds dz = Some (n, m3) \<and> bytes m3 out n = bytes m src n"
proof -
  let ?H = "continue_hist s m src n" and ?D = "bytes m2 ds dz" and ?b = "bytes m' dst r"
  have n: "0 \<le> n" using ok by (simp add: continue_ok_def io_ok_def)
  obtain p where p: "?D = p @ ?H" using D by (auto simp: suffix_def)
  have e: "encoded ?H (bytes m src n) m' dst r"
    using continue_step [OF ok, of acc] run by (auto simp: continued_def block_written_def)
  have "conforming (Some (int (length ?D) + n)) ?D ?b"
    using conforming_longer [of "Some (int (length ?H + length (bytes m src n)))" ?H ?b p] e n
    by (simp add: encoded_def p algebra_simps)
  then have "conforming (Some (int (length ?D) + room')) ?D ?b" by (rule conforming_mono) (use io(3) in simp)
  then obtain d m3 where "decode_block ?D ?b = Some (?D @ d)"
      "LZ4_decompress_safe_usingDict m2 blk out r room' ds dz = Some (int (length d), m3)" "bytes m3 out (int (length d)) = d"
    using using_dict.accepts [OF io(1,2,4)] sent by auto
  moreover have "decode_block ?D ?b = Some (?D @ bytes m src n)"
    using decode_block_longer [of ?H ?b _ p] e by (simp add: encoded_def p)
  ultimately show ?thesis using n by auto
qed

theorem continue_usingDict_round_trip_witness:
  "\<exists>s m' m3. LZ4_compress_fast_continue zeroed_stream (text_mem sample_text) 1000 2000 24 64 1 = Some (17, s, m')
     \<and> LZ4_decompress_safe_usingDict m' 2000 3000 17 24 0 0 = Some (24, m3) \<and> bytes m3 3000 24 = bytes (text_mem sample_text) 1000 24"
proof -
  let ?m = "text_mem sample_text"
  have c: "continue_ok zeroed_stream ?m 1000 2000 24 64" by (rule text_continue) simp_all
  obtain s m' where r: "LZ4_compress_fast_continue zeroed_stream ?m 1000 2000 24 64 1 = Some (17, s, m')"
    using sample_continue by (auto simp: map_option_case split: option.splits)
  have "frame ?m m' 2000 2064" using continue_step [OF c, of 1] r by (auto simp: continued_def block_written_def)
  then have io: "io_ok m' 2000 3000 17 24" by (rule text_io_back) simp_all
  have "suffix (continue_hist zeroed_stream ?m 1000 24) (bytes m' 0 0)"
    using continue_hist_kept [OF c frame_refl] zeroed_stream_ok(2) by simp
  then show ?thesis using continue_usingDict_round_trip [OF c r _ io _ _ _ _ , of 0 0] r by (auto simp: ro_ok_def)
qed

text \<open>(C16) The overlap test of \<open>LZ4_compress_fast_continue\<close>: the caller may write the next input over the start of
  the dictionary (a ring buffer); what the call then uses as its history is still a tail of the
  dictionary as it was before.\<close>

theorem overlap_keeps_history:
  assumes "continue_ok s m src dst n room" "frame m0 m src (src + n)"
  shows "suffix (continue_hist s m src n) (stream_hist s m0)"
  using continue_hist_kept [OF assms] .

text \<open>A dictionary of 24 bytes at 1000, the first ten of which the caller overwrites.\<close>

definition sample_over :: "byte list" where "sample_over = [9, 9, 9, 9, 9, 9, 9, 9, 9, 9]"

definition over_mem :: mem where "over_mem = fill (text_mem sample_text) 1000 sample_over"

lemma over_frame: "frame (text_mem sample_text) over_mem 1000 1010"
  using frame_fill [of "text_mem sample_text" 1000 sample_over] text_mem_valid(1) [of 10 sample_text]
  by (simp add: over_mem_def sample_over_def)

theorem overlap_keeps_history_witness:
  "\<exists>s. stream_hist s (text_mem sample_text) = bytes (text_mem sample_text) 1000 24
     \<and> suffix (continue_hist s over_mem 1000 10) (bytes (text_mem sample_text) 1000 24)"
proof -
  let ?m0 = "text_mem sample_text"
  obtain s where s: "stream_ok s" "s_dictCtx s = None" "stream_hist s ?m0 = bytes ?m0 1000 24" "s_dictionary s = 1000" "s_dictSize s = 24"
    using loadDict_ok [OF text_mem_valid(1) [of 24 sample_text], of zeroed_stream ld_fast] by auto
  have v: "valid over_mem a n = valid ?m0 a n" for a n using frame_valid [OF over_frame] .
  have "io_ok over_mem 1000 2000 10 64" using text_io [of 10 sample_text 64] by (simp add: io_ok_def v)
  moreover have "ro_ok over_mem 1000 24 2000 64" using text_mem_valid(1) [of 24 sample_text] by (simp add: ro_ok_def v)
  ultimately have "continue_ok s over_mem 1000 2000 10 64" using s by (simp add: continue_ok_def)
  then have "suffix (continue_hist s over_mem 1000 10) (stream_hist s ?m0)" by (rule overlap_keeps_history) (use over_frame in simp)
  then show ?thesis using s(3) by auto
qed

text \<open>(C17) \<open>LZ4_loadDict\<close> remembers the last 64 KB of the dictionary (nothing of a dictionary of less than eight
  bytes); a fresh stream to which the result is attached has that as its history, and the invariant.\<close>

theorem loaded_dictionary_is_history:
  assumes "valid m a k" "k < 2 ^ 31"
  shows "\<exists>d. LZ4_loadDict_internal s m a k ld = Some (if k < 8 then 0 else min k 65536, d) \<and> stream_ok d
     \<and> stream_hist d m = (if k < 8 then [] else bytes m (a + k - min k 65536) (min k 65536))
     \<and> stream_ok (LZ4_attach_dictionary zeroed_stream (Some d))
     \<and> stream_hist (LZ4_attach_dictionary zeroed_stream (Some d)) m = stream_hist d m"
proof -
  obtain d where d: "LZ4_loadDict_internal s m a k ld = Some (if k < 8 then 0 else min k 65536, d)" "stream_ok d" "s_dictCtx d = None"
      "stream_hist d m = (if k < 8 then [] else bytes m (a + k - min k 65536) (min k 65536))"
      "8 \<le> k \<longrightarrow> loaded (LZ4_dict_t.truncate d)" "k < 8 \<longrightarrow> s_dictSize d = 0"
    using loadDict_ok [OF assms, of s ld] by auto
  then have "s_dictSize d = 0 \<or> loaded (LZ4_dict_t.truncate d)" by linarith
  note a = attach_ok [OF zeroed_stream_ok(1) _ _ this]
  have "stream_ok (LZ4_attach_dictionary zeroed_stream (Some d))"
      "stream_hist (LZ4_attach_dictionary zeroed_stream (Some d)) m = bytes m (s_dictionary d) (s_dictSize d)"
    by (rule a; simp add: zeroed_stream_def)+
  moreover have "stream_hist d m = bytes m (s_dictionary d) (s_dictSize d)" using d(3) by (simp add: stream_hist_def)
  ultimately show ?thesis using d(1,2,4) by auto
qed

theorem loaded_dictionary_is_history_witness:
  "\<exists>d. LZ4_loadDict_internal zeroed_stream (text_mem sample_text) 1000 24 ld_slow = Some (24, d) \<and> stream_ok d
     \<and> stream_hist (LZ4_attach_dictionary zeroed_stream (Some d)) (text_mem sample_text) = bytes (text_mem sample_text) 1000 24"
  using loaded_dictionary_is_history [OF text_mem_valid(1) [of 24 sample_text], of zeroed_stream ld_slow] by auto



section \<open>Where the code departs from its documentation\<close>





text \<open>\<open>LZ4_prepareTable\<close> tests \<open>currentOffset\<close> only for tables that are in use: on a cleared table with a gap every
  \<open>LZ4_resetStream_fast\<close> adds another 64 KB, beyond any bound.\<close>

lemma resetStream_fast_drifts:
  assumes "s_tableType s = clearedTable" "s_currentOffset s = 65536" "k < 65535"
  shows "s_currentOffset ((LZ4_resetStream_fast ^^ k) s) = 65536 * int (k + 1) \<and> s_tableType ((LZ4_resetStream_fast ^^ k) s) = clearedTable"
  using assms(3)
proof (induction k)
  case (Suc k)
  define t where "t = (LZ4_resetStream_fast ^^ k) s"
  have "s_currentOffset t = 65536 * int (k + 1)" "s_tableType t = clearedTable" using Suc by (auto simp: t_def)
  then have "s_currentOffset (LZ4_resetStream_fast t) = 65536 * int (k + 2) \<and> s_tableType (LZ4_resetStream_fast t) = clearedTable"
    using Suc.prems by (simp add: LZ4_resetStream_fast_def LZ4_prepareTable_def Let_def)
  then show ?case by (simp add: t_def)
qed (use assms in simp)

text \<open>A stream to which a dictionary was attached starts at 64 KB; the reset for a table of 16-bit indexes keeps
  that, and the first index it stores is 65536, which the assertion of \<open>LZ4_putIndexOnHash\<close> excludes.\<close>

lemma fastReset_after_attach:
  "s_currentOffset (LZ4_prepareTable (LZ4_attach_dictionary zeroed_stream (Some d)) n byU16) = 65536"
  by (simp add: LZ4_prepareTable_def LZ4_attach_dictionary_def zeroed_stream_def Let_def)

end
