(* ===== verification/XXH_Spec.thy ===== *)
theory XXH_Spec
  imports LZ4_Prelude
begin

text \<open>
  What the two hash functions of xxhash.c have in common: little-endian words, the absorption of
  whole stripes, and the rest that a streaming state keeps in its buffer.
\<close>

section \<open>Reading words\<close>

fun le_word :: "byte list \<Rightarrow> 'a :: len word" where
  "le_word [] = 0"
| "le_word (b # bs) = ucast b + 256 * le_word bs"

text \<open>The bytes of a word in the memory of a little-endian machine.\<close>

fun word_bytes :: "nat \<Rightarrow> 'a :: len word \<Rightarrow> byte list" where
  "word_bytes 0 w = []"
| "word_bytes (Suc n) w = ucast w # word_bytes n (drop_bit 8 w)"

lemma length_word_bytes [simp]: "length (word_bytes n w) = n"
  by (induction n arbitrary: w) auto

lemma le_word_bytes: "le_word (word_bytes n w) = take_bit (8 * n) (w :: 'a :: len word)"
proof (induction n arbitrary: w)
  case (Suc n)
  let ?a = "ucast (ucast w :: byte) :: 'a word" and ?b = "push_bit 8 (take_bit (8 * n) (drop_bit 8 w))"
  have "256 * take_bit (8 * n) (drop_bit 8 w) = ?b" by (simp add: push_bit_eq_mult)
  moreover have "?a + ?b = ?a OR ?b"
    by (rule disjunctive_add) (auto simp: bit_simps)
  moreover have "?a OR ?b = take_bit (8 * Suc n) w"
    by (rule bit_eqI) (auto simp: bit_simps)
  ultimately show ?case using Suc by simp
qed simp

text \<open>\<open>memcpy\<close> of \<open>n\<close> bytes into a local object.\<close>

fun read_bytes :: "mem \<Rightarrow> addr \<Rightarrow> nat \<Rightarrow> byte list option" where
  "read_bytes m p 0 = Some []"
| "read_bytes m p (Suc n) = do { b \<leftarrow> m p; bs \<leftarrow> read_bytes m (p + 1) n; Some (b # bs) }"

lemma read_bytes_Some: "valid m p (int n) \<Longrightarrow> read_bytes m p n = Some (bytes m p (int n))"
proof (induction n arbitrary: p)
  case (Suc n)
  obtain b where b: "m p = Some b" using valid_at [OF Suc.prems, of p] by auto
  have "valid m (p + 1) (int n)" using Suc.prems by (rule valid_sub) auto
  then show ?case using Suc.IH b by (simp add: bytes_Cons)
qed simp

lemma length_read_bytes: "read_bytes m p n = Some bs \<Longrightarrow> length bs = n"
  by (induction n arbitrary: p bs) (auto split: bind_splits)

text \<open>The buffer of a streaming state, and \<open>memcpy\<close> into it at an offset.\<close>

definition put_bytes :: "byte list \<Rightarrow> nat \<Rightarrow> byte list \<Rightarrow> byte list option" where
  "put_bytes buf off bs = (if off + length bs \<le> length buf then Some (take off buf @ bs @ drop (off + length bs) buf) else None)"

lemma put_bytes_Some:
  assumes "off + length bs \<le> length buf"
  obtains buf' where "put_bytes buf off bs = Some buf'" "length buf' = length buf" "take (off + length bs) buf' = take off buf @ bs"
  using assms that [of "take off buf @ bs @ drop (off + length bs) buf"] by (simp add: put_bytes_def)

lemma bytes_mem_of:
  assumes "0 \<le> n" "n \<le> int (length bs)" shows "bytes (mem_of a bs) a n = take (nat n) bs"
  using assms by (intro nth_equalityI) (auto simp: mem_of_def nat_le_iff)

text \<open>Statements that run one after the other.\<close>

fun run_ops :: "('a \<Rightarrow> 'a option) list \<Rightarrow> 'a \<Rightarrow> 'a option" where
  "run_ops [] s = Some s"
| "run_ops (f # fs) s = Option.bind (f s) (run_ops fs)"

section \<open>Stripes\<close>

text \<open>All whole stripes of \<open>k\<close> bytes absorbed into \<open>v\<close>, and what is left.\<close>

function stripes :: "nat \<Rightarrow> ('v \<Rightarrow> byte list \<Rightarrow> 'v) \<Rightarrow> 'v \<Rightarrow> byte list \<Rightarrow> 'v" where
  "stripes k f v bs = (if k = 0 \<or> length bs < k then v else stripes k f (f v (take k bs)) (drop k bs))"
  by pat_completeness auto
termination
  by (relation "measure (\<lambda>(k, f, v, bs). length bs)") auto

declare stripes.simps [simp del]

definition remainder :: "nat \<Rightarrow> byte list \<Rightarrow> byte list" where
  "remainder k bs = drop (k * (length bs div k)) bs"

lemma length_remainder [simp]: "length (remainder k bs) = length bs mod k"
  by (simp add: remainder_def minus_mult_div_eq_mod)

lemma stripes_short [simp]: "length bs < k \<Longrightarrow> stripes k f v bs = v"
  by (simp add: stripes.simps)

lemma stripes_step: "0 < k \<Longrightarrow> length a = k \<Longrightarrow> stripes k f v (a @ bs) = stripes k f (f v a) bs"
  by (subst stripes.simps) simp

lemma stripes_append:
  assumes "0 < k" "k dvd length a"
  shows "stripes k f v (a @ b) = stripes k f (stripes k f v a) b"
  using assms(2)
proof (induction "length a" arbitrary: a v rule: less_induct)
  case less
  show ?case
  proof (cases "a = []")
    case False
    with less.prems assms(1) have k: "k \<le> length a" by (simp add: dvd_imp_le)
    then have d: "k dvd length (drop k a)" "length (drop k a) < length a" using less.prems assms(1) by (auto simp: dvd_minus_self)
    have "stripes k f v (take k a @ (drop k a @ b)) = stripes k f (f v (take k a)) (drop k a @ b)"
      by (rule stripes_step) (use assms(1) k in auto)
    moreover have "stripes k f v (take k a @ drop k a) = stripes k f (f v (take k a)) (drop k a)"
      by (rule stripes_step) (use assms(1) k in auto)
    ultimately show ?thesis using less.hyps [OF d(2,1)] by (simp flip: append_assoc)
  qed (use assms(1) in simp)
qed

lemma whole_stripes: "bs = take (k * (length bs div k)) bs @ remainder k bs"
  by (simp add: remainder_def)

lemma stripes_remainder:
  assumes "0 < k" shows "stripes k f v (bs @ x) = stripes k f (stripes k f v bs) (remainder k bs @ x)"
proof -
  let ?a = "take (k * (length bs div k)) bs"
  have d: "k dvd length ?a" by (simp add: min_absorb2)
  have "stripes k f v bs = stripes k f v ?a"
    using stripes_append [OF assms d, of f v "remainder k bs"] whole_stripes [of bs k] assms by simp
  then show ?thesis
    using stripes_append [OF assms d, of f v "remainder k bs @ x"] whole_stripes [of bs k] by (simp flip: append_assoc)
qed

lemma remainder_short [simp]: "length bs < k \<Longrightarrow> remainder k bs = bs"
  by (simp add: remainder_def)

lemma remainder_append: "0 < k \<Longrightarrow> k dvd length a \<Longrightarrow> remainder k (a @ b) = remainder k b"
  by (auto simp: remainder_def dvd_def distrib_left)

lemma remainder_remainder:
  assumes "0 < k" shows "remainder k (bs @ x) = remainder k (remainder k bs @ x)"
proof -
  let ?a = "take (k * (length bs div k)) bs"
  have "k dvd length ?a" by (simp add: min_absorb2)
  from remainder_append [OF assms this, of "remainder k bs @ x"] whole_stripes [of bs k] show ?thesis
    by (simp flip: append_assoc)
qed

section \<open>Stripes of a region of memory\<close>

lemma bytes_stripes:
  assumes "0 < k" "int k \<le> n"
  shows "stripes k f v (bytes m p n) = stripes k f (f v (bytes m p (int k))) (bytes m (p + int k) (n - int k))"
  using bytes_split [of "int k" n m p] stripes_step [of k "bytes m p (int k)" f v] assms by simp

lemma remainder_bytes:
  assumes "0 \<le> n" "0 < k" shows "remainder k (bytes m q n) = bytes m (q + int k * (n div int k)) (n mod int k)"
proof -
  have d: "0 \<le> n div int k" using assms by (simp add: pos_imp_zdiv_nonneg_iff)
  moreover have "int k * (n div int k) + n mod int k = n" by simp
  ultimately have "int k * (n div int k) \<le> n" "n - int k * (n div int k) = n mod int k" using assms by (smt (verit) of_nat_0_less_iff pos_mod_sign)+
  moreover have "k * (length (bytes m q n) div k) = nat (int k * (n div int k))"
    using assms d by (simp add: nat_mult_distrib nat_div_distrib)
  ultimately show ?thesis using drop_bytes [of "int k * (n div int k)" n m q] d by (simp add: remainder_def)
qed

text \<open>Completing the stripe of which \<open>r\<close> is in the buffer.\<close>

lemma fill_buffer:
  assumes k: "j < k" "length buf = k" "take j buf = r" "int k \<le> int j + n" and v: "valid m p n"
  obtains buf' where "read_bytes m p (nat (int k - int j)) = Some (bytes m p (int k - int j))"
    "put_bytes buf j (bytes m p (int k - int j)) = Some buf'" "length buf' = k"
    "stripes k f a (r @ bytes m p n) = stripes k f (f a buf') (bytes m (p + (int k - int j)) (n - (int k - int j)))"
    "remainder k (r @ bytes m p n) = remainder k (bytes m (p + (int k - int j)) (n - (int k - int j)))"
proof -
  let ?x = "bytes m p (int k - int j)" and ?y = "bytes m (p + (int k - int j)) (n - (int k - int j))"
  have "valid m p (int k - int j)" using v by (rule valid_sub) (use k in auto)
  then have x: "read_bytes m p (nat (int k - int j)) = Some ?x" using read_bytes_Some [of m p "nat (int k - int j)"] k(1) by simp
  have len: "length ?x = k - j" using k(1) by simp
  then have "j + length ?x \<le> length buf" using k by simp
  then obtain buf' where b: "put_bytes buf j ?x = Some buf'" "length buf' = length buf" "take (j + length ?x) buf' = take j buf @ ?x"
    by (rule put_bytes_Some)
  have buf': "buf' = r @ ?x" "length buf' = k" using b(2,3) len k by auto
  have "r @ bytes m p n = buf' @ ?y" using bytes_split [of "int k - int j" n m p] k buf'(1) by simp
  then show thesis
    using that [OF x b(1) buf'(2)] stripes_step [of k buf' f a ?y] remainder_append [of k buf' ?y] buf'(2) k(1) by simp
qed

text \<open>Keeping what is left of the input after its whole stripes.\<close>

lemma keep_rest:
  assumes k: "0 < k" "length buf = k" and v: "valid m q n" "0 \<le> n"
  obtains buf' where "read_bytes m (q + int k * (n div int k)) (nat (n mod int k)) = Some (remainder k (bytes m q n))"
    "put_bytes buf 0 (remainder k (bytes m q n)) = Some buf'" "length buf' = k" "take (nat n mod k) buf' = remainder k (bytes m q n)"
proof -
  let ?q = "q + int k * (n div int k)" and ?r = "remainder k (bytes m q n)"
  have "?q + n mod int k = q + n" by simp
  moreover have "0 \<le> n div int k" using v(2) k(1) by (simp add: pos_imp_zdiv_nonneg_iff)
  ultimately have "valid m ?q (n mod int k)" using k(1) by (intro valid_sub [OF v(1)]) auto
  then have "read_bytes m ?q (nat (n mod int k)) = Some ?r"
    using read_bytes_Some [of m ?q "nat (n mod int k)"] remainder_bytes [OF v(2) k(1), of m q] by simp
  moreover have "0 + length ?r \<le> length buf" using k by (simp add: less_imp_le)
  then obtain buf' where "put_bytes buf 0 ?r = Some buf'" "length buf' = length buf" "take (0 + length ?r) buf' = take 0 buf @ ?r"
    by (rule put_bytes_Some)
  ultimately show thesis using that k by simp
qed

end
