(* ===== verification/XXH_32.thy ===== *)
theory XXH_32
  imports XXH_Spec
begin

text \<open>
  The 32-bit hash of xxhash.c, at once and in a stream.  The functions read their input from
  memory; the buffer of a streaming state is a list of sixteen bytes.
\<close>

section \<open>Memory and bits\<close>

datatype XXH_endianness = XXH_bigEndian | XXH_littleEndian
datatype XXH_alignment = XXH_aligned | XXH_unaligned
datatype XXH_errorcode = XXH_OK | XXH_ERROR

definition XXH_CPU_LITTLE_ENDIAN :: XXH_endianness where "XXH_CPU_LITTLE_ENDIAN = XXH_littleEndian"
definition XXH_FORCE_ALIGN_CHECK :: bool where "XXH_FORCE_ALIGN_CHECK = False"

definition XXH_read32 :: "mem \<Rightarrow> addr \<Rightarrow> 32 word option" where
  "XXH_read32 m memPtr = map_option le_word (read_bytes m memPtr 4)"

definition XXH_rotl32 :: "32 word \<Rightarrow> nat \<Rightarrow> 32 word" where
  "XXH_rotl32 x r = (push_bit r x OR drop_bit (32 - r) x)"

definition XXH_swap32 :: "32 word \<Rightarrow> 32 word" where
  "XXH_swap32 x = ((push_bit 24 x AND 0xff000000) OR (push_bit 8 x AND 0x00ff0000) OR
     (drop_bit 8 x AND 0x0000ff00) OR (drop_bit 24 x AND 0x000000ff))"

definition XXH_readLE32_align :: "mem \<Rightarrow> addr \<Rightarrow> XXH_endianness \<Rightarrow> XXH_alignment \<Rightarrow> 32 word option" where
  "XXH_readLE32_align m ptr endian align =
     (if align = XXH_unaligned
      then if endian = XXH_littleEndian then XXH_read32 m ptr else map_option XXH_swap32 (XXH_read32 m ptr)
      else if endian = XXH_littleEndian then XXH_read32 m ptr else map_option XXH_swap32 (XXH_read32 m ptr))"

definition XXH_readLE32 :: "mem \<Rightarrow> addr \<Rightarrow> XXH_endianness \<Rightarrow> 32 word option" where
  "XXH_readLE32 m ptr endian = XXH_readLE32_align m ptr endian XXH_unaligned"

definition XXH_readBE32 :: "mem \<Rightarrow> addr \<Rightarrow> 32 word option" where
  "XXH_readBE32 m ptr =
     (if XXH_CPU_LITTLE_ENDIAN = XXH_littleEndian then map_option XXH_swap32 (XXH_read32 m ptr) else XXH_read32 m ptr)"

section \<open>Rounds\<close>

definition PRIME32_1 :: "32 word" where "PRIME32_1 = 2654435761"
definition PRIME32_2 :: "32 word" where "PRIME32_2 = 2246822519"
definition PRIME32_3 :: "32 word" where "PRIME32_3 = 3266489917"
definition PRIME32_4 :: "32 word" where "PRIME32_4 = 668265263"
definition PRIME32_5 :: "32 word" where "PRIME32_5 = 374761393"

definition XXH32_round :: "32 word \<Rightarrow> 32 word \<Rightarrow> 32 word" where
  "XXH32_round seed input = XXH_rotl32 (seed + input * PRIME32_2) 13 * PRIME32_1"

definition XXH32_avalanche :: "32 word \<Rightarrow> 32 word" where
  "XXH32_avalanche h32 =
     (let h32 = h32 XOR drop_bit 15 h32; h32 = h32 * PRIME32_2;
          h32 = h32 XOR drop_bit 13 h32; h32 = h32 * PRIME32_3 in
      h32 XOR drop_bit 16 h32)"

text \<open>One step of the end of the input: a byte, or four.\<close>

definition mix1_32 :: "32 word \<Rightarrow> byte \<Rightarrow> 32 word" where
  "mix1_32 h32 b = XXH_rotl32 (h32 + ucast b * PRIME32_5) 11 * PRIME32_1"
definition mix4_32 :: "32 word \<Rightarrow> 32 word \<Rightarrow> 32 word" where
  "mix4_32 h32 w = XXH_rotl32 (h32 + w * PRIME32_3) 17 * PRIME32_4"

definition PROCESS1 :: "mem \<Rightarrow> 32 word \<times> addr \<Rightarrow> (32 word \<times> addr) option" where
  "PROCESS1 m = (\<lambda>(h32, p). do { b \<leftarrow> m p; Some (mix1_32 h32 b, p + 1) })"
definition PROCESS4 :: "mem \<Rightarrow> XXH_endianness \<Rightarrow> XXH_alignment \<Rightarrow> 32 word \<times> addr \<Rightarrow> (32 word \<times> addr) option" where
  "PROCESS4 m endian align = (\<lambda>(h32, p). do { w \<leftarrow> XXH_readLE32_align m p endian align; Some (mix4_32 h32 w, p + 4) })"

text \<open>The statements of the \<open>switch\<close> that run from the label \<open>c\<close>, with the labels it falls through.\<close>

definition finalize_ops32 :: "int \<Rightarrow> 'a \<Rightarrow> 'a \<Rightarrow> 'a list" where
  "finalize_ops32 c P4 P1 =
     (if c = 12 then [P4, P4, P4] else if c = 8 then [P4, P4] else if c = 4 then [P4]
      else if c = 13 then [P4, P4, P4, P1] else if c = 9 then [P4, P4, P1] else if c = 5 then [P4, P1]
      else if c = 14 then [P4, P4, P4, P1, P1] else if c = 10 then [P4, P4, P1, P1] else if c = 6 then [P4, P1, P1]
      else if c = 15 then [P4, P4, P4, P1, P1, P1] else if c = 11 then [P4, P4, P1, P1, P1] else if c = 7 then [P4, P1, P1, P1]
      else if c = 3 then [P1, P1, P1] else if c = 2 then [P1, P1] else if c = 1 then [P1] else [])"

definition XXH32_finalize :: "mem \<Rightarrow> 32 word \<Rightarrow> addr \<Rightarrow> int \<Rightarrow> XXH_endianness \<Rightarrow> XXH_alignment \<Rightarrow> 32 word option" where
  "XXH32_finalize m h32 ptr len endian align = do {
     (h32, p) \<leftarrow> run_ops (finalize_ops32 (len mod 16) (PROCESS4 m endian align) (PROCESS1 m)) (h32, ptr);
     Some (XXH32_avalanche h32) }"

section \<open>The hash at once\<close>

type_synonym acc32 = "32 word \<times> 32 word \<times> 32 word \<times> 32 word"

definition init32 :: "32 word \<Rightarrow> acc32" where
  "init32 seed = (seed + PRIME32_1 + PRIME32_2, seed + PRIME32_2, seed + 0, seed - PRIME32_1)"

definition merge32 :: "acc32 \<Rightarrow> 32 word" where
  "merge32 = (\<lambda>(v1, v2, v3, v4). XXH_rotl32 v1 1 + XXH_rotl32 v2 7 + XXH_rotl32 v3 12 + XXH_rotl32 v4 18)"

text \<open>The body of the loops over stripes of sixteen bytes.\<close>

definition stripe32 :: "mem \<Rightarrow> XXH_endianness \<Rightarrow> XXH_alignment \<Rightarrow> acc32 \<Rightarrow> addr \<Rightarrow> acc32 option" where
  "stripe32 m endian align = (\<lambda>(v1, v2, v3, v4) p. do {
     w1 \<leftarrow> XXH_readLE32_align m p endian align;
     w2 \<leftarrow> XXH_readLE32_align m (p + 4) endian align;
     w3 \<leftarrow> XXH_readLE32_align m (p + 8) endian align;
     w4 \<leftarrow> XXH_readLE32_align m (p + 12) endian align;
     Some (XXH32_round v1 w1, XXH32_round v2 w2, XXH32_round v3 w3, XXH32_round v4 w4) })"

text \<open>\<open>do { ... } while (p < limit)\<close>.\<close>

function loop32 :: "mem \<Rightarrow> XXH_endianness \<Rightarrow> XXH_alignment \<Rightarrow> acc32 \<Rightarrow> addr \<Rightarrow> addr \<Rightarrow> (acc32 \<times> addr) option" where
  "loop32 m endian align v p lim = do {
     v \<leftarrow> stripe32 m endian align v p;
     let p = p + 16 in
     if p < lim then loop32 m endian align v p lim else Some (v, p) }"
  by pat_completeness auto
termination
  by (relation "measure (\<lambda>(m, endian, align, v, p, lim). nat (lim - p))") auto

declare loop32.simps [simp del]

definition XXH32_endian_align :: "mem \<Rightarrow> addr \<Rightarrow> int \<Rightarrow> 32 word \<Rightarrow> XXH_endianness \<Rightarrow> XXH_alignment \<Rightarrow> 32 word option" where
  "XXH32_endian_align m input len seed endian align =
     (let p = input; bEnd = p + len in do {
      (h32, p) \<leftarrow>
        (if len \<ge> 16 then
           let lim = bEnd - 15 in do {
           (v, p) \<leftarrow> loop32 m endian align (init32 seed) p lim;
           Some (merge32 v, p) }
         else Some (seed + PRIME32_5, p));
      XXH32_finalize m (h32 + word_of_int len) p (len mod 16) endian align })"

definition XXH32 :: "mem \<Rightarrow> addr \<Rightarrow> int \<Rightarrow> 32 word \<Rightarrow> 32 word option" where
  "XXH32 m input len seed =
     (let endian_detected = XXH_CPU_LITTLE_ENDIAN in
      if XXH_FORCE_ALIGN_CHECK \<and> input mod 4 = 0 then
        if endian_detected = XXH_littleEndian
        then XXH32_endian_align m input len seed XXH_littleEndian XXH_aligned
        else XXH32_endian_align m input len seed XXH_bigEndian XXH_aligned
      else if endian_detected = XXH_littleEndian
      then XXH32_endian_align m input len seed XXH_littleEndian XXH_unaligned
      else XXH32_endian_align m input len seed XXH_bigEndian XXH_unaligned)"

section \<open>The hash of a stream\<close>

record XXH32_state_t =
  total_len_32 :: "32 word"
  large_len :: "32 word"
  acc_32 :: acc32                \<comment> \<open>\<open>v1\<close>, \<open>v2\<close>, \<open>v3\<close>, \<open>v4\<close>\<close>
  mem32 :: "byte list"
  memsize_32 :: "32 word"

definition XXH32_copyState :: "XXH32_state_t \<Rightarrow> XXH32_state_t" where
  "XXH32_copyState srcState = srcState"

definition XXH32_reset :: "32 word \<Rightarrow> XXH_errorcode \<times> XXH32_state_t" where
  "XXH32_reset seed =
     (XXH_OK, \<lparr>total_len_32 = 0, large_len = 0, acc_32 = init32 seed, mem32 = replicate 16 0, memsize_32 = 0\<rparr>)"

text \<open>\<open>do { ... } while (p<=limit)\<close>.\<close>

function update_loop32 :: "mem \<Rightarrow> XXH_endianness \<Rightarrow> acc32 \<Rightarrow> addr \<Rightarrow> addr \<Rightarrow> (acc32 \<times> addr) option" where
  "update_loop32 m endian v p lim = do {
     v \<leftarrow> stripe32 m endian XXH_unaligned v p;
     let p = p + 16 in
     if p \<le> lim then update_loop32 m endian v p lim else Some (v, p) }"
  by pat_completeness auto
termination
  by (relation "measure (\<lambda>(m, endian, v, p, lim). nat (lim + 1 - p))") auto

declare update_loop32.simps [simp del]

text \<open>The three parts of \<open>XXH32_update_endian\<close>: complete the stripe in the buffer, absorb the whole stripes of the
  input, keep the rest.\<close>

definition fill_stage32 :: "XXH32_state_t \<Rightarrow> mem \<Rightarrow> addr \<Rightarrow> XXH_endianness \<Rightarrow> (XXH32_state_t \<times> addr) option" where
  "fill_stage32 state m p endian =
     (if memsize_32 state \<noteq> 0 then do {
        bs \<leftarrow> read_bytes m p (nat (16 - uint (memsize_32 state)));
        buf \<leftarrow> put_bytes (mem32 state) (unat (memsize_32 state)) bs;
        v \<leftarrow> stripe32 (mem_of 0 buf) endian XXH_unaligned (acc_32 state) 0;
        Some (state\<lparr>mem32 := buf, acc_32 := v, memsize_32 := 0\<rparr>, p + (16 - uint (memsize_32 state))) }
      else Some (state, p))"

definition stripe_stage32 :: "XXH32_state_t \<Rightarrow> mem \<Rightarrow> addr \<Rightarrow> addr \<Rightarrow> XXH_endianness \<Rightarrow> (XXH32_state_t \<times> addr) option" where
  "stripe_stage32 state m p bEnd endian =
     (if p \<le> bEnd - 16 then
        let lim = bEnd - 16 in do {
        (v, p) \<leftarrow> update_loop32 m endian (acc_32 state) p lim;
        Some (state\<lparr>acc_32 := v\<rparr>, p) }
      else Some (state, p))"

definition rest_stage32 :: "XXH32_state_t \<Rightarrow> mem \<Rightarrow> addr \<Rightarrow> addr \<Rightarrow> (XXH_errorcode \<times> XXH32_state_t) option" where
  "rest_stage32 state m p bEnd =
     (if p < bEnd then do {
        bs \<leftarrow> read_bytes m p (nat (bEnd - p));
        buf \<leftarrow> put_bytes (mem32 state) 0 bs;
        Some (XXH_OK, state\<lparr>mem32 := buf, memsize_32 := word_of_int (bEnd - p)\<rparr>) }
      else Some (XXH_OK, state))"

definition XXH32_update_endian ::
  "XXH32_state_t \<Rightarrow> mem \<Rightarrow> addr \<Rightarrow> int \<Rightarrow> XXH_endianness \<Rightarrow> (XXH_errorcode \<times> XXH32_state_t) option" where
  "XXH32_update_endian state m input len endian =
     (if input = 0 then Some (XXH_ERROR, state)
      else
        let p = input; bEnd = p + len;
            state = state\<lparr>total_len_32 := total_len_32 state + word_of_int len\<rparr>;
            state = state\<lparr>large_len := large_len state OR (of_bool (len \<ge> 16) OR of_bool (total_len_32 state \<ge> 16))\<rparr> in
        if uint (memsize_32 state) + len < 16 then do {
          bs \<leftarrow> read_bytes m input (nat len);
          buf \<leftarrow> put_bytes (mem32 state) (unat (memsize_32 state)) bs;
          Some (XXH_OK, state\<lparr>mem32 := buf, memsize_32 := memsize_32 state + word_of_int len\<rparr>) }
        else do {
          (state, p) \<leftarrow> fill_stage32 state m p endian;
          (state, p) \<leftarrow> stripe_stage32 state m p bEnd endian;
          rest_stage32 state m p bEnd })"

definition XXH32_update :: "XXH32_state_t \<Rightarrow> mem \<Rightarrow> addr \<Rightarrow> int \<Rightarrow> (XXH_errorcode \<times> XXH32_state_t) option" where
  "XXH32_update state_in m input len =
     (if XXH_CPU_LITTLE_ENDIAN = XXH_littleEndian
      then XXH32_update_endian state_in m input len XXH_littleEndian
      else XXH32_update_endian state_in m input len XXH_bigEndian)"

definition XXH32_digest_endian :: "XXH32_state_t \<Rightarrow> XXH_endianness \<Rightarrow> 32 word option" where
  "XXH32_digest_endian state endian =
     (let h32 = (if large_len state \<noteq> 0 then merge32 (acc_32 state) else fst (snd (snd (acc_32 state))) + PRIME32_5);
          h32 = h32 + total_len_32 state in
      XXH32_finalize (mem_of 0 (mem32 state)) h32 0 (uint (memsize_32 state)) endian XXH_aligned)"

definition XXH32_digest :: "XXH32_state_t \<Rightarrow> 32 word option" where
  "XXH32_digest state_in =
     (if XXH_CPU_LITTLE_ENDIAN = XXH_littleEndian
      then XXH32_digest_endian state_in XXH_littleEndian
      else XXH32_digest_endian state_in XXH_bigEndian)"

section \<open>Canonical representation\<close>

definition XXH32_canonicalFromHash :: "mem \<Rightarrow> addr \<Rightarrow> 32 word \<Rightarrow> mem option" where
  "XXH32_canonicalFromHash m dst hash =
     (let hash = (if XXH_CPU_LITTLE_ENDIAN = XXH_littleEndian then XXH_swap32 hash else hash) in
      store_bytes m dst (word_bytes 4 hash))"

definition XXH32_hashFromCanonical :: "mem \<Rightarrow> addr \<Rightarrow> 32 word option" where
  "XXH32_hashFromCanonical m src = XXH_readBE32 m src"

section \<open>Reference\<close>

definition absorb32 :: "acc32 \<Rightarrow> byte list \<Rightarrow> acc32" where
  "absorb32 = (\<lambda>(v1, v2, v3, v4) bs.
     (XXH32_round v1 (le_word (take 4 bs)), XXH32_round v2 (le_word (take 4 (drop 4 bs))),
      XXH32_round v3 (le_word (take 4 (drop 8 bs))), XXH32_round v4 (le_word (take 4 (drop 12 bs)))))"

fun tail32 :: "32 word \<Rightarrow> byte list \<Rightarrow> 32 word" where
  "tail32 h (a # b # c # d # bs) = tail32 (mix4_32 h (le_word [a, b, c, d])) bs"
| "tail32 h bs = foldl mix1_32 h bs"

definition xxh32 :: "32 word \<Rightarrow> byte list \<Rightarrow> 32 word" where
  "xxh32 seed bs =
     (let h = (if length bs \<ge> 16 then merge32 (stripes 16 absorb32 (init32 seed) bs) else seed + PRIME32_5) in
      XXH32_avalanche (tail32 (h + of_nat (length bs)) (remainder 16 bs)))"

section \<open>The code computes the reference\<close>

lemma readLE32_ok:
  assumes "valid m p 4" shows "XXH_readLE32_align m p XXH_littleEndian al = Some (le_word (bytes m p 4))"
  using read_bytes_Some [of m p 4] assms by (simp add: XXH_readLE32_align_def XXH_read32_def)

lemma stripe32_ok:
  assumes v: "valid m p 16" shows "stripe32 m XXH_littleEndian al v p = Some (absorb32 v (bytes m p 16))"
proof -
  have r: "XXH_readLE32_align m (p + k) XXH_littleEndian al = Some (le_word (bytes m (p + k) 4))" if "0 \<le> k" "k \<le> 12" for k
    by (rule readLE32_ok, rule valid_sub [OF v]) (use that in auto)
  have t: "take 4 (drop (nat k) (bytes m p 16)) = bytes m (p + k) 4" if "0 \<le> k" "k \<le> 12" for k
    using drop_bytes [of k 16 m p] take_bytes [of 4 "16 - k" m "p + k"] that by simp
  show ?thesis using r [of 0] r [of 4] r [of 8] r [of 12] t [of 0] t [of 4] t [of 8] t [of 12]
    by (cases v) (simp add: stripe32_def absorb32_def)
qed

lemma loop32_ok:
  assumes "valid m p (e - p)" "p + 16 \<le> e"
  shows "loop32 m XXH_littleEndian al v p (e - 15) = Some (stripes 16 absorb32 v (bytes m p (e - p)), p + 16 * ((e - p) div 16))"
    and "update_loop32 m XXH_littleEndian v p (e - 16) = Some (stripes 16 absorb32 v (bytes m p (e - p)), p + 16 * ((e - p) div 16))"
proof -
  have "loop32 m XXH_littleEndian al v p (e - 15) = Some (stripes 16 absorb32 v (bytes m p (e - p)), p + 16 * ((e - p) div 16))
    \<and> update_loop32 m XXH_littleEndian v p (e - 16) = Some (stripes 16 absorb32 v (bytes m p (e - p)), p + 16 * ((e - p) div 16))"
    using assms
  proof (induction "nat (e - p)" arbitrary: p v rule: less_induct)
    case less
    have v: "valid m p 16" using less.prems(1) by (rule valid_sub) (use less.prems(2) in auto)
    note st = stripe32_ok [OF v] bytes_stripes [of 16 "e - p" absorb32 v m p]
    have d: "(e - p) div 16 = (e - (p + 16)) div 16 + 1" by simp
    show ?case
    proof (cases "p + 32 \<le> e")
      case True
      have v': "valid m (p + 16) (e - (p + 16))" using less.prems(1) by (rule valid_sub) auto
      show ?thesis
        using less.hyps [of "p + 16" "absorb32 v (bytes m p 16)"] v' True st less.prems(2) d
        by (subst loop32.simps, subst update_loop32.simps) (simp add: algebra_simps)
    next
      case False
      then have "length (bytes m (p + 16) (e - p - 16)) < 16" "(e - p) div 16 = 1" using less.prems(2) by auto
      then show ?thesis using st False less.prems(2)
        by (subst loop32.simps, subst update_loop32.simps) simp
    qed
  qed
  then show "loop32 m XXH_littleEndian al v p (e - 15) = Some (stripes 16 absorb32 v (bytes m p (e - p)), p + 16 * ((e - p) div 16))"
    "update_loop32 m XXH_littleEndian v p (e - 16) = Some (stripes 16 absorb32 v (bytes m p (e - p)), p + 16 * ((e - p) div 16))"
    by blast+
qed

lemma tail32_4:
  assumes "4 \<le> n" shows "tail32 h (bytes m p n) = tail32 (mix4_32 h (le_word (bytes m p 4))) (bytes m (p + 4) (n - 4))"
proof -
  have "bytes m p n = bytes m p 4 @ bytes m (p + 4) (n - 4)" using bytes_split [of 4 n m p] assms by simp
  moreover obtain a b c d where "bytes m p 4 = [a, b, c, d]" by (simp add: bytes_Cons)
  ultimately show ?thesis by simp
qed

lemma tail32_short: "length bs < 4 \<Longrightarrow> tail32 h bs = foldl mix1_32 h bs"
  by (cases "(h, bs)" rule: tail32.cases) auto

lemma tail32_1:
  assumes "0 < n" "n < 4" shows "tail32 h (bytes m p n) = tail32 (mix1_32 h (the (m p))) (bytes m (p + 1) (n - 1))"
  using assms by (subst (1 2) tail32_short) (simp_all add: bytes_Cons)

lemma PROCESS_ok:
  "valid m p 4 \<Longrightarrow> PROCESS4 m XXH_littleEndian al (h, p) = Some (mix4_32 h (le_word (bytes m p 4)), p + 4)"
  "valid m p 1 \<Longrightarrow> PROCESS1 m (h, p) = Some (mix1_32 h (the (m p)), p + 1)"
  using valid_at [of m p 1 p] by (auto simp: PROCESS4_def PROCESS1_def readLE32_ok)

lemma run_tail32:
  assumes "valid m p (4 * int a + int b)" "b < 4"
  shows "run_ops (replicate a (PROCESS4 m XXH_littleEndian al) @ replicate b (PROCESS1 m)) (h, p)
     = Some (tail32 h (bytes m p (4 * int a + int b)), p + 4 * int a + int b)"
  using assms
proof (induction a arbitrary: p h)
  case 0
  then show ?case
  proof (induction b arbitrary: p h)
    case (Suc b)
    have "valid m p 1" "valid m (p + 1) (int b)" using Suc.prems(1) by (auto elim: valid_sub)
    then show ?case using Suc.IH [of "p + 1"] Suc.prems(2) PROCESS_ok(2) [of m p h] tail32_1 [of "int (Suc b)" h m p] by simp
  qed simp
next
  case (Suc a)
  have "valid m p 4" "valid m (p + 4) (4 * int a + int b)" using Suc.prems(1) by (auto elim: valid_sub)
  then show ?case using Suc.IH [of "p + 4"] Suc.prems(2) PROCESS_ok(1) [of m p al h] tail32_4 [of "4 * int (Suc a) + int b" h m p]
    by (simp add: algebra_simps)
qed

lemma finalize_ops32_eq:
  assumes "a \<le> 3" "b \<le> 3" shows "finalize_ops32 (4 * int a + int b) P4 P1 = replicate a P4 @ replicate b P1"
proof -
  have "a = 0 \<or> a = 1 \<or> a = 2 \<or> a = 3" "b = 0 \<or> b = 1 \<or> b = 2 \<or> b = 3" using assms by auto
  then show ?thesis by (elim disjE; simp add: finalize_ops32_def numeral_2_eq_2 numeral_3_eq_3)
qed

lemma finalize32_ok:
  assumes "valid m p (len mod 16)"
  shows "XXH32_finalize m h p len XXH_littleEndian al = Some (XXH32_avalanche (tail32 h (bytes m p (len mod 16))))"
proof -
  let ?c = "len mod 16"
  define a b where "a = nat (?c div 4)" and "b = nat (?c mod 4)"
  have c: "?c = 4 * int a + int b" "a \<le> 3" "b \<le> 3" by (auto simp: a_def b_def)
  have "run_ops (finalize_ops32 ?c (PROCESS4 m XXH_littleEndian al) (PROCESS1 m)) (h, p) = Some (tail32 h (bytes m p ?c), p + 4 * int a + int b)"
    unfolding c(1) finalize_ops32_eq [OF c(2,3)] by (rule run_tail32) (use assms c in auto)
  then show ?thesis by (simp add: XXH32_finalize_def)
qed

theorem XXH32_endian_align_ok:
  assumes v: "valid m p len" "0 \<le> len"
  shows "XXH32_endian_align m p len seed XXH_littleEndian al = Some (xxh32 seed (bytes m p len))"
proof (cases "len \<ge> 16")
  case True
  let ?q = "p + 16 * (len div 16)"
  have l: "loop32 m XXH_littleEndian al (init32 seed) p (p + len - 15) = Some (stripes 16 absorb32 (init32 seed) (bytes m p len), ?q)"
    using loop32_ok(1) [of m p "p + len"] v True by simp
  have q: "?q + len mod 16 = p + len" by simp
  have vq: "valid m ?q (len mod 16)" using v(1) by (rule valid_sub) (use q v(2) in auto)
  have "remainder 16 (bytes m p len) = bytes m ?q (len mod 16)"
    using remainder_bytes [OF v(2), of 16 m p] by simp
  moreover have "16 \<le> length (bytes m p len)" "word_of_int len = (of_nat (length (bytes m p len)) :: 32 word)"
    using True by (simp_all add: le_nat_iff of_nat_nat)
  ultimately show ?thesis using True l finalize32_ok [of m ?q "len mod 16"] vq
    unfolding XXH32_endian_align_def xxh32_def by simp
next
  case False
  then have "remainder 16 (bytes m p len) = bytes m p len" "len mod 16 = len" using v(2) by auto
  moreover have "\<not> 16 \<le> length (bytes m p len)" "word_of_int len = (of_nat (length (bytes m p len)) :: 32 word)"
    using False v(2) by (simp_all add: le_nat_iff of_nat_nat)
  ultimately show ?thesis using False finalize32_ok [of m p len] v
    unfolding XXH32_endian_align_def xxh32_def by simp
qed

section \<open>Streaming computes the same hash\<close>

text \<open>The state after the bytes \<open>bs\<close>.\<close>

definition state32_ok :: "32 word \<Rightarrow> byte list \<Rightarrow> XXH32_state_t \<Rightarrow> bool" where
  "state32_ok seed bs st \<longleftrightarrow> total_len_32 st = of_nat (length bs) \<and> (large_len st \<noteq> 0 \<longleftrightarrow> 16 \<le> length bs) \<and>
     acc_32 st = stripes 16 absorb32 (init32 seed) bs \<and> length (mem32 st) = 16 \<and>
     memsize_32 st = of_nat (length bs mod 16) \<and> take (length bs mod 16) (mem32 st) = remainder 16 bs"

lemma reset32_ok: "state32_ok seed [] (snd (XXH32_reset seed))"
  by (simp add: state32_ok_def XXH32_reset_def)

lemma small_word32: "n < 2 ^ 32 \<Longrightarrow> unat (of_nat n :: 32 word) = n"
  by (simp add: unat_of_nat)

lemma large_len_ok:
  assumes "large_len st \<noteq> 0 \<longleftrightarrow> 16 \<le> length bs" "0 \<le> n"
  shows "large_len st OR (of_bool (n \<ge> 16) OR of_bool ((of_nat (length bs) + word_of_int n :: 32 word) \<ge> 16)) \<noteq> 0
     \<longleftrightarrow> 16 \<le> length bs + nat n"
proof -
  have "(16 :: 32 word) \<le> of_nat (length bs) + word_of_int n \<longleftrightarrow> 16 \<le> length bs + nat n" if "length bs + nat n < 32"
  proof -
    have "of_nat (length bs) + word_of_int n = (of_nat (length bs + nat n) :: 32 word)" using assms(2) by simp
    then show ?thesis using that small_word32 [of "length bs + nat n"] by (simp only: word_le_nat_alt) simp
  qed
  then show ?thesis using assms by (cases "16 \<le> length bs"; cases "16 \<le> n") (auto simp: or_eq_0_iff)
qed

text \<open>After the first part the buffer is empty, and the rest of the input is at \<open>q\<close>.\<close>

lemma fill_stage32_ok:
  assumes k: "unat (memsize_32 st) = k" "uint (memsize_32 st) = int k" "k < 16" and b: "length (mem32 st) = 16" "take k (mem32 st) = r"
    and n: "16 \<le> int k + n" "valid m p n"
  shows "\<exists>st' q. fill_stage32 st m p XXH_littleEndian = Some (st', q) \<and> p \<le> q \<and> q \<le> p + n \<and> length (mem32 st') = 16 \<and> memsize_32 st' = 0
     \<and> total_len_32 st' = total_len_32 st \<and> large_len st' = large_len st
     \<and> stripes 16 absorb32 (acc_32 st) (r @ bytes m p n) = stripes 16 absorb32 (acc_32 st') (bytes m q (p + n - q))
     \<and> remainder 16 (r @ bytes m p n) = remainder 16 (bytes m q (p + n - q))"
proof (cases "memsize_32 st = 0")
  case True
  then have "k = 0" "r = []" using k(1) b(2) by auto
  then show ?thesis using True b n by (auto simp: fill_stage32_def)
next
  case False
  obtain buf where f: "read_bytes m p (nat (int 16 - int k)) = Some (bytes m p (int 16 - int k))"
      "put_bytes (mem32 st) k (bytes m p (int 16 - int k)) = Some buf" "length buf = 16"
      "stripes 16 absorb32 (acc_32 st) (r @ bytes m p n)
        = stripes 16 absorb32 (absorb32 (acc_32 st) buf) (bytes m (p + (int 16 - int k)) (n - (int 16 - int k)))"
      "remainder 16 (r @ bytes m p n) = remainder 16 (bytes m (p + (int 16 - int k)) (n - (int 16 - int k)))"
    by (rule fill_buffer [of k 16 "mem32 st" r n m p absorb32 "acc_32 st"]) (use k b n in auto)
  have "stripe32 (mem_of 0 buf) XXH_littleEndian XXH_unaligned (acc_32 st) 0 = Some (absorb32 (acc_32 st) buf)"
    using stripe32_ok [of "mem_of 0 buf" 0 XXH_unaligned] f(3) bytes_mem_of [of 16 buf 0] by simp
  then have "fill_stage32 st m p XXH_littleEndian = Some (st\<lparr>mem32 := buf, acc_32 := absorb32 (acc_32 st) buf, memsize_32 := 0\<rparr>, p + (16 - int k))"
    using False f(1,2) k by (simp add: fill_stage32_def)
  moreover have "p + n - (p + (16 - int k)) = n - (int 16 - int k)" by simp
  ultimately show ?thesis using f(3-5) n(1) k(3) by auto
qed

lemma rest_stage32_ok:
  assumes b: "length (mem32 st) = 16" "memsize_32 st = 0" and q: "valid m q (e - q)" "q \<le> e"
  shows "\<exists>st1 q1 st'. stripe_stage32 st m q e XXH_littleEndian = Some (st1, q1) \<and> rest_stage32 st1 m q1 e = Some (XXH_OK, st')
     \<and> total_len_32 st' = total_len_32 st \<and> large_len st' = large_len st
     \<and> acc_32 st' = stripes 16 absorb32 (acc_32 st) (bytes m q (e - q)) \<and> length (mem32 st') = 16
     \<and> memsize_32 st' = of_nat (nat (e - q) mod 16) \<and> take (nat (e - q) mod 16) (mem32 st') = remainder 16 (bytes m q (e - q))"
proof -
  let ?x = "bytes m q (e - q)" and ?q = "q + 16 * ((e - q) div 16)"
  let ?s = "st\<lparr>acc_32 := stripes 16 absorb32 (acc_32 st) ?x\<rparr>"
  have st: "stripe_stage32 st m q e XXH_littleEndian = Some (?s, ?q)"
    using loop32_ok(2) [OF q(1)] q(2) by (cases "q \<le> e - 16") (auto simp: stripe_stage32_def)
  have e: "e - ?q = (e - q) mod 16" by (simp add: minus_mult_div_eq_mod [symmetric])
  obtain buf where k: "read_bytes m ?q (nat (e - ?q)) = Some (remainder 16 ?x)" "put_bytes (mem32 ?s) 0 (remainder 16 ?x) = Some buf"
      "length buf = 16" "take (nat (e - q) mod 16) buf = remainder 16 ?x"
    using keep_rest [of 16 "mem32 ?s" m q "e - q"] b(1) q by (auto simp: e)
  have len: "nat ((e - q) mod 16) = nat (e - q) mod 16" using q(2) by (simp add: nat_mod_distrib)
  show ?thesis
  proof (cases "?q < e")
    case True
    have "word_of_int ((e - q) mod 16) = (of_nat (nat (e - q) mod 16) :: 32 word)" by (simp flip: len add: of_nat_nat)
    then have "rest_stage32 ?s m ?q e = Some (XXH_OK, ?s\<lparr>mem32 := buf, memsize_32 := of_nat (nat (e - q) mod 16)\<rparr>)"
      using True k(1,2) by (simp add: rest_stage32_def e)
    then show ?thesis using st k(3,4) by auto
  next
    case False
    then have "nat (e - q) mod 16 = 0" using e len by (simp add: dual_order.antisym)
    moreover from this have "remainder 16 ?x = []" using length_remainder [of 16 ?x] by (simp del: length_remainder flip: length_0_conv)
    ultimately show ?thesis using st False b by (auto simp: rest_stage32_def)
  qed
qed

theorem update32_ok:
  assumes st: "state32_ok seed bs st" and v: "valid m p n" "0 \<le> n" "0 < p"
  shows "\<exists>st'. XXH32_update_endian st m p n XXH_littleEndian = Some (XXH_OK, st') \<and> state32_ok seed (bs @ bytes m p n) st'"
proof -
  let ?k = "length bs mod 16" and ?r = "remainder 16 bs" and ?x = "bytes m p n"
  define st1 where "st1 = st\<lparr>total_len_32 := total_len_32 st + word_of_int n,
    large_len := large_len st OR (of_bool (n \<ge> 16) OR of_bool ((total_len_32 st + word_of_int n) \<ge> 16))\<rparr>"
  have k: "unat (memsize_32 st) = ?k" "uint (memsize_32 st) = int ?k" "?k < 16"
    using st small_word32 [of ?k] by (auto simp: state32_ok_def uint_nat)
  have s1: "total_len_32 st1 = of_nat (length (bs @ ?x))" "large_len st1 \<noteq> 0 \<longleftrightarrow> 16 \<le> length (bs @ ?x)"
      "acc_32 st1 = stripes 16 absorb32 (init32 seed) bs" "mem32 st1 = mem32 st" "length (mem32 st) = 16" "memsize_32 st1 = memsize_32 st"
      "take ?k (mem32 st) = ?r"
    using st large_len_ok [of st bs n] v(2) by (auto simp: st1_def state32_ok_def of_nat_nat)
  have sr: "stripes 16 absorb32 (init32 seed) (bs @ ?x) = stripes 16 absorb32 (acc_32 st1) (?r @ ?x)"
      "remainder 16 (bs @ ?x) = remainder 16 (?r @ ?x)"
    using stripes_remainder [of 16 absorb32 "init32 seed" bs ?x] remainder_remainder [of 16 bs ?x] s1(3) by auto
  show ?thesis
  proof (cases "int ?k + n < 16")
    case True
    have x: "read_bytes m p (nat n) = Some ?x" using read_bytes_Some [of m p "nat n"] v by simp
    have "?k + length ?x \<le> length (mem32 st)" using True s1(5) v(2) by simp
    then obtain buf where buf: "put_bytes (mem32 st) ?k ?x = Some buf" "length buf = length (mem32 st)" "take (?k + length ?x) buf = take ?k (mem32 st) @ ?x"
      by (rule put_bytes_Some)
    let ?s = "st1\<lparr>mem32 := buf, memsize_32 := memsize_32 st1 + word_of_int n\<rparr>"
    have "XXH32_update_endian st m p n XXH_littleEndian = Some (XXH_OK, ?s)"
      using True x buf(1) k s1(4,6) v(3) by (simp add: XXH32_update_endian_def Let_def st1_def)
    moreover have short: "length (?r @ ?x) < 16" using True v(2) by simp
    have "length (bs @ ?x) mod 16 = ?k + length ?x" using arg_cong [OF sr(2), of length] short by simp
    then have "state32_ok seed (bs @ ?x) ?s"
      using short buf sr s1 st v(2) by (simp add: state32_ok_def of_nat_nat)
    ultimately show ?thesis by blast
  next
    case False
    obtain st2 q where f: "fill_stage32 st1 m p XXH_littleEndian = Some (st2, q)" "p \<le> q" "q \<le> p + n" "length (mem32 st2) = 16" "memsize_32 st2 = 0"
        "total_len_32 st2 = total_len_32 st1" "large_len st2 = large_len st1"
        "stripes 16 absorb32 (acc_32 st1) (?r @ ?x) = stripes 16 absorb32 (acc_32 st2) (bytes m q (p + n - q))"
        "remainder 16 (?r @ ?x) = remainder 16 (bytes m q (p + n - q))"
      using fill_stage32_ok [of st1 ?k ?r n m p] k s1 False v(1) by auto
    have vq: "valid m q (p + n - q)" using v(1) by (rule valid_sub) (use f in auto)
    obtain st3 q1 st' where g: "stripe_stage32 st2 m q (p + n) XXH_littleEndian = Some (st3, q1)" "rest_stage32 st3 m q1 (p + n) = Some (XXH_OK, st')"
        "total_len_32 st' = total_len_32 st2" "large_len st' = large_len st2"
        "acc_32 st' = stripes 16 absorb32 (acc_32 st2) (bytes m q (p + n - q))" "length (mem32 st') = 16"
        "memsize_32 st' = of_nat (nat (p + n - q) mod 16)" "take (nat (p + n - q) mod 16) (mem32 st') = remainder 16 (bytes m q (p + n - q))"
      using rest_stage32_ok [OF f(4,5) vq f(3)] by blast
    have "length (bs @ ?x) mod 16 = nat (p + n - q) mod 16"
      using arg_cong [OF sr(2), of length] arg_cong [OF f(9), of length] by simp
    then have "state32_ok seed (bs @ ?x) st'" using g f s1 sr by (simp add: state32_ok_def)
    moreover have "XXH32_update_endian st m p n XXH_littleEndian = Some (XXH_OK, st')"
      using False k s1(6) v(3) f(1) g(1,2) by (simp add: XXH32_update_endian_def Let_def st1_def)
    ultimately show ?thesis by blast
  qed
qed

theorem digest32_ok:
  assumes "state32_ok seed bs st" shows "XXH32_digest_endian st XXH_littleEndian = Some (xxh32 seed bs)"
proof -
  let ?k = "length bs mod 16"
  have k: "uint (memsize_32 st) = int ?k" using assms small_word32 [of ?k] by (simp add: state32_ok_def uint_nat)
  have "valid (mem_of 0 (mem32 st)) 0 (int ?k mod 16)" using assms by (intro valid_mem_of) (simp add: state32_ok_def)
  moreover have "bytes (mem_of 0 (mem32 st)) 0 (int ?k mod 16) = remainder 16 bs"
    using bytes_mem_of [of "int ?k" "mem32 st" 0] assms by (simp add: state32_ok_def)
  moreover have "fst (snd (snd (acc_32 st))) = seed" if "length bs < 16"
    using assms that by (simp add: state32_ok_def init32_def)
  ultimately show ?thesis using finalize32_ok [of "mem_of 0 (mem32 st)" 0 "int ?k"] assms k
    by (auto simp: XXH32_digest_endian_def xxh32_def state32_ok_def Let_def)
qed

section \<open>The canonical representation\<close>

lemma masks32:
  "(0xff000000 :: 32 word) = push_bit 24 (mask 8)" "(0x00ff0000 :: 32 word) = push_bit 16 (mask 8)"
  "(0x0000ff00 :: 32 word) = push_bit 8 (mask 8)" "(0x000000ff :: 32 word) = mask 8"
  by code_simp+

lemma swap32_bytes: "word_bytes 4 (XXH_swap32 w) = rev (word_bytes 4 w)"
proof -
  have "ucast (XXH_swap32 w) = (ucast (drop_bit 24 w) :: byte)" "ucast (drop_bit 8 (XXH_swap32 w)) = (ucast (drop_bit 16 w) :: byte)"
    "ucast (drop_bit 16 (XXH_swap32 w)) = (ucast (drop_bit 8 w) :: byte)" "ucast (drop_bit 24 (XXH_swap32 w)) = (ucast w :: byte)"
    unfolding XXH_swap32_def masks32 by (rule bit_word_eqI; auto simp: bit_simps add.commute)+
  then show ?thesis by (simp add: numeral_eq_Suc)
qed

lemma le_word_bytes32: "le_word (word_bytes 4 w) = (w :: 32 word)"
  using le_word_bytes [of 4 w] by (simp add: take_bit_word_eq_self)

lemma swap32_swap32 [simp]: "XXH_swap32 (XXH_swap32 w) = w"
proof -
  have "word_bytes 4 (XXH_swap32 (XXH_swap32 w)) = word_bytes 4 w" by (simp only: swap32_bytes rev_rev_ident)
  from arg_cong [OF this, of "le_word :: byte list \<Rightarrow> 32 word"] show ?thesis by (simp only: le_word_bytes32)
qed

theorem canonical32_ok:
  assumes "valid m dst 4"
  shows "\<exists>m'. XXH32_canonicalFromHash m dst h = Some m' \<and> frame m m' dst (dst + 4) \<and> bytes m' dst 4 = rev (word_bytes 4 h)
     \<and> XXH32_hashFromCanonical m' dst = Some h"
proof -
  let ?bs = "word_bytes 4 (XXH_swap32 h)" and ?m = "fill m dst (word_bytes 4 (XXH_swap32 h))"
  have st: "XXH32_canonicalFromHash m dst h = Some ?m"
    using store_bytes_Some [of m dst ?bs] assms by (simp add: XXH32_canonicalFromHash_def XXH_CPU_LITTLE_ENDIAN_def)
  have fr: "frame m ?m dst (dst + 4)" using frame_fill [of m dst ?bs] assms by simp
  have b: "bytes ?m dst 4 = ?bs" using bytes_fill [of m dst ?bs] by simp
  have "XXH_read32 ?m dst = Some (XXH_swap32 h)"
    using read_bytes_Some [of ?m dst 4] assms frame_valid [OF fr, of dst 4] b by (simp add: XXH_read32_def le_word_bytes32)
  then show ?thesis using st fr b
    by (simp add: XXH32_hashFromCanonical_def XXH_readBE32_def XXH_CPU_LITTLE_ENDIAN_def swap32_bytes)
qed

end
