(* ===== verification/XXH_64.thy ===== *)
theory XXH_64
  imports XXH_32
begin

text \<open>
  The 64-bit hash of xxhash.c, at once and in a stream: stripes of thirty-two bytes, and an end of
  the input that is taken in steps of eight, four and one bytes.
\<close>

section \<open>Memory and bits\<close>

definition XXH_read64 :: "mem \<Rightarrow> addr \<Rightarrow> 64 word option" where
  "XXH_read64 m memPtr = map_option le_word (read_bytes m memPtr 8)"

definition XXH_rotl64 :: "64 word \<Rightarrow> nat \<Rightarrow> 64 word" where
  "XXH_rotl64 x r = (push_bit r x OR drop_bit (64 - r) x)"

definition XXH_swap64 :: "64 word \<Rightarrow> 64 word" where
  "XXH_swap64 x =
     ((push_bit 56 x AND 0xff00000000000000) OR (push_bit 40 x AND 0x00ff000000000000) OR
      (push_bit 24 x AND 0x0000ff0000000000) OR (push_bit 8 x AND 0x000000ff00000000) OR
      (drop_bit 8 x AND 0x00000000ff000000) OR (drop_bit 24 x AND 0x0000000000ff0000) OR
      (drop_bit 40 x AND 0x000000000000ff00) OR (drop_bit 56 x AND 0x00000000000000ff))"

definition XXH_readLE64_align :: "mem \<Rightarrow> addr \<Rightarrow> XXH_endianness \<Rightarrow> XXH_alignment \<Rightarrow> 64 word option" where
  "XXH_readLE64_align m ptr endian align =
     (if align = XXH_unaligned
      then if endian = XXH_littleEndian then XXH_read64 m ptr else map_option XXH_swap64 (XXH_read64 m ptr)
      else if endian = XXH_littleEndian then XXH_read64 m ptr else map_option XXH_swap64 (XXH_read64 m ptr))"

definition XXH_readLE64 :: "mem \<Rightarrow> addr \<Rightarrow> XXH_endianness \<Rightarrow> 64 word option" where
  "XXH_readLE64 m ptr endian = XXH_readLE64_align m ptr endian XXH_unaligned"

definition XXH_readBE64 :: "mem \<Rightarrow> addr \<Rightarrow> 64 word option" where
  "XXH_readBE64 m ptr =
     (if XXH_CPU_LITTLE_ENDIAN = XXH_littleEndian then map_option XXH_swap64 (XXH_read64 m ptr) else XXH_read64 m ptr)"

section \<open>Rounds\<close>

definition PRIME64_1 :: "64 word" where "PRIME64_1 = 11400714785074694791"
definition PRIME64_2 :: "64 word" where "PRIME64_2 = 14029467366897019727"
definition PRIME64_3 :: "64 word" where "PRIME64_3 = 1609587929392839161"
definition PRIME64_4 :: "64 word" where "PRIME64_4 = 9650029242287828579"
definition PRIME64_5 :: "64 word" where "PRIME64_5 = 2870177450012600261"

definition XXH64_round :: "64 word \<Rightarrow> 64 word \<Rightarrow> 64 word" where
  "XXH64_round acc input = XXH_rotl64 (acc + input * PRIME64_2) 31 * PRIME64_1"

definition XXH64_mergeRound :: "64 word \<Rightarrow> 64 word \<Rightarrow> 64 word" where
  "XXH64_mergeRound acc val = (acc XOR XXH64_round 0 val) * PRIME64_1 + PRIME64_4"

definition XXH64_avalanche :: "64 word \<Rightarrow> 64 word" where
  "XXH64_avalanche h64 =
     (let h64 = h64 XOR drop_bit 33 h64; h64 = h64 * PRIME64_2;
          h64 = h64 XOR drop_bit 29 h64; h64 = h64 * PRIME64_3 in
      h64 XOR drop_bit 32 h64)"

text \<open>One step of the end of the input: a byte, four, or eight.\<close>

definition mix1_64 :: "64 word \<Rightarrow> byte \<Rightarrow> 64 word" where
  "mix1_64 h64 b = XXH_rotl64 (h64 XOR ucast b * PRIME64_5) 11 * PRIME64_1"
definition mix4_64 :: "64 word \<Rightarrow> 32 word \<Rightarrow> 64 word" where
  "mix4_64 h64 w = XXH_rotl64 (h64 XOR ucast w * PRIME64_1) 23 * PRIME64_2 + PRIME64_3"
definition mix8_64 :: "64 word \<Rightarrow> 64 word \<Rightarrow> 64 word" where
  "mix8_64 h64 w = XXH_rotl64 (h64 XOR XXH64_round 0 w) 27 * PRIME64_1 + PRIME64_4"

definition PROCESS1_64 :: "mem \<Rightarrow> 64 word \<times> addr \<Rightarrow> (64 word \<times> addr) option" where
  "PROCESS1_64 m = (\<lambda>(h64, p). do { b \<leftarrow> m p; Some (mix1_64 h64 b, p + 1) })"
definition PROCESS4_64 :: "mem \<Rightarrow> XXH_endianness \<Rightarrow> XXH_alignment \<Rightarrow> 64 word \<times> addr \<Rightarrow> (64 word \<times> addr) option" where
  "PROCESS4_64 m endian align = (\<lambda>(h64, p). do { w \<leftarrow> XXH_readLE32_align m p endian align; Some (mix4_64 h64 w, p + 4) })"
definition PROCESS8_64 :: "mem \<Rightarrow> XXH_endianness \<Rightarrow> XXH_alignment \<Rightarrow> 64 word \<times> addr \<Rightarrow> (64 word \<times> addr) option" where
  "PROCESS8_64 m endian align = (\<lambda>(h64, p). do { w \<leftarrow> XXH_readLE64_align m p endian align; Some (mix8_64 h64 w, p + 8) })"

text \<open>The statements of the \<open>switch\<close> that run from the label \<open>c\<close>, with the labels it falls through.\<close>

definition finalize_ops64 :: "int \<Rightarrow> 'a \<Rightarrow> 'a \<Rightarrow> 'a \<Rightarrow> 'a list" where
  "finalize_ops64 c P8 P4 P1 =
     (if c = 24 then [P8, P8, P8] else if c = 16 then [P8, P8] else if c = 8 then [P8]
      else if c = 28 then [P8, P8, P8, P4] else if c = 20 then [P8, P8, P4] else if c = 12 then [P8, P4] else if c = 4 then [P4]
      else if c = 25 then [P8, P8, P8, P1] else if c = 17 then [P8, P8, P1] else if c = 9 then [P8, P1]
      else if c = 29 then [P8, P8, P8, P4, P1] else if c = 21 then [P8, P8, P4, P1] else if c = 13 then [P8, P4, P1]
      else if c = 5 then [P4, P1]
      else if c = 26 then [P8, P8, P8, P1, P1] else if c = 18 then [P8, P8, P1, P1] else if c = 10 then [P8, P1, P1]
      else if c = 30 then [P8, P8, P8, P4, P1, P1] else if c = 22 then [P8, P8, P4, P1, P1] else if c = 14 then [P8, P4, P1, P1]
      else if c = 6 then [P4, P1, P1]
      else if c = 27 then [P8, P8, P8, P1, P1, P1] else if c = 19 then [P8, P8, P1, P1, P1] else if c = 11 then [P8, P1, P1, P1]
      else if c = 31 then [P8, P8, P8, P4, P1, P1, P1] else if c = 23 then [P8, P8, P4, P1, P1, P1]
      else if c = 15 then [P8, P4, P1, P1, P1] else if c = 7 then [P4, P1, P1, P1]
      else if c = 3 then [P1, P1, P1] else if c = 2 then [P1, P1] else if c = 1 then [P1] else [])"

definition XXH64_finalize :: "mem \<Rightarrow> 64 word \<Rightarrow> addr \<Rightarrow> int \<Rightarrow> XXH_endianness \<Rightarrow> XXH_alignment \<Rightarrow> 64 word option" where
  "XXH64_finalize m h64 ptr len endian align = do {
     (h64, p) \<leftarrow> run_ops (finalize_ops64 (len mod 32) (PROCESS8_64 m endian align) (PROCESS4_64 m endian align) (PROCESS1_64 m)) (h64, ptr);
     Some (XXH64_avalanche h64) }"

section \<open>The hash at once\<close>

type_synonym acc64 = "64 word \<times> 64 word \<times> 64 word \<times> 64 word"

definition init64 :: "64 word \<Rightarrow> acc64" where
  "init64 seed = (seed + PRIME64_1 + PRIME64_2, seed + PRIME64_2, seed + 0, seed - PRIME64_1)"

definition merge64 :: "acc64 \<Rightarrow> 64 word" where
  "merge64 = (\<lambda>(v1, v2, v3, v4).
     let h64 = XXH_rotl64 v1 1 + XXH_rotl64 v2 7 + XXH_rotl64 v3 12 + XXH_rotl64 v4 18;
         h64 = XXH64_mergeRound h64 v1; h64 = XXH64_mergeRound h64 v2; h64 = XXH64_mergeRound h64 v3 in
     XXH64_mergeRound h64 v4)"

text \<open>The body of the loops over stripes of thirty-two bytes.\<close>

definition stripe64 :: "mem \<Rightarrow> XXH_endianness \<Rightarrow> XXH_alignment \<Rightarrow> acc64 \<Rightarrow> addr \<Rightarrow> acc64 option" where
  "stripe64 m endian align = (\<lambda>(v1, v2, v3, v4) p. do {
     w1 \<leftarrow> XXH_readLE64_align m p endian align;
     w2 \<leftarrow> XXH_readLE64_align m (p + 8) endian align;
     w3 \<leftarrow> XXH_readLE64_align m (p + 16) endian align;
     w4 \<leftarrow> XXH_readLE64_align m (p + 24) endian align;
     Some (XXH64_round v1 w1, XXH64_round v2 w2, XXH64_round v3 w3, XXH64_round v4 w4) })"

text \<open>\<open>do { ... } while (p<=limit)\<close>.\<close>

function loop64 :: "mem \<Rightarrow> XXH_endianness \<Rightarrow> XXH_alignment \<Rightarrow> acc64 \<Rightarrow> addr \<Rightarrow> addr \<Rightarrow> (acc64 \<times> addr) option" where
  "loop64 m endian align v p lim = do {
     v \<leftarrow> stripe64 m endian align v p;
     let p = p + 32 in
     if p \<le> lim then loop64 m endian align v p lim else Some (v, p) }"
  by pat_completeness auto
termination
  by (relation "measure (\<lambda>(m, endian, align, v, p, lim). nat (lim + 1 - p))") auto

declare loop64.simps [simp del]

definition XXH64_endian_align :: "mem \<Rightarrow> addr \<Rightarrow> int \<Rightarrow> 64 word \<Rightarrow> XXH_endianness \<Rightarrow> XXH_alignment \<Rightarrow> 64 word option" where
  "XXH64_endian_align m input len seed endian align =
     (let p = input; bEnd = p + len in do {
      (h64, p) \<leftarrow>
        (if len \<ge> 32 then
           let lim = bEnd - 32 in do {
           (v, p) \<leftarrow> loop64 m endian align (init64 seed) p lim;
           Some (merge64 v, p) }
         else Some (seed + PRIME64_5, p));
      XXH64_finalize m (h64 + word_of_int len) p len endian align })"

definition XXH64 :: "mem \<Rightarrow> addr \<Rightarrow> int \<Rightarrow> 64 word \<Rightarrow> 64 word option" where
  "XXH64 m input len seed =
     (let endian_detected = XXH_CPU_LITTLE_ENDIAN in
      if XXH_FORCE_ALIGN_CHECK \<and> input mod 8 = 0 then
        if endian_detected = XXH_littleEndian
        then XXH64_endian_align m input len seed XXH_littleEndian XXH_aligned
        else XXH64_endian_align m input len seed XXH_bigEndian XXH_aligned
      else if endian_detected = XXH_littleEndian
      then XXH64_endian_align m input len seed XXH_littleEndian XXH_unaligned
      else XXH64_endian_align m input len seed XXH_bigEndian XXH_unaligned)"

section \<open>The hash of a stream\<close>

record XXH64_state_t =
  total_len :: "64 word"
  acc_64 :: acc64                \<comment> \<open>\<open>v1\<close>, \<open>v2\<close>, \<open>v3\<close>, \<open>v4\<close>\<close>
  mem64 :: "byte list"
  memsize_64 :: "32 word"

definition XXH64_copyState :: "XXH64_state_t \<Rightarrow> XXH64_state_t" where
  "XXH64_copyState srcState = srcState"

definition XXH64_reset :: "64 word \<Rightarrow> XXH_errorcode \<times> XXH64_state_t" where
  "XXH64_reset seed = (XXH_OK, \<lparr>total_len = 0, acc_64 = init64 seed, mem64 = replicate 32 0, memsize_64 = 0\<rparr>)"

text \<open>The three parts of \<open>XXH64_update_endian\<close>: complete the stripe in the buffer, absorb the whole stripes of the
  input, keep the rest.\<close>

definition fill_stage64 :: "XXH64_state_t \<Rightarrow> mem \<Rightarrow> addr \<Rightarrow> XXH_endianness \<Rightarrow> (XXH64_state_t \<times> addr) option" where
  "fill_stage64 state m p endian =
     (if memsize_64 state \<noteq> 0 then do {
        bs \<leftarrow> read_bytes m p (nat (32 - uint (memsize_64 state)));
        buf \<leftarrow> put_bytes (mem64 state) (unat (memsize_64 state)) bs;
        v \<leftarrow> stripe64 (mem_of 0 buf) endian XXH_unaligned (acc_64 state) 0;
        Some (state\<lparr>mem64 := buf, acc_64 := v, memsize_64 := 0\<rparr>, p + (32 - uint (memsize_64 state))) }
      else Some (state, p))"

definition stripe_stage64 :: "XXH64_state_t \<Rightarrow> mem \<Rightarrow> addr \<Rightarrow> addr \<Rightarrow> XXH_endianness \<Rightarrow> (XXH64_state_t \<times> addr) option" where
  "stripe_stage64 state m p bEnd endian =
     (if p + 32 \<le> bEnd then
        let lim = bEnd - 32 in do {
        (v, p) \<leftarrow> loop64 m endian XXH_unaligned (acc_64 state) p lim;
        Some (state\<lparr>acc_64 := v\<rparr>, p) }
      else Some (state, p))"

definition rest_stage64 :: "XXH64_state_t \<Rightarrow> mem \<Rightarrow> addr \<Rightarrow> addr \<Rightarrow> (XXH_errorcode \<times> XXH64_state_t) option" where
  "rest_stage64 state m p bEnd =
     (if p < bEnd then do {
        bs \<leftarrow> read_bytes m p (nat (bEnd - p));
        buf \<leftarrow> put_bytes (mem64 state) 0 bs;
        Some (XXH_OK, state\<lparr>mem64 := buf, memsize_64 := word_of_int (bEnd - p)\<rparr>) }
      else Some (XXH_OK, state))"

definition XXH64_update_endian ::
  "XXH64_state_t \<Rightarrow> mem \<Rightarrow> addr \<Rightarrow> int \<Rightarrow> XXH_endianness \<Rightarrow> (XXH_errorcode \<times> XXH64_state_t) option" where
  "XXH64_update_endian state m input len endian =
     (if input = 0 then Some (XXH_ERROR, state)
      else
        let p = input; bEnd = p + len;
            state = state\<lparr>total_len := total_len state + word_of_int len\<rparr> in
        if uint (memsize_64 state) + len < 32 then do {
          bs \<leftarrow> read_bytes m input (nat len);
          buf \<leftarrow> put_bytes (mem64 state) (unat (memsize_64 state)) bs;
          Some (XXH_OK, state\<lparr>mem64 := buf, memsize_64 := memsize_64 state + word_of_int len\<rparr>) }
        else do {
          (state, p) \<leftarrow> fill_stage64 state m p endian;
          (state, p) \<leftarrow> stripe_stage64 state m p bEnd endian;
          rest_stage64 state m p bEnd })"

definition XXH64_update :: "XXH64_state_t \<Rightarrow> mem \<Rightarrow> addr \<Rightarrow> int \<Rightarrow> (XXH_errorcode \<times> XXH64_state_t) option" where
  "XXH64_update state_in m input len =
     (if XXH_CPU_LITTLE_ENDIAN = XXH_littleEndian
      then XXH64_update_endian state_in m input len XXH_littleEndian
      else XXH64_update_endian state_in m input len XXH_bigEndian)"

definition XXH64_digest_endian :: "XXH64_state_t \<Rightarrow> XXH_endianness \<Rightarrow> 64 word option" where
  "XXH64_digest_endian state endian =
     (let h64 = (if total_len state \<ge> 32 then merge64 (acc_64 state) else fst (snd (snd (acc_64 state))) + PRIME64_5);
          h64 = h64 + total_len state in
      XXH64_finalize (mem_of 0 (mem64 state)) h64 0 (uint (total_len state)) endian XXH_aligned)"

definition XXH64_digest :: "XXH64_state_t \<Rightarrow> 64 word option" where
  "XXH64_digest state_in =
     (if XXH_CPU_LITTLE_ENDIAN = XXH_littleEndian
      then XXH64_digest_endian state_in XXH_littleEndian
      else XXH64_digest_endian state_in XXH_bigEndian)"

section \<open>Canonical representation\<close>

definition XXH64_canonicalFromHash :: "mem \<Rightarrow> addr \<Rightarrow> 64 word \<Rightarrow> mem option" where
  "XXH64_canonicalFromHash m dst hash =
     (let hash = (if XXH_CPU_LITTLE_ENDIAN = XXH_littleEndian then XXH_swap64 hash else hash) in
      store_bytes m dst (word_bytes 8 hash))"

definition XXH64_hashFromCanonical :: "mem \<Rightarrow> addr \<Rightarrow> 64 word option" where
  "XXH64_hashFromCanonical m src = XXH_readBE64 m src"

section \<open>Reference\<close>

definition absorb64 :: "acc64 \<Rightarrow> byte list \<Rightarrow> acc64" where
  "absorb64 = (\<lambda>(v1, v2, v3, v4) bs.
     (XXH64_round v1 (le_word (take 8 bs)), XXH64_round v2 (le_word (take 8 (drop 8 bs))),
      XXH64_round v3 (le_word (take 8 (drop 16 bs))), XXH64_round v4 (le_word (take 8 (drop 24 bs)))))"

function tail64 :: "64 word \<Rightarrow> byte list \<Rightarrow> 64 word" where
  "tail64 h bs =
     (if 8 \<le> length bs then tail64 (mix8_64 h (le_word (take 8 bs))) (drop 8 bs)
      else if 4 \<le> length bs then foldl mix1_64 (mix4_64 h (le_word (take 4 bs))) (drop 4 bs)
      else foldl mix1_64 h bs)"
  by pat_completeness auto
termination
  by (relation "measure (\<lambda>(h, bs). length bs)") auto

declare tail64.simps [simp del]

definition xxh64 :: "64 word \<Rightarrow> byte list \<Rightarrow> 64 word" where
  "xxh64 seed bs =
     (let h = (if length bs \<ge> 32 then merge64 (stripes 32 absorb64 (init64 seed) bs) else seed + PRIME64_5) in
      XXH64_avalanche (tail64 (h + of_nat (length bs)) (remainder 32 bs)))"

section \<open>The code computes the reference\<close>

lemma readLE64_ok:
  assumes "valid m p 8" shows "XXH_readLE64_align m p XXH_littleEndian al = Some (le_word (bytes m p 8))"
  using read_bytes_Some [of m p 8] assms by (simp add: XXH_readLE64_align_def XXH_read64_def)

lemma stripe64_ok:
  assumes v: "valid m p 32" shows "stripe64 m XXH_littleEndian al v p = Some (absorb64 v (bytes m p 32))"
proof -
  have r: "XXH_readLE64_align m (p + k) XXH_littleEndian al = Some (le_word (bytes m (p + k) 8))" if "0 \<le> k" "k \<le> 24" for k
    by (rule readLE64_ok, rule valid_sub [OF v]) (use that in auto)
  have t: "take 8 (drop (nat k) (bytes m p 32)) = bytes m (p + k) 8" if "0 \<le> k" "k \<le> 24" for k
    using drop_bytes [of k 32 m p] take_bytes [of 8 "32 - k" m "p + k"] that by simp
  show ?thesis using r [of 0] r [of 8] r [of 16] r [of 24] t [of 0] t [of 8] t [of 16] t [of 24]
    by (cases v) (simp add: stripe64_def absorb64_def)
qed

lemma loop64_ok:
  assumes "valid m p (e - p)" "p + 32 \<le> e"
  shows "loop64 m XXH_littleEndian al v p (e - 32) = Some (stripes 32 absorb64 v (bytes m p (e - p)), p + 32 * ((e - p) div 32))"
  using assms
proof (induction "nat (e - p)" arbitrary: p v rule: less_induct)
  case less
  have v: "valid m p 32" using less.prems(1) by (rule valid_sub) (use less.prems(2) in auto)
  note st = stripe64_ok [OF v] bytes_stripes [of 32 "e - p" absorb64 v m p]
  have d: "(e - p) div 32 = (e - (p + 32)) div 32 + 1" by simp
  show ?case
  proof (cases "p + 64 \<le> e")
    case True
    have v': "valid m (p + 32) (e - (p + 32))" using less.prems(1) by (rule valid_sub) auto
    show ?thesis
      using less.hyps [of "p + 32" "absorb64 v (bytes m p 32)"] v' True st less.prems(2) d
      by (subst loop64.simps) (simp add: algebra_simps)
  next
    case False
    then have "length (bytes m (p + 32) (e - p - 32)) < 32" "(e - p) div 32 = 1" using less.prems(2) by auto
    then show ?thesis using st False less.prems(2) by (subst loop64.simps) simp
  qed
qed

lemma tail64_8:
  "8 \<le> n \<Longrightarrow> tail64 h (bytes m p n) = tail64 (mix8_64 h (le_word (bytes m p 8))) (bytes m (p + 8) (n - 8))"
  using take_bytes [of 8 n m p] drop_bytes [of 8 n m p] by (subst tail64.simps) (simp add: le_nat_iff)

lemma tail64_4:
  assumes "4 \<le> n" "n < 8" shows "tail64 h (bytes m p n) = tail64 (mix4_64 h (le_word (bytes m p 4))) (bytes m (p + 4) (n - 4))"
  using assms take_bytes [of 4 n m p] drop_bytes [of 4 n m p]
  by (subst (1 2) tail64.simps) (simp add: le_nat_iff)

lemma tail64_1:
  assumes "0 < n" "n < 4" shows "tail64 h (bytes m p n) = tail64 (mix1_64 h (the (m p))) (bytes m (p + 1) (n - 1))"
  using assms by (subst (1 2) tail64.simps) (simp add: bytes_Cons le_nat_iff)

lemma PROCESS_64_ok:
  "valid m p 8 \<Longrightarrow> PROCESS8_64 m XXH_littleEndian al (h, p) = Some (mix8_64 h (le_word (bytes m p 8)), p + 8)"
  "valid m p 4 \<Longrightarrow> PROCESS4_64 m XXH_littleEndian al (h, p) = Some (mix4_64 h (le_word (bytes m p 4)), p + 4)"
  "valid m p 1 \<Longrightarrow> PROCESS1_64 m (h, p) = Some (mix1_64 h (the (m p)), p + 1)"
  using valid_at [of m p 1 p] by (auto simp: PROCESS8_64_def PROCESS4_64_def PROCESS1_64_def readLE64_ok readLE32_ok)

lemma run_tail64_1:
  assumes "valid m p (int d)" "d < 4"
  shows "run_ops (replicate d (PROCESS1_64 m)) (h, p) = Some (tail64 h (bytes m p (int d)), p + int d)"
  using assms
proof (induction d arbitrary: p h)
  case 0
  then show ?case by (simp add: tail64.simps)
next
  case (Suc d)
  have "valid m p 1" "valid m (p + 1) (int d)" using Suc.prems(1) by (auto elim: valid_sub)
  then show ?case using Suc.IH [of "p + 1"] Suc.prems(2) PROCESS_64_ok(3) [of m p h] tail64_1 [of "int (Suc d)" h m p] by simp
qed

lemma run_tail64_4:
  assumes "valid m p (4 * int b + int d)" "b \<le> 1" "d < 4"
  shows "run_ops (replicate b (PROCESS4_64 m XXH_littleEndian al) @ replicate d (PROCESS1_64 m)) (h, p)
     = Some (tail64 h (bytes m p (4 * int b + int d)), p + 4 * int b + int d)"
proof (cases "b = 0")
  case False
  then have b: "b = 1" using assms(2) by simp
  have "valid m p 4" "valid m (p + 4) (int d)" using assms(1) b by (auto elim: valid_sub)
  then show ?thesis using run_tail64_1 [of m "p + 4" d] assms(3) PROCESS_64_ok(2) [of m p al h] tail64_4 [of "4 + int d" h m p]
    by (simp add: b)
qed (use run_tail64_1 assms in simp)

lemma run_tail64:
  assumes "valid m p (8 * int a + (4 * int b + int d))" "b \<le> 1" "d < 4"
  shows "run_ops (replicate a (PROCESS8_64 m XXH_littleEndian al) @ replicate b (PROCESS4_64 m XXH_littleEndian al)
       @ replicate d (PROCESS1_64 m)) (h, p)
     = Some (tail64 h (bytes m p (8 * int a + (4 * int b + int d))), p + 8 * int a + 4 * int b + int d)"
  using assms
proof (induction a arbitrary: p h)
  case 0
  then show ?case using run_tail64_4 [of m p b d al h] by simp
next
  case (Suc a)
  have "valid m p 8" "valid m (p + 8) (8 * int a + (4 * int b + int d))" using Suc.prems(1) by (auto elim: valid_sub)
  then show ?case using Suc.IH [of "p + 8"] Suc.prems(2,3) PROCESS_64_ok(1) [of m p al h]
      tail64_8 [of "8 * int (Suc a) + (4 * int b + int d)" h m p]
    by (simp add: algebra_simps)
qed

lemma finalize_ops64_eq:
  assumes "a \<le> 3" "b \<le> 1" "d \<le> 3"
  shows "finalize_ops64 (8 * int a + (4 * int b + int d)) P8 P4 P1 = replicate a P8 @ replicate b P4 @ replicate d P1"
proof -
  have "a = 0 \<or> a = 1 \<or> a = 2 \<or> a = 3" "b = 0 \<or> b = 1" "d = 0 \<or> d = 1 \<or> d = 2 \<or> d = 3" using assms by auto
  then show ?thesis by (elim disjE; simp add: finalize_ops64_def numeral_2_eq_2 numeral_3_eq_3)
qed

lemma finalize64_ok:
  assumes "valid m p (len mod 32)"
  shows "XXH64_finalize m h p len XXH_littleEndian al = Some (XXH64_avalanche (tail64 h (bytes m p (len mod 32))))"
proof -
  let ?c = "len mod 32"
  define a b d where "a = nat (?c div 8)" and "b = nat (?c mod 8 div 4)" and "d = nat (?c mod 4)"
  have c: "?c = 8 * int a + (4 * int b + int d)" "a \<le> 3" "b \<le> 1" "d \<le> 3"
  proof -
    have "x = 8 * (x div 8) + (4 * (x mod 8 div 4) + x mod 4)" for x :: int by presburger
    moreover have "0 \<le> ?c mod 8 div 4" "0 \<le> ?c div 8" by (simp_all add: pos_imp_zdiv_nonneg_iff)
    ultimately show "?c = 8 * int a + (4 * int b + int d)" by (simp add: a_def b_def d_def)
  qed (auto simp: a_def b_def d_def)
  have "run_ops (finalize_ops64 ?c (PROCESS8_64 m XXH_littleEndian al) (PROCESS4_64 m XXH_littleEndian al) (PROCESS1_64 m)) (h, p)
      = Some (tail64 h (bytes m p ?c), p + 8 * int a + 4 * int b + int d)"
    unfolding c(1) finalize_ops64_eq [OF c(2-4)] by (rule run_tail64) (use assms c in auto)
  then show ?thesis by (simp add: XXH64_finalize_def)
qed

theorem XXH64_endian_align_ok:
  assumes v: "valid m p len" "0 \<le> len"
  shows "XXH64_endian_align m p len seed XXH_littleEndian al = Some (xxh64 seed (bytes m p len))"
proof (cases "len \<ge> 32")
  case True
  let ?q = "p + 32 * (len div 32)"
  have l: "loop64 m XXH_littleEndian al (init64 seed) p (p + len - 32) = Some (stripes 32 absorb64 (init64 seed) (bytes m p len), ?q)"
    using loop64_ok [of m p "p + len"] v True by simp
  have q: "?q + len mod 32 = p + len" by simp
  have vq: "valid m ?q (len mod 32)" using v(1) by (rule valid_sub) (use q v(2) in auto)
  have "remainder 32 (bytes m p len) = bytes m ?q (len mod 32)" using remainder_bytes [OF v(2), of 32 m p] by simp
  moreover have "32 \<le> length (bytes m p len)" "word_of_int len = (of_nat (length (bytes m p len)) :: 64 word)"
    using True by (simp_all add: le_nat_iff of_nat_nat)
  ultimately show ?thesis using True l finalize64_ok [of m ?q len] vq
    unfolding XXH64_endian_align_def xxh64_def by simp
next
  case False
  then have "remainder 32 (bytes m p len) = bytes m p len" "len mod 32 = len" using v(2) by auto
  moreover have "\<not> 32 \<le> length (bytes m p len)" "word_of_int len = (of_nat (length (bytes m p len)) :: 64 word)"
    using False v(2) by (simp_all add: le_nat_iff of_nat_nat)
  ultimately show ?thesis using False finalize64_ok [of m p len] v
    unfolding XXH64_endian_align_def xxh64_def by simp
qed

section \<open>Streaming computes the same hash\<close>

text \<open>The state after the bytes \<open>bs\<close>.\<close>

definition state64_ok :: "64 word \<Rightarrow> byte list \<Rightarrow> XXH64_state_t \<Rightarrow> bool" where
  "state64_ok seed bs st \<longleftrightarrow> total_len st = of_nat (length bs) \<and>
     acc_64 st = stripes 32 absorb64 (init64 seed) bs \<and> length (mem64 st) = 32 \<and>
     memsize_64 st = of_nat (length bs mod 32) \<and> take (length bs mod 32) (mem64 st) = remainder 32 bs"

lemma reset64_ok: "state64_ok seed [] (snd (XXH64_reset seed))"
  by (simp add: state64_ok_def XXH64_reset_def)

lemma fill_stage64_ok:
  assumes k: "unat (memsize_64 st) = k" "uint (memsize_64 st) = int k" "k < 32" and b: "length (mem64 st) = 32" "take k (mem64 st) = r"
    and n: "32 \<le> int k + n" "valid m p n"
  shows "\<exists>st' q. fill_stage64 st m p XXH_littleEndian = Some (st', q) \<and> p \<le> q \<and> q \<le> p + n \<and> length (mem64 st') = 32 \<and> memsize_64 st' = 0
     \<and> total_len st' = total_len st
     \<and> stripes 32 absorb64 (acc_64 st) (r @ bytes m p n) = stripes 32 absorb64 (acc_64 st') (bytes m q (p + n - q))
     \<and> remainder 32 (r @ bytes m p n) = remainder 32 (bytes m q (p + n - q))"
proof (cases "memsize_64 st = 0")
  case True
  then have "k = 0" "r = []" using k(1) b(2) by auto
  then show ?thesis using True b n by (auto simp: fill_stage64_def)
next
  case False
  obtain buf where f: "read_bytes m p (nat (int 32 - int k)) = Some (bytes m p (int 32 - int k))"
      "put_bytes (mem64 st) k (bytes m p (int 32 - int k)) = Some buf" "length buf = 32"
      "stripes 32 absorb64 (acc_64 st) (r @ bytes m p n)
        = stripes 32 absorb64 (absorb64 (acc_64 st) buf) (bytes m (p + (int 32 - int k)) (n - (int 32 - int k)))"
      "remainder 32 (r @ bytes m p n) = remainder 32 (bytes m (p + (int 32 - int k)) (n - (int 32 - int k)))"
    by (rule fill_buffer [of k 32 "mem64 st" r n m p absorb64 "acc_64 st"]) (use k b n in auto)
  have "stripe64 (mem_of 0 buf) XXH_littleEndian XXH_unaligned (acc_64 st) 0 = Some (absorb64 (acc_64 st) buf)"
    using stripe64_ok [of "mem_of 0 buf" 0 XXH_unaligned] f(3) bytes_mem_of [of 32 buf 0] by simp
  then have "fill_stage64 st m p XXH_littleEndian = Some (st\<lparr>mem64 := buf, acc_64 := absorb64 (acc_64 st) buf, memsize_64 := 0\<rparr>, p + (32 - int k))"
    using False f(1,2) k by (simp add: fill_stage64_def)
  moreover have "p + n - (p + (32 - int k)) = n - (int 32 - int k)" by simp
  ultimately show ?thesis using f(3-5) n(1) k(3) by auto
qed

lemma rest_stage64_ok:
  assumes b: "length (mem64 st) = 32" "memsize_64 st = 0" and q: "valid m q (e - q)" "q \<le> e"
  shows "\<exists>st1 q1 st'. stripe_stage64 st m q e XXH_littleEndian = Some (st1, q1) \<and> rest_stage64 st1 m q1 e = Some (XXH_OK, st')
     \<and> total_len st' = total_len st
     \<and> acc_64 st' = stripes 32 absorb64 (acc_64 st) (bytes m q (e - q)) \<and> length (mem64 st') = 32
     \<and> memsize_64 st' = of_nat (nat (e - q) mod 32) \<and> take (nat (e - q) mod 32) (mem64 st') = remainder 32 (bytes m q (e - q))"
proof -
  let ?x = "bytes m q (e - q)" and ?q = "q + 32 * ((e - q) div 32)"
  let ?s = "st\<lparr>acc_64 := stripes 32 absorb64 (acc_64 st) ?x\<rparr>"
  have st: "stripe_stage64 st m q e XXH_littleEndian = Some (?s, ?q)"
    using loop64_ok [OF q(1)] q(2) by (cases "q + 32 \<le> e") (auto simp: stripe_stage64_def)
  have e: "e - ?q = (e - q) mod 32" by (simp add: minus_mult_div_eq_mod [symmetric])
  obtain buf where k: "read_bytes m ?q (nat (e - ?q)) = Some (remainder 32 ?x)" "put_bytes (mem64 ?s) 0 (remainder 32 ?x) = Some buf"
      "length buf = 32" "take (nat (e - q) mod 32) buf = remainder 32 ?x"
    using keep_rest [of 32 "mem64 ?s" m q "e - q"] b(1) q by (auto simp: e)
  have len: "nat ((e - q) mod 32) = nat (e - q) mod 32" using q(2) by (simp add: nat_mod_distrib)
  show ?thesis
  proof (cases "?q < e")
    case True
    have "word_of_int ((e - q) mod 32) = (of_nat (nat (e - q) mod 32) :: 32 word)" by (simp flip: len add: of_nat_nat)
    then have "rest_stage64 ?s m ?q e = Some (XXH_OK, ?s\<lparr>mem64 := buf, memsize_64 := of_nat (nat (e - q) mod 32)\<rparr>)"
      using True k(1,2) by (simp add: rest_stage64_def e)
    then show ?thesis using st k(3,4) by auto
  next
    case False
    then have "nat (e - q) mod 32 = 0" using e len by (simp add: dual_order.antisym)
    moreover from this have "remainder 32 ?x = []" using length_remainder [of 32 ?x] by (simp del: length_remainder flip: length_0_conv)
    ultimately show ?thesis using st False b by (auto simp: rest_stage64_def)
  qed
qed

theorem update64_ok:
  assumes st: "state64_ok seed bs st" and v: "valid m p n" "0 \<le> n" "0 < p"
  shows "\<exists>st'. XXH64_update_endian st m p n XXH_littleEndian = Some (XXH_OK, st') \<and> state64_ok seed (bs @ bytes m p n) st'"
proof -
  let ?k = "length bs mod 32" and ?r = "remainder 32 bs" and ?x = "bytes m p n"
  define st1 where "st1 = st\<lparr>total_len := total_len st + word_of_int n\<rparr>"
  have k: "unat (memsize_64 st) = ?k" "uint (memsize_64 st) = int ?k" "?k < 32"
    using st small_word32 [of ?k] by (auto simp: state64_ok_def uint_nat)
  have s1: "total_len st1 = of_nat (length (bs @ ?x))"
      "acc_64 st1 = stripes 32 absorb64 (init64 seed) bs" "mem64 st1 = mem64 st" "length (mem64 st) = 32" "memsize_64 st1 = memsize_64 st"
      "take ?k (mem64 st) = ?r"
    using st v(2) by (auto simp: st1_def state64_ok_def of_nat_nat)
  have sr: "stripes 32 absorb64 (init64 seed) (bs @ ?x) = stripes 32 absorb64 (acc_64 st1) (?r @ ?x)"
      "remainder 32 (bs @ ?x) = remainder 32 (?r @ ?x)"
    using stripes_remainder [of 32 absorb64 "init64 seed" bs ?x] remainder_remainder [of 32 bs ?x] s1(2) by auto
  show ?thesis
  proof (cases "int ?k + n < 32")
    case True
    have x: "read_bytes m p (nat n) = Some ?x" using read_bytes_Some [of m p "nat n"] v by simp
    have "?k + length ?x \<le> length (mem64 st)" using True s1(4) v(2) by simp
    then obtain buf where buf: "put_bytes (mem64 st) ?k ?x = Some buf" "length buf = length (mem64 st)" "take (?k + length ?x) buf = take ?k (mem64 st) @ ?x"
      by (rule put_bytes_Some)
    let ?s = "st1\<lparr>mem64 := buf, memsize_64 := memsize_64 st1 + word_of_int n\<rparr>"
    have "XXH64_update_endian st m p n XXH_littleEndian = Some (XXH_OK, ?s)"
      using True x buf(1) k s1(3,5) v(3) by (simp add: XXH64_update_endian_def Let_def st1_def)
    moreover have short: "length (?r @ ?x) < 32" using True v(2) by simp
    have "length (bs @ ?x) mod 32 = ?k + length ?x" using arg_cong [OF sr(2), of length] short by simp
    then have "state64_ok seed (bs @ ?x) ?s"
      using short buf sr s1 st v(2) by (simp add: state64_ok_def of_nat_nat)
    ultimately show ?thesis by blast
  next
    case False
    obtain st2 q where f: "fill_stage64 st1 m p XXH_littleEndian = Some (st2, q)" "p \<le> q" "q \<le> p + n" "length (mem64 st2) = 32" "memsize_64 st2 = 0"
        "total_len st2 = total_len st1"
        "stripes 32 absorb64 (acc_64 st1) (?r @ ?x) = stripes 32 absorb64 (acc_64 st2) (bytes m q (p + n - q))"
        "remainder 32 (?r @ ?x) = remainder 32 (bytes m q (p + n - q))"
      using fill_stage64_ok [of st1 ?k ?r n m p] k s1 False v(1) by auto
    have vq: "valid m q (p + n - q)" using v(1) by (rule valid_sub) (use f in auto)
    obtain st3 q1 st' where g: "stripe_stage64 st2 m q (p + n) XXH_littleEndian = Some (st3, q1)" "rest_stage64 st3 m q1 (p + n) = Some (XXH_OK, st')"
        "total_len st' = total_len st2"
        "acc_64 st' = stripes 32 absorb64 (acc_64 st2) (bytes m q (p + n - q))" "length (mem64 st') = 32"
        "memsize_64 st' = of_nat (nat (p + n - q) mod 32)" "take (nat (p + n - q) mod 32) (mem64 st') = remainder 32 (bytes m q (p + n - q))"
      using rest_stage64_ok [OF f(4,5) vq f(3)] by blast
    have "length (bs @ ?x) mod 32 = nat (p + n - q) mod 32"
      using arg_cong [OF sr(2), of length] arg_cong [OF f(8), of length] by simp
    then have "state64_ok seed (bs @ ?x) st'" using g f s1 sr by (simp add: state64_ok_def)
    moreover have "XXH64_update_endian st m p n XXH_littleEndian = Some (XXH_OK, st')"
      using False k s1(5) v(3) f(1) g(1,2) by (simp add: XXH64_update_endian_def Let_def st1_def)
    ultimately show ?thesis by blast
  qed
qed

theorem digest64_ok:
  assumes st: "state64_ok seed bs st" and n: "length bs < 2 ^ 64" shows "XXH64_digest_endian st XXH_littleEndian = Some (xxh64 seed bs)"
proof -
  let ?k = "length bs mod 32"
  have l: "uint (total_len st) = int (length bs)" "(32 \<le> total_len st) = (32 \<le> length bs)"
    using st n by (simp_all add: state64_ok_def word_le_nat_alt uint_nat unat_of_nat)
  have km: "int (length bs) mod 32 = int ?k" by (simp add: of_nat_mod)
  have "valid (mem_of 0 (mem64 st)) 0 (int ?k)" using st by (intro valid_mem_of) (simp add: state64_ok_def)
  moreover have "bytes (mem_of 0 (mem64 st)) 0 (int ?k) = remainder 32 bs"
    using bytes_mem_of [of "int ?k" "mem64 st" 0] st by (simp add: state64_ok_def)
  moreover have "fst (snd (snd (acc_64 st))) = seed" if "length bs < 32"
    using st that by (simp add: state64_ok_def init64_def)
  ultimately show ?thesis using finalize64_ok [of "mem_of 0 (mem64 st)" 0 "int (length bs)"] st l
    by (auto simp: km XXH64_digest_endian_def xxh64_def state64_ok_def Let_def)
qed

section \<open>The canonical representation\<close>

lemma masks64:
  "(0xff00000000000000 :: 64 word) = push_bit 56 (mask 8)" "(0x00ff000000000000 :: 64 word) = push_bit 48 (mask 8)"
  "(0x0000ff0000000000 :: 64 word) = push_bit 40 (mask 8)" "(0x000000ff00000000 :: 64 word) = push_bit 32 (mask 8)"
  "(0x00000000ff000000 :: 64 word) = push_bit 24 (mask 8)" "(0x0000000000ff0000 :: 64 word) = push_bit 16 (mask 8)"
  "(0x000000000000ff00 :: 64 word) = push_bit 8 (mask 8)" "(0x00000000000000ff :: 64 word) = mask 8"
  by code_simp+

lemma swap64_bytes: "word_bytes 8 (XXH_swap64 w) = rev (word_bytes 8 w)"
proof -
  have "ucast (XXH_swap64 w) = (ucast (drop_bit 56 w) :: byte)" "ucast (drop_bit 8 (XXH_swap64 w)) = (ucast (drop_bit 48 w) :: byte)"
    "ucast (drop_bit 16 (XXH_swap64 w)) = (ucast (drop_bit 40 w) :: byte)" "ucast (drop_bit 24 (XXH_swap64 w)) = (ucast (drop_bit 32 w) :: byte)"
    "ucast (drop_bit 32 (XXH_swap64 w)) = (ucast (drop_bit 24 w) :: byte)" "ucast (drop_bit 40 (XXH_swap64 w)) = (ucast (drop_bit 16 w) :: byte)"
    "ucast (drop_bit 48 (XXH_swap64 w)) = (ucast (drop_bit 8 w) :: byte)" "ucast (drop_bit 56 (XXH_swap64 w)) = (ucast w :: byte)"
    unfolding XXH_swap64_def masks64 by (rule bit_word_eqI; auto simp: bit_simps add.commute)+
  then show ?thesis by (simp add: numeral_eq_Suc)
qed

lemma le_word_bytes64: "le_word (word_bytes 8 w) = (w :: 64 word)"
  using le_word_bytes [of 8 w] by (simp add: take_bit_word_eq_self)

lemma swap64_swap64 [simp]: "XXH_swap64 (XXH_swap64 w) = w"
proof -
  have "word_bytes 8 (XXH_swap64 (XXH_swap64 w)) = word_bytes 8 w" by (simp only: swap64_bytes rev_rev_ident)
  from arg_cong [OF this, of "le_word :: byte list \<Rightarrow> 64 word"] show ?thesis by (simp only: le_word_bytes64)
qed

theorem canonical64_ok:
  assumes "valid m dst 8"
  shows "\<exists>m'. XXH64_canonicalFromHash m dst h = Some m' \<and> frame m m' dst (dst + 8) \<and> bytes m' dst 8 = rev (word_bytes 8 h)
     \<and> XXH64_hashFromCanonical m' dst = Some h"
proof -
  let ?bs = "word_bytes 8 (XXH_swap64 h)" and ?m = "fill m dst (word_bytes 8 (XXH_swap64 h))"
  have st: "XXH64_canonicalFromHash m dst h = Some ?m"
    using store_bytes_Some [of m dst ?bs] assms by (simp add: XXH64_canonicalFromHash_def XXH_CPU_LITTLE_ENDIAN_def)
  have fr: "frame m ?m dst (dst + 8)" using frame_fill [of m dst ?bs] assms by simp
  have b: "bytes ?m dst 8 = ?bs" using bytes_fill [of m dst ?bs] by simp
  have "XXH_read64 ?m dst = Some (XXH_swap64 h)"
    using read_bytes_Some [of ?m dst 8] assms frame_valid [OF fr, of dst 8] b by (simp add: XXH_read64_def le_word_bytes64)
  then show ?thesis using st fr b
    by (simp add: XXH64_hashFromCanonical_def XXH_readBE64_def XXH_CPU_LITTLE_ENDIAN_def swap64_bytes)
qed

end
