(* ===== verification/XXH_Props.thy ===== *)
theory XXH_Props
  imports XXH_64
begin

text \<open>Properties of xxHash.  The two incremental interfaces satisfy one contract, the locale
  \<open>incremental_hash\<close>: a state stands for the bytes fed to it so far.  What a sequence of updates
  computes is proved once in the locale.\<close>

section \<open>The contract of an incremental hash\<close>

text \<open>A caller that feeds chunks \<open>(m, p, n)\<close>, each \<open>n\<close> bytes at \<open>p\<close> of the memory of its time,
  and stops at the first error.\<close>

fun feed :: "('s \<Rightarrow> mem \<Rightarrow> addr \<Rightarrow> int \<Rightarrow> (XXH_errorcode \<times> 's) option) \<Rightarrow> 's \<Rightarrow> (mem \<times> addr \<times> int) list \<Rightarrow> 's option" where
  "feed upd st [] = Some st"
| "feed upd st ((m, p, n) # cs) =
     (case upd st m p n of None \<Rightarrow> None | Some (e, st') \<Rightarrow> if e = XXH_OK then feed upd st' cs else None)"

definition chunk_ok :: "mem \<times> addr \<times> int \<Rightarrow> bool" where
  "chunk_ok = (\<lambda>(m, p, n). 0 < p \<and> 0 \<le> n \<and> valid m p n)"

definition chunk_bytes :: "mem \<times> addr \<times> int \<Rightarrow> byte list" where
  "chunk_bytes = (\<lambda>(m, p, n). bytes m p n)"

locale incremental_hash =
  fixes holds :: "'w \<Rightarrow> byte list \<Rightarrow> 's \<Rightarrow> bool" and reset :: "'w \<Rightarrow> 's"
    and update :: "'s \<Rightarrow> mem \<Rightarrow> addr \<Rightarrow> int \<Rightarrow> (XXH_errorcode \<times> 's) option"
    and digest :: "'s \<Rightarrow> 'w option" and hash :: "'w \<Rightarrow> byte list \<Rightarrow> 'w"
  assumes start: "holds seed [] (reset seed)"
    and absorbs: "\<lbrakk>holds seed bs st; valid m p n; 0 \<le> n; 0 < p\<rbrakk>
      \<Longrightarrow> \<exists>st'. update st m p n = Some (XXH_OK, st') \<and> holds seed (bs @ bytes m p n) st'"
    and result: "\<lbrakk>holds seed bs st; length bs < 2 ^ 64\<rbrakk> \<Longrightarrow> digest st = Some (hash seed bs)"
begin

lemma feed_holds:
  assumes "holds seed bs st" "list_all chunk_ok cs"
  shows "\<exists>st'. feed update st cs = Some st' \<and> holds seed (bs @ concat (map chunk_bytes cs)) st'"
  using assms
proof (induction cs arbitrary: bs st)
  case (Cons c cs)
  obtain m p n where c: "c = (m, p, n)" by (cases c)
  from absorbs [OF Cons.prems(1), of m p n] obtain st' where
    "update st m p n = Some (XXH_OK, st')" "holds seed (bs @ bytes m p n) st'"
    using Cons.prems(2) by (auto simp: c chunk_ok_def)
  then show ?case using Cons.IH [of "bs @ bytes m p n" st'] Cons.prems(2) by (auto simp: c chunk_bytes_def)
qed simp

lemma feed_digest:
  assumes "list_all chunk_ok cs" "length (concat (map chunk_bytes cs)) < 2 ^ 64"
  shows "\<exists>st'. feed update (reset seed) cs = Some st' \<and> digest st' = Some (hash seed (concat (map chunk_bytes cs)))"
  using feed_holds [OF start assms(1), of seed] result assms(2) by fastforce

end

interpretation inc32: incremental_hash state32_ok "\<lambda>seed. snd (XXH32_reset seed)" XXH32_update XXH32_digest xxh32
  by unfold_locales
    (use reset32_ok update32_ok digest32_ok in \<open>auto simp: XXH32_update_def XXH32_digest_def XXH_CPU_LITTLE_ENDIAN_def\<close>)

interpretation inc64: incremental_hash state64_ok "\<lambda>seed. snd (XXH64_reset seed)" XXH64_update XXH64_digest xxh64
  by unfold_locales
    (use reset64_ok update64_ok digest64_ok in \<open>auto simp: XXH64_update_def XXH64_digest_def XXH_CPU_LITTLE_ENDIAN_def\<close>)

section \<open>Properties\<close>

text \<open>(C22) On a readable input XXH32 reads only the input and returns the reference hash: its unrolled
  switch over the last bytes and its four-lane loop compute the fold over 16-byte stripes, 4-byte words and
  single bytes.\<close>

theorem XXH32_reference:
  assumes "valid m p n" "0 \<le> n"
  shows "XXH32 m p n seed = Some (xxh32 seed (bytes m p n))"
  using XXH32_endian_align_ok [OF assms] by (simp add: XXH32_def XXH_CPU_LITTLE_ENDIAN_def XXH_FORCE_ALIGN_CHECK_def)

theorem XXH32_reference_witness: "XXH32 (mem_of 100 []) 100 0 0 = Some 0x02CC5D05"
proof -
  have "XXH32 (mem_of 100 []) 100 0 0 = Some (xxh32 0 (bytes (mem_of 100 []) 100 0))"
    by (rule XXH32_reference) (simp_all add: valid_mem_of)
  moreover have "xxh32 0 [] = 0x02CC5D05" by code_simp
  ultimately show ?thesis by simp
qed

text \<open>(C23) On a readable input XXH64 reads only the input and returns the reference hash.\<close>

theorem XXH64_reference:
  assumes "valid m p n" "0 \<le> n"
  shows "XXH64 m p n seed = Some (xxh64 seed (bytes m p n))"
  using XXH64_endian_align_ok [OF assms] by (simp add: XXH64_def XXH_CPU_LITTLE_ENDIAN_def XXH_FORCE_ALIGN_CHECK_def)

theorem XXH64_reference_witness: "XXH64 (mem_of 100 []) 100 0 0 = Some 0xEF46DB3751D8E999"
proof -
  have "XXH64 (mem_of 100 []) 100 0 0 = Some (xxh64 0 (bytes (mem_of 100 []) 100 0))"
    by (rule XXH64_reference) (simp_all add: valid_mem_of)
  moreover have "xxh64 0 [] = 0xEF46DB3751D8E999" by code_simp
  ultimately show ?thesis by simp
qed

text \<open>(C24) Feeding readable, non-NULL chunks of any sizes to XXH32_update after XXH32_reset succeeds, and
  XXH32_digest then returns the hash of the concatenated chunks.\<close>

theorem XXH32_stream:
  assumes "list_all chunk_ok cs" "length (concat (map chunk_bytes cs)) < 2 ^ 64"
  shows "\<exists>st. feed XXH32_update (snd (XXH32_reset seed)) cs = Some st
    \<and> XXH32_digest st = Some (xxh32 seed (concat (map chunk_bytes cs)))"
  using assms by (rule inc32.feed_digest)

theorem XXH32_stream_witness:
  "\<exists>st. feed XXH32_update (snd (XXH32_reset 5)) [(mem_of 100 [97, 98], 100, 2), (mem_of 7 [99], 7, 1)] = Some st
    \<and> XXH32_digest st = Some (xxh32 5 [97, 98, 99])"
  using XXH32_stream [of "[(mem_of 100 [97, 98], 100, 2), (mem_of 7 [99], 7, 1)]" 5]
    bytes_mem_of [of 2 "[97, 98]" 100] bytes_mem_of [of 1 "[99]" 7]
  by (simp add: chunk_ok_def chunk_bytes_def valid_mem_of)

text \<open>(C25) Feeding readable, non-NULL chunks of any sizes to XXH64_update after XXH64_reset succeeds, and
  XXH64_digest then returns the hash of the concatenated chunks.\<close>

theorem XXH64_stream:
  assumes "list_all chunk_ok cs" "length (concat (map chunk_bytes cs)) < 2 ^ 64"
  shows "\<exists>st. feed XXH64_update (snd (XXH64_reset seed)) cs = Some st
    \<and> XXH64_digest st = Some (xxh64 seed (concat (map chunk_bytes cs)))"
  using assms by (rule inc64.feed_digest)

theorem XXH64_stream_witness:
  "\<exists>st. feed XXH64_update (snd (XXH64_reset 5)) [(mem_of 100 [97, 98], 100, 2), (mem_of 7 [99], 7, 1)] = Some st
    \<and> XXH64_digest st = Some (xxh64 5 [97, 98, 99])"
  using XXH64_stream [of "[(mem_of 100 [97, 98], 100, 2), (mem_of 7 [99], 7, 1)]" 5]
    bytes_mem_of [of 2 "[97, 98]" 100] bytes_mem_of [of 1 "[99]" 7]
  by (simp add: chunk_ok_def chunk_bytes_def valid_mem_of)

text \<open>(C26) The canonical representation is the big-endian one, writing it changes only its own bytes, and
  reading it back gives the hash, for both widths.\<close>

theorem canonical_round_trip:
  assumes "valid m a 4" "valid m b 8"
  shows "(\<exists>m'. XXH32_canonicalFromHash m a h = Some m' \<and> frame m m' a (a + 4) \<and> bytes m' a 4 = rev (word_bytes 4 h)
      \<and> XXH32_hashFromCanonical m' a = Some h)
    \<and> (\<exists>m'. XXH64_canonicalFromHash m b k = Some m' \<and> frame m m' b (b + 8) \<and> bytes m' b 8 = rev (word_bytes 8 k)
      \<and> XXH64_hashFromCanonical m' b = Some k)"
  using canonical32_ok [OF assms(1)] canonical64_ok [OF assms(2)] by blast

theorem canonical_round_trip_witness:
  "\<exists>m'. XXH32_canonicalFromHash (mem_of 100 (replicate 8 0)) 100 0x12345678 = Some m'
    \<and> bytes m' 100 4 = [0x12, 0x34, 0x56, 0x78] \<and> XXH32_hashFromCanonical m' 100 = Some 0x12345678"
proof -
  have "valid (mem_of 100 (replicate 8 0)) 100 4" "valid (mem_of 100 (replicate 8 0)) 100 8"
    by (simp_all add: valid_mem_of)
  moreover have "rev (word_bytes 4 (0x12345678 :: 32 word)) = [0x12, 0x34, 0x56, 0x78]" by code_simp
  ultimately show ?thesis using canonical_round_trip [of "mem_of 100 (replicate 8 0)" 100 100 "0x12345678"] by metis
qed


end
