(* ===== verification/LZ4F_Base.thy ===== *)
theory LZ4F_Base
  imports XXH_Props
begin

text \<open>
  The types of the frame format (lz4frame.h), its error codes, little-endian access, block sizes
  and the bounds on the size of a frame (lz4frame.c).  A result is a \<open>size_t\<close>; the error \<open>e\<close> is
  the value \<open>-e\<close> of that type.
\<close>

section \<open>Error codes\<close>

datatype LZ4F_errorCodes =
    LZ4F_OK_NoError | LZ4F_ERROR_GENERIC | LZ4F_ERROR_maxBlockSize_invalid | LZ4F_ERROR_blockMode_invalid
  | LZ4F_ERROR_parameter_invalid | LZ4F_ERROR_compressionLevel_invalid | LZ4F_ERROR_headerVersion_wrong
  | LZ4F_ERROR_blockChecksum_invalid | LZ4F_ERROR_reservedFlag_set | LZ4F_ERROR_allocation_failed
  | LZ4F_ERROR_srcSize_tooLarge | LZ4F_ERROR_dstMaxSize_tooSmall | LZ4F_ERROR_frameHeader_incomplete
  | LZ4F_ERROR_frameType_unknown | LZ4F_ERROR_frameSize_wrong | LZ4F_ERROR_srcPtr_wrong
  | LZ4F_ERROR_decompressionFailed | LZ4F_ERROR_headerChecksum_invalid | LZ4F_ERROR_contentChecksum_invalid
  | LZ4F_ERROR_frameDecoding_alreadyStarted | LZ4F_ERROR_compressionState_uninitialized
  | LZ4F_ERROR_parameter_null | LZ4F_ERROR_io_write | LZ4F_ERROR_io_read | LZ4F_ERROR_maxCode

text \<open>The values of the enumeration.\<close>

fun error_value :: "LZ4F_errorCodes \<Rightarrow> int" where
  "error_value LZ4F_OK_NoError = 0"
| "error_value LZ4F_ERROR_GENERIC = 1"
| "error_value LZ4F_ERROR_maxBlockSize_invalid = 2"
| "error_value LZ4F_ERROR_blockMode_invalid = 3"
| "error_value LZ4F_ERROR_parameter_invalid = 4"
| "error_value LZ4F_ERROR_compressionLevel_invalid = 5"
| "error_value LZ4F_ERROR_headerVersion_wrong = 6"
| "error_value LZ4F_ERROR_blockChecksum_invalid = 7"
| "error_value LZ4F_ERROR_reservedFlag_set = 8"
| "error_value LZ4F_ERROR_allocation_failed = 9"
| "error_value LZ4F_ERROR_srcSize_tooLarge = 10"
| "error_value LZ4F_ERROR_dstMaxSize_tooSmall = 11"
| "error_value LZ4F_ERROR_frameHeader_incomplete = 12"
| "error_value LZ4F_ERROR_frameType_unknown = 13"
| "error_value LZ4F_ERROR_frameSize_wrong = 14"
| "error_value LZ4F_ERROR_srcPtr_wrong = 15"
| "error_value LZ4F_ERROR_decompressionFailed = 16"
| "error_value LZ4F_ERROR_headerChecksum_invalid = 17"
| "error_value LZ4F_ERROR_contentChecksum_invalid = 18"
| "error_value LZ4F_ERROR_frameDecoding_alreadyStarted = 19"
| "error_value LZ4F_ERROR_compressionState_uninitialized = 20"
| "error_value LZ4F_ERROR_parameter_null = 21"
| "error_value LZ4F_ERROR_io_write = 22"
| "error_value LZ4F_ERROR_io_read = 23"
| "error_value LZ4F_ERROR_maxCode = 24"

definition all_errorCodes :: "LZ4F_errorCodes list" where
  "all_errorCodes =
     [LZ4F_OK_NoError, LZ4F_ERROR_GENERIC, LZ4F_ERROR_maxBlockSize_invalid, LZ4F_ERROR_blockMode_invalid,
      LZ4F_ERROR_parameter_invalid, LZ4F_ERROR_compressionLevel_invalid, LZ4F_ERROR_headerVersion_wrong,
      LZ4F_ERROR_blockChecksum_invalid, LZ4F_ERROR_reservedFlag_set, LZ4F_ERROR_allocation_failed,
      LZ4F_ERROR_srcSize_tooLarge, LZ4F_ERROR_dstMaxSize_tooSmall, LZ4F_ERROR_frameHeader_incomplete,
      LZ4F_ERROR_frameType_unknown, LZ4F_ERROR_frameSize_wrong, LZ4F_ERROR_srcPtr_wrong,
      LZ4F_ERROR_decompressionFailed, LZ4F_ERROR_headerChecksum_invalid, LZ4F_ERROR_contentChecksum_invalid,
      LZ4F_ERROR_frameDecoding_alreadyStarted, LZ4F_ERROR_compressionState_uninitialized,
      LZ4F_ERROR_parameter_null, LZ4F_ERROR_io_write, LZ4F_ERROR_io_read, LZ4F_ERROR_maxCode]"

definition LZ4F_errorStrings :: "string list" where
  "LZ4F_errorStrings =
     [''OK_NoError'', ''ERROR_GENERIC'', ''ERROR_maxBlockSize_invalid'', ''ERROR_blockMode_invalid'',
      ''ERROR_parameter_invalid'', ''ERROR_compressionLevel_invalid'', ''ERROR_headerVersion_wrong'',
      ''ERROR_blockChecksum_invalid'', ''ERROR_reservedFlag_set'', ''ERROR_allocation_failed'',
      ''ERROR_srcSize_tooLarge'', ''ERROR_dstMaxSize_tooSmall'', ''ERROR_frameHeader_incomplete'',
      ''ERROR_frameType_unknown'', ''ERROR_frameSize_wrong'', ''ERROR_srcPtr_wrong'',
      ''ERROR_decompressionFailed'', ''ERROR_headerChecksum_invalid'', ''ERROR_contentChecksum_invalid'',
      ''ERROR_frameDecoding_alreadyStarted'', ''ERROR_compressionState_uninitialized'',
      ''ERROR_parameter_null'', ''ERROR_io_write'', ''ERROR_io_read'', ''ERROR_maxCode'']"

definition LZ4F_isError :: "int \<Rightarrow> bool" where
  "LZ4F_isError code \<longleftrightarrow> code > u64 (- error_value LZ4F_ERROR_maxCode)"

text \<open>\<open>(int)(code)\<close> keeps the low 32 bits.\<close>

definition LZ4F_getErrorName :: "int \<Rightarrow> string" where
  "LZ4F_getErrorName code =
     (if LZ4F_isError code then LZ4F_errorStrings ! nat (u32 (- code)) else ''Unspecified error code'')"

definition LZ4F_getErrorCode :: "int \<Rightarrow> LZ4F_errorCodes" where
  "LZ4F_getErrorCode functionResult =
     (if \<not> LZ4F_isError functionResult then LZ4F_OK_NoError else all_errorCodes ! nat (u64 (- functionResult)))"

definition LZ4F_returnErrorCode :: "LZ4F_errorCodes \<Rightarrow> int" where
  "LZ4F_returnErrorCode code = u64 (- error_value code)"

lemma isError_returnErrorCode [simp]:
  "LZ4F_isError (LZ4F_returnErrorCode e) \<longleftrightarrow> e \<noteq> LZ4F_OK_NoError \<and> e \<noteq> LZ4F_ERROR_maxCode"
  by (cases e) (simp_all add: LZ4F_isError_def LZ4F_returnErrorCode_def u64_def)

lemma isError_small [simp]: "n < 2 ^ 63 \<Longrightarrow> \<not> LZ4F_isError n"
  by (simp add: LZ4F_isError_def u64_def)

lemma errorCode_round_trip:
  assumes "e \<noteq> LZ4F_ERROR_maxCode"
  shows "LZ4F_getErrorCode (LZ4F_returnErrorCode e) = e"
    and "LZ4F_isError (LZ4F_returnErrorCode e) \<Longrightarrow>
      LZ4F_getErrorName (LZ4F_returnErrorCode e) = LZ4F_errorStrings ! nat (error_value e)"
  using assms
  by (cases e; simp add: LZ4F_getErrorCode_def LZ4F_getErrorName_def LZ4F_isError_def LZ4F_returnErrorCode_def
      all_errorCodes_def u64_def u32_def)+

section \<open>Frame parameters\<close>

text \<open>\<open>LZ4F_blockSizeID_t\<close> has the values 0 and 4 to 7; the code checks for others.\<close>

type_synonym LZ4F_blockSizeID_t = int

definition LZ4F_default :: LZ4F_blockSizeID_t where [simp]: "LZ4F_default = 0"
definition LZ4F_max64KB :: LZ4F_blockSizeID_t where [simp]: "LZ4F_max64KB = 4"
definition LZ4F_max256KB :: LZ4F_blockSizeID_t where [simp]: "LZ4F_max256KB = 5"
definition LZ4F_max1MB :: LZ4F_blockSizeID_t where [simp]: "LZ4F_max1MB = 6"
definition LZ4F_max4MB :: LZ4F_blockSizeID_t where [simp]: "LZ4F_max4MB = 7"

datatype LZ4F_blockMode_t = LZ4F_blockLinked | LZ4F_blockIndependent
datatype LZ4F_contentChecksum_t = LZ4F_noContentChecksum | LZ4F_contentChecksumEnabled
datatype LZ4F_blockChecksum_t = LZ4F_noBlockChecksum | LZ4F_blockChecksumEnabled
datatype LZ4F_frameType_t = LZ4F_frame | LZ4F_skippableFrame

record LZ4F_frameInfo_t =
  blockSizeID :: LZ4F_blockSizeID_t
  blockMode :: LZ4F_blockMode_t
  contentChecksumFlag :: LZ4F_contentChecksum_t
  frameType :: LZ4F_frameType_t
  contentSize :: "64 word"
  dictID :: "32 word"
  blockChecksumFlag :: LZ4F_blockChecksum_t

definition LZ4F_INIT_FRAMEINFO :: LZ4F_frameInfo_t where
  "LZ4F_INIT_FRAMEINFO =
     \<lparr>blockSizeID = LZ4F_max64KB, blockMode = LZ4F_blockLinked, contentChecksumFlag = LZ4F_noContentChecksum,
      frameType = LZ4F_frame, contentSize = 0, dictID = 0, blockChecksumFlag = LZ4F_noBlockChecksum\<rparr>"

text \<open>All fields zero.\<close>

definition zeroed_frameInfo :: LZ4F_frameInfo_t where
  "zeroed_frameInfo = LZ4F_INIT_FRAMEINFO\<lparr>blockSizeID := LZ4F_default\<rparr>"

record LZ4F_preferences_t =
  frameInfo :: LZ4F_frameInfo_t
  compressionLevel :: int
  autoFlush :: int
  favorDecSpeed :: int

definition LZ4F_INIT_PREFERENCES :: LZ4F_preferences_t where
  "LZ4F_INIT_PREFERENCES = \<lparr>frameInfo = LZ4F_INIT_FRAMEINFO, compressionLevel = 0, autoFlush = 0, favorDecSpeed = 0\<rparr>"

definition zeroed_preferences :: LZ4F_preferences_t where
  "zeroed_preferences = LZ4F_INIT_PREFERENCES\<lparr>frameInfo := zeroed_frameInfo\<rparr>"

text \<open>The flags as the numbers the code computes with.\<close>

definition blockMode_bit :: "LZ4F_blockMode_t \<Rightarrow> int" where
  "blockMode_bit b = (case b of LZ4F_blockLinked \<Rightarrow> 0 | LZ4F_blockIndependent \<Rightarrow> 1)"
definition contentChecksum_bit :: "LZ4F_contentChecksum_t \<Rightarrow> int" where
  "contentChecksum_bit c = (case c of LZ4F_noContentChecksum \<Rightarrow> 0 | LZ4F_contentChecksumEnabled \<Rightarrow> 1)"
definition blockChecksum_bit :: "LZ4F_blockChecksum_t \<Rightarrow> int" where
  "blockChecksum_bit c = (case c of LZ4F_noBlockChecksum \<Rightarrow> 0 | LZ4F_blockChecksumEnabled \<Rightarrow> 1)"

definition minFHSize :: int where [simp]: "minFHSize = 7"
definition maxFHSize :: int where [simp]: "maxFHSize = 19"
definition BHSize :: int where [simp]: "BHSize = 4"
definition BFSize :: int where [simp]: "BFSize = 4"
definition LZ4F_BLOCKSIZEID_DEFAULT :: LZ4F_blockSizeID_t where [simp]: "LZ4F_BLOCKSIZEID_DEFAULT = LZ4F_max64KB"
definition LZ4F_BLOCKUNCOMPRESSED_FLAG :: "32 word" where "LZ4F_BLOCKUNCOMPRESSED_FLAG = 0x80000000"
definition LZ4F_MAGICNUMBER :: "32 word" where "LZ4F_MAGICNUMBER = 0x184D2204"
definition LZ4F_MAGIC_SKIPPABLE_START :: "32 word" where "LZ4F_MAGIC_SKIPPABLE_START = 0x184D2A50"
definition LZ4F_MIN_SIZE_TO_KNOW_HEADER_LENGTH :: int where [simp]: "LZ4F_MIN_SIZE_TO_KNOW_HEADER_LENGTH = 5"

definition LZ4F_getBlockSize :: "LZ4F_blockSizeID_t \<Rightarrow> int" where
  "LZ4F_getBlockSize bsid =
     (let bsid = (if bsid = 0 then LZ4F_BLOCKSIZEID_DEFAULT else bsid) in
      if bsid < LZ4F_max64KB \<or> bsid > LZ4F_max4MB then LZ4F_returnErrorCode LZ4F_ERROR_maxBlockSize_invalid
      else [64 * 2 ^ 10, 256 * 2 ^ 10, 1 * 2 ^ 20, 4 * 2 ^ 20] ! nat (bsid - LZ4F_max64KB))"

section \<open>Little-endian access\<close>

definition LZ4F_readLE32 :: "mem \<Rightarrow> addr \<Rightarrow> 32 word option" where
  "LZ4F_readLE32 m src = do {
     b0 \<leftarrow> m src; b1 \<leftarrow> m (src + 1); b2 \<leftarrow> m (src + 2); b3 \<leftarrow> m (src + 3);
     let value32 = ucast b0;
         value32 = value32 OR push_bit 8 (ucast b1);
         value32 = value32 OR push_bit 16 (ucast b2);
         value32 = value32 OR push_bit 24 (ucast b3) in
     Some value32 }"

definition LZ4F_writeLE32 :: "mem \<Rightarrow> addr \<Rightarrow> 32 word \<Rightarrow> mem option" where
  "LZ4F_writeLE32 m dst value32 = do {
     m \<leftarrow> store8 m dst (ucast value32);
     m \<leftarrow> store8 m (dst + 1) (ucast (drop_bit 8 value32));
     m \<leftarrow> store8 m (dst + 2) (ucast (drop_bit 16 value32));
     store8 m (dst + 3) (ucast (drop_bit 24 value32)) }"

definition LZ4F_readLE64 :: "mem \<Rightarrow> addr \<Rightarrow> 64 word option" where
  "LZ4F_readLE64 m src = do {
     b0 \<leftarrow> m src; b1 \<leftarrow> m (src + 1); b2 \<leftarrow> m (src + 2); b3 \<leftarrow> m (src + 3);
     b4 \<leftarrow> m (src + 4); b5 \<leftarrow> m (src + 5); b6 \<leftarrow> m (src + 6); b7 \<leftarrow> m (src + 7);
     let value64 = ucast b0;
         value64 = value64 OR push_bit 8 (ucast b1);
         value64 = value64 OR push_bit 16 (ucast b2);
         value64 = value64 OR push_bit 24 (ucast b3);
         value64 = value64 OR push_bit 32 (ucast b4);
         value64 = value64 OR push_bit 40 (ucast b5);
         value64 = value64 OR push_bit 48 (ucast b6);
         value64 = value64 OR push_bit 56 (ucast b7) in
     Some value64 }"

definition LZ4F_writeLE64 :: "mem \<Rightarrow> addr \<Rightarrow> 64 word \<Rightarrow> mem option" where
  "LZ4F_writeLE64 m dst value64 = do {
     m \<leftarrow> store8 m dst (ucast value64);
     m \<leftarrow> store8 m (dst + 1) (ucast (drop_bit 8 value64));
     m \<leftarrow> store8 m (dst + 2) (ucast (drop_bit 16 value64));
     m \<leftarrow> store8 m (dst + 3) (ucast (drop_bit 24 value64));
     m \<leftarrow> store8 m (dst + 4) (ucast (drop_bit 32 value64));
     m \<leftarrow> store8 m (dst + 5) (ucast (drop_bit 40 value64));
     m \<leftarrow> store8 m (dst + 6) (ucast (drop_bit 48 value64));
     store8 m (dst + 7) (ucast (drop_bit 56 value64)) }"

definition LZ4F_headerChecksum :: "mem \<Rightarrow> addr \<Rightarrow> int \<Rightarrow> byte option" where
  "LZ4F_headerChecksum m header len = do { xxh \<leftarrow> XXH32 m header len 0; Some (ucast (drop_bit 8 xxh)) }"

section \<open>Bounds\<close>

text \<open>The loop of \<open>LZ4F_optimalBSID\<close>.\<close>

function optimal_loop :: "LZ4F_blockSizeID_t \<Rightarrow> int \<Rightarrow> LZ4F_blockSizeID_t \<Rightarrow> int \<Rightarrow> LZ4F_blockSizeID_t" where
  "optimal_loop requestedBSID srcSize proposedBSID maxBlockSize =
     (if requestedBSID > proposedBSID then
        if srcSize \<le> maxBlockSize then proposedBSID
        else optimal_loop requestedBSID srcSize (proposedBSID + 1) (u64 (maxBlockSize * 4))
      else requestedBSID)"
  by pat_completeness auto
termination
  by (relation "measure (\<lambda>(r, s, p, b). nat (r - p))") auto

declare optimal_loop.simps [simp del]

definition LZ4F_optimalBSID :: "LZ4F_blockSizeID_t \<Rightarrow> int \<Rightarrow> LZ4F_blockSizeID_t" where
  "LZ4F_optimalBSID requestedBSID srcSize = optimal_loop requestedBSID srcSize LZ4F_max64KB (64 * 2 ^ 10)"

definition LZ4F_compressBound_internal :: "int \<Rightarrow> LZ4F_preferences_t option \<Rightarrow> int \<Rightarrow> int" where
  "LZ4F_compressBound_internal srcSize preferencesPtr alreadyBuffered =
     (let fi = LZ4F_INIT_FRAMEINFO\<lparr>contentChecksumFlag := LZ4F_contentChecksumEnabled, blockChecksumFlag := LZ4F_blockChecksumEnabled\<rparr>;
          prefsNull = LZ4F_INIT_PREFERENCES\<lparr>frameInfo := fi\<rparr>;
          prefs = (case preferencesPtr of None \<Rightarrow> prefsNull | Some p \<Rightarrow> p);
          flush = autoFlush prefs \<noteq> 0 \<or> srcSize = 0;
          blockID = blockSizeID (frameInfo prefs);
          blockSize = LZ4F_getBlockSize blockID;
          maxBuffered = u64 (blockSize - 1);
          bufferedSize = min alreadyBuffered maxBuffered;
          maxSrcSize = u64 (srcSize + bufferedSize);
          nbFullBlocks = u32 (maxSrcSize div blockSize);
          partialBlockSize = maxSrcSize AND (blockSize - 1);
          lastBlockSize = (if flush then partialBlockSize else 0);
          nbBlocks = u32 (nbFullBlocks + (if lastBlockSize > 0 then 1 else 0));
          blockCRCSize = BFSize * blockChecksum_bit (blockChecksumFlag (frameInfo prefs));
          frameEnd = BHSize + contentChecksum_bit (contentChecksumFlag (frameInfo prefs)) * BFSize in
      u64 ((BHSize + blockCRCSize) * nbBlocks + blockSize * nbFullBlocks + lastBlockSize + frameEnd))"

definition LZ4F_compressFrameBound :: "int \<Rightarrow> LZ4F_preferences_t option \<Rightarrow> int" where
  "LZ4F_compressFrameBound srcSize preferencesPtr =
     (let headerSize = maxFHSize;
          prefs = (case preferencesPtr of Some p \<Rightarrow> p | None \<Rightarrow> zeroed_preferences);
          prefs = prefs\<lparr>autoFlush := 1\<rparr> in
      u64 (headerSize + LZ4F_compressBound_internal srcSize (Some prefs) 0))"

definition LZ4F_compressBound :: "int \<Rightarrow> LZ4F_preferences_t option \<Rightarrow> int" where
  "LZ4F_compressBound srcSize preferencesPtr =
     (case preferencesPtr of
        Some p \<Rightarrow> (if autoFlush p \<noteq> 0 then LZ4F_compressBound_internal srcSize preferencesPtr 0
                   else LZ4F_compressBound_internal srcSize preferencesPtr (2 ^ 64 - 1))
      | None \<Rightarrow> LZ4F_compressBound_internal srcSize preferencesPtr (2 ^ 64 - 1))"

section \<open>Facts\<close>

text \<open>The identifiers with a block size.\<close>

definition known_blockSizeID :: "LZ4F_blockSizeID_t \<Rightarrow> bool" where
  "known_blockSizeID b \<longleftrightarrow> b \<in> {0, 4, 5, 6, 7}"

lemma getBlockSize_known:
  assumes "known_blockSizeID b"
  shows "LZ4F_getBlockSize b \<in> {65536, 262144, 1048576, 4194304}"
  using assms by (auto simp: known_blockSizeID_def LZ4F_getBlockSize_def Let_def)

lemma getBlockSize_unknown: "\<not> known_blockSizeID b \<Longrightarrow> LZ4F_isError (LZ4F_getBlockSize b)"
  by (auto simp: known_blockSizeID_def LZ4F_getBlockSize_def Let_def)

lemma le_word_or: "le_word (b # bs) = (ucast b OR push_bit 8 (le_word bs) :: 'a :: len word)"
proof -
  have "ucast b + push_bit 8 (le_word bs) = (ucast b OR push_bit 8 (le_word bs) :: 'a word)"
    by (rule disjunctive_add) (auto simp: bit_simps dest: bit_imp_le_length)
  then show ?thesis by (simp add: push_bit_eq_mult mult.commute)
qed

lemmas le_word_bits = le_word_or le_word.simps(1) push_bit_or push_bit_push_bit or.assoc

lemma le_bytes_4: "bytes m p 4 = [the (m p), the (m (p + 1)), the (m (p + 2)), the (m (p + 3))]"
  by (simp add: bytes_def numeral_eq_Suc)

lemma le_bytes_8:
  "bytes m p 8 = [the (m p), the (m (p + 1)), the (m (p + 2)), the (m (p + 3)),
     the (m (p + 4)), the (m (p + 5)), the (m (p + 6)), the (m (p + 7))]"
  by (simp add: bytes_def numeral_eq_Suc)

lemma readLE32_Some: "valid m p 4 \<Longrightarrow> LZ4F_readLE32 m p = Some (le_word (bytes m p 4))"
  using valid_at [of m p 4 p] valid_at [of m p 4 "p + 1"] valid_at [of m p 4 "p + 2"] valid_at [of m p 4 "p + 3"]
  by (auto simp: LZ4F_readLE32_def le_bytes_4 le_word_bits Let_def simp del: le_word.simps)

lemma readLE64_Some: "valid m p 8 \<Longrightarrow> LZ4F_readLE64 m p = Some (le_word (bytes m p 8))"
  using valid_at [of m p 8 p] valid_at [of m p 8 "p + 1"] valid_at [of m p 8 "p + 2"] valid_at [of m p 8 "p + 3"]
    valid_at [of m p 8 "p + 4"] valid_at [of m p 8 "p + 5"] valid_at [of m p 8 "p + 6"] valid_at [of m p 8 "p + 7"]
  by (auto simp: LZ4F_readLE64_def le_bytes_8 le_word_bits Let_def simp del: le_word.simps)

lemma fill_snoc: "fill m a (bs @ [b]) = (fill m a bs)(a + int (length bs) \<mapsto> b)"
  by (rule ext) (auto simp: fill_def nth_append)

lemma store8_fill:
  assumes "valid m a (int (length bs) + 1)" "x = a + int (length bs)"
  shows "store8 (fill m a bs) x b = Some (fill m a (bs @ [b]))"
proof -
  have "m x \<noteq> None" using assms by (auto simp: valid_def)
  then show ?thesis using assms(2) by (simp add: store8_def fill_snoc) (auto simp: fill_def)
qed

lemma fill_Nil [simp]: "fill m a [] = m"
  by (rule ext) (auto simp: fill_def)

lemma writeLE32_Some:
  assumes "valid m a 4" shows "LZ4F_writeLE32 m a v = Some (fill m a (word_bytes 4 v))"
proof -
  have s: "store8 (fill m a bs) (a + int (length bs)) b = Some (fill m a (bs @ [b]))" if "length bs < 4" for bs b
    by (rule store8_fill) (use assms that in \<open>auto elim: valid_sub\<close>)
  show ?thesis using s [of "[]"] s [of "[x]" for x] s [of "[x, y]" for x y] s [of "[x, y, z]" for x y z]
    by (simp add: LZ4F_writeLE32_def numeral_eq_Suc)
qed

lemma writeLE64_Some:
  assumes "valid m a 8" shows "LZ4F_writeLE64 m a v = Some (fill m a (word_bytes 8 v))"
proof -
  have s: "store8 (fill m a bs) (a + int (length bs)) b = Some (fill m a (bs @ [b]))" if "length bs < 8" for bs b
    by (rule store8_fill) (use assms that in \<open>auto elim: valid_sub\<close>)
  show ?thesis using s [of "[]"] s [of "[x]" for x] s [of "[x, y]" for x y] s [of "[x, y, z]" for x y z]
      s [of "[x, y, z, a]" for x y z a] s [of "[x, y, z, a, b]" for x y z a b] s [of "[x, y, z, a, b, c]" for x y z a b c]
      s [of "[x, y, z, a, b, c, d]" for x y z a b c d]
    by (simp add: LZ4F_writeLE64_def numeral_eq_Suc)
qed

text \<open>Without wrap-around, the bound is the sum of what the blocks and the end of the frame take.\<close>

lemma and_block_mask:
  assumes "known_blockSizeID b" shows "x AND (LZ4F_getBlockSize b - 1) = x mod LZ4F_getBlockSize b"
proof -
  obtain k where k: "LZ4F_getBlockSize b = 2 ^ k"
    using getBlockSize_known [OF assms] that [of 16] that [of 18] that [of 20] that [of 22] by auto
  then show ?thesis by (simp flip: mask_eq_exp_minus_1 take_bit_eq_mask take_bit_eq_mod add: and.commute)
qed

lemma compressBound_internal_eq:
  fixes p n k defines "B \<equiv> LZ4F_getBlockSize (blockSizeID (frameInfo p))" and "c \<equiv> 4 * blockChecksum_bit (blockChecksumFlag (frameInfo p))"
  assumes "known_blockSizeID (blockSizeID (frameInfo p))" "0 \<le> n" "n < 2 ^ 47" "0 \<le> k"
  defines "t \<equiv> n + min k (B - 1)"
  defines "lst \<equiv> (if autoFlush p \<noteq> 0 \<or> n = 0 then t mod B else 0)"
  shows "LZ4F_compressBound_internal n (Some p) k =
     (4 + c) * (t div B + (if lst > 0 then 1 else 0)) + B * (t div B) + lst
       + 4 + 4 * contentChecksum_bit (contentChecksumFlag (frameInfo p))"
proof -
  have B: "65536 \<le> B" "B \<le> 4194304" using getBlockSize_known [OF assms(3)] by (auto simp: B_def)
  have t: "0 \<le> t" "t < 140737492549632" using B assms by (auto simp: t_def)
  have q: "0 \<le> t div B" "t div B < 2 ^ 32 - 1" "0 \<le> t mod B" "t mod B < B" "B * (t div B) \<le> t"
  proof -
    have "t div B \<le> t div 65536" using t B by (intro zdiv_mono2) auto
    then show "t div B < 2 ^ 32 - 1" using t by auto
    show m: "0 \<le> t mod B" "t mod B < B" using B by auto
    then show "B * (t div B) \<le> t" using mult_div_mod_eq [of B t] by linarith
  qed (use t B in \<open>simp add: pos_imp_zdiv_nonneg_iff\<close>)
  have c: "0 \<le> c" "c \<le> 4" "0 \<le> contentChecksum_bit x" "contentChecksum_bit x \<le> 1" for x
    by (auto simp: c_def blockChecksum_bit_def contentChecksum_bit_def split: LZ4F_blockChecksum_t.split LZ4F_contentChecksum_t.split)
  have lst: "0 \<le> lst" "lst < 4194304" using order_less_le_trans [OF q(4) B(2)] q(3) by (simp_all add: lst_def)
  have nb: "0 \<le> t div B + (if lst > 0 then 1 else 0)" "t div B + (if lst > 0 then 1 else 0) < 2 ^ 32" using q by auto
  have "(4 + c) * (t div B + (if lst > 0 then 1 else 0)) \<le> 8 * 4294967296" using c nb by (intro mult_mono) auto
  moreover have "0 \<le> (4 + c) * (t div B + (if lst > 0 then 1 else 0))" "0 \<le> B * (t div B)" using c nb B q by auto
  ultimately have u: "u64 ((4 + c) * (t div B + (if lst > 0 then 1 else 0)) + B * (t div B) + lst
      + (4 + contentChecksum_bit (contentChecksumFlag (frameInfo p)) * 4)) =
    (4 + c) * (t div B + (if lst > 0 then 1 else 0)) + B * (t div B) + lst + (4 + contentChecksum_bit (contentChecksumFlag (frameInfo p)) * 4)"
    using q(5) t lst c(3,4) [of "contentChecksumFlag (frameInfo p)"] by (intro u64_id) linarith+
  have ids: "u64 (B - 1) = B - 1" "u64 (n + min k (B - 1)) = t" "u32 (t div B) = t div B" "t AND (B - 1) = t mod B"
    "u32 (t div B + (if lst > 0 then 1 else 0)) = t div B + (if lst > 0 then 1 else 0)"
    using B t q nb and_block_mask [OF assms(3)] by (auto simp: t_def B_def)
  then show ?thesis
    unfolding LZ4F_compressBound_internal_def Let_def option.case B_def [symmetric] BFSize_def BHSize_def c_def [symmetric]
    by (simp only: ids lst_def [symmetric] u)
qed

end
