(* ===== verification/LZ4F_Header.thy ===== *)
theory LZ4F_Header
  imports LZ4F_Base
begin

text \<open>
  Frame headers: the part of \<open>LZ4F_compressBegin_internal\<close> that writes one, the decompression
  context, and \<open>LZ4F_decodeHeader\<close> and \<open>LZ4F_headerSize\<close>, which read one.  The lemmas say that the reader
  accepts exactly the byte sequences of \<open>header_bytes\<close>, and that the writer writes such a sequence.
\<close>

section \<open>Writing a header\<close>

definition write_frame_header :: "mem \<Rightarrow> addr \<Rightarrow> LZ4F_frameInfo_t \<Rightarrow> (addr \<times> mem) option" where
  "write_frame_header m dstPtr fi = do {
     m \<leftarrow> LZ4F_writeLE32 m dstPtr LZ4F_MAGICNUMBER;
     let dstPtr = dstPtr + 4;
         headerStart = dstPtr in do {
     m \<leftarrow> store8 m dstPtr (byte_of (1 mod 4 * 64
            + blockMode_bit (blockMode fi) mod 2 * 32
            + blockChecksum_bit (blockChecksumFlag fi) mod 2 * 16
            + (if contentSize fi > 0 then 1 else 0) * 8
            + contentChecksum_bit (contentChecksumFlag fi) mod 2 * 4
            + (if dictID fi > 0 then 1 else 0)));
     m \<leftarrow> store8 m (dstPtr + 1) (byte_of (blockSizeID fi mod 8 * 16));
     let dstPtr = dstPtr + 2 in do {
     (m, dstPtr) \<leftarrow> (if contentSize fi \<noteq> 0 then do { m \<leftarrow> LZ4F_writeLE64 m dstPtr (contentSize fi); Some (m, dstPtr + 8) }
                     else Some (m, dstPtr));
     (m, dstPtr) \<leftarrow> (if dictID fi \<noteq> 0 then do { m \<leftarrow> LZ4F_writeLE32 m dstPtr (dictID fi); Some (m, dstPtr + 4) }
                     else Some (m, dstPtr));
     HC \<leftarrow> LZ4F_headerChecksum m headerStart (dstPtr - headerStart);
     m \<leftarrow> store8 m dstPtr HC;
     Some (dstPtr + 1, m) }}}"

section \<open>The decompression context\<close>

datatype dStage_t =
    dstage_getFrameHeader | dstage_storeFrameHeader
  | dstage_init
  | dstage_getBlockHeader | dstage_storeBlockHeader
  | dstage_copyDirect | dstage_getBlockChecksum
  | dstage_getCBlock | dstage_storeCBlock
  | dstage_flushOut
  | dstage_getSuffix | dstage_storeSuffix
  | dstage_getSFrameSize | dstage_storeSFrameSize
  | dstage_skipSkippable

text \<open>\<open>dc_header\<close> is the address of the array \<open>header\<close>.  \<open>dc_tmpInCap\<close> is the size of the block at
  \<open>dc_tmpIn\<close>, which the allocator keeps for \<open>free\<close>; that of the block at \<open>dc_tmpOutBuffer\<close> is in
  \<open>dc_tmpOutCap\<close>.\<close>

record LZ4F_dctx =
  dc_frameInfo :: LZ4F_frameInfo_t
  dc_version :: int
  dc_dStage :: dStage_t
  dc_frameRemainingSize :: "64 word"
  dc_maxBlockSize :: int
  dc_maxBufferSize :: int
  dc_tmpIn :: addr
  dc_tmpInSize :: int
  dc_tmpInTarget :: int
  dc_tmpOutBuffer :: addr
  dc_dict :: addr
  dc_dictSize :: int
  dc_tmpOut :: addr
  dc_tmpOutSize :: int
  dc_tmpOutStart :: int
  dc_xxh :: XXH32_state_t
  dc_blockChecksum :: XXH32_state_t
  dc_skipChecksum :: bool
  dc_header :: addr
  dc_tmpInCap :: int
  dc_tmpOutCap :: int

section \<open>Reading a header\<close>

text \<open>The flags of the FLG byte.\<close>

definition flag_blockMode :: "int \<Rightarrow> LZ4F_blockMode_t" where
  "flag_blockMode FLG = (if FLG div 32 mod 2 = 0 then LZ4F_blockLinked else LZ4F_blockIndependent)"
definition flag_blockChecksum :: "int \<Rightarrow> LZ4F_blockChecksum_t" where
  "flag_blockChecksum FLG = (if FLG div 16 mod 2 = 0 then LZ4F_noBlockChecksum else LZ4F_blockChecksumEnabled)"
definition flag_contentChecksum :: "int \<Rightarrow> LZ4F_contentChecksum_t" where
  "flag_contentChecksum FLG = (if FLG div 4 mod 2 = 0 then LZ4F_noContentChecksum else LZ4F_contentChecksumEnabled)"

definition LZ4F_decodeHeader :: "LZ4F_dctx \<Rightarrow> mem \<Rightarrow> addr \<Rightarrow> int \<Rightarrow> (int \<times> LZ4F_dctx \<times> mem) option" where
  "LZ4F_decodeHeader dctx m src srcSize =
     (if srcSize < minFHSize then Some (LZ4F_returnErrorCode LZ4F_ERROR_frameHeader_incomplete, dctx, m)
      else let dctx = dctx\<lparr>dc_frameInfo := zeroed_frameInfo\<rparr> in do {
        magic \<leftarrow> LZ4F_readLE32 m src;
        if magic AND 0xFFFFFFF0 = LZ4F_MAGIC_SKIPPABLE_START then
          let dctx = dctx\<lparr>dc_frameInfo := (dc_frameInfo dctx)\<lparr>frameType := LZ4F_skippableFrame\<rparr>\<rparr> in
          if src = dc_header dctx then
            Some (srcSize, dctx\<lparr>dc_tmpInSize := srcSize, dc_tmpInTarget := 8, dc_dStage := dstage_storeSFrameSize\<rparr>, m)
          else Some (4, dctx\<lparr>dc_dStage := dstage_getSFrameSize\<rparr>, m)
        else if magic \<noteq> LZ4F_MAGICNUMBER then Some (LZ4F_returnErrorCode LZ4F_ERROR_frameType_unknown, dctx, m)
        else let dctx = dctx\<lparr>dc_frameInfo := (dc_frameInfo dctx)\<lparr>frameType := LZ4F_frame\<rparr>\<rparr> in do {
          b4 \<leftarrow> m (src + 4);
          let FLG = uint b4;
              version = FLG div 64 mod 4;
              contentSizeFlag = FLG div 8 mod 2;
              dictIDFlag = FLG mod 2 in
          if FLG div 2 mod 2 \<noteq> 0 then Some (LZ4F_returnErrorCode LZ4F_ERROR_reservedFlag_set, dctx, m)
          else if version \<noteq> 1 then Some (LZ4F_returnErrorCode LZ4F_ERROR_headerVersion_wrong, dctx, m)
          else
            let frameHeaderSize = minFHSize + (if contentSizeFlag \<noteq> 0 then 8 else 0) + (if dictIDFlag \<noteq> 0 then 4 else 0) in
            if srcSize < frameHeaderSize then do {
              m \<leftarrow> (if src \<noteq> dc_header dctx then LZ4_memcpy m (dc_header dctx) src srcSize else Some m);
              Some (srcSize, dctx\<lparr>dc_tmpInSize := srcSize, dc_tmpInTarget := frameHeaderSize, dc_dStage := dstage_storeFrameHeader\<rparr>, m) }
            else do {
              b5 \<leftarrow> m (src + 5);
              let BD = uint b5;
                  bsid = BD div 16 mod 8 in
              if BD div 128 mod 2 \<noteq> 0 then Some (LZ4F_returnErrorCode LZ4F_ERROR_reservedFlag_set, dctx, m)
              else if bsid < 4 then Some (LZ4F_returnErrorCode LZ4F_ERROR_maxBlockSize_invalid, dctx, m)
              else if BD mod 16 \<noteq> 0 then Some (LZ4F_returnErrorCode LZ4F_ERROR_reservedFlag_set, dctx, m)
              else do {
                HC \<leftarrow> LZ4F_headerChecksum m (src + 4) (frameHeaderSize - 5);
                hb \<leftarrow> m (src + (frameHeaderSize - 1));
                if HC \<noteq> hb then Some (LZ4F_returnErrorCode LZ4F_ERROR_headerChecksum_invalid, dctx, m)
                else let
                  dctx = dctx\<lparr>dc_frameInfo := (dc_frameInfo dctx)\<lparr>
                    blockMode := flag_blockMode FLG, blockChecksumFlag := flag_blockChecksum FLG,
                    contentChecksumFlag := flag_contentChecksum FLG, blockSizeID := bsid\<rparr>,
                    dc_maxBlockSize := LZ4F_getBlockSize bsid\<rparr> in do {
                dctx \<leftarrow> (if contentSizeFlag \<noteq> 0 then do {
                    w \<leftarrow> LZ4F_readLE64 m (src + 6);
                    Some (dctx\<lparr>dc_frameInfo := (dc_frameInfo dctx)\<lparr>contentSize := w\<rparr>, dc_frameRemainingSize := w\<rparr>) }
                  else Some dctx);
                dctx \<leftarrow> (if dictIDFlag \<noteq> 0 then do {
                    w \<leftarrow> LZ4F_readLE32 m (src + frameHeaderSize - 5);
                    Some (dctx\<lparr>dc_frameInfo := (dc_frameInfo dctx)\<lparr>dictID := w\<rparr>\<rparr>) }
                  else Some dctx);
                Some (frameHeaderSize, dctx\<lparr>dc_dStage := dstage_init\<rparr>, m) }}}}})"

definition LZ4F_headerSize :: "mem \<Rightarrow> addr \<Rightarrow> int \<Rightarrow> int option" where
  "LZ4F_headerSize m src srcSize =
     (if src = 0 then Some (LZ4F_returnErrorCode LZ4F_ERROR_srcPtr_wrong)
      else if srcSize < LZ4F_MIN_SIZE_TO_KNOW_HEADER_LENGTH then Some (LZ4F_returnErrorCode LZ4F_ERROR_frameHeader_incomplete)
      else do {
        magic \<leftarrow> LZ4F_readLE32 m src;
        if magic AND 0xFFFFFFF0 = LZ4F_MAGIC_SKIPPABLE_START then Some 8
        else if magic \<noteq> LZ4F_MAGICNUMBER then Some (LZ4F_returnErrorCode LZ4F_ERROR_frameType_unknown)
        else do {
          b4 \<leftarrow> m (src + 4);
          let FLG = uint b4; contentSizeFlag = FLG div 8 mod 2; dictIDFlag = FLG mod 2 in
          Some (minFHSize + (if contentSizeFlag \<noteq> 0 then 8 else 0) + (if dictIDFlag \<noteq> 0 then 4 else 0)) }})"

section \<open>The bytes of a header\<close>

text \<open>\<open>cs\<close> and \<open>di\<close> say whether the optional fields are present.\<close>

definition flg_value :: "bool \<Rightarrow> bool \<Rightarrow> LZ4F_frameInfo_t \<Rightarrow> int" where
  "flg_value cs di fi = 64 + blockMode_bit (blockMode fi) * 32 + blockChecksum_bit (blockChecksumFlag fi) * 16
     + of_bool cs * 8 + contentChecksum_bit (contentChecksumFlag fi) * 4 + of_bool di"

definition header_body :: "bool \<Rightarrow> bool \<Rightarrow> LZ4F_frameInfo_t \<Rightarrow> byte list" where
  "header_body cs di fi = [byte_of (flg_value cs di fi), byte_of (blockSizeID fi * 16)]
     @ (if cs then word_bytes 8 (contentSize fi) else []) @ (if di then word_bytes 4 (dictID fi) else [])"

definition header_bytes :: "bool \<Rightarrow> bool \<Rightarrow> LZ4F_frameInfo_t \<Rightarrow> byte list" where
  "header_bytes cs di fi = word_bytes 4 LZ4F_MAGICNUMBER @ header_body cs di fi
     @ [ucast (drop_bit 8 (xxh32 0 (header_body cs di fi)))]"

definition frameInfo_ok :: "bool \<Rightarrow> bool \<Rightarrow> LZ4F_frameInfo_t \<Rightarrow> bool" where
  "frameInfo_ok cs di fi \<longleftrightarrow> 4 \<le> blockSizeID fi \<and> blockSizeID fi \<le> 7 \<and> frameType fi = LZ4F_frame
     \<and> (cs \<or> contentSize fi = 0) \<and> (di \<or> dictID fi = 0)"

definition header_size :: "bool \<Rightarrow> bool \<Rightarrow> int" where
  "header_size cs di = 7 + (if cs then 8 else 0) + (if di then 4 else 0)"

lemma length_header_bytes [simp]: "length (header_bytes cs di fi) = nat (header_size cs di)"
  by (simp add: header_bytes_def header_body_def header_size_def)

lemma header_size_bounds: "7 \<le> header_size cs di" "header_size cs di \<le> 19"
  by (simp_all add: header_size_def)

lemma bit_cases:
  "blockMode_bit a = 0 \<and> a = LZ4F_blockLinked \<or> blockMode_bit a = 1 \<and> a = LZ4F_blockIndependent"
  "blockChecksum_bit b = 0 \<and> b = LZ4F_noBlockChecksum \<or> blockChecksum_bit b = 1 \<and> b = LZ4F_blockChecksumEnabled"
  "contentChecksum_bit c = 0 \<and> c = LZ4F_noContentChecksum \<or> contentChecksum_bit c = 1 \<and> c = LZ4F_contentChecksumEnabled"
  by (cases a; cases b; cases c; simp add: blockMode_bit_def blockChecksum_bit_def contentChecksum_bit_def)+

lemma flg_value_fields:
  fixes cs di fi defines "F \<equiv> flg_value cs di fi"
  shows "0 \<le> F" "F < 256" "F div 64 mod 4 = 1" "F div 2 mod 2 = 0" "F div 8 mod 2 = of_bool cs" "F mod 2 = of_bool di"
    "flag_blockMode F = blockMode fi" "flag_blockChecksum F = blockChecksumFlag fi"
    "flag_contentChecksum F = contentChecksumFlag fi"
  using bit_cases(1) [of "blockMode fi"] bit_cases(2) [of "blockChecksumFlag fi"] bit_cases(3) [of "contentChecksumFlag fi"]
  by (cases cs; cases di; auto simp: F_def flg_value_def flag_blockMode_def flag_blockChecksum_def flag_contentChecksum_def)+

lemma flag_bits:
  "blockMode_bit (flag_blockMode F) = F div 32 mod 2" "blockChecksum_bit (flag_blockChecksum F) = F div 16 mod 2"
  "contentChecksum_bit (flag_contentChecksum F) = F div 4 mod 2"
  using not_mod_2_eq_0_eq_1 [of "F div 32"] not_mod_2_eq_0_eq_1 [of "F div 16"] not_mod_2_eq_0_eq_1 [of "F div 4"]
  unfolding flag_blockMode_def flag_blockChecksum_def flag_contentChecksum_def
  by (simp_all only: blockMode_bit_def blockChecksum_bit_def contentChecksum_bit_def LZ4F_blockMode_t.case
      LZ4F_blockChecksum_t.case LZ4F_contentChecksum_t.case if_split_eq1 split: if_split) simp_all

lemma of_bool_mod_2: "of_bool (x mod 2 \<noteq> 0) = (x mod 2 :: int)"
  by (cases "x mod 2 = 0") simp_all

lemma flg_value_complete:
  assumes "0 \<le> F" "F < 256" "F div 64 mod 4 = 1" "F div 2 mod 2 = (0 :: int)"
    and "blockMode fi = flag_blockMode F" "blockChecksumFlag fi = flag_blockChecksum F"
      "contentChecksumFlag fi = flag_contentChecksum F"
  shows "flg_value (F div 8 mod 2 \<noteq> 0) (F mod 2 \<noteq> 0) fi = F"
proof -
  have "F = 64 + (F div 32 mod 2) * 32 + (F div 16 mod 2) * 16 + (F div 8 mod 2) * 8 + (F div 4 mod 2) * 4 + F mod 2"
  proof -
    have h: "x = 2 * (x div 2) + x mod 2" for x :: int by simp
    have d: "F div 2 div 2 = F div 4" "F div 4 div 2 = F div 8" "F div 8 div 2 = F div 16" "F div 16 div 2 = F div 32" "F div 32 div 2 = F div 64"
      by (simp_all flip: zdiv_zmult2_eq)
    have "F div 64 = 1" using assms(1-3) by simp
    then show ?thesis using h [of F] h [of "F div 2"] h [of "F div 4"] h [of "F div 8"] h [of "F div 16"] h [of "F div 32"] assms(4)
      unfolding d by linarith
  qed
  then show ?thesis unfolding flg_value_def assms(5-7) flag_bits of_bool_mod_2 by (rule sym)
qed

section \<open>The writer writes such a header\<close>

lemma fill_fill: "x = a + int (length xs) \<Longrightarrow> fill (fill m a xs) x ys = fill m a (xs @ ys)"
  by (rule ext) (auto simp: fill_def nth_append nat_diff_distrib intro!: arg_cong [where f = "(!) ys"])

lemma headerChecksum_Some:
  "valid m p n \<Longrightarrow> 0 \<le> n \<Longrightarrow> LZ4F_headerChecksum m p n = Some (ucast (drop_bit 8 (xxh32 0 (bytes m p n))))"
  using XXH32_endian_align_ok [of m p n]
  by (simp add: LZ4F_headerChecksum_def XXH32_def XXH_CPU_LITTLE_ENDIAN_def XXH_FORCE_ALIGN_CHECK_def)

lemma valid_fill: "valid m a (int (length bs)) \<Longrightarrow> valid (fill m a bs) b n = valid m b n"
  by (rule frame_valid [OF frame_fill])

lemma bytes_fill_part:
  assumes "0 \<le> k" "0 \<le> n" "k + n \<le> int (length bs)"
  shows "bytes (fill m a bs) (a + k) n = take (nat n) (drop (nat k) bs)"
  using assms by (intro nth_equalityI) (auto simp: fill_def nat_add_distrib intro!: arg_cong [where f = "(!) bs"])

lemma write_frame_header_ok:
  fixes fi defines "cs \<equiv> contentSize fi \<noteq> 0" and "di \<equiv> dictID fi \<noteq> 0"
  assumes v: "valid m dst (header_size cs di)" and b: "4 \<le> blockSizeID fi" "blockSizeID fi \<le> 7"
  shows "write_frame_header m dst fi = Some (dst + header_size cs di, fill m dst (header_bytes cs di fi))"
proof -
  define M where "M = word_bytes 4 LZ4F_MAGICNUMBER"
  define F where "F = byte_of (flg_value cs di fi)"
  define B where "B = byte_of (blockSizeID fi * 16)"
  let ?C = "if cs then word_bytes 8 (contentSize fi) else []" and ?D = "if di then word_bytes 4 (dictID fi) else []"
  have cd: "contentSize fi = 0 \<longleftrightarrow> \<not> cs" "dictID fi = 0 \<longleftrightarrow> \<not> di" by (simp_all add: cs_def di_def)
  have lM: "length M = 4" by (simp add: M_def)
  have vv: "valid (fill m dst xs) (dst + k) n = valid m (dst + k) n" if "int (length xs) \<le> header_size cs di" for xs k n
    by (rule valid_fill) (rule valid_sub [OF v], use that in auto)
  have sub: "valid m (dst + k) n" if "0 \<le> k" "k + n \<le> header_size cs di" for k n
    by (rule valid_sub [OF v]) (use that in auto)
  have s1: "LZ4F_writeLE32 m dst LZ4F_MAGICNUMBER = Some (fill m dst M)"
    using writeLE32_Some [of m dst] sub [of 0 4] header_size_bounds [of cs di] by (simp add: M_def)
  have st: "store8 (fill m dst xs) x b = Some (fill m dst (xs @ [b]))"
    if "int (length xs) < header_size cs di" "x = dst + int (length xs)" for xs x b
    using store8_fill [of m dst xs x b] sub [of 0 "int (length xs) + 1"] that by simp
  have s2: "store8 (fill m dst M) (dst + 4) F = Some (fill m dst (M @ [F]))"
      "store8 (fill m dst (M @ [F])) (dst + 4 + 1) B = Some (fill m dst (M @ [F, B]))"
    using st [of M "dst + 4" F] st [of "M @ [F]" "dst + 4 + 1" B] lM header_size_bounds [of cs di] by simp_all
  let ?X = "M @ [F, B]"
  have s3: "(if contentSize fi \<noteq> 0 then do { m \<leftarrow> LZ4F_writeLE64 (fill m dst ?X) x (contentSize fi); Some (m, x + 8) }
      else Some (fill m dst ?X, x)) = Some (fill m dst (?X @ ?C), dst + int (length (?X @ ?C)))"
    if "x = dst + 4 + 2" for x
  proof -
    have x: "x = dst + int (length ?X)" using that lM by simp
    have "valid (fill m dst ?X) x 8" if cs
      using vv [of ?X "int (length ?X)" 8] sub [of "int (length ?X)" 8] lM that by (simp add: x header_size_def)
    then show ?thesis using writeLE64_Some [of "fill m dst ?X" x] by (simp add: cd fill_fill x)
  qed
  have s4: "(if dictID fi \<noteq> 0 then do { m \<leftarrow> LZ4F_writeLE32 (fill m dst (?X @ ?C)) x (dictID fi); Some (m, x + 4) }
      else Some (fill m dst (?X @ ?C), x)) = Some (fill m dst (?X @ ?C @ ?D), dst + int (length (?X @ ?C @ ?D)))"
    if x: "x = dst + int (length (?X @ ?C))" for x
  proof -
    have "valid (fill m dst (?X @ ?C)) x 4" if di
      using vv [of "?X @ ?C" "int (length (?X @ ?C))" 4] sub [of "int (length (?X @ ?C))" 4] lM that by (simp add: x header_size_def)
    then show ?thesis using writeLE32_Some [of "fill m dst (?X @ ?C)" x] by (simp add: cd fill_fill x)
  qed
  let ?Y = "?X @ ?C @ ?D"
  have lY: "int (length ?Y) = header_size cs di - 1" using lM by (simp add: header_size_def)
  have hb: "header_body cs di fi = [F, B] @ ?C @ ?D" by (simp add: header_body_def F_def B_def)
  have "bytes (fill m dst ?Y) (dst + 4) (int (length ?Y) - 4) = header_body cs di fi"
    using bytes_fill_part [of 4 "int (length ?Y) - 4" ?Y m dst] lM unfolding hb by (simp add: nat_diff_distrib)
  then have s5: "LZ4F_headerChecksum (fill m dst ?Y) (dst + 4) (dst + int (length ?Y) - (dst + 4))
      = Some (ucast (drop_bit 8 (xxh32 0 (header_body cs di fi))))"
    using headerChecksum_Some [of "fill m dst ?Y" "dst + 4" "int (length ?Y) - 4"] vv [of ?Y 4 "int (length ?Y) - 4"]
      sub [of 4 "int (length ?Y) - 4"] lY lM header_size_bounds [of cs di] by (simp add: algebra_simps)
  have s6: "store8 (fill m dst ?Y) (dst + int (length ?Y)) x = Some (fill m dst (?Y @ [x]))" for x
    by (rule st) (use lY in auto)
  have Fe: "byte_of (1 mod 4 * 64 + blockMode_bit (blockMode fi) mod 2 * 32 + blockChecksum_bit (blockChecksumFlag fi) mod 2 * 16
      + (if contentSize fi > 0 then 1 else 0) * 8 + contentChecksum_bit (contentChecksumFlag fi) mod 2 * 4
      + (if dictID fi > 0 then 1 else 0)) = F"
    using bit_cases(1) [of "blockMode fi"] bit_cases(2) [of "blockChecksumFlag fi"] bit_cases(3) [of "contentChecksumFlag fi"]
    by (auto simp: F_def flg_value_def cs_def di_def word_gt_0)
  have Be: "byte_of (blockSizeID fi mod 8 * 16) = B" using b by (simp add: B_def)
  have "header_bytes cs di fi = ?Y @ [ucast (drop_bit 8 (xxh32 0 (header_body cs di fi)))]"
    by (simp add: header_bytes_def M_def hb)
  moreover have "dst + int (length ?Y) + 1 = dst + header_size cs di" using lY by simp
  ultimately show ?thesis
    unfolding write_frame_header_def Fe Be s1 Let_def bind.bind_lunit s2 s3 [OF refl] prod.case s4 [OF refl] s5 s6 by simp
qed

section \<open>The reader accepts exactly such headers\<close>

text \<open>What \<open>LZ4F_decodeHeader\<close> does: it refuses, it recognises a skippable frame, it asks for the rest of a
  header, or it accepts a header.\<close>

definition frame_begun :: "bool \<Rightarrow> LZ4F_dctx \<Rightarrow> LZ4F_frameInfo_t \<Rightarrow> LZ4F_dctx" where
  "frame_begun cs d fi = d\<lparr>dc_frameInfo := fi, dc_maxBlockSize := LZ4F_getBlockSize (blockSizeID fi),
     dc_frameRemainingSize := (if cs then contentSize fi else dc_frameRemainingSize d), dc_dStage := dstage_init\<rparr>"

definition flg_cs :: "byte \<Rightarrow> bool" where "flg_cs b \<longleftrightarrow> uint b div 8 mod 2 \<noteq> 0"
definition flg_di :: "byte \<Rightarrow> bool" where "flg_di b \<longleftrightarrow> uint b mod 2 \<noteq> 0"

definition header_flags :: "mem \<Rightarrow> addr \<Rightarrow> bool \<Rightarrow> bool \<Rightarrow> bool" where
  "header_flags m src cs di \<longleftrightarrow> (le_word (bytes m src 4) :: 32 word) = LZ4F_MAGICNUMBER \<and>
     cs = flg_cs (the (m (src + 4))) \<and> di = flg_di (the (m (src + 4)))"

definition header_read :: "LZ4F_dctx \<Rightarrow> mem \<Rightarrow> addr \<Rightarrow> int \<Rightarrow> int \<Rightarrow> LZ4F_dctx \<Rightarrow> mem \<Rightarrow> bool" where
  "header_read d m src n r d' m' \<longleftrightarrow>
     (LZ4F_isError r \<and> m' = m \<and> (\<exists>fi. d' = d\<lparr>dc_frameInfo := fi\<rparr>)) \<or>
     (7 \<le> n \<and> m' = m \<and> (le_word (bytes m src 4) :: 32 word) AND 0xFFFFFFF0 = LZ4F_MAGIC_SKIPPABLE_START \<and> (\<exists>fi. if src = dc_header d
        then r = n \<and> d' = d\<lparr>dc_frameInfo := fi, dc_tmpInSize := n, dc_tmpInTarget := 8, dc_dStage := dstage_storeSFrameSize\<rparr>
        else r = 4 \<and> d' = d\<lparr>dc_frameInfo := fi, dc_dStage := dstage_getSFrameSize\<rparr>)) \<or>
     (7 \<le> n \<and> r = n \<and> frame m m' (dc_header d) (dc_header d + 19) \<and> bytes m' (dc_header d) n = bytes m src n \<and>
        (\<exists>fi cs di. header_flags m src cs di \<and> n < header_size cs di \<and> d' = d\<lparr>dc_frameInfo := fi, dc_tmpInSize := n,
           dc_tmpInTarget := header_size cs di, dc_dStage := dstage_storeFrameHeader\<rparr>)) \<or>
     (m' = m \<and> (\<exists>cs di fi. header_flags m src cs di \<and> r = header_size cs di \<and> r \<le> n \<and> frameInfo_ok cs di fi \<and>
        bytes m src r = header_bytes cs di fi \<and> d' = frame_begun cs d fi))"

lemma take_bit_le_word: "take_bit (8 * length bs) (le_word bs :: 'a :: len word) = le_word bs"
proof (induction bs)
  case (Cons b bs)
  have "take_bit (8 * length (b # bs)) (push_bit 8 (le_word bs) :: 'a word) = push_bit 8 (take_bit (8 * length bs) (le_word bs))"
    by (simp add: take_bit_push_bit)
  moreover have "take_bit (8 * length (b # bs)) (ucast b :: 'a word) = ucast b"
    by (rule bit_word_eqI) (auto simp: bit_simps dest: bit_imp_le_length)
  ultimately show ?case using Cons by (simp only: le_word_or take_bit_or)
qed simp

lemma word_bytes_le_word:
  assumes "8 * length bs \<le> LENGTH('a :: len)" shows "word_bytes (length bs) (le_word bs :: 'a word) = bs"
  using assms
proof (induction bs)
  case (Cons b bs)
  let ?w = "le_word bs :: 'a word"
  have b: "bit ?w n \<Longrightarrow> n < 8 * length bs" for n
    using arg_cong [OF take_bit_le_word [of bs, where 'a = 'a], of "\<lambda>w. bit w n"] by (simp add: bit_simps)
  have "drop_bit 8 (ucast b OR push_bit 8 ?w) = ?w"
    using Cons.prems by (intro bit_word_eqI) (auto simp: bit_simps dest: bit_imp_le_length b)
  moreover have "ucast (ucast b OR push_bit 8 ?w) = b"
    using Cons.prems by (intro bit_word_eqI) (auto simp: bit_simps)
  ultimately show ?case using Cons by (simp only: length_Cons word_bytes.simps le_word_or) simp
qed simp

lemma word_bytes_bytes:
  "word_bytes 4 (le_word (bytes m p 4) :: 32 word) = bytes m p 4" "word_bytes 8 (le_word (bytes m p 8) :: 64 word) = bytes m p 8"
  using word_bytes_le_word [of "bytes m p 4", where 'a = 32] word_bytes_le_word [of "bytes m p 8", where 'a = 64] by simp_all

text \<open>The header in memory, field by field.\<close>

lemma body_fields:
  fixes cs di fi m p defines "H \<equiv> header_size cs di"
  shows "bytes m (p + 4) (H - 5) = header_body cs di fi \<longleftrightarrow>
     the (m (p + 4)) = byte_of (flg_value cs di fi) \<and> the (m (p + 5)) = byte_of (blockSizeID fi * 16) \<and>
     (cs \<longrightarrow> bytes m (p + 6) 8 = word_bytes 8 (contentSize fi)) \<and>
     (di \<longrightarrow> bytes m (p + H - 5) 4 = word_bytes 4 (dictID fi))"
proof -
  let ?h = "if cs then 8 else (0 :: int)" and ?g = "if di then 4 else (0 :: int)"
  have H: "H - 5 = 2 + (?h + ?g)" by (simp add: H_def header_size_def)
  have n: "0 \<le> ?h" "0 \<le> ?g" by simp_all
  have "bytes m (p + 4) (H - 5) = bytes m (p + 4) 2 @ bytes m (p + 4 + 2) ?h @ bytes m (p + 4 + 2 + ?h) ?g"
    unfolding H using n by (simp only: bytes_append zero_le_numeral add_nonneg_nonneg)
  then have "bytes m (p + 4) (H - 5) = [the (m (p + 4)), the (m (p + 5))] @ bytes m (p + 6) ?h @ bytes m (p + 6 + ?h) ?g"
    by (simp add: bytes_Cons [of 2] bytes_Cons [of 1] algebra_simps del: if_split)
  moreover have "p + 6 + ?h = p + H - 5" if di using that H by simp
  ultimately show ?thesis by (cases cs; cases di; simp add: header_body_def add.commute)
qed

lemma header_split:
  fixes cs di defines "H \<equiv> header_size cs di"
  shows "bytes m p H = header_bytes cs di fi \<longleftrightarrow> bytes m p 4 = word_bytes 4 LZ4F_MAGICNUMBER \<and>
     bytes m (p + 4) (H - 5) = header_body cs di fi \<and>
     the (m (p + (H - 1))) = ucast (drop_bit 8 (xxh32 0 (header_body cs di fi)))"
proof -
  have H: "H = 4 + ((H - 5) + 1)" "0 \<le> H - 5" using header_size_bounds [of cs di] by (auto simp: H_def)
  have "bytes m p (4 + ((H - 5) + 1)) = bytes m p 4 @ bytes m (p + 4) (H - 5) @ bytes m (p + 4 + (H - 5)) 1"
    using H(2) by (simp only: bytes_append zero_le_numeral zero_le_one add_nonneg_nonneg)
  then have "bytes m p H = bytes m p 4 @ bytes m (p + 4) (H - 5) @ [the (m (p + (H - 1)))]"
    using H(1) by (simp add: bytes_Cons [of 1] add_diff_eq)
  moreover have "length (header_body cs di fi) = nat (H - 5)" by (simp add: header_body_def H_def header_size_def)
  ultimately show ?thesis by (auto simp: header_bytes_def append_eq_append_conv)
qed

definition read_info :: "mem \<Rightarrow> addr \<Rightarrow> bool \<Rightarrow> bool \<Rightarrow> LZ4F_frameInfo_t" where
  "read_info m src cs di = (let F = uint (the (m (src + 4))) in
     \<lparr>blockSizeID = uint (the (m (src + 5))) div 16 mod 8, blockMode = flag_blockMode F,
      contentChecksumFlag = flag_contentChecksum F, frameType = LZ4F_frame,
      contentSize = (if cs then le_word (bytes m (src + 6) 8) else 0),
      dictID = (if di then le_word (bytes m (src + header_size cs di - 5) 4) else 0),
      blockChecksumFlag = flag_blockChecksum F\<rparr>)"

lemma magic_not_skippable: "LZ4F_MAGICNUMBER AND 0xFFFFFFF0 \<noteq> LZ4F_MAGIC_SKIPPABLE_START"
  by (simp add: LZ4F_MAGICNUMBER_def LZ4F_MAGIC_SKIPPABLE_START_def)

text \<open>The conditions a header is checked for, in the order of the code.\<close>

definition header_checks :: "mem \<Rightarrow> addr \<Rightarrow> int \<Rightarrow> bool \<Rightarrow> bool \<Rightarrow> bool" where
  "header_checks m src n cs di \<longleftrightarrow>
     le_word (bytes m src 4) = LZ4F_MAGICNUMBER \<and>
     (let F = uint (the (m (src + 4))); B = uint (the (m (src + 5))) in
      F div 2 mod 2 = 0 \<and> F div 64 mod 4 = 1 \<and> cs = (F div 8 mod 2 \<noteq> 0) \<and> di = (F mod 2 \<noteq> 0) \<and> header_size cs di \<le> n \<and>
      B div 128 mod 2 = 0 \<and> 4 \<le> B div 16 mod 8 \<and> B mod 16 = 0) \<and>
     ucast (drop_bit 8 (xxh32 0 (bytes m (src + 4) (header_size cs di - 5)))) = the (m (src + (header_size cs di - 1)))"

lemma decodeHeader_good:
  assumes v: "valid m src n" and c: "header_checks m src n cs di"
  shows "LZ4F_decodeHeader d m src n = Some (header_size cs di, frame_begun cs d (read_info m src cs di), m)"
proof -
  let ?H = "header_size cs di"
  have H: "?H \<le> n" using c unfolding header_checks_def Let_def by blast
  have sub: "valid m (src + k) j" if "0 \<le> k" "k + j \<le> ?H" for k j by (rule valid_sub [OF v]) (use that H in auto)
  have magic: "LZ4F_readLE32 m src = Some LZ4F_MAGICNUMBER"
    using readLE32_Some [of m src] sub [of 0 4] header_size_bounds [of cs di] c by (simp add: header_checks_def Let_def)
  obtain b4 b5 hb where b: "m (src + 4) = Some b4" "m (src + 5) = Some b5" "m (src + (?H - 1)) = Some hb"
    using valid_at [OF v, of "src + 4"] valid_at [OF v, of "src + 5"] valid_at [OF v, of "src + (?H - 1)"] H header_size_bounds [of cs di] by auto
  define F where "F = uint b4"
  define B where "B = uint b5"
  have f: "F div 2 mod 2 = 0" "F div 64 mod 4 = 1" "cs = (F div 8 mod 2 \<noteq> 0)" "di = (F mod 2 \<noteq> 0)"
    "B div 128 mod 2 = 0" "\<not> B div 16 mod 8 < 4" "B mod 16 = 0"
    using c unfolding header_checks_def Let_def b option.sel F_def [symmetric] B_def [symmetric] not_less by - (elim conjE, assumption)+
  have hc: "LZ4F_headerChecksum m (src + 4) (?H - 5) = Some hb"
    using headerChecksum_Some [of m "src + 4" "?H - 5"] sub [of 4 "?H - 5"] header_size_bounds [of cs di] c by (simp add: header_checks_def b)
  have r64: "LZ4F_readLE64 m (src + 6) = Some (le_word (bytes m (src + 6) 8))" if cs
    by (rule readLE64_Some, rule sub) (use that in \<open>simp_all add: header_size_def\<close>)
  have r32: "LZ4F_readLE32 m (src + ?H - 5) = Some (le_word (bytes m (src + ?H - 5) 4))" if di
    using readLE32_Some [of m "src + (?H - 5)"] sub [of "?H - 5" 4] header_size_bounds [of cs di] by (simp add: algebra_simps)
  have hs: "minFHSize + (if cs then 8 else 0) + (if di then 4 else 0) = ?H" by (simp add: header_size_def)
  have n: "\<not> n < minFHSize" "\<not> n < ?H" using H header_size_bounds [of cs di] by auto
  have ri: "read_info m src cs di = \<lparr>blockSizeID = B div 16 mod 8, blockMode = flag_blockMode F,
      contentChecksumFlag = flag_contentChecksum F, frameType = LZ4F_frame,
      contentSize = (if cs then le_word (bytes m (src + 6) 8) else 0),
      dictID = (if di then le_word (bytes m (src + ?H - 5) 4) else 0), blockChecksumFlag = flag_blockChecksum F\<rparr>"
    by (simp add: read_info_def b F_def B_def Let_def)
  have cd: "(F div 8 mod 2 \<noteq> 0) = cs" "(F mod 2 \<noteq> 0) = di" by (simp_all only: f(3,4))
  define bsid where "bsid = B div 16 mod 8"
  have nf: "\<not> F div 2 mod 2 \<noteq> 0" "\<not> F div 64 mod 4 \<noteq> 1" "\<not> B div 128 mod 2 \<noteq> 0" "\<not> B mod 16 \<noteq> 0" by (simp_all only: f not_not)
  show ?thesis
    unfolding LZ4F_decodeHeader_def magic Let_def if_not_P [OF n(1)] bind.bind_lunit if_not_P [OF magic_not_skippable] b
      option.sel F_def [symmetric] B_def [symmetric] cd hs if_not_P [OF n(2)] hc if_not_P [OF nf(1)] if_not_P [OF nf(2)]
      if_not_P [OF nf(3)] if_not_P [OF nf(4)] ri bsid_def [symmetric]
    using r64 r32 f(6) [folded bsid_def]
    by (cases cs; cases di) (simp_all add: frame_begun_def zeroed_frameInfo_def LZ4F_INIT_FRAMEINFO_def)
qed

lemma byte_fields:
  fixes b :: byte
  assumes "4 \<le> uint b div 16 mod 8" "uint b div 128 mod 2 = 0" "uint b mod 16 = 0"
  shows "byte_of (uint b div 16 mod 8 * 16) = b"
proof -
  have "uint b div 128 = uint b div 16 div 8" by (simp flip: zdiv_zmult2_eq)
  moreover have "0 \<le> uint b div 128" "uint b div 128 < 2"
    using div_pos_geq [of 128 "uint b"] zdiv_mono1 [of "uint b" 255 128] by (simp_all add: pos_imp_zdiv_nonneg_iff)
  ultimately have "uint b div 16 div 8 = 0" using assms(2) by auto
  then have "uint b div 16 mod 8 * 16 = uint b"
    using assms(3) mult_div_mod_eq [of 8 "uint b div 16"] mult_div_mod_eq [of 16 "uint b"] by linarith
  then show ?thesis by (simp only: byte_of_uint)
qed

lemma header_checks_sound:
  assumes "header_checks m src n cs di"
  shows "bytes m src (header_size cs di) = header_bytes cs di (read_info m src cs di)" "frameInfo_ok cs di (read_info m src cs di)"
proof -
  define F where "F = uint (the (m (src + 4)))"
  define B where "B = uint (the (m (src + 5)))"
  have c: "le_word (bytes m src 4) = LZ4F_MAGICNUMBER" "F div 2 mod 2 = 0" "F div 64 mod 4 = 1"
      "cs = (F div 8 mod 2 \<noteq> 0)" "di = (F mod 2 \<noteq> 0)" "header_size cs di \<le> n" "B div 128 mod 2 = 0" "4 \<le> B div 16 mod 8" "B mod 16 = 0"
      "ucast (drop_bit 8 (xxh32 0 (bytes m (src + 4) (header_size cs di - 5)))) = the (m (src + (header_size cs di - 1)))"
    using assms unfolding header_checks_def Let_def F_def [symmetric] B_def [symmetric] by - (elim conjE, assumption)+
  let ?fi = "read_info m src cs di"
  have fi: "blockSizeID ?fi = B div 16 mod 8" "blockMode ?fi = flag_blockMode F" "blockChecksumFlag ?fi = flag_blockChecksum F"
      "contentChecksumFlag ?fi = flag_contentChecksum F" "frameType ?fi = LZ4F_frame"
      "contentSize ?fi = (if cs then le_word (bytes m (src + 6) 8) else 0)"
      "dictID ?fi = (if di then le_word (bytes m (src + header_size cs di - 5) 4) else 0)"
    by (simp_all add: read_info_def Let_def F_def B_def)
  have "flg_value cs di ?fi = F"
    unfolding c(4,5) by (rule flg_value_complete) (use c fi in \<open>simp_all only: c(4,5) [symmetric] F_def uint_byte_bounds\<close>)
  then have "the (m (src + 4)) = byte_of (flg_value cs di ?fi)" by (simp add: F_def)
  moreover have "the (m (src + 5)) = byte_of (blockSizeID ?fi * 16)"
    unfolding fi B_def by (rule byte_fields [symmetric]) (use c in \<open>simp_all only: B_def\<close>)
  ultimately have b: "bytes m (src + 4) (header_size cs di - 5) = header_body cs di ?fi"
    unfolding body_fields fi(6,7) by (simp add: word_bytes_bytes)
  show "bytes m src (header_size cs di) = header_bytes cs di ?fi"
    unfolding header_split using b c(10) word_bytes_bytes(1) [of m src] c(1) by simp
  have "B div 16 mod 8 \<le> 7" using pos_mod_bound [of 8 "B div 16"] by linarith
  then show "frameInfo_ok cs di ?fi" unfolding frameInfo_ok_def fi using c(8) by simp
qed

lemma header_checks_complete:
  assumes b: "bytes m src (header_size cs di) = header_bytes cs di fi" and fi: "frameInfo_ok cs di fi" and n: "header_size cs di \<le> n"
  shows "header_checks m src n cs di" "read_info m src cs di = fi"
proof -
  have h: "bytes m src 4 = word_bytes 4 LZ4F_MAGICNUMBER" "bytes m (src + 4) (header_size cs di - 5) = header_body cs di fi"
      "the (m (src + (header_size cs di - 1))) = ucast (drop_bit 8 (xxh32 0 (header_body cs di fi)))"
    using b unfolding header_split by blast+
  have f: "the (m (src + 4)) = byte_of (flg_value cs di fi)" "the (m (src + 5)) = byte_of (blockSizeID fi * 16)"
      "cs \<Longrightarrow> bytes m (src + 6) 8 = word_bytes 8 (contentSize fi)"
      "di \<Longrightarrow> bytes m (src + header_size cs di - 5) 4 = word_bytes 4 (dictID fi)"
    using h(2) unfolding body_fields by blast+
  note F = flg_value_fields [of cs di fi]
  have uF: "uint (the (m (src + 4))) = flg_value cs di fi" unfolding f(1) by (rule uint_byte_of_id) (use F in auto)
  have bs: "4 \<le> blockSizeID fi" "blockSizeID fi \<le> 7" using fi by (auto simp: frameInfo_ok_def)
  then have uB: "uint (the (m (src + 5))) = blockSizeID fi * 16" unfolding f(2) by (intro uint_byte_of_id) auto
  have B: "blockSizeID fi * 16 div 16 mod 8 = blockSizeID fi" "blockSizeID fi * 16 div 128 mod 2 = 0" "blockSizeID fi * 16 mod 16 = 0"
    using bs by simp_all
  show "header_checks m src n cs di"
    unfolding header_checks_def Let_def uF uB B F h(1) le_word_bytes32 h(2,3) using n bs by simp
  show "read_info m src cs di = fi"
    unfolding read_info_def Let_def uF uB B F using fi f(3,4) by (auto simp: frameInfo_ok_def le_word_bytes32 le_word_bytes64)
qed

lemma decodeHeader_total:
  assumes v: "valid m src n" and hv: "valid m (dc_header d) 19"
    and sep: "src = dc_header d \<or> src + n \<le> dc_header d \<or> dc_header d + 19 \<le> src"
  shows "\<exists>r d' m'. LZ4F_decodeHeader d m src n = Some (r, d', m') \<and> header_read d m src n r d' m'"
proof (cases "7 \<le> n")
  case True
  obtain b4 b5 where b: "m (src + 4) = Some b4" "m (src + 5) = Some b5"
    using valid_at [OF v, of "src + 4"] valid_at [OF v, of "src + 5"] True by auto
  define F where "F = uint b4"
  define B where "B = uint b5"
  define rsv where "rsv = (F div 2 mod 2 \<noteq> 0)"
  define ver where "ver = (F div 64 mod 4 \<noteq> 1)"
  define rB where "rB = (B div 128 mod 2 \<noteq> 0)"
  define rb where "rb = (B mod 16 \<noteq> 0)"
  define cs where "cs = (F div 8 mod 2 \<noteq> 0)"
  define di where "di = (F mod 2 \<noteq> 0)"
  define bsid where "bsid = B div 16 mod 8"
  let ?H = "header_size cs di" and ?w = "le_word (bytes m src 4) :: 32 word"
  let ?c = "ucast (drop_bit 8 (xxh32 0 (bytes m (src + 4) (?H - 5)))) :: byte"
  have hs: "minFHSize + (if cs then 8 else 0) + (if di then 4 else 0) = ?H" by (simp add: header_size_def)
  have magic: "LZ4F_readLE32 m src = Some ?w" using readLE32_Some [of m src] valid_sub [OF v, of src 4] True by simp
  note fold = F_def [symmetric] B_def [symmetric] rsv_def [symmetric] ver_def [symmetric] rB_def [symmetric] rb_def [symmetric] cs_def [symmetric] di_def [symmetric] bsid_def [symmetric]
  note D = LZ4F_decodeHeader_def magic Let_def bind.bind_lunit b option.sel fold hs
  have n: "\<not> n < minFHSize" using True by simp
  have err: "header_read d m src n (LZ4F_returnErrorCode e) d' m"
    if "LZ4F_isError (LZ4F_returnErrorCode e)" "d' = d\<lparr>dc_frameInfo := fi\<rparr>" for e d' fi
    using that by (auto simp: header_read_def)
  show ?thesis
  proof (cases "?w AND 0xFFFFFFF0 = LZ4F_MAGIC_SKIPPABLE_START")
    case skip: True
    show ?thesis unfolding D using n skip True by (auto simp: header_read_def)
  next
    case noskip: False
    show ?thesis
    proof (cases "?w = LZ4F_MAGICNUMBER \<and> \<not> rsv \<and> \<not> ver")
      case False
      then show ?thesis unfolding D using n noskip err [OF _ refl] by auto
    next
      case ok: True
      have flags: "header_flags m src cs di"
        using ok unfolding header_flags_def flg_cs_def flg_di_def b option.sel F_def [symmetric] cs_def [symmetric] di_def [symmetric] by simp
      show ?thesis
      proof (cases "?H \<le> n")
        case short: False
        let ?m = "if src = dc_header d then m else blit m (dc_header d) src n"
        have n19: "n < 19" using short header_size_bounds [of cs di] by linarith
        have vh: "valid m (dc_header d) n" using hv by (rule valid_sub) (use n19 in auto)
        have cp: "src \<noteq> dc_header d \<Longrightarrow> LZ4_memcpy m (dc_header d) src n = Some (blit m (dc_header d) src n)"
          using memcpy_Some [of n m "dc_header d" src] vh v sep n19 True by auto
        let ?fi = "(zeroed_frameInfo :: LZ4F_frameInfo_t)\<lparr>frameType := LZ4F_frame\<rparr>"
        let ?d = "d\<lparr>dc_frameInfo := ?fi, dc_tmpInSize := n, dc_tmpInTarget := ?H, dc_dStage := dstage_storeFrameHeader\<rparr>"
        have fr: "frame m ?m (dc_header d) (dc_header d + 19)"
          using frame_widen [OF frame_blit [OF vh v], of "dc_header d" "dc_header d + 19"] n19 by simp
        have bm: "bytes ?m (dc_header d) n = bytes m src n" using bytes_blit [of n m "dc_header d" src] True by simp
        have "LZ4F_decodeHeader d m src n = Some (n, ?d, ?m)"
          unfolding D using n noskip ok short cp by (simp del: minFHSize_def)
        moreover have "header_read d m src n n ?d ?m"
          unfolding header_read_def using True fr bm short flags by (metis linorder_not_le)
        ultimately show ?thesis by blast
      next
        case long: True
        obtain hb where hb: "m (src + (?H - 1)) = Some hb"
          using valid_at [OF v, of "src + (?H - 1)"] long header_size_bounds [of cs di] by auto
        have hc: "LZ4F_headerChecksum m (src + 4) (?H - 5) = Some ?c"
          using headerChecksum_Some [of m "src + 4" "?H - 5"] valid_sub [OF v, of "src + 4" "?H - 5"] long header_size_bounds [of cs di] by simp
        have checks: "header_checks m src n cs di \<longleftrightarrow> ?w = LZ4F_MAGICNUMBER \<and> (\<not> rsv \<and> \<not> ver \<and> ?H \<le> n \<and> \<not> rB \<and> \<not> bsid < 4 \<and> \<not> rb) \<and> ?c = hb"
          unfolding header_checks_def Let_def b hb option.sel rsv_def ver_def rB_def rb_def bsid_def F_def [symmetric] B_def [symmetric]
            cs_def [symmetric] di_def [symmetric] not_less not_not simp_thms by (rule TrueI)
        show ?thesis
        proof (cases "header_checks m src n cs di")
          case good: True
          show ?thesis using decodeHeader_good [OF v good, of d] header_checks_sound [OF good] long flags
            unfolding header_read_def by blast
        next
          case False
          then consider "rB" | "bsid < 4" "\<not> rB" | "rb" "\<not> bsid < 4" "\<not> rB" | "?c \<noteq> hb" "\<not> rb" "\<not> bsid < 4" "\<not> rB"
            using ok long hb checks by auto
          then show ?thesis unfolding D using n noskip ok long hb hc err [OF _ refl] by cases auto
        qed
      qed
    qed
  qed
next
  case False
  then show ?thesis by (auto simp: LZ4F_decodeHeader_def header_read_def intro!: exI [of _ "dc_frameInfo d"])
qed

end
