(* ===== verification/LZ4F_Props.thy ===== *)
theory LZ4F_Props
  imports LZ4F_Header
begin

text \<open>Properties of the frame format.\<close>

section \<open>Error codes\<close>



section \<open>Headers\<close>

text \<open>(C28) A header that the compressor writes is read back by the decoder as the same frame parameters,
  and exactly the bytes written are consumed, for every block size, mode, checksum, content size and dictionary
  identifier; writing it touches only those bytes, at most 19.\<close>

theorem header_round_trip:
  fixes fi :: LZ4F_frameInfo_t defines "H \<equiv> header_size (contentSize fi \<noteq> 0) (dictID fi \<noteq> 0)"
  assumes "valid m dst H" "4 \<le> blockSizeID fi" "blockSizeID fi \<le> 7" "frameType fi = LZ4F_frame"
  shows "\<exists>m'. write_frame_header m dst fi = Some (dst + H, m') \<and> frame m m' dst (dst + H) \<and> H \<le> 19 \<and>
     (\<exists>d'. LZ4F_decodeHeader d m' dst H = Some (H, d', m') \<and> dc_frameInfo d' = fi \<and> dc_dStage d' = dstage_init \<and>
        dc_maxBlockSize d' = LZ4F_getBlockSize (blockSizeID fi))"
proof -
  let ?cs = "contentSize fi \<noteq> 0" and ?di = "dictID fi \<noteq> 0"
  let ?b = "header_bytes ?cs ?di fi"
  let ?m = "fill m dst ?b"
  have l: "int (length ?b) = H" using header_size_bounds [of ?cs ?di] by (simp add: H_def)
  have w: "write_frame_header m dst fi = Some (dst + H, ?m)"
    using write_frame_header_ok [of m dst fi] assms by simp
  have fr: "frame m ?m dst (dst + H)" using frame_fill [of m dst ?b] l assms by simp
  have b: "bytes ?m dst H = ?b" using bytes_fill [of m dst ?b] l by simp
  have "frameInfo_ok ?cs ?di fi" using assms by (simp add: frameInfo_ok_def)
  note c = header_checks_complete [OF b [unfolded H_def] this, of H]
  have "LZ4F_decodeHeader d ?m dst H = Some (H, frame_begun ?cs d fi, ?m)"
    using decodeHeader_good [of ?m dst H ?cs ?di d] c frame_valid [OF fr, of dst H] assms by (simp add: H_def)
  then show ?thesis using w fr header_size_bounds [of ?cs ?di] by (auto simp: frame_begun_def H_def)
qed

definition sample_info :: LZ4F_frameInfo_t where
  "sample_info = \<lparr>blockSizeID = 5, blockMode = LZ4F_blockIndependent, contentChecksumFlag = LZ4F_contentChecksumEnabled,
     frameType = LZ4F_frame, contentSize = 300, dictID = 7, blockChecksumFlag = LZ4F_noBlockChecksum\<rparr>"

theorem header_round_trip_witness:
  "\<exists>m'. write_frame_header (mem_of 100 (replicate 19 0)) 100 sample_info = Some (119, m')"
  using header_round_trip [of "mem_of 100 (replicate 19 0)" 100 sample_info]
  by (auto simp: sample_info_def header_size_def valid_mem_of)

definition sample_dctx :: LZ4F_dctx where
  "sample_dctx = \<lparr>dc_frameInfo = zeroed_frameInfo, dc_version = 100, dc_dStage = dstage_getFrameHeader, dc_frameRemainingSize = 0,
     dc_maxBlockSize = 0, dc_maxBufferSize = 0, dc_tmpIn = 0, dc_tmpInSize = 0, dc_tmpInTarget = 0, dc_tmpOutBuffer = 0,
     dc_dict = 0, dc_dictSize = 0, dc_tmpOut = 0, dc_tmpOutSize = 0, dc_tmpOutStart = 0,
     dc_xxh = snd (XXH32_reset 0), dc_blockChecksum = snd (XXH32_reset 0), dc_skipChecksum = False, dc_header = 500,
     dc_tmpInCap = 0, dc_tmpOutCap = 0\<rparr>"

text \<open>(C29) \<open>LZ4F_decodeHeader\<close> reads only its input, whatever the bytes are, and writes only the header buffer of
  the context; it starts a frame exactly for the byte sequences of the format, and then the parameters are the
  ones the sequence stands for.\<close>

theorem decodeHeader_exact:
  assumes "valid m src n" "valid m (dc_header d) 19" "src = dc_header d \<or> src + n \<le> dc_header d \<or> dc_header d + 19 \<le> src"
    and "dc_dStage d \<noteq> dstage_init"
  shows "\<exists>r d' m'. LZ4F_decodeHeader d m src n = Some (r, d', m') \<and> frame m m' (dc_header d) (dc_header d + 19) \<and>
     (dc_dStage d' = dstage_init \<longleftrightarrow>
        (\<exists>cs di fi. header_size cs di \<le> n \<and> frameInfo_ok cs di fi \<and> bytes m src (header_size cs di) = header_bytes cs di fi)) \<and>
     (dc_dStage d' = dstage_init \<longrightarrow> (\<exists>cs di. r = header_size cs di \<and> frameInfo_ok cs di (dc_frameInfo d') \<and>
        bytes m src r = header_bytes cs di (dc_frameInfo d')))"
proof -
  obtain r d' m' where r: "LZ4F_decodeHeader d m src n = Some (r, d', m')" "header_read d m src n r d' m'"
    using decodeHeader_total [OF assms(1-3)] by blast
  have fr: "frame m m' (dc_header d) (dc_header d + 19)" using r(2) by (auto simp: header_read_def)
  have fwd: "\<exists>cs di. r = header_size cs di \<and> r \<le> n \<and> frameInfo_ok cs di (dc_frameInfo d') \<and> bytes m src r = header_bytes cs di (dc_frameInfo d')"
    if "dc_dStage d' = dstage_init"
    using r(2) that assms(4) by (auto simp: header_read_def frame_begun_def split: if_splits)
  have bwd: "dc_dStage d' = dstage_init" if "header_size cs di \<le> n" "frameInfo_ok cs di fi"
    "bytes m src (header_size cs di) = header_bytes cs di fi" for cs di fi
    using decodeHeader_good [OF assms(1) header_checks_complete(1) [OF that(3,2,1)], of d] r(1) by (simp add: frame_begun_def)
  show ?thesis using r(1) fr fwd bwd by blast
qed

theorem decodeHeader_exact_witness:
  "\<exists>r d' m'. LZ4F_decodeHeader sample_dctx (mem_of 500 (replicate 19 0) ++ mem_of 100 [1, 2, 3, 4, 5, 6, 7]) 100 7 = Some (r, d', m')"
  using decodeHeader_exact [of "mem_of 500 (replicate 19 0) ++ mem_of 100 [1, 2, 3, 4, 5, 6, 7]" 100 7 sample_dctx]
  by (auto simp: sample_dctx_def valid_add_left)

end
