(* ===== verification/LZ4F_Decompress.thy ===== *)
theory LZ4F_Decompress
  imports LZ4F_Header LZ4_DecAPI
begin

text \<open>
  The frame decoder of lz4frame.c: \<open>LZ4F_decompress\<close> with one definition per stage of its state machine,
  the management of the history (\<open>LZ4F_updateDict\<close>), and the functions around it.

  \<open>alloc m n\<close> stands for \<open>malloc(n)\<close> (or \<open>customAlloc\<close>) in the memory \<open>m\<close>: an address, 0 for failure, and the
  memory afterwards.  The assertions of the code are part of the model: a violated one is \<open>None\<close>.
\<close>

type_synonym allocator = "mem \<Rightarrow> int \<Rightarrow> addr \<times> mem"

text \<open>\<open>free\<close> of a block of \<open>n\<close> bytes, whose size the allocator knows.\<close>

definition LZ4F_free :: "mem \<Rightarrow> addr \<Rightarrow> int \<Rightarrow> mem" where
  "LZ4F_free m p n = (if p = 0 then m else (\<lambda>x. if p \<le> x \<and> x < p + n then None else m x))"

record LZ4F_decompressOptions_t =
  stableDst :: bool
  skipChecksums :: bool

section \<open>Contexts\<close>

text \<open>\<open>header\<close> is the address of the array \<open>header\<close> in the zeroed context, 0 if there is no memory for it.\<close>

definition LZ4F_createDecompressionContext_advanced :: "addr \<Rightarrow> int \<Rightarrow> LZ4F_dctx option" where
  "LZ4F_createDecompressionContext_advanced header version =
     (if header = 0 then None
      else Some \<lparr>dc_frameInfo = zeroed_frameInfo, dc_version = version, dc_dStage = dstage_getFrameHeader,
        dc_frameRemainingSize = 0, dc_maxBlockSize = 0, dc_maxBufferSize = 0, dc_tmpIn = 0, dc_tmpInSize = 0, dc_tmpInTarget = 0,
        dc_tmpOutBuffer = 0, dc_dict = 0, dc_dictSize = 0, dc_tmpOut = 0, dc_tmpOutSize = 0, dc_tmpOutStart = 0,
        dc_xxh = \<lparr>total_len_32 = 0, large_len = 0, acc_32 = (0, 0, 0, 0), mem32 = replicate 16 0, memsize_32 = 0\<rparr>,
        dc_blockChecksum = \<lparr>total_len_32 = 0, large_len = 0, acc_32 = (0, 0, 0, 0), mem32 = replicate 16 0, memsize_32 = 0\<rparr>,
        dc_skipChecksum = False, dc_header = header, dc_tmpInCap = 0, dc_tmpOutCap = 0\<rparr>)"

definition LZ4F_createDecompressionContext :: "addr \<Rightarrow> int \<Rightarrow> int \<times> LZ4F_dctx option" where
  "LZ4F_createDecompressionContext header versionNumber =
     (case LZ4F_createDecompressionContext_advanced header versionNumber of
        None \<Rightarrow> (LZ4F_returnErrorCode LZ4F_ERROR_allocation_failed, None)
      | Some dctx \<Rightarrow> (error_value LZ4F_OK_NoError, Some dctx))"

fun dStage_value :: "dStage_t \<Rightarrow> int" where
  "dStage_value dstage_getFrameHeader = 0"
| "dStage_value dstage_storeFrameHeader = 1"
| "dStage_value dstage_init = 2"
| "dStage_value dstage_getBlockHeader = 3"
| "dStage_value dstage_storeBlockHeader = 4"
| "dStage_value dstage_copyDirect = 5"
| "dStage_value dstage_getBlockChecksum = 6"
| "dStage_value dstage_getCBlock = 7"
| "dStage_value dstage_storeCBlock = 8"
| "dStage_value dstage_flushOut = 9"
| "dStage_value dstage_getSuffix = 10"
| "dStage_value dstage_storeSuffix = 11"
| "dStage_value dstage_getSFrameSize = 12"
| "dStage_value dstage_storeSFrameSize = 13"
| "dStage_value dstage_skipSkippable = 14"

text \<open>The memory of the context itself is released last; here it is the array \<open>header\<close>.\<close>

definition LZ4F_freeDecompressionContext :: "mem \<Rightarrow> LZ4F_dctx option \<Rightarrow> int \<times> mem" where
  "LZ4F_freeDecompressionContext m dctx =
     (case dctx of
        None \<Rightarrow> (error_value LZ4F_OK_NoError, m)
      | Some dctx \<Rightarrow>
          let result = dStage_value (dc_dStage dctx);
              m = LZ4F_free m (dc_tmpIn dctx) (dc_tmpInCap dctx);
              m = LZ4F_free m (dc_tmpOutBuffer dctx) (dc_tmpOutCap dctx);
              m = LZ4F_free m (dc_header dctx) 19 in
          (result, m))"

definition LZ4F_resetDecompressionContext :: "LZ4F_dctx \<Rightarrow> LZ4F_dctx" where
  "LZ4F_resetDecompressionContext dctx =
     dctx\<lparr>dc_dStage := dstage_getFrameHeader, dc_dict := 0, dc_dictSize := 0, dc_skipChecksum := False, dc_frameRemainingSize := 0\<rparr>"

section \<open>The history\<close>

text \<open>How many bytes of the history are copied in front of the block in \<open>tmpOut\<close>.\<close>

definition preserve_copySize :: "LZ4F_dctx \<Rightarrow> int" where
  "preserve_copySize dctx =
     (let preserveSize = dc_tmpOut dctx - dc_tmpOutBuffer dctx;
          copySize = u64 (64 * 2 ^ 10 - dc_tmpOutSize dctx);
          copySize = (if dc_tmpOutSize dctx > 64 * 2 ^ 10 then 0 else copySize) in
      if copySize > preserveSize then preserveSize else copySize)"

definition LZ4F_updateDict ::
  "LZ4F_dctx \<Rightarrow> mem \<Rightarrow> addr \<Rightarrow> int \<Rightarrow> addr \<Rightarrow> bool \<Rightarrow> (LZ4F_dctx \<times> mem) option" where
  "LZ4F_updateDict dctx m dstPtr dstSize dstBufferStart withinTmp =
     (if dstPtr = 0 then None
      else let dctx = (if dc_dictSize dctx = 0 then dctx\<lparr>dc_dict := dstPtr\<rparr> else dctx) in
      if dc_dict dctx = 0 then None
      else if dc_dict dctx + dc_dictSize dctx = dstPtr then
        Some (dctx\<lparr>dc_dictSize := dc_dictSize dctx + dstSize\<rparr>, m)
      else if dstPtr < dstBufferStart then None
      else if (dstPtr - dstBufferStart) + dstSize \<ge> 64 * 2 ^ 10 then
        Some (dctx\<lparr>dc_dict := dstBufferStart, dc_dictSize := (dstPtr - dstBufferStart) + dstSize\<rparr>, m)
      else if dstSize \<ge> 64 * 2 ^ 10 \<or> dc_tmpOutBuffer dctx = 0 then None
      else if withinTmp \<and> dc_dict dctx = dc_tmpOutBuffer dctx then
        if dc_dict dctx + dc_dictSize dctx \<noteq> dc_tmpOut dctx + dc_tmpOutStart dctx then None
        else Some (dctx\<lparr>dc_dictSize := dc_dictSize dctx + dstSize\<rparr>, m)
      else if withinTmp then
        let preserveSize = dc_tmpOut dctx - dc_tmpOutBuffer dctx;
            copySize = preserve_copySize dctx;
            oldDictEnd = dc_dict dctx + dc_dictSize dctx - dc_tmpOutStart dctx in do {
        m \<leftarrow> LZ4_memcpy m (dc_tmpOutBuffer dctx + preserveSize - copySize) (oldDictEnd - copySize) copySize;
        Some (dctx\<lparr>dc_dict := dc_tmpOutBuffer dctx, dc_dictSize := preserveSize + dc_tmpOutStart dctx + dstSize\<rparr>, m) }
      else if dc_dict dctx = dc_tmpOutBuffer dctx then do {
        (dctx, m) \<leftarrow>
          (if dc_dictSize dctx + dstSize > dc_maxBufferSize dctx then
             let preserveSize = 64 * 2 ^ 10 - dstSize in do {
             m \<leftarrow> LZ4_memcpy m (dc_tmpOutBuffer dctx) (dc_dict dctx + dc_dictSize dctx - preserveSize) preserveSize;
             Some (dctx\<lparr>dc_dictSize := preserveSize\<rparr>, m) }
           else Some (dctx, m));
        m \<leftarrow> LZ4_memcpy m (dc_tmpOutBuffer dctx + dc_dictSize dctx) dstPtr dstSize;
        Some (dctx\<lparr>dc_dictSize := dc_dictSize dctx + dstSize\<rparr>, m) }
      else
        let preserveSize = 64 * 2 ^ 10 - dstSize;
            preserveSize = (if preserveSize > dc_dictSize dctx then dc_dictSize dctx else preserveSize) in do {
        m \<leftarrow> LZ4_memcpy m (dc_tmpOutBuffer dctx) (dc_dict dctx + dc_dictSize dctx - preserveSize) preserveSize;
        m \<leftarrow> LZ4_memcpy m (dc_tmpOutBuffer dctx + preserveSize) dstPtr dstSize;
        Some (dctx\<lparr>dc_dict := dc_tmpOutBuffer dctx, dc_dictSize := preserveSize + dstSize\<rparr>, m) })"

section \<open>The stages\<close>

text \<open>What a call does not change: the end of the input and the output buffer.\<close>

record dec_call =
  fc_srcEnd :: addr
  fc_dstStart :: addr
  fc_dstEnd :: addr

text \<open>What it changes: the context, the memory and the positions in input and output.\<close>

type_synonym dec_pos = "LZ4F_dctx \<times> mem \<times> addr \<times> addr"

text \<open>How a stage is left: \<open>break\<close> with another stage to do; \<open>break\<close> with \<open>doAnotherStage = 0\<close> and a hint for the next size;
  or \<open>return\<close>.\<close>

datatype stage_exit = Again dec_pos | Stop int dec_pos | Return int dec_pos

definition return_error :: "LZ4F_errorCodes \<Rightarrow> dec_pos \<Rightarrow> stage_exit option" where
  "return_error e s = Some (Return (LZ4F_returnErrorCode e) s)"

text \<open>\<open>XXH32_update\<close>, whose result the code ignores, under a condition.\<close>

definition hash_if :: "bool \<Rightarrow> XXH32_state_t \<Rightarrow> mem \<Rightarrow> addr \<Rightarrow> int \<Rightarrow> XXH32_state_t option" where
  "hash_if c st m p n = (if c then map_option snd (XXH32_update st m p n) else Some st)"

subsection \<open>Frame header\<close>

definition stage_storeFrameHeader :: "dec_call \<Rightarrow> dec_pos \<Rightarrow> stage_exit option" where
  "stage_storeFrameHeader E = (\<lambda>(dctx, m, srcPtr, dstPtr).
     let sizeToCopy = min (u64 (dc_tmpInTarget dctx - dc_tmpInSize dctx)) (fc_srcEnd E - srcPtr) in do {
     m \<leftarrow> LZ4_memcpy m (dc_header dctx + dc_tmpInSize dctx) srcPtr sizeToCopy;
     let dctx = dctx\<lparr>dc_tmpInSize := dc_tmpInSize dctx + sizeToCopy\<rparr>;
         srcPtr = srcPtr + sizeToCopy in
     if dc_tmpInSize dctx < dc_tmpInTarget dctx then
       Some (Stop ((dc_tmpInTarget dctx - dc_tmpInSize dctx) + BHSize) (dctx, m, srcPtr, dstPtr))
     else do {
       (r, dctx, m) \<leftarrow> LZ4F_decodeHeader dctx m (dc_header dctx) (dc_tmpInTarget dctx);
       if LZ4F_isError r then Some (Return r (dctx, m, srcPtr, dstPtr))
       else Some (Again (dctx, m, srcPtr, dstPtr)) }})"

definition stage_getFrameHeader :: "dec_call \<Rightarrow> dec_pos \<Rightarrow> stage_exit option" where
  "stage_getFrameHeader E = (\<lambda>(dctx, m, srcPtr, dstPtr).
     if fc_srcEnd E - srcPtr \<ge> maxFHSize then do {
       (hSize, dctx, m) \<leftarrow> LZ4F_decodeHeader dctx m srcPtr (fc_srcEnd E - srcPtr);
       if LZ4F_isError hSize then Some (Return hSize (dctx, m, srcPtr, dstPtr))
       else Some (Again (dctx, m, srcPtr + hSize, dstPtr)) }
     else let dctx = dctx\<lparr>dc_tmpInSize := 0\<rparr> in
     if fc_srcEnd E - srcPtr = 0 then Some (Return minFHSize (dctx, m, srcPtr, dstPtr))
     else stage_storeFrameHeader E
       (dctx\<lparr>dc_tmpInTarget := minFHSize, dc_dStage := dstage_storeFrameHeader\<rparr>, m, srcPtr, dstPtr))"

subsection \<open>Block header\<close>

definition decode_blockHeader :: "dec_call \<Rightarrow> addr \<Rightarrow> dec_pos \<Rightarrow> stage_exit option" where
  "decode_blockHeader E selectedIn = (\<lambda>(dctx, m, srcPtr, dstPtr). do {
     blockHeader \<leftarrow> LZ4F_readLE32 m selectedIn;
     let nextCBlockSize = uint (blockHeader AND 0x7FFFFFFF);
         crcSize = blockChecksum_bit (blockChecksumFlag (dc_frameInfo dctx)) * BFSize in
     if blockHeader = 0 then Some (Again (dctx\<lparr>dc_dStage := dstage_getSuffix\<rparr>, m, srcPtr, dstPtr))
     else if nextCBlockSize > dc_maxBlockSize dctx then return_error LZ4F_ERROR_maxBlockSize_invalid (dctx, m, srcPtr, dstPtr)
     else if blockHeader AND LZ4F_BLOCKUNCOMPRESSED_FLAG \<noteq> 0 then
       let dctx = dctx\<lparr>dc_tmpInTarget := nextCBlockSize\<rparr>;
           dctx = (if blockChecksumFlag (dc_frameInfo dctx) = LZ4F_blockChecksumEnabled
                   then dctx\<lparr>dc_blockChecksum := snd (XXH32_reset 0)\<rparr> else dctx) in
       Some (Again (dctx\<lparr>dc_dStage := dstage_copyDirect\<rparr>, m, srcPtr, dstPtr))
     else
       let dctx = dctx\<lparr>dc_tmpInTarget := nextCBlockSize + crcSize, dc_dStage := dstage_getCBlock\<rparr> in
       if dstPtr = fc_dstEnd E \<or> srcPtr = fc_srcEnd E
       then Some (Stop (BHSize + nextCBlockSize + crcSize) (dctx, m, srcPtr, dstPtr))
       else Some (Again (dctx, m, srcPtr, dstPtr)) })"

definition stage_storeBlockHeader :: "dec_call \<Rightarrow> dec_pos \<Rightarrow> stage_exit option" where
  "stage_storeBlockHeader E = (\<lambda>(dctx, m, srcPtr, dstPtr).
     let remainingInput = fc_srcEnd E - srcPtr;
         wantedData = u64 (BHSize - dc_tmpInSize dctx);
         sizeToCopy = min wantedData remainingInput in do {
     m \<leftarrow> LZ4_memcpy m (dc_tmpIn dctx + dc_tmpInSize dctx) srcPtr sizeToCopy;
     let srcPtr = srcPtr + sizeToCopy;
         dctx = dctx\<lparr>dc_tmpInSize := dc_tmpInSize dctx + sizeToCopy\<rparr> in
     if dc_tmpInSize dctx < BHSize then Some (Stop (BHSize - dc_tmpInSize dctx) (dctx, m, srcPtr, dstPtr))
     else decode_blockHeader E (dc_tmpIn dctx) (dctx, m, srcPtr, dstPtr) })"

definition stage_getBlockHeader :: "dec_call \<Rightarrow> dec_pos \<Rightarrow> stage_exit option" where
  "stage_getBlockHeader E = (\<lambda>(dctx, m, srcPtr, dstPtr).
     if fc_srcEnd E - srcPtr \<ge> BHSize then decode_blockHeader E srcPtr (dctx, m, srcPtr + BHSize, dstPtr)
     else stage_storeBlockHeader E (dctx\<lparr>dc_tmpInSize := 0, dc_dStage := dstage_storeBlockHeader\<rparr>, m, srcPtr, dstPtr))"

text \<open>The allocation of the internal buffers; the first component says whether it succeeded.\<close>

definition realloc_buffers :: "allocator \<Rightarrow> int \<Rightarrow> LZ4F_dctx \<Rightarrow> mem \<Rightarrow> bool \<times> LZ4F_dctx \<times> mem" where
  "realloc_buffers alloc bufferNeeded dctx m =
     (let dctx = dctx\<lparr>dc_maxBufferSize := 0\<rparr>;
          m = LZ4F_free m (dc_tmpIn dctx) (dc_tmpInCap dctx);
          (p, m) = alloc m (dc_maxBlockSize dctx + BFSize);
          dctx = dctx\<lparr>dc_tmpIn := p, dc_tmpInCap := (if p = 0 then 0 else dc_maxBlockSize dctx + BFSize)\<rparr> in
      if p = 0 then (False, dctx, m)
      else let
          m = LZ4F_free m (dc_tmpOutBuffer dctx) (dc_tmpOutCap dctx);
          (q, m) = alloc m bufferNeeded;
          dctx = dctx\<lparr>dc_tmpOutBuffer := q, dc_tmpOutCap := (if q = 0 then 0 else bufferNeeded)\<rparr> in
      if q = 0 then (False, dctx, m)
      else (True, dctx\<lparr>dc_maxBufferSize := bufferNeeded\<rparr>, m))"

definition stage_init :: "allocator \<Rightarrow> dec_call \<Rightarrow> dec_pos \<Rightarrow> stage_exit option" where
  "stage_init alloc E = (\<lambda>(dctx, m, srcPtr, dstPtr).
     let dctx = (if contentChecksumFlag (dc_frameInfo dctx) = LZ4F_contentChecksumEnabled
                 then dctx\<lparr>dc_xxh := snd (XXH32_reset 0)\<rparr> else dctx);
         bufferNeeded = dc_maxBlockSize dctx + (if blockMode (dc_frameInfo dctx) = LZ4F_blockLinked then 128 * 2 ^ 10 else 0);
         (ok, dctx, m) = (if bufferNeeded > dc_maxBufferSize dctx then realloc_buffers alloc bufferNeeded dctx m else (True, dctx, m)) in
     if \<not> ok then return_error LZ4F_ERROR_allocation_failed (dctx, m, srcPtr, dstPtr)
     else stage_getBlockHeader E
       (dctx\<lparr>dc_tmpInSize := 0, dc_tmpInTarget := 0, dc_tmpOut := dc_tmpOutBuffer dctx, dc_tmpOutStart := 0, dc_tmpOutSize := 0,
          dc_dStage := dstage_getBlockHeader\<rparr>, m, srcPtr, dstPtr))"

subsection \<open>Uncompressed blocks\<close>

definition stage_copyDirect :: "dec_call \<Rightarrow> dec_pos \<Rightarrow> stage_exit option" where
  "stage_copyDirect E = (\<lambda>(dctx, m, srcPtr, dstPtr). do {
     (sizeToCopy, dctx, m, srcPtr, dstPtr) \<leftarrow>
       (if dstPtr = 0 then Some (0, dctx, m, srcPtr, dstPtr)
        else
          let minBuffSize = min (fc_srcEnd E - srcPtr) (fc_dstEnd E - dstPtr);
              sizeToCopy = min (dc_tmpInTarget dctx) minBuffSize;
              fi = dc_frameInfo dctx in do {
          m \<leftarrow> LZ4_memcpy m dstPtr srcPtr sizeToCopy;
          bc \<leftarrow> hash_if (\<not> dc_skipChecksum dctx \<and> blockChecksumFlag fi = LZ4F_blockChecksumEnabled)
                  (dc_blockChecksum dctx) m srcPtr sizeToCopy;
          xxh \<leftarrow> hash_if (\<not> dc_skipChecksum dctx \<and> contentChecksumFlag fi = LZ4F_contentChecksumEnabled)
                  (dc_xxh dctx) m srcPtr sizeToCopy;
          let dctx = dctx\<lparr>dc_blockChecksum := bc, dc_xxh := xxh\<rparr>;
              dctx = (if contentSize fi \<noteq> 0
                      then dctx\<lparr>dc_frameRemainingSize := dc_frameRemainingSize dctx - word_of_int sizeToCopy\<rparr> else dctx) in do {
          (dctx, m) \<leftarrow> (if blockMode fi = LZ4F_blockLinked then LZ4F_updateDict dctx m dstPtr sizeToCopy (fc_dstStart E) False
                       else Some (dctx, m));
          Some (sizeToCopy, dctx, m, srcPtr + sizeToCopy, dstPtr + sizeToCopy) }});
     if sizeToCopy = dc_tmpInTarget dctx then
       if blockChecksumFlag (dc_frameInfo dctx) = LZ4F_blockChecksumEnabled
       then Some (Again (dctx\<lparr>dc_tmpInSize := 0, dc_dStage := dstage_getBlockChecksum\<rparr>, m, srcPtr, dstPtr))
       else Some (Again (dctx\<lparr>dc_dStage := dstage_getBlockHeader\<rparr>, m, srcPtr, dstPtr))
     else
       let dctx = dctx\<lparr>dc_tmpInTarget := dc_tmpInTarget dctx - sizeToCopy\<rparr> in
       Some (Stop (dc_tmpInTarget dctx + (if blockChecksumFlag (dc_frameInfo dctx) = LZ4F_blockChecksumEnabled then BFSize else 0) + BHSize)
         (dctx, m, srcPtr, dstPtr)) })"

definition check_blockChecksum :: "addr \<Rightarrow> dec_pos \<Rightarrow> stage_exit option" where
  "check_blockChecksum crcSrc = (\<lambda>(dctx, m, srcPtr, dstPtr). do {
     ok \<leftarrow> (if \<not> dc_skipChecksum dctx then do {
             readCRC \<leftarrow> LZ4F_readLE32 m crcSrc;
             calcCRC \<leftarrow> XXH32_digest (dc_blockChecksum dctx);
             Some (readCRC = calcCRC) }
           else Some True);
     if \<not> ok then return_error LZ4F_ERROR_blockChecksum_invalid (dctx, m, srcPtr, dstPtr)
     else Some (Again (dctx\<lparr>dc_dStage := dstage_getBlockHeader\<rparr>, m, srcPtr, dstPtr)) })"

definition stage_getBlockChecksum :: "dec_call \<Rightarrow> dec_pos \<Rightarrow> stage_exit option" where
  "stage_getBlockChecksum E = (\<lambda>(dctx, m, srcPtr, dstPtr).
     if fc_srcEnd E - srcPtr \<ge> 4 \<and> dc_tmpInSize dctx = 0 then check_blockChecksum srcPtr (dctx, m, srcPtr + 4, dstPtr)
     else
       let stillToCopy = u64 (4 - dc_tmpInSize dctx);
           sizeToCopy = min stillToCopy (fc_srcEnd E - srcPtr) in do {
       m \<leftarrow> LZ4_memcpy m (dc_header dctx + dc_tmpInSize dctx) srcPtr sizeToCopy;
       let dctx = dctx\<lparr>dc_tmpInSize := dc_tmpInSize dctx + sizeToCopy\<rparr>;
           srcPtr = srcPtr + sizeToCopy in
       if dc_tmpInSize dctx < 4 then Some (Stop 1 (dctx, m, srcPtr, dstPtr))
       else check_blockChecksum (dc_header dctx) (dctx, m, srcPtr, dstPtr) })"

subsection \<open>Compressed blocks\<close>

definition stage_flushOut :: "dec_call \<Rightarrow> dec_pos \<Rightarrow> stage_exit option" where
  "stage_flushOut E = (\<lambda>(dctx, m, srcPtr, dstPtr). do {
     (dctx, m, dstPtr) \<leftarrow>
       (if dstPtr \<noteq> 0 then
          let sizeToCopy = min (u64 (dc_tmpOutSize dctx - dc_tmpOutStart dctx)) (fc_dstEnd E - dstPtr) in do {
          m \<leftarrow> LZ4_memcpy m dstPtr (dc_tmpOut dctx + dc_tmpOutStart dctx) sizeToCopy;
          (dctx, m) \<leftarrow> (if blockMode (dc_frameInfo dctx) = LZ4F_blockLinked
                       then LZ4F_updateDict dctx m dstPtr sizeToCopy (fc_dstStart E) True else Some (dctx, m));
          Some (dctx\<lparr>dc_tmpOutStart := dc_tmpOutStart dctx + sizeToCopy\<rparr>, m, dstPtr + sizeToCopy) }
        else Some (dctx, m, dstPtr));
     if dc_tmpOutStart dctx = dc_tmpOutSize dctx
     then Some (Again (dctx\<lparr>dc_dStage := dstage_getBlockHeader\<rparr>, m, srcPtr, dstPtr))
     else Some (Stop BHSize (dctx, m, srcPtr, dstPtr)) })"

text \<open>The dictionary that is passed on: at most 64 KB of a very long history.\<close>

definition cut_dict :: "addr \<Rightarrow> int \<Rightarrow> addr \<times> int" where
  "cut_dict dict dictSize = (if dict \<noteq> 0 \<and> dictSize > 2 ^ 30 then (dict + (dictSize - 64 * 2 ^ 10), 64 * 2 ^ 10) else (dict, dictSize))"

text \<open>What both ways to decode do with the \<open>n\<close> bytes that were decoded to \<open>p\<close>.\<close>

definition account_block :: "LZ4F_dctx \<Rightarrow> mem \<Rightarrow> addr \<Rightarrow> int \<Rightarrow> LZ4F_dctx option" where
  "account_block dctx m p n = do {
     xxh \<leftarrow> hash_if (contentChecksumFlag (dc_frameInfo dctx) = LZ4F_contentChecksumEnabled \<and> \<not> dc_skipChecksum dctx) (dc_xxh dctx) m p n;
     let dctx = dctx\<lparr>dc_xxh := xxh\<rparr> in
     Some (if contentSize (dc_frameInfo dctx) \<noteq> 0
           then dctx\<lparr>dc_frameRemainingSize := dc_frameRemainingSize dctx - word_of_int n\<rparr> else dctx) }"

definition decode_to_dst :: "dec_call \<Rightarrow> addr \<Rightarrow> dec_pos \<Rightarrow> stage_exit option" where
  "decode_to_dst E selectedIn = (\<lambda>(dctx, m, srcPtr, dstPtr).
     if dstPtr = 0 then None
     else let (dict, dictSize) = cut_dict (dc_dict dctx) (dc_dictSize dctx) in do {
     (decodedSize, m) \<leftarrow> LZ4_decompress_safe_usingDict m selectedIn dstPtr (dc_tmpInTarget dctx) (dc_maxBlockSize dctx) dict dictSize;
     if decodedSize < 0 then return_error LZ4F_ERROR_decompressionFailed (dctx, m, srcPtr, dstPtr)
     else do {
       dctx \<leftarrow> account_block dctx m dstPtr decodedSize;
       (dctx, m) \<leftarrow> (if blockMode (dc_frameInfo dctx) = LZ4F_blockLinked
                    then LZ4F_updateDict dctx m dstPtr decodedSize (fc_dstStart E) False else Some (dctx, m));
       Some (Again (dctx\<lparr>dc_dStage := dstage_getBlockHeader\<rparr>, m, srcPtr, dstPtr + decodedSize)) }})"

text \<open>The room in \<open>tmpOutBuffer\<close> in front of the block.\<close>

definition place_tmpOut :: "LZ4F_dctx \<Rightarrow> mem \<Rightarrow> (LZ4F_dctx \<times> mem) option" where
  "place_tmpOut dctx m =
     (if blockMode (dc_frameInfo dctx) = LZ4F_blockLinked then
        if dc_dict dctx = dc_tmpOutBuffer dctx then do {
          (dctx, m) \<leftarrow>
            (if dc_dictSize dctx > 128 * 2 ^ 10 then do {
               m \<leftarrow> LZ4_memcpy m (dc_tmpOutBuffer dctx) (dc_dict dctx + dc_dictSize dctx - 64 * 2 ^ 10) (64 * 2 ^ 10);
               Some (dctx\<lparr>dc_dictSize := 64 * 2 ^ 10\<rparr>, m) }
             else Some (dctx, m));
          Some (dctx\<lparr>dc_tmpOut := dc_tmpOutBuffer dctx + dc_dictSize dctx\<rparr>, m) }
        else
          let reservedDictSpace = min (dc_dictSize dctx) (64 * 2 ^ 10) in
          Some (dctx\<lparr>dc_tmpOut := dc_tmpOutBuffer dctx + reservedDictSpace\<rparr>, m)
      else Some (dctx, m))"

definition decode_to_tmpOut :: "dec_call \<Rightarrow> addr \<Rightarrow> dec_pos \<Rightarrow> stage_exit option" where
  "decode_to_tmpOut E selectedIn = (\<lambda>(dctx, m, srcPtr, dstPtr). do {
     (dctx, m) \<leftarrow> place_tmpOut dctx m;
     let (dict, dictSize) = cut_dict (dc_dict dctx) (dc_dictSize dctx) in do {
     (decodedSize, m) \<leftarrow> LZ4_decompress_safe_usingDict m selectedIn (dc_tmpOut dctx) (dc_tmpInTarget dctx) (dc_maxBlockSize dctx) dict dictSize;
     if decodedSize < 0 then return_error LZ4F_ERROR_decompressionFailed (dctx, m, srcPtr, dstPtr)
     else do {
       dctx \<leftarrow> account_block dctx m (dc_tmpOut dctx) decodedSize;
       stage_flushOut E (dctx\<lparr>dc_tmpOutSize := decodedSize, dc_tmpOutStart := 0, dc_dStage := dstage_flushOut\<rparr>, m, srcPtr, dstPtr) }}})"

definition decode_CBlock :: "dec_call \<Rightarrow> addr \<Rightarrow> dec_pos \<Rightarrow> stage_exit option" where
  "decode_CBlock E selectedIn = (\<lambda>(dctx, m, srcPtr, dstPtr). do {
     (ok, dctx) \<leftarrow>
       (if blockChecksumFlag (dc_frameInfo dctx) = LZ4F_blockChecksumEnabled then
          if dc_tmpInTarget dctx < 4 \<or> selectedIn = 0 then None
          else let dctx = dctx\<lparr>dc_tmpInTarget := dc_tmpInTarget dctx - 4\<rparr> in do {
            readBlockCrc \<leftarrow> LZ4F_readLE32 m (selectedIn + dc_tmpInTarget dctx);
            calcBlockCrc \<leftarrow> XXH32 m selectedIn (dc_tmpInTarget dctx) 0;
            Some (readBlockCrc = calcBlockCrc, dctx) }
        else Some (True, dctx));
     if \<not> ok then return_error LZ4F_ERROR_blockChecksum_invalid (dctx, m, srcPtr, dstPtr)
     else if fc_dstEnd E - dstPtr \<ge> dc_maxBlockSize dctx \<and> \<not> (dc_dict dctx \<noteq> 0 \<and> dc_dict dctx + dc_dictSize dctx = dc_tmpOut dctx)
     then decode_to_dst E selectedIn (dctx, m, srcPtr, dstPtr)
     else decode_to_tmpOut E selectedIn (dctx, m, srcPtr, dstPtr) })"

definition stage_getCBlock :: "dec_call \<Rightarrow> dec_pos \<Rightarrow> stage_exit option" where
  "stage_getCBlock E = (\<lambda>(dctx, m, srcPtr, dstPtr).
     if fc_srcEnd E - srcPtr < dc_tmpInTarget dctx
     then Some (Again (dctx\<lparr>dc_tmpInSize := 0, dc_dStage := dstage_storeCBlock\<rparr>, m, srcPtr, dstPtr))
     else decode_CBlock E srcPtr (dctx, m, srcPtr + dc_tmpInTarget dctx, dstPtr))"

definition stage_storeCBlock :: "dec_call \<Rightarrow> dec_pos \<Rightarrow> stage_exit option" where
  "stage_storeCBlock E = (\<lambda>(dctx, m, srcPtr, dstPtr).
     let wantedData = u64 (dc_tmpInTarget dctx - dc_tmpInSize dctx);
         inputLeft = fc_srcEnd E - srcPtr;
         sizeToCopy = min wantedData inputLeft in do {
     m \<leftarrow> LZ4_memcpy m (dc_tmpIn dctx + dc_tmpInSize dctx) srcPtr sizeToCopy;
     let dctx = dctx\<lparr>dc_tmpInSize := dc_tmpInSize dctx + sizeToCopy\<rparr>;
         srcPtr = srcPtr + sizeToCopy in
     if dc_tmpInSize dctx < dc_tmpInTarget dctx then
       Some (Stop ((dc_tmpInTarget dctx - dc_tmpInSize dctx)
               + (if blockChecksumFlag (dc_frameInfo dctx) = LZ4F_blockChecksumEnabled then BFSize else 0) + BHSize)
         (dctx, m, srcPtr, dstPtr))
     else decode_CBlock E (dc_tmpIn dctx) (dctx, m, srcPtr, dstPtr) })"

subsection \<open>The end of the frame\<close>

definition check_suffix :: "addr \<Rightarrow> dec_pos \<Rightarrow> stage_exit option" where
  "check_suffix selectedIn = (\<lambda>(dctx, m, srcPtr, dstPtr). do {
     ok \<leftarrow> (if \<not> dc_skipChecksum dctx then do {
             readCRC \<leftarrow> LZ4F_readLE32 m selectedIn;
             resultCRC \<leftarrow> XXH32_digest (dc_xxh dctx);
             Some (readCRC = resultCRC) }
           else Some True);
     if \<not> ok then return_error LZ4F_ERROR_contentChecksum_invalid (dctx, m, srcPtr, dstPtr)
     else Some (Stop 0 (LZ4F_resetDecompressionContext dctx, m, srcPtr, dstPtr)) })"

definition stage_storeSuffix :: "dec_call \<Rightarrow> dec_pos \<Rightarrow> stage_exit option" where
  "stage_storeSuffix E = (\<lambda>(dctx, m, srcPtr, dstPtr).
     let remainingInput = fc_srcEnd E - srcPtr;
         wantedData = u64 (4 - dc_tmpInSize dctx);
         sizeToCopy = min wantedData remainingInput in do {
     m \<leftarrow> LZ4_memcpy m (dc_tmpIn dctx + dc_tmpInSize dctx) srcPtr sizeToCopy;
     let srcPtr = srcPtr + sizeToCopy;
         dctx = dctx\<lparr>dc_tmpInSize := dc_tmpInSize dctx + sizeToCopy\<rparr> in
     if dc_tmpInSize dctx < 4 then Some (Stop (4 - dc_tmpInSize dctx) (dctx, m, srcPtr, dstPtr))
     else check_suffix (dc_tmpIn dctx) (dctx, m, srcPtr, dstPtr) })"

definition stage_getSuffix :: "dec_call \<Rightarrow> dec_pos \<Rightarrow> stage_exit option" where
  "stage_getSuffix E = (\<lambda>(dctx, m, srcPtr, dstPtr).
     if dc_frameRemainingSize dctx \<noteq> 0 then return_error LZ4F_ERROR_frameSize_wrong (dctx, m, srcPtr, dstPtr)
     else if contentChecksumFlag (dc_frameInfo dctx) = LZ4F_noContentChecksum
     then Some (Stop 0 (LZ4F_resetDecompressionContext dctx, m, srcPtr, dstPtr))
     else if fc_srcEnd E - srcPtr < 4
     then stage_storeSuffix E (dctx\<lparr>dc_tmpInSize := 0, dc_dStage := dstage_storeSuffix\<rparr>, m, srcPtr, dstPtr)
     else check_suffix srcPtr (dctx, m, srcPtr + 4, dstPtr))"

subsection \<open>Skippable frames\<close>

definition decode_SFrameSize :: "addr \<Rightarrow> dec_pos \<Rightarrow> stage_exit option" where
  "decode_SFrameSize selectedIn = (\<lambda>(dctx, m, srcPtr, dstPtr). do {
     SFrameSize \<leftarrow> LZ4F_readLE32 m selectedIn;
     Some (Again (dctx\<lparr>dc_frameInfo := (dc_frameInfo dctx)\<lparr>contentSize := ucast SFrameSize\<rparr>,
       dc_tmpInTarget := uint SFrameSize, dc_dStage := dstage_skipSkippable\<rparr>, m, srcPtr, dstPtr)) })"

definition stage_storeSFrameSize :: "dec_call \<Rightarrow> dec_pos \<Rightarrow> stage_exit option" where
  "stage_storeSFrameSize E = (\<lambda>(dctx, m, srcPtr, dstPtr).
     let sizeToCopy = min (u64 (dc_tmpInTarget dctx - dc_tmpInSize dctx)) (fc_srcEnd E - srcPtr) in do {
     m \<leftarrow> LZ4_memcpy m (dc_header dctx + dc_tmpInSize dctx) srcPtr sizeToCopy;
     let srcPtr = srcPtr + sizeToCopy;
         dctx = dctx\<lparr>dc_tmpInSize := dc_tmpInSize dctx + sizeToCopy\<rparr> in
     if dc_tmpInSize dctx < dc_tmpInTarget dctx
     then Some (Stop (dc_tmpInTarget dctx - dc_tmpInSize dctx) (dctx, m, srcPtr, dstPtr))
     else decode_SFrameSize (dc_header dctx + 4) (dctx, m, srcPtr, dstPtr) })"

definition stage_getSFrameSize :: "dec_call \<Rightarrow> dec_pos \<Rightarrow> stage_exit option" where
  "stage_getSFrameSize E = (\<lambda>(dctx, m, srcPtr, dstPtr).
     if fc_srcEnd E - srcPtr \<ge> 4 then decode_SFrameSize srcPtr (dctx, m, srcPtr + 4, dstPtr)
     else stage_storeSFrameSize E
       (dctx\<lparr>dc_tmpInSize := 4, dc_tmpInTarget := 8, dc_dStage := dstage_storeSFrameSize\<rparr>, m, srcPtr, dstPtr))"

definition stage_skipSkippable :: "dec_call \<Rightarrow> dec_pos \<Rightarrow> stage_exit option" where
  "stage_skipSkippable E = (\<lambda>(dctx, m, srcPtr, dstPtr).
     let skipSize = min (dc_tmpInTarget dctx) (fc_srcEnd E - srcPtr);
         srcPtr = srcPtr + skipSize;
         dctx = dctx\<lparr>dc_tmpInTarget := dc_tmpInTarget dctx - skipSize\<rparr>;
         nextSrcSizeHint = dc_tmpInTarget dctx in
     if nextSrcSizeHint \<noteq> 0 then Some (Stop nextSrcSizeHint (dctx, m, srcPtr, dstPtr))
     else Some (Stop nextSrcSizeHint (LZ4F_resetDecompressionContext dctx, m, srcPtr, dstPtr)))"

section \<open>The state machine\<close>

definition dec_stage :: "allocator \<Rightarrow> dec_call \<Rightarrow> dec_pos \<Rightarrow> stage_exit option" where
  "dec_stage alloc E s =
     (case dc_dStage (fst s) of
        dstage_getFrameHeader \<Rightarrow> stage_getFrameHeader E s
      | dstage_storeFrameHeader \<Rightarrow> stage_storeFrameHeader E s
      | dstage_init \<Rightarrow> stage_init alloc E s
      | dstage_getBlockHeader \<Rightarrow> stage_getBlockHeader E s
      | dstage_storeBlockHeader \<Rightarrow> stage_storeBlockHeader E s
      | dstage_copyDirect \<Rightarrow> stage_copyDirect E s
      | dstage_getBlockChecksum \<Rightarrow> stage_getBlockChecksum E s
      | dstage_getCBlock \<Rightarrow> stage_getCBlock E s
      | dstage_storeCBlock \<Rightarrow> stage_storeCBlock E s
      | dstage_flushOut \<Rightarrow> stage_flushOut E s
      | dstage_getSuffix \<Rightarrow> stage_getSuffix E s
      | dstage_storeSuffix \<Rightarrow> stage_storeSuffix E s
      | dstage_getSFrameSize \<Rightarrow> stage_getSFrameSize E s
      | dstage_storeSFrameSize \<Rightarrow> stage_storeSFrameSize E s
      | dstage_skipSkippable \<Rightarrow> stage_skipSkippable E s)"

text \<open>\<open>while (doAnotherStage)\<close>; the flag says whether the loop was left by \<open>return\<close>.\<close>

partial_function (option) dec_run :: "allocator \<Rightarrow> dec_call \<Rightarrow> dec_pos \<Rightarrow> (bool \<times> int \<times> dec_pos) option" where
  "dec_run alloc E s = do {
     e \<leftarrow> dec_stage alloc E s;
     case e of Again s \<Rightarrow> dec_run alloc E s | Stop hint s \<Rightarrow> Some (False, hint, s) | Return r s \<Rightarrow> Some (True, r, s) }"

declare dec_run.simps [code]

definition preserve_history :: "bool \<Rightarrow> LZ4F_dctx \<Rightarrow> mem \<Rightarrow> (LZ4F_dctx \<times> mem) option" where
  "preserve_history stab dctx m =
     (if blockMode (dc_frameInfo dctx) = LZ4F_blockLinked \<and> dc_dict dctx \<noteq> dc_tmpOutBuffer dctx \<and> dc_dict dctx \<noteq> 0 \<and> \<not> stab
         \<and> u32 (dStage_value (dc_dStage dctx) - 2) < u32 (dStage_value dstage_getSuffix - 2) then
        if dc_dStage dctx = dstage_flushOut then
          let preserveSize = dc_tmpOut dctx - dc_tmpOutBuffer dctx;
              copySize = preserve_copySize dctx;
              oldDictEnd = dc_dict dctx + dc_dictSize dctx - dc_tmpOutStart dctx in
          if dc_tmpOutBuffer dctx = 0 then None
          else do {
            m \<leftarrow> LZ4_memcpy m (dc_tmpOutBuffer dctx + preserveSize - copySize) (oldDictEnd - copySize) copySize;
            Some (dctx\<lparr>dc_dict := dc_tmpOutBuffer dctx, dc_dictSize := preserveSize + dc_tmpOutStart dctx\<rparr>, m) }
        else
          let oldDictEnd = dc_dict dctx + dc_dictSize dctx;
              newDictSize = min (dc_dictSize dctx) (64 * 2 ^ 10) in do {
          m \<leftarrow> LZ4_memcpy m (dc_tmpOutBuffer dctx) (oldDictEnd - newDictSize) newDictSize;
          Some (dctx\<lparr>dc_dict := dc_tmpOutBuffer dctx, dc_dictSize := newDictSize, dc_tmpOut := dc_tmpOutBuffer dctx + newDictSize\<rparr>, m) }
      else Some (dctx, m))"

text \<open>The result: the value returned, what \<open>*dstSizePtr\<close> and \<open>*srcSizePtr\<close> are set to, the context and the memory.\<close>

definition LZ4F_decompress ::
  "allocator \<Rightarrow> LZ4F_dctx \<Rightarrow> mem \<Rightarrow> addr \<Rightarrow> int \<Rightarrow> addr \<Rightarrow> int \<Rightarrow> LZ4F_decompressOptions_t option
   \<Rightarrow> (int \<times> int \<times> int \<times> LZ4F_dctx \<times> mem) option" where
  "LZ4F_decompress alloc dctx m dstBuffer dstSize srcBuffer srcSize decompressOptionsPtr =
     (let srcStart = srcBuffer;
          dstStart = dstBuffer;
          E = \<lparr>fc_srcEnd = srcStart + srcSize, fc_dstStart = dstStart, fc_dstEnd = (if dstStart \<noteq> 0 then dstStart + dstSize else 0)\<rparr>;
          options = (case decompressOptionsPtr of None \<Rightarrow> \<lparr>stableDst = False, skipChecksums = False\<rparr> | Some op \<Rightarrow> op) in
      if dstBuffer = 0 \<and> dstSize \<noteq> 0 then None
      else let dctx = dctx\<lparr>dc_skipChecksum := dc_skipChecksum dctx \<or> skipChecksums options\<rparr> in do {
        (returned, r, dctx, m, srcPtr, dstPtr) \<leftarrow> dec_run alloc E (dctx, m, srcStart, dstStart);
        if returned then Some (r, 0, 0, dctx, m)
        else do {
          (dctx, m) \<leftarrow> preserve_history (stableDst options) dctx m;
          Some (r, dstPtr - dstStart, srcPtr - srcStart, dctx, m) }})"

definition LZ4F_decompress_usingDict ::
  "allocator \<Rightarrow> LZ4F_dctx \<Rightarrow> mem \<Rightarrow> addr \<Rightarrow> int \<Rightarrow> addr \<Rightarrow> int \<Rightarrow> addr \<Rightarrow> int \<Rightarrow> LZ4F_decompressOptions_t option
   \<Rightarrow> (int \<times> int \<times> int \<times> LZ4F_dctx \<times> mem) option" where
  "LZ4F_decompress_usingDict alloc dctx m dstBuffer dstSize srcBuffer srcSize dict dictSize decompressOptionsPtr =
     (let dctx = (if dStage_value (dc_dStage dctx) \<le> dStage_value dstage_init
                  then dctx\<lparr>dc_dict := dict, dc_dictSize := dictSize\<rparr> else dctx) in
      LZ4F_decompress alloc dctx m dstBuffer dstSize srcBuffer srcSize decompressOptionsPtr)"

text \<open>\<open>frameInfoPtr\<close> and \<open>srcSizePtr\<close> may be NULL.  The result: the value returned, \<open>*srcSizePtr\<close> and \<open>*frameInfoPtr\<close> (\<open>None\<close> if
  it is not set), the context and the memory.\<close>

definition LZ4F_getFrameInfo ::
  "allocator \<Rightarrow> LZ4F_dctx \<Rightarrow> mem \<Rightarrow> addr \<Rightarrow> addr \<Rightarrow> int option \<Rightarrow> (int \<times> int option \<times> LZ4F_frameInfo_t option \<times> LZ4F_dctx \<times> mem) option" where
  "LZ4F_getFrameInfo alloc dctx m frameInfoPtr srcBuffer srcSizePtr =
     (if frameInfoPtr = 0 then Some (LZ4F_returnErrorCode LZ4F_ERROR_parameter_null, srcSizePtr, None, dctx, m)
      else case srcSizePtr of
        None \<Rightarrow> Some (LZ4F_returnErrorCode LZ4F_ERROR_parameter_null, None, None, dctx, m)
      | Some srcSize \<Rightarrow>
      if dStage_value (dc_dStage dctx) > dStage_value dstage_storeFrameHeader then do {
        (r, o0, i0, dctx', m) \<leftarrow> LZ4F_decompress alloc dctx m 0 0 0 0 None;
        Some (r, Some 0, Some (dc_frameInfo dctx), dctx', m) }
      else if dc_dStage dctx = dstage_storeFrameHeader then
        Some (LZ4F_returnErrorCode LZ4F_ERROR_frameDecoding_alreadyStarted, Some 0, None, dctx, m)
      else do {
        hSize \<leftarrow> LZ4F_headerSize m srcBuffer srcSize;
        if LZ4F_isError hSize then Some (hSize, Some 0, None, dctx, m)
        else if srcSize < hSize then Some (LZ4F_returnErrorCode LZ4F_ERROR_frameHeader_incomplete, Some 0, None, dctx, m)
        else do {
          (decodeResult, dctx, m) \<leftarrow> LZ4F_decodeHeader dctx m srcBuffer hSize;
          if LZ4F_isError decodeResult then Some (decodeResult, Some 0, Some (dc_frameInfo dctx), dctx, m)
          else Some (BHSize, Some decodeResult, Some (dc_frameInfo dctx), dctx, m) }})"

end
