(* ===== verification/LZ4F_Spec.thy ===== *)
theory LZ4F_Spec
  imports LZ4F_Decompress LZ4_DecStream "HOL-Library.Sublist"
begin

text \<open>
  What a frame is, on lists of bytes: the blocks of a frame, a whole frame and a skippable frame.
  A history that agrees with another one on its last 65535 bytes decodes the same blocks
  (\<open>good_suffix\<close>): the decoder keeps no more of it.
\<close>

section \<open>Frames\<close>

definition linked :: "LZ4F_frameInfo_t \<Rightarrow> bool" where
  "linked fi \<longleftrightarrow> blockMode fi = LZ4F_blockLinked"

definition block_crc :: "LZ4F_frameInfo_t \<Rightarrow> byte list \<Rightarrow> byte list" where
  "block_crc fi b = (if blockChecksumFlag fi = LZ4F_blockChecksumEnabled then word_bytes 4 (xxh32 0 b) else [])"

definition content_crc :: "LZ4F_frameInfo_t \<Rightarrow> byte list \<Rightarrow> byte list" where
  "content_crc fi T = (if contentChecksumFlag fi = LZ4F_contentChecksumEnabled then word_bytes 4 (xxh32 0 T) else [])"

text \<open>The size of a block as its header stores it.\<close>

definition size_field :: "bool \<Rightarrow> nat \<Rightarrow> byte list" where
  "size_field raw n = word_bytes 4 (if raw then of_nat n OR LZ4F_BLOCKUNCOMPRESSED_FLAG else of_nat n)"

abbreviation blockSize_of :: "LZ4F_frameInfo_t \<Rightarrow> int" where
  "blockSize_of fi \<equiv> LZ4F_getBlockSize (blockSizeID fi)"

definition block_hist :: "LZ4F_frameInfo_t \<Rightarrow> byte list \<Rightarrow> byte list \<Rightarrow> byte list" where
  "block_hist fi D T = (if linked fi then D @ T else D)"

text \<open>\<open>frame_blocks fi ck D B T\<close>: the bytes \<open>B\<close> are blocks with the content \<open>T\<close>, where \<open>D\<close> is the dictionary.  With
  \<open>ck\<close> also the checksums of uncompressed blocks are right.\<close>

inductive frame_blocks :: "LZ4F_frameInfo_t \<Rightarrow> bool \<Rightarrow> byte list \<Rightarrow> byte list \<Rightarrow> byte list \<Rightarrow> bool"
  for fi ck D where
  none: "frame_blocks fi ck D [] []"
| raw: "\<lbrakk>frame_blocks fi ck D B T; int (length b) \<le> blockSize_of fi; length c = length (block_crc fi b); ck \<longrightarrow> c = block_crc fi b\<rbrakk>
    \<Longrightarrow> frame_blocks fi ck D (B @ size_field True (length b) @ b @ c) (T @ b)"
| compressed: "\<lbrakk>frame_blocks fi ck D B T; b \<noteq> []; int (length b) \<le> blockSize_of fi; int (length x) \<le> blockSize_of fi;
      decode_block (block_hist fi D T) b = Some (block_hist fi D T @ x)\<rbrakk>
    \<Longrightarrow> frame_blocks fi ck D (B @ size_field False (length b) @ b @ block_crc fi b) (T @ x)"

definition whole_frame :: "bool \<Rightarrow> byte list \<Rightarrow> byte list \<Rightarrow> byte list \<Rightarrow> bool" where
  "whole_frame ck D Z T \<longleftrightarrow> (\<exists>cs di fi B c. frameInfo_ok cs di fi \<and> frame_blocks fi ck D B T \<and>
     Z = header_bytes cs di fi @ B @ size_field False 0 @ c \<and> length c = length (content_crc fi T) \<and> (ck \<longrightarrow> c = content_crc fi T) \<and>
     (contentSize fi \<noteq> 0 \<longrightarrow> contentSize fi = of_nat (length T)))"

definition skip_magic :: "byte list \<Rightarrow> bool" where
  "skip_magic bs \<longleftrightarrow> length bs = 4 \<and> (le_word bs :: 32 word) AND 0xFFFFFFF0 = LZ4F_MAGIC_SKIPPABLE_START"

definition skippable_frame :: "byte list \<Rightarrow> bool" where
  "skippable_frame Z \<longleftrightarrow> (\<exists>mg z. skip_magic mg \<and> Z = mg @ word_bytes 4 (of_nat (length z) :: 32 word) @ z \<and> length z < 2 ^ 32)"

lemma frame_blocks_weaken: "frame_blocks fi ck D B T \<Longrightarrow> frame_blocks fi False D B T"
  by (induction rule: frame_blocks.induct) (auto intro: frame_blocks.intros)

section \<open>Histories that decode alike\<close>

definition good_suffix :: "byte list \<Rightarrow> byte list \<Rightarrow> bool" where
  "good_suffix b H \<longleftrightarrow> b = H \<or> (\<exists>h. 65535 \<le> length h \<and> suffix h b \<and> suffix h H)"

lemma gs_refl [simp]: "good_suffix b b"
  by (simp add: good_suffix_def)

lemma gs_Nil [simp]: "good_suffix [] H \<longleftrightarrow> H = []"
  by (auto simp: good_suffix_def)

lemma gs_append: "good_suffix b H \<Longrightarrow> good_suffix (b @ x) (H @ x)"
  unfolding good_suffix_def
proof (elim disjE exE conjE)
  fix h assume h: "65535 \<le> length h" "suffix h b" "suffix h H"
  then show "b @ x = H @ x \<or> (\<exists>h. 65535 \<le> length h \<and> suffix h (b @ x) \<and> suffix h (H @ x))"
    by (intro disjI2 exI [of _ "h @ x"]) (auto simp: suffix_def)
qed simp

lemma gs_trans: "good_suffix a b \<Longrightarrow> good_suffix b c \<Longrightarrow> good_suffix a c"
  unfolding good_suffix_def
proof (elim disjE exE conjE)
  fix h k assume h: "65535 \<le> length h" "suffix h a" "suffix h b" and k: "65535 \<le> length k" "suffix k b" "suffix k c"
  have "suffix h k \<or> suffix k h" using h(3) k(2) by (rule suffix_same_cases)
  then show "a = c \<or> (\<exists>h. 65535 \<le> length h \<and> suffix h a \<and> suffix h c)"
    using h k by (meson suffix_order.trans)
qed auto

lemma gs_long: "65535 \<le> length b \<Longrightarrow> suffix b H \<Longrightarrow> good_suffix b H"
  by (auto simp: good_suffix_def)

text \<open>The last \<open>k\<close> elements.\<close>

definition lasts :: "nat \<Rightarrow> 'a list \<Rightarrow> 'a list" where
  "lasts k xs = drop (length xs - k) xs"

lemma length_lasts [simp]: "length (lasts k xs) = min k (length xs)"
  by (simp add: lasts_def)

lemma suffix_lasts [simp]: "suffix (lasts k xs) xs"
  by (simp add: lasts_def suffix_drop)

lemma suffix_eq_lasts: "suffix xs ys \<Longrightarrow> xs = lasts (length xs) ys"
  by (auto simp: suffix_def lasts_def)

lemma lasts_suffix: "suffix xs ys \<Longrightarrow> k \<le> length xs \<Longrightarrow> lasts k xs = lasts k ys"
  by (auto simp: suffix_def lasts_def)

lemma suffix_full: "suffix xs ys \<Longrightarrow> length ys \<le> length xs \<Longrightarrow> xs = ys"
  by (auto simp: suffix_def)

lemma lasts_all [simp]: "length xs \<le> k \<Longrightarrow> lasts k xs = xs"
  by (simp add: lasts_def)

lemma gs_lasts:
  assumes "good_suffix b H" "65535 \<le> min k (length b) + length y \<or> length b \<le> k" shows "good_suffix (lasts k b @ y) (H @ y)"
proof (cases "length b \<le> k")
  case False
  then have "good_suffix (lasts k b @ y) (b @ y)" using assms(2) by (intro gs_long) auto
  then show ?thesis using gs_append [OF assms(1)] gs_trans by blast
qed (use assms gs_append in simp)

lemma gs_lasts0: "good_suffix b H \<Longrightarrow> 65535 \<le> k \<Longrightarrow> good_suffix (lasts k b) H"
  using gs_lasts [of b H k "[]"] by (cases "length b \<le> k") auto

lemma gs_decode:
  assumes "good_suffix b H" "decode_block b bs = Some (b @ x)" shows "decode_block H bs = Some (H @ x)"
  using assms(1) unfolding good_suffix_def
proof (elim disjE exE conjE)
  fix h assume h: "65535 \<le> length h" "suffix h b" "suffix h H"
  then obtain p q where p: "b = p @ h" "H = q @ h" by (auto simp: suffix_def)
  then show ?thesis using decode_block_window [OF h(1), of p bs] decode_block_window [OF h(1), of q bs] assms(2) by auto
qed (use assms in simp)

lemma gs_conforming:
  assumes "good_suffix b H"
  shows "conforming (Some (int (length b) + k)) b bs = conforming (Some (int (length H) + k)) H bs"
  using assms unfolding good_suffix_def
proof (elim disjE exE conjE)
  fix h assume h: "65535 \<le> length h" "suffix h b" "suffix h H"
  then obtain p q where p: "b = p @ h" "H = q @ h" by (auto simp: suffix_def)
  then show ?thesis using conforming_window [OF h(1), of p "Some (int (length h) + k)" bs] conforming_window [OF h(1), of q "Some (int (length h) + k)" bs]
    by (simp add: algebra_simps)
qed simp

section \<open>Regions as sets of addresses\<close>

abbreviation reg :: "addr \<Rightarrow> int \<Rightarrow> addr set" where "reg a n \<equiv> {a..<a + n}"

lemma valid_reg: "valid m a n \<longleftrightarrow> reg a n \<subseteq> dom m"
  by (rule valid_dom)

lemma reg_apart: "reg a n \<inter> reg b k = {} \<Longrightarrow> 0 < n \<Longrightarrow> 0 < k \<Longrightarrow> a + n \<le> b \<or> b + k \<le> a"
proof (rule ccontr)
  assume d: "reg a n \<inter> reg b k = {}" "0 < n" "0 < k" "\<not> (a + n \<le> b \<or> b + k \<le> a)"
  then have "max a b \<in> reg a n \<inter> reg b k" by auto
  then show False using d by blast
qed

lemma memcpy_reg:
  assumes "0 \<le> n" "valid m d n" "valid m s n" "reg d n \<inter> reg s n = {}"
  shows "LZ4_memcpy m d s n = Some (blit m d s n)"
  using assms reg_apart [of d n s n] by (cases "n = 0") (auto simp: LZ4_memcpy_def)

lemma bytes_out:
  assumes "frame m m' lo hi" "reg a n \<inter> {lo..<hi} = {}" shows "bytes m' a n = bytes m a n"
  by (rule bytes_cong, rule frame_out [OF assms(1)]) (use assms(2) in force)

lemma bytes_agree: "(\<And>x. x \<in> reg a n \<Longrightarrow> m' x = m x) \<Longrightarrow> bytes m' a n = bytes m a n"
  by (rule bytes_cong) auto

lemma bytes_lasts:
  assumes "0 \<le> k" "k \<le> n" shows "bytes m (a + n - k) k = lasts (nat k) (bytes m a n)"
  using drop_bytes [of "n - k" n m a] assms by (simp add: lasts_def nat_diff_distrib add_diff_eq)

text \<open>Addresses are positive, and one past any of them is still below \<open>2 ^ 63\<close>.\<close>

definition sane :: "mem \<Rightarrow> bool" where "sane m \<longleftrightarrow> (\<forall>x. m x \<noteq> None \<longrightarrow> 0 < x \<and> x + 1 < 2 ^ 63)"

lemma sane_reg:
  assumes "sane m" "reg a n \<subseteq> dom m" "0 < n" shows "0 < a \<and> a + n < 2 ^ 63"
proof -
  have "a \<in> reg a n" "a + n - 1 \<in> reg a n" using assms(3) by auto
  then have "m a \<noteq> None" "m (a + n - 1) \<noteq> None" using assms(2) by blast+
  then show ?thesis using assms(1) unfolding sane_def by force
qed

section \<open>The block decoder on regions\<close>

lemma usingDict_reg:
  assumes s: "sane m" and src: "reg src n \<subseteq> dom m" "0 < n" "n < 2 ^ 31" and dst: "reg dst room \<subseteq> dom m" "0 < room" "room < 2 ^ 31"
    and apart: "reg src n \<inter> reg dst room = {}" "reg a z \<inter> reg dst room = {}" and dict: "0 \<le> z" "reg a z \<subseteq> dom m"
  shows "\<exists>r m'. LZ4_decompress_safe_usingDict m src dst n room a z = Some (r, m') \<and> decoded (bytes m a z) (bytes m src n) dst room m r m'"
proof -
  have io: "io_ok m src dst n room"
    using sane_reg [OF s src(1,2)] sane_reg [OF s dst(1,2)] reg_apart [OF apart(1) src(2) dst(2)] src dst
    by (simp add: io_ok_def valid_reg)
  show ?thesis
  proof (cases "z = 0")
    case True
    then show ?thesis using plain.decodes [OF io] by (simp add: LZ4_decompress_safe_usingDict_def)
  next
    case False
    then have "ro_ok m a z dst room"
      using sane_reg [OF s dict(2)] reg_apart [OF apart(2) _ dst(2)] dict by (simp add: ro_ok_def valid_reg)
    then show ?thesis using using_dict.decodes [OF io] by blast
  qed
qed

end
