(* ===== verification/LZ4F_DecInv.thy ===== *)
theory LZ4F_DecInv
  imports LZ4F_Spec
begin

text \<open>
  The invariant of the frame decoder.  \<open>world\<close> describes the memory during a call: the buffers of the context, the
  output buffer and the memory that a call must not change are apart from each other.  \<open>stage_ok\<close> says for each stage what the
  context and the memory know of the bytes \<open>C\<close> read and the bytes \<open>T\<close> produced since the beginning of the frame.
\<close>

section \<open>Memory\<close>

definition own :: "LZ4F_dctx \<Rightarrow> addr set" where
  "own d = reg (dc_header d) 19 \<union> reg (dc_tmpIn d) (dc_tmpInCap d) \<union> reg (dc_tmpOutBuffer d) (dc_tmpOutCap d)"

definition block_sizes :: "int set" where "block_sizes = {65536, 262144, 1048576, 4194304}"

definition buffers_ok :: "mem \<Rightarrow> LZ4F_dctx \<Rightarrow> bool" where
  "buffers_ok m d \<longleftrightarrow> own d \<subseteq> dom m \<and> 0 \<le> dc_tmpInCap d \<and> 0 \<le> dc_tmpOutCap d \<and>
     reg (dc_header d) 19 \<inter> reg (dc_tmpIn d) (dc_tmpInCap d) = {} \<and>
     reg (dc_header d) 19 \<inter> reg (dc_tmpOutBuffer d) (dc_tmpOutCap d) = {} \<and>
     reg (dc_tmpIn d) (dc_tmpInCap d) \<inter> reg (dc_tmpOutBuffer d) (dc_tmpOutCap d) = {} \<and>
     (dc_maxBufferSize d = 0 \<or> dc_tmpInCap d - 4 \<in> block_sizes \<and> dc_tmpOutCap d = dc_maxBufferSize d \<and>
        (dc_maxBufferSize d = dc_tmpInCap d - 4 \<or> dc_maxBufferSize d = dc_tmpInCap d - 4 + 131072))"

text \<open>A call, for its specification: the memory \<open>jb_m0\<close> it starts with, the set \<open>jb_P\<close> of addresses it must not change (the input among
  them), the start of its input, the dictionary, and what was read and produced of the frame before the call.\<close>

record dec_job =
  jb_E :: dec_call
  jb_P :: "addr set"
  jb_m0 :: mem
  jb_s0 :: addr
  jb_skip :: bool
  jb_D :: "byte list"
  jb_C0 :: "byte list"
  jb_T0 :: "byte list"

abbreviation dst0 :: "dec_job \<Rightarrow> addr" where "dst0 J \<equiv> fc_dstStart (jb_E J)"
abbreviation dst1 :: "dec_job \<Rightarrow> addr" where "dst1 J \<equiv> fc_dstEnd (jb_E J)"
abbreviation src1 :: "dec_job \<Rightarrow> addr" where "src1 J \<equiv> fc_srcEnd (jb_E J)"

definition consumed :: "dec_job \<Rightarrow> addr \<Rightarrow> byte list" where
  "consumed J s = jb_C0 J @ bytes (jb_m0 J) (jb_s0 J) (s - jb_s0 J)"

definition produced :: "dec_job \<Rightarrow> mem \<Rightarrow> addr \<Rightarrow> byte list" where
  "produced J m t = jb_T0 J @ bytes m (dst0 J) (t - dst0 J)"

definition world :: "dec_job \<Rightarrow> LZ4F_dctx \<Rightarrow> mem \<Rightarrow> addr \<Rightarrow> addr \<Rightarrow> bool" where
  "world J d m s t \<longleftrightarrow> sane m \<and> buffers_ok m d \<and> dc_skipChecksum d = jb_skip J \<and>
     0 \<le> jb_s0 J \<and> jb_s0 J \<le> s \<and> s \<le> src1 J \<and> {jb_s0 J..<src1 J} \<subseteq> jb_P J \<and>
     0 \<le> dst0 J \<and> dst0 J \<le> t \<and> t \<le> dst1 J \<and> {dst0 J..<dst1 J} \<subseteq> dom m \<and>
     jb_P J \<subseteq> dom m \<and> (\<forall>x \<in> jb_P J. m x = jb_m0 J x) \<and>
     jb_P J \<inter> own d = {} \<and> jb_P J \<inter> {dst0 J..<dst1 J} = {} \<and> own d \<inter> {dst0 J..<dst1 J} = {} \<and>
     (dst0 J < dst1 J \<longrightarrow> dc_tmpOutBuffer d + dc_tmpOutCap d \<noteq> dst0 J)"

text \<open>The fields that \<open>world\<close> depends on.\<close>

definition mem_fields :: "LZ4F_dctx \<Rightarrow> addr \<times> addr \<times> int \<times> addr \<times> int \<times> int \<times> bool" where
  "mem_fields d = (dc_header d, dc_tmpIn d, dc_tmpInCap d, dc_tmpOutBuffer d, dc_tmpOutCap d, dc_maxBufferSize d, dc_skipChecksum d)"

lemma own_cong: "mem_fields d' = mem_fields d \<Longrightarrow> own d' = own d"
  by (simp add: mem_fields_def own_def)

lemma own_simps [simp]:
  "own (d\<lparr>dc_frameInfo := v0\<rparr>) = own d"
  "own (d\<lparr>dc_dStage := v1\<rparr>) = own d"
  "own (d\<lparr>dc_frameRemainingSize := v2\<rparr>) = own d"
  "own (d\<lparr>dc_maxBlockSize := v3\<rparr>) = own d"
  "own (d\<lparr>dc_maxBufferSize := v4\<rparr>) = own d"
  "own (d\<lparr>dc_tmpInSize := v5\<rparr>) = own d"
  "own (d\<lparr>dc_tmpInTarget := v6\<rparr>) = own d"
  "own (d\<lparr>dc_dict := v7\<rparr>) = own d"
  "own (d\<lparr>dc_dictSize := v8\<rparr>) = own d"
  "own (d\<lparr>dc_tmpOut := v9\<rparr>) = own d"
  "own (d\<lparr>dc_tmpOutSize := v10\<rparr>) = own d"
  "own (d\<lparr>dc_tmpOutStart := v11\<rparr>) = own d"
  "own (d\<lparr>dc_xxh := v12\<rparr>) = own d"
  "own (d\<lparr>dc_blockChecksum := v13\<rparr>) = own d"
  "own (d\<lparr>dc_skipChecksum := v14\<rparr>) = own d"
  by (simp_all add: own_def)

lemma world_cong: "mem_fields d' = mem_fields d \<Longrightarrow> world J d' m s t = world J d m s t"
  by (simp add: mem_fields_def own_def world_def buffers_ok_def)

lemma own_parts: "reg (dc_header d) 19 \<subseteq> own d" "reg (dc_tmpIn d) (dc_tmpInCap d) \<subseteq> own d" "reg (dc_tmpOutBuffer d) (dc_tmpOutCap d) \<subseteq> own d"
  by (auto simp: own_def)

lemma reg_sub: "b \<le> a \<Longrightarrow> a + n \<le> c \<Longrightarrow> {a..<a + n} \<subseteq> {b..<c :: int}"
  by auto

lemma world_sane: "world J d m s t \<Longrightarrow> sane m"
  by (simp add: world_def)

lemma world_write:
  assumes "world J d m s t" "frame m m' lo hi" "{lo..<hi} \<subseteq> own d \<union> {t..<dst1 J}" shows "world J d m' s t"
proof -
  have "m' x = jb_m0 J x" if "x \<in> jb_P J" for x
  proof -
    have "x \<notin> own d" "x \<notin> {t..<dst1 J}" using assms(1) that unfolding world_def by auto
    then have "x \<notin> {lo..<hi}" using assms(3) by blast
    then have "m' x = m x" by (intro frame_out [OF assms(2)]) auto
    then show ?thesis using assms(1) that by (auto simp: world_def)
  qed
  moreover have "sane m'" using assms(1) frame_dom [OF assms(2)] unfolding world_def sane_def by (metis domIff)
  ultimately show ?thesis using assms(1) frame_dom [OF assms(2)] by (auto simp: world_def buffers_ok_def)
qed

lemma world_pos: "world J d m s t \<Longrightarrow> s \<le> s' \<Longrightarrow> s' \<le> src1 J \<Longrightarrow> t \<le> t' \<Longrightarrow> t' \<le> dst1 J \<Longrightarrow> world J d m s' t'"
  by (auto simp: world_def)

lemma world_P:
  assumes "world J d m s t" "0 \<le> n" "s + n \<le> src1 J" shows "reg s n \<subseteq> jb_P J"
proof -
  have "reg s n \<subseteq> {jb_s0 J..<src1 J}" using assms by (auto simp: world_def)
  then show ?thesis using assms(1) unfolding world_def by blast
qed

lemma consumed_add:
  assumes "world J d m s t" "0 \<le> n" "s + n \<le> src1 J" shows "consumed J (s + n) = consumed J s @ bytes m s n"
proof -
  have "bytes m s n = bytes (jb_m0 J) s n"
    using world_P [OF assms] assms(1) by (intro bytes_agree) (auto simp: world_def)
  then show ?thesis using bytes_append [of "s - jb_s0 J" n "jb_m0 J" "jb_s0 J"] assms(1,2) by (simp add: consumed_def world_def algebra_simps)
qed

lemma produced_add: "dst0 J \<le> t \<Longrightarrow> 0 \<le> n \<Longrightarrow> produced J m (t + n) = produced J m t @ bytes m t n"
  using bytes_append [of "t - dst0 J" n m "dst0 J"] by (simp add: produced_def algebra_simps)

lemma produced_write:
  assumes "world J d m s t" "frame m m' lo hi" "{lo..<hi} \<subseteq> own d \<union> {t..<dst1 J}" shows "produced J m' t = produced J m t"
proof -
  have "reg (dst0 J) (t - dst0 J) \<inter> own d = {}" "reg (dst0 J) (t - dst0 J) \<inter> {t..<dst1 J} = {}"
  proof -
    have "reg (dst0 J) (t - dst0 J) \<subseteq> {dst0 J..<dst1 J}" using assms(1) by (auto simp: world_def)
    then show "reg (dst0 J) (t - dst0 J) \<inter> own d = {}" using assms(1) unfolding world_def by blast
  qed auto
  then have "reg (dst0 J) (t - dst0 J) \<inter> {lo..<hi} = {}" using assms(3) by blast
  then show ?thesis using bytes_out [OF assms(2)] by (simp add: produced_def)
qed

lemma produced_suffix: "suffix (bytes m (dst0 J) (t - dst0 J)) (D @ produced J m t)"
  by (auto simp: produced_def suffix_def)

text \<open>Regions of the input, of the output and of the buffers.\<close>

lemma world_src:
  assumes "world J d m s t" "0 \<le> n" "s + n \<le> src1 J"
  shows "reg s n \<subseteq> dom m" "reg s n \<inter> own d = {}" "reg s n \<inter> {dst0 J..<dst1 J} = {}"
proof -
  have "reg s n \<subseteq> jb_P J" using world_P [OF assms] .
  then show "reg s n \<subseteq> dom m" "reg s n \<inter> own d = {}" "reg s n \<inter> {dst0 J..<dst1 J} = {}"
    using assms(1) unfolding world_def by blast+
qed

lemma world_dst:
  assumes "world J d m s t" "dst0 J \<le> a" "a + n \<le> dst1 J"
  shows "reg a n \<subseteq> dom m" "reg a n \<inter> own d = {}"
proof -
  have "reg a n \<subseteq> {dst0 J..<dst1 J}" using assms by auto
  then show "reg a n \<subseteq> dom m" "reg a n \<inter> own d = {}" using assms(1) unfolding world_def by blast+
qed

lemma world_own: "world J d m s t \<Longrightarrow> X \<subseteq> own d \<Longrightarrow> X \<subseteq> dom m"
  by (auto simp: world_def buffers_ok_def)

section \<open>The history\<close>

definition outside :: "addr set \<Rightarrow> LZ4F_dctx \<Rightarrow> mem \<Rightarrow> bool" where
  "outside W d m \<longleftrightarrow> 0 \<le> dc_dictSize d \<and> reg (dc_dict d) (dc_dictSize d) \<subseteq> dom m \<and>
     reg (dc_dict d) (dc_dictSize d) \<inter> own d = {} \<and> reg (dc_dict d) (dc_dictSize d) \<inter> W = {}"

definition user_ok :: "addr set \<Rightarrow> LZ4F_dctx \<Rightarrow> mem \<Rightarrow> byte list \<Rightarrow> bool" where
  "user_ok W d m D \<longleftrightarrow> outside W d m \<and> good_suffix (bytes m (dc_dict d) (dc_dictSize d)) D"

definition hist_ok :: "addr set \<Rightarrow> LZ4F_dctx \<Rightarrow> mem \<Rightarrow> byte list \<Rightarrow> bool" where
  "hist_ok W d m H \<longleftrightarrow> (outside W d m \<or> dc_dict d = dc_tmpOutBuffer d \<and> 0 \<le> dc_dictSize d \<and> dc_dictSize d \<le> dc_tmpOutCap d) \<and>
     good_suffix (bytes m (dc_dict d) (dc_dictSize d)) H"

definition block_hist_ok :: "addr set \<Rightarrow> LZ4F_dctx \<Rightarrow> mem \<Rightarrow> byte list \<Rightarrow> byte list \<Rightarrow> bool" where
  "block_hist_ok W d m D T \<longleftrightarrow> (if linked (dc_frameInfo d) then hist_ok W d m (D @ T) else user_ok W d m D)"

text \<open>While a block is flushed: the bytes that are copied in front of it when the history moves to \<open>tmpOutBuffer\<close>.\<close>

definition copy_size :: "LZ4F_dctx \<Rightarrow> int" where
  "copy_size d = min (if dc_tmpOutSize d > 65536 then 0 else 65536 - dc_tmpOutSize d) (dc_tmpOut d - dc_tmpOutBuffer d)"

lemma copy_size_simps [simp]:
  "copy_size (d\<lparr>dc_frameInfo := v0\<rparr>) = copy_size d"
  "copy_size (d\<lparr>dc_dStage := v1\<rparr>) = copy_size d"
  "copy_size (d\<lparr>dc_dict := v2\<rparr>) = copy_size d"
  "copy_size (d\<lparr>dc_dictSize := v3\<rparr>) = copy_size d"
  "copy_size (d\<lparr>dc_tmpOutStart := v4\<rparr>) = copy_size d"
  "copy_size (d\<lparr>dc_xxh := v5\<rparr>) = copy_size d"
  by (simp_all add: copy_size_def)

lemma outside_simps [simp]:
  "outside W (d\<lparr>dc_frameInfo := v0\<rparr>) m = outside W d m"
  "outside W (d\<lparr>dc_dStage := v1\<rparr>) m = outside W d m"
  "outside W (d\<lparr>dc_frameRemainingSize := v2\<rparr>) m = outside W d m"
  "outside W (d\<lparr>dc_maxBlockSize := v3\<rparr>) m = outside W d m"
  "outside W (d\<lparr>dc_maxBufferSize := v4\<rparr>) m = outside W d m"
  "outside W (d\<lparr>dc_tmpInSize := v5\<rparr>) m = outside W d m"
  "outside W (d\<lparr>dc_tmpInTarget := v6\<rparr>) m = outside W d m"
  "outside W (d\<lparr>dc_tmpOut := v7\<rparr>) m = outside W d m"
  "outside W (d\<lparr>dc_tmpOutSize := v8\<rparr>) m = outside W d m"
  "outside W (d\<lparr>dc_tmpOutStart := v9\<rparr>) m = outside W d m"
  "outside W (d\<lparr>dc_xxh := v10\<rparr>) m = outside W d m"
  "outside W (d\<lparr>dc_blockChecksum := v11\<rparr>) m = outside W d m"
  "outside W (d\<lparr>dc_skipChecksum := v12\<rparr>) m = outside W d m"
  by (simp_all add: outside_def)

abbreviation tmp_room :: "LZ4F_dctx \<Rightarrow> int" where "tmp_room d \<equiv> dc_tmpOut d - dc_tmpOutBuffer d"

text \<open>The bytes before the block, where the history is not in \<open>tmpOutBuffer\<close>.  In front of the block, behind anything, they are a history.\<close>

definition old_bytes :: "LZ4F_dctx \<Rightarrow> mem \<Rightarrow> byte list" where
  "old_bytes d m = bytes m (dc_dict d + dc_dictSize d - dc_tmpOutStart d - copy_size d) (copy_size d)"

definition flush_tmp :: "LZ4F_dctx \<Rightarrow> mem \<Rightarrow> byte list \<Rightarrow> byte list \<Rightarrow> bool" where
  "flush_tmp d m H x \<longleftrightarrow> dc_dict d = dc_tmpOutBuffer d \<and> dc_dictSize d = tmp_room d + dc_tmpOutStart d \<and>
     good_suffix (bytes m (dc_tmpOutBuffer d) (tmp_room d) @ x) (H @ x)"

definition flush_out :: "addr set \<Rightarrow> LZ4F_dctx \<Rightarrow> mem \<Rightarrow> byte list \<Rightarrow> byte list \<Rightarrow> bool" where
  "flush_out W d m H x \<longleftrightarrow> outside W d m \<and> good_suffix (bytes m (dc_dict d) (dc_dictSize d)) (H @ take (nat (dc_tmpOutStart d)) x) \<and>
     (0 < copy_size d \<longrightarrow> copy_size d \<le> dc_dictSize d - dc_tmpOutStart d) \<and>
     (\<forall>g. length g = nat (tmp_room d - copy_size d) \<longrightarrow> good_suffix (g @ old_bytes d m @ x) (H @ x))"

definition flush_ok :: "addr set \<Rightarrow> LZ4F_dctx \<Rightarrow> mem \<Rightarrow> byte list \<Rightarrow> byte list \<Rightarrow> bool" where
  "flush_ok W d m H x \<longleftrightarrow> (tmp_room d = 0 \<longrightarrow> H = []) \<and> (flush_tmp d m H x \<or> flush_out W d m H x)"

text \<open>The block that is flushed lies in \<open>tmpOutBuffer\<close>.\<close>

definition placed :: "LZ4F_dctx \<Rightarrow> mem \<Rightarrow> byte list \<Rightarrow> bool" where
  "placed d m x \<longleftrightarrow> x = bytes m (dc_tmpOut d) (dc_tmpOutSize d) \<and> 0 \<le> dc_tmpOutStart d \<and> dc_tmpOutStart d \<le> dc_tmpOutSize d \<and>
     dc_tmpOutSize d \<le> dc_maxBlockSize d \<and> dc_tmpOutBuffer d \<le> dc_tmpOut d \<and> dc_tmpOut d + dc_maxBlockSize d \<le> dc_tmpOutBuffer d + dc_tmpOutCap d"

section \<open>Stages\<close>

definition sums_ok :: "LZ4F_dctx \<Rightarrow> byte list \<Rightarrow> bool" where
  "sums_ok d T \<longleftrightarrow> (contentChecksumFlag (dc_frameInfo d) = LZ4F_contentChecksumEnabled \<and> \<not> dc_skipChecksum d \<longrightarrow> state32_ok 0 T (dc_xxh d)) \<and>
     dc_frameRemainingSize d = (if contentSize (dc_frameInfo d) \<noteq> 0 then contentSize (dc_frameInfo d) - of_nat (length T) else 0)"

text \<open>The bytes read are a header, blocks with the content \<open>T1\<close> and the bytes \<open>p\<close> of the next part.\<close>

definition blocks_read :: "LZ4F_dctx \<Rightarrow> byte list \<Rightarrow> byte list \<Rightarrow> byte list \<Rightarrow> byte list \<Rightarrow> bool" where
  "blocks_read d D C T1 p \<longleftrightarrow> (\<exists>cs di B. frameInfo_ok cs di (dc_frameInfo d) \<and>
     frame_blocks (dc_frameInfo d) (\<not> dc_skipChecksum d) D B T1 \<and> C = header_bytes cs di (dc_frameInfo d) @ B @ p)"

lemma no_blocks_read: "frameInfo_ok cs di (dc_frameInfo d) \<Longrightarrow> blocks_read d D (header_bytes cs di (dc_frameInfo d)) [] []"
  unfolding blocks_read_def using frame_blocks.none by (intro exI [of _ cs] exI [of _ di] exI [of _ "[]"]) simp

definition crc_len :: "LZ4F_dctx \<Rightarrow> int" where
  "crc_len d = (if blockChecksumFlag (dc_frameInfo d) = LZ4F_blockChecksumEnabled then 4 else 0)"

definition ready :: "LZ4F_dctx \<Rightarrow> bool" where
  "ready d \<longleftrightarrow> dc_maxBlockSize d = blockSize_of (dc_frameInfo d) \<and> dc_maxBlockSize d \<in> block_sizes \<and> dc_maxBlockSize d + 4 \<le> dc_tmpInCap d \<and>
     dc_maxBlockSize d + (if linked (dc_frameInfo d) then 131072 else 0) \<le> dc_tmpOutCap d \<and> dc_tmpOutCap d = dc_maxBufferSize d \<and>
     (\<not> linked (dc_frameInfo d) \<longrightarrow> dc_tmpOut d = dc_tmpOutBuffer d)"

text \<open>Each of these depends on few fields only.\<close>

lemma ready_simps [simp]:
  "ready (d\<lparr>dc_dStage := v0\<rparr>) = ready d"
  "ready (d\<lparr>dc_frameRemainingSize := v1\<rparr>) = ready d"
  "ready (d\<lparr>dc_tmpInSize := v2\<rparr>) = ready d"
  "ready (d\<lparr>dc_tmpInTarget := v3\<rparr>) = ready d"
  "ready (d\<lparr>dc_dict := v4\<rparr>) = ready d"
  "ready (d\<lparr>dc_dictSize := v5\<rparr>) = ready d"
  "ready (d\<lparr>dc_tmpOutSize := v6\<rparr>) = ready d"
  "ready (d\<lparr>dc_tmpOutStart := v7\<rparr>) = ready d"
  "ready (d\<lparr>dc_xxh := v8\<rparr>) = ready d"
  "ready (d\<lparr>dc_blockChecksum := v9\<rparr>) = ready d"
  "ready (d\<lparr>dc_skipChecksum := v10\<rparr>) = ready d"
  unfolding ready_def by simp_all

lemma blocks_read_simps [simp]:
  "blocks_read (d\<lparr>dc_dStage := v0\<rparr>) D C T p = blocks_read d D C T p"
  "blocks_read (d\<lparr>dc_frameRemainingSize := v1\<rparr>) D C T p = blocks_read d D C T p"
  "blocks_read (d\<lparr>dc_maxBlockSize := v2\<rparr>) D C T p = blocks_read d D C T p"
  "blocks_read (d\<lparr>dc_tmpInSize := v3\<rparr>) D C T p = blocks_read d D C T p"
  "blocks_read (d\<lparr>dc_tmpInTarget := v4\<rparr>) D C T p = blocks_read d D C T p"
  "blocks_read (d\<lparr>dc_dict := v5\<rparr>) D C T p = blocks_read d D C T p"
  "blocks_read (d\<lparr>dc_dictSize := v6\<rparr>) D C T p = blocks_read d D C T p"
  "blocks_read (d\<lparr>dc_tmpOut := v7\<rparr>) D C T p = blocks_read d D C T p"
  "blocks_read (d\<lparr>dc_tmpOutSize := v8\<rparr>) D C T p = blocks_read d D C T p"
  "blocks_read (d\<lparr>dc_tmpOutStart := v9\<rparr>) D C T p = blocks_read d D C T p"
  "blocks_read (d\<lparr>dc_xxh := v10\<rparr>) D C T p = blocks_read d D C T p"
  "blocks_read (d\<lparr>dc_blockChecksum := v11\<rparr>) D C T p = blocks_read d D C T p"
  unfolding blocks_read_def by simp_all

lemma sums_ok_simps [simp]:
  "sums_ok (d\<lparr>dc_dStage := v0\<rparr>) T = sums_ok d T"
  "sums_ok (d\<lparr>dc_maxBlockSize := v1\<rparr>) T = sums_ok d T"
  "sums_ok (d\<lparr>dc_tmpInSize := v2\<rparr>) T = sums_ok d T"
  "sums_ok (d\<lparr>dc_tmpInTarget := v3\<rparr>) T = sums_ok d T"
  "sums_ok (d\<lparr>dc_dict := v4\<rparr>) T = sums_ok d T"
  "sums_ok (d\<lparr>dc_dictSize := v5\<rparr>) T = sums_ok d T"
  "sums_ok (d\<lparr>dc_tmpOut := v6\<rparr>) T = sums_ok d T"
  "sums_ok (d\<lparr>dc_tmpOutSize := v7\<rparr>) T = sums_ok d T"
  "sums_ok (d\<lparr>dc_tmpOutStart := v8\<rparr>) T = sums_ok d T"
  "sums_ok (d\<lparr>dc_blockChecksum := v9\<rparr>) T = sums_ok d T"
  unfolding sums_ok_def by simp_all

lemma crc_len_simps [simp]:
  "crc_len (d\<lparr>dc_dStage := v0\<rparr>) = crc_len d"
  "crc_len (d\<lparr>dc_frameRemainingSize := v1\<rparr>) = crc_len d"
  "crc_len (d\<lparr>dc_maxBlockSize := v2\<rparr>) = crc_len d"
  "crc_len (d\<lparr>dc_tmpInSize := v3\<rparr>) = crc_len d"
  "crc_len (d\<lparr>dc_tmpInTarget := v4\<rparr>) = crc_len d"
  "crc_len (d\<lparr>dc_dict := v5\<rparr>) = crc_len d"
  "crc_len (d\<lparr>dc_dictSize := v6\<rparr>) = crc_len d"
  "crc_len (d\<lparr>dc_tmpOut := v7\<rparr>) = crc_len d"
  "crc_len (d\<lparr>dc_tmpOutSize := v8\<rparr>) = crc_len d"
  "crc_len (d\<lparr>dc_tmpOutStart := v9\<rparr>) = crc_len d"
  "crc_len (d\<lparr>dc_xxh := v10\<rparr>) = crc_len d"
  "crc_len (d\<lparr>dc_blockChecksum := v11\<rparr>) = crc_len d"
  "crc_len (d\<lparr>dc_skipChecksum := v12\<rparr>) = crc_len d"
  unfolding crc_len_def by simp_all

lemma user_ok_simps [simp]:
  "user_ok W (d\<lparr>dc_frameInfo := v0\<rparr>) m D = user_ok W d m D"
  "user_ok W (d\<lparr>dc_dStage := v1\<rparr>) m D = user_ok W d m D"
  "user_ok W (d\<lparr>dc_frameRemainingSize := v2\<rparr>) m D = user_ok W d m D"
  "user_ok W (d\<lparr>dc_maxBlockSize := v3\<rparr>) m D = user_ok W d m D"
  "user_ok W (d\<lparr>dc_tmpInSize := v4\<rparr>) m D = user_ok W d m D"
  "user_ok W (d\<lparr>dc_tmpInTarget := v5\<rparr>) m D = user_ok W d m D"
  "user_ok W (d\<lparr>dc_tmpOut := v6\<rparr>) m D = user_ok W d m D"
  "user_ok W (d\<lparr>dc_tmpOutSize := v7\<rparr>) m D = user_ok W d m D"
  "user_ok W (d\<lparr>dc_tmpOutStart := v8\<rparr>) m D = user_ok W d m D"
  "user_ok W (d\<lparr>dc_xxh := v9\<rparr>) m D = user_ok W d m D"
  "user_ok W (d\<lparr>dc_blockChecksum := v10\<rparr>) m D = user_ok W d m D"
  "user_ok W (d\<lparr>dc_skipChecksum := v11\<rparr>) m D = user_ok W d m D"
  unfolding user_ok_def by simp_all

lemma hist_ok_simps [simp]:
  "hist_ok W (d\<lparr>dc_frameInfo := v0\<rparr>) m H = hist_ok W d m H"
  "hist_ok W (d\<lparr>dc_dStage := v1\<rparr>) m H = hist_ok W d m H"
  "hist_ok W (d\<lparr>dc_frameRemainingSize := v2\<rparr>) m H = hist_ok W d m H"
  "hist_ok W (d\<lparr>dc_maxBlockSize := v3\<rparr>) m H = hist_ok W d m H"
  "hist_ok W (d\<lparr>dc_tmpInSize := v4\<rparr>) m H = hist_ok W d m H"
  "hist_ok W (d\<lparr>dc_tmpInTarget := v5\<rparr>) m H = hist_ok W d m H"
  "hist_ok W (d\<lparr>dc_tmpOut := v6\<rparr>) m H = hist_ok W d m H"
  "hist_ok W (d\<lparr>dc_tmpOutSize := v7\<rparr>) m H = hist_ok W d m H"
  "hist_ok W (d\<lparr>dc_tmpOutStart := v8\<rparr>) m H = hist_ok W d m H"
  "hist_ok W (d\<lparr>dc_xxh := v9\<rparr>) m H = hist_ok W d m H"
  "hist_ok W (d\<lparr>dc_blockChecksum := v10\<rparr>) m H = hist_ok W d m H"
  "hist_ok W (d\<lparr>dc_skipChecksum := v11\<rparr>) m H = hist_ok W d m H"
  unfolding hist_ok_def by simp_all

lemma block_hist_ok_simps [simp]:
  "block_hist_ok W (d\<lparr>dc_dStage := v0\<rparr>) m D T = block_hist_ok W d m D T"
  "block_hist_ok W (d\<lparr>dc_frameRemainingSize := v1\<rparr>) m D T = block_hist_ok W d m D T"
  "block_hist_ok W (d\<lparr>dc_maxBlockSize := v2\<rparr>) m D T = block_hist_ok W d m D T"
  "block_hist_ok W (d\<lparr>dc_tmpInSize := v3\<rparr>) m D T = block_hist_ok W d m D T"
  "block_hist_ok W (d\<lparr>dc_tmpInTarget := v4\<rparr>) m D T = block_hist_ok W d m D T"
  "block_hist_ok W (d\<lparr>dc_tmpOut := v5\<rparr>) m D T = block_hist_ok W d m D T"
  "block_hist_ok W (d\<lparr>dc_tmpOutSize := v6\<rparr>) m D T = block_hist_ok W d m D T"
  "block_hist_ok W (d\<lparr>dc_tmpOutStart := v7\<rparr>) m D T = block_hist_ok W d m D T"
  "block_hist_ok W (d\<lparr>dc_xxh := v8\<rparr>) m D T = block_hist_ok W d m D T"
  "block_hist_ok W (d\<lparr>dc_blockChecksum := v9\<rparr>) m D T = block_hist_ok W d m D T"
  "block_hist_ok W (d\<lparr>dc_skipChecksum := v10\<rparr>) m D T = block_hist_ok W d m D T"
  unfolding block_hist_ok_def by simp_all

text \<open>What the stages of a block have in common.\<close>

definition in_frame :: "addr set \<Rightarrow> LZ4F_dctx \<Rightarrow> mem \<Rightarrow> byte list \<Rightarrow> byte list \<Rightarrow> byte list \<Rightarrow> byte list \<Rightarrow> byte list \<Rightarrow> bool" where
  "in_frame W d m D C T1 T p \<longleftrightarrow> ready d \<and> blocks_read d D C T1 p \<and> sums_ok d T \<and> block_hist_ok W d m D T"

definition stage_ok :: "addr set \<Rightarrow> LZ4F_dctx \<Rightarrow> mem \<Rightarrow> byte list \<Rightarrow> byte list \<Rightarrow> byte list \<Rightarrow> bool" where
  "stage_ok W d m D C T = (case dc_dStage d of
     dstage_getFrameHeader \<Rightarrow> C = [] \<and> T = [] \<and> dc_frameRemainingSize d = 0 \<and> user_ok W d m D
   | dstage_storeFrameHeader \<Rightarrow> T = [] \<and> dc_frameRemainingSize d = 0 \<and> user_ok W d m D \<and> C = bytes m (dc_header d) (dc_tmpInSize d) \<and>
       0 \<le> dc_tmpInSize d \<and> dc_tmpInSize d < dc_tmpInTarget d \<and>
       (dc_tmpInTarget d = 7 \<or> 7 \<le> dc_tmpInSize d \<and> (\<exists>cs di. header_flags m (dc_header d) cs di \<and> dc_tmpInTarget d = header_size cs di))
   | dstage_init \<Rightarrow> T = [] \<and> user_ok W d m D \<and> dc_maxBlockSize d = blockSize_of (dc_frameInfo d) \<and>
       dc_frameRemainingSize d = contentSize (dc_frameInfo d) \<and>
       (\<exists>cs di. frameInfo_ok cs di (dc_frameInfo d) \<and> C = header_bytes cs di (dc_frameInfo d))
   | dstage_getBlockHeader \<Rightarrow> in_frame W d m D C T T []
   | dstage_storeBlockHeader \<Rightarrow> in_frame W d m D C T T (bytes m (dc_tmpIn d) (dc_tmpInSize d)) \<and> 0 \<le> dc_tmpInSize d \<and> dc_tmpInSize d < 4
   | dstage_copyDirect \<Rightarrow> (\<exists>T1 x. T = T1 @ x \<and> 0 \<le> dc_tmpInTarget d \<and> int (length x) + dc_tmpInTarget d \<le> dc_maxBlockSize d \<and>
       in_frame W d m D C T1 T (size_field True (length x + nat (dc_tmpInTarget d)) @ x) \<and>
       (blockChecksumFlag (dc_frameInfo d) = LZ4F_blockChecksumEnabled \<and> \<not> dc_skipChecksum d \<longrightarrow> state32_ok 0 x (dc_blockChecksum d)))
   | dstage_getBlockChecksum \<Rightarrow> (\<exists>T1 x. T = T1 @ x \<and> int (length x) \<le> dc_maxBlockSize d \<and>
       blockChecksumFlag (dc_frameInfo d) = LZ4F_blockChecksumEnabled \<and> 0 \<le> dc_tmpInSize d \<and> dc_tmpInSize d < 4 \<and>
       in_frame W d m D C T1 T (size_field True (length x) @ x @ bytes m (dc_header d) (dc_tmpInSize d)) \<and>
       (\<not> dc_skipChecksum d \<longrightarrow> state32_ok 0 x (dc_blockChecksum d)))
   | dstage_getCBlock \<Rightarrow> (\<exists>n. dc_tmpInTarget d = int n + crc_len d \<and> 0 < n \<and> int n \<le> dc_maxBlockSize d \<and>
       in_frame W d m D C T T (size_field False n))
   | dstage_storeCBlock \<Rightarrow> (\<exists>n. dc_tmpInTarget d = int n + crc_len d \<and> 0 < n \<and> int n \<le> dc_maxBlockSize d \<and>
       0 \<le> dc_tmpInSize d \<and> dc_tmpInSize d < dc_tmpInTarget d \<and>
       in_frame W d m D C T T (size_field False n @ bytes m (dc_tmpIn d) (dc_tmpInSize d)))
   | dstage_flushOut \<Rightarrow> (\<exists>T0 x. T = T0 @ take (nat (dc_tmpOutStart d)) x \<and> placed d m x \<and>
       ready d \<and> blocks_read d D C (T0 @ x) [] \<and> sums_ok d (T0 @ x) \<and>
       (if linked (dc_frameInfo d) then flush_ok W d m (D @ T0) x else user_ok W d m D))
   | dstage_getSuffix \<Rightarrow> ready d \<and> blocks_read d D C T (size_field False 0) \<and> sums_ok d T
   | dstage_storeSuffix \<Rightarrow> ready d \<and> blocks_read d D C T (size_field False 0 @ bytes m (dc_tmpIn d) (dc_tmpInSize d)) \<and> sums_ok d T \<and>
       dc_frameRemainingSize d = 0 \<and> contentChecksumFlag (dc_frameInfo d) = LZ4F_contentChecksumEnabled \<and> 0 \<le> dc_tmpInSize d \<and> dc_tmpInSize d < 4
   | dstage_getSFrameSize \<Rightarrow> T = [] \<and> skip_magic C
   | dstage_storeSFrameSize \<Rightarrow> T = [] \<and> dc_tmpInTarget d = 8 \<and> 4 \<le> dc_tmpInSize d \<and> dc_tmpInSize d < 8 \<and>
       (\<exists>mg. skip_magic mg \<and> C = mg @ bytes m (dc_header d + 4) (dc_tmpInSize d - 4))
   | dstage_skipSkippable \<Rightarrow> T = [] \<and> 0 \<le> dc_tmpInTarget d \<and> (\<exists>mg z. skip_magic mg \<and> int (length z) + dc_tmpInTarget d < 2 ^ 32 \<and>
       C = mg @ word_bytes 4 (of_nat (length z + nat (dc_tmpInTarget d)) :: 32 word) @ z))"

definition inv :: "dec_job \<Rightarrow> dec_pos \<Rightarrow> bool" where
  "inv J = (\<lambda>(d, m, s, t). world J d m s t \<and> stage_ok {t..<dst1 J} d m (jb_D J) (consumed J s) (produced J m t))"

text \<open>A number that decreases from stage to stage.\<close>

definition rank :: "dec_job \<Rightarrow> dec_pos \<Rightarrow> nat" where
  "rank J = (\<lambda>(d, m, s, t). 2 * nat (src1 J - s) + (if dc_dStage d \<in> {dstage_copyDirect, dstage_getCBlock, dstage_flushOut} then 1 else 0))"

text \<open>The end of a frame: the context is as good as new.\<close>

definition fresh :: "LZ4F_dctx \<Rightarrow> bool" where
  "fresh d \<longleftrightarrow> dc_dStage d = dstage_getFrameHeader \<and> dc_dict d = 0 \<and> dc_dictSize d = 0 \<and> \<not> dc_skipChecksum d \<and> dc_frameRemainingSize d = 0"

definition finished :: "dec_job \<Rightarrow> int \<Rightarrow> dec_pos \<Rightarrow> bool" where
  "finished J h = (\<lambda>(d, m, s, t). h = 0 \<and> fresh d \<and> world J (d\<lparr>dc_skipChecksum := jb_skip J\<rparr>) m s t \<and>
     (whole_frame (\<not> jb_skip J) (jb_D J) (consumed J s) (produced J m t) \<or> skippable_frame (consumed J s) \<and> produced J m t = []))"

text \<open>\<open>LZ4F_decompress\<close> returns early: with an error, or for lack of input.\<close>

definition refused :: "dec_job \<Rightarrow> int \<Rightarrow> dec_pos \<Rightarrow> bool" where
  "refused J r = (\<lambda>(d, m, s, t). world J d m s t \<and> LZ4F_isError r)"

definition exit_ok :: "dec_job \<Rightarrow> dec_pos \<Rightarrow> stage_exit \<Rightarrow> bool" where
  "exit_ok J pos e = (case e of
     Again pos' \<Rightarrow> inv J pos' \<and> rank J pos' < rank J pos
   | Stop h pos' \<Rightarrow> 0 < h \<and> h < 2 ^ 63 \<and> inv J pos' \<and> dc_dStage (fst pos') \<noteq> dstage_init \<or> finished J h pos'
   | Return r pos' \<Rightarrow> refused J r pos' \<or> r = 7 \<and> inv J pos' \<and> dc_dStage (fst pos') = dstage_getFrameHeader)"

end
