(* ===== verification/LZ4F_DecHist.thy ===== *)
theory LZ4F_DecHist
  imports LZ4F_DecInv
begin

text \<open>The history of linked blocks: \<open>LZ4F_updateDict\<close> and the end of a call keep it.\<close>

section \<open>Copies\<close>

lemma memcpy_region:
  assumes "0 \<le> n" "reg b n \<subseteq> dom m" "reg a n \<subseteq> dom m" "reg b n \<inter> reg a n = {}"
  shows "\<exists>m'. LZ4_memcpy m b a n = Some m' \<and> frame m m' b (b + n) \<and> bytes m' b n = bytes m a n"
  using memcpy_reg [of n m b a] frame_blit [of m b n a] bytes_blit [of n m b a] assms by (simp add: valid_reg)

lemma outside_write:
  assumes "outside W d m" "frame m m' lo hi" "{lo..<hi} \<subseteq> own d \<union> W"
  shows "outside W d m'" "bytes m' (dc_dict d) (dc_dictSize d) = bytes m (dc_dict d) (dc_dictSize d)"
proof -
  have "reg (dc_dict d) (dc_dictSize d) \<inter> {lo..<hi} = {}" using assms(1,3) unfolding outside_def by blast
  then show "outside W d m'" "bytes m' (dc_dict d) (dc_dictSize d) = bytes m (dc_dict d) (dc_dictSize d)"
    using assms(1) bytes_out [OF assms(2)] frame_dom [OF assms(2)] by (auto simp: outside_def)
qed

lemma outside_mono: "outside W d m \<Longrightarrow> W' \<subseteq> W \<Longrightarrow> outside W' d m"
  by (auto simp: outside_def)

lemma dict_id: "d\<lparr>dc_dictSize := z\<rparr> = d\<lparr>dc_dict := dc_dict d, dc_dictSize := z\<rparr>"
  by (cases d) simp

abbreviation out_end :: "LZ4F_dctx \<Rightarrow> addr" where "out_end d \<equiv> dc_tmpOutBuffer d + dc_tmpOutCap d"

abbreviation set_dict :: "LZ4F_dctx \<Rightarrow> addr \<Rightarrow> int \<Rightarrow> LZ4F_dctx" where
  "set_dict d a z \<equiv> d\<lparr>dc_dict := a, dc_dictSize := z\<rparr>"

lemma ready_cap:
  assumes "ready d" "linked (dc_frameInfo d)" shows "196608 \<le> dc_tmpOutCap d" "dc_maxBufferSize d = dc_tmpOutCap d"
  using assms by (auto simp: ready_def block_sizes_def)

text \<open>The output does not continue \<open>tmpOutBuffer\<close>.\<close>

lemma not_adjacent:
  assumes w: "world J d m s t" and z: "0 < z" "z \<le> dc_tmpOutCap d" and t: "t < dst1 J" shows "dc_tmpOutBuffer d + z \<noteq> t"
proof
  assume e: "dc_tmpOutBuffer d + z = t"
  have w': "dst0 J \<le> t" "own d \<inter> {dst0 J..<dst1 J} = {}" "out_end d \<noteq> dst0 J" using w t unfolding world_def by auto
  have o: "reg (dc_tmpOutBuffer d) (dc_tmpOutCap d) \<subseteq> own d" by (rule own_parts)
  show False
  proof (cases "t = dst0 J")
    case True
    then have "z < dc_tmpOutCap d" using e z w'(3) by (cases "z = dc_tmpOutCap d") auto
    then have "t \<in> own d" using o e z by auto
    then show False using w'(2) True t by auto
  next
    case False
    then have "t - 1 \<in> own d" using o e z by auto
    then show False using w'(1,2) False t by auto
  qed
qed

lemma hist_dict:
  assumes w: "world J d m s t" and h: "hist_ok W d m H" and z: "0 < dc_dictSize d"
  shows "reg (dc_dict d) (dc_dictSize d) \<subseteq> dom m" "0 < dc_dict d"
proof -
  show r: "reg (dc_dict d) (dc_dictSize d) \<subseteq> dom m"
  proof (cases "outside W d m")
    case False
    then have "reg (dc_dict d) (dc_dictSize d) \<subseteq> reg (dc_tmpOutBuffer d) (dc_tmpOutCap d)" using h by (auto simp: hist_ok_def)
    then show ?thesis using world_own [OF w] own_parts(3) [of d] by blast
  qed (simp add: outside_def)
  show "0 < dc_dict d" using sane_reg [OF world_sane [OF w] r z] by simp
qed

text \<open>A history in \<open>tmpOutBuffer\<close>: \<open>k\<close> bytes from \<open>a\<close>, followed by the \<open>n\<close> bytes at \<open>t\<close>.\<close>

lemma join_in_tmp:
  assumes w: "world J d m s t" and k: "0 \<le> k" "0 \<le> n" "k + n \<le> dc_tmpOutCap d" "t + n \<le> dst1 J"
    and a: "reg a k \<subseteq> dom m" "reg (dc_tmpOutBuffer d) k \<inter> reg a k = {}"
  shows "\<exists>m1 m2. LZ4_memcpy m (dc_tmpOutBuffer d) a k = Some m1 \<and> LZ4_memcpy m1 (dc_tmpOutBuffer d + k) t n = Some m2 \<and>
    frame m m2 (dc_tmpOutBuffer d) (out_end d) \<and> bytes m2 (dc_tmpOutBuffer d) (k + n) = bytes m a k @ bytes m t n"
proof -
  let ?B = "dc_tmpOutBuffer d"
  have t0: "dst0 J \<le> t" using w by (simp add: world_def)
  have o: "reg ?B k \<subseteq> own d" "reg (?B + k) n \<subseteq> own d" using own_parts(3) [of d] k by auto
  obtain m1 where m1: "LZ4_memcpy m ?B a k = Some m1" "frame m m1 ?B (?B + k)" "bytes m1 ?B k = bytes m a k"
    using memcpy_region [OF k(1) world_own [OF w o(1)] a] by blast
  have w1: "world J d m1 s t" by (rule world_write [OF w m1(2)]) (use o in auto)
  have d: "reg (?B + k) n \<inter> reg t n = {}" using world_dst(2) [OF w t0 k(4)] o(2) by blast
  obtain m2 where m2: "LZ4_memcpy m1 (?B + k) t n = Some m2" "frame m1 m2 (?B + k) (?B + k + n)" "bytes m2 (?B + k) n = bytes m1 t n"
    using memcpy_region [OF k(2) world_own [OF w1 o(2)] world_dst(1) [OF w1 t0 k(4)] d] by blast
  have "bytes m1 t n = bytes m t n" by (rule bytes_out [OF m1(2)]) (use world_dst(2) [OF w t0 k(4)] o in blast)
  moreover have "bytes m2 ?B k = bytes m1 ?B k" by (rule bytes_frame [OF m2(2)]) simp
  ultimately have "bytes m2 ?B (k + n) = bytes m a k @ bytes m t n" using bytes_append [of k n m2 ?B] k m1(3) m2(3) by simp
  moreover have "frame m m2 ?B (out_end d)" by (rule frame_join [OF m1(2) m2(2)]) (use k in auto)
  ultimately show ?thesis using m1(1) m2(1) by blast
qed

section \<open>Output that went directly to its place\<close>

definition dict_updated :: "dec_job \<Rightarrow> LZ4F_dctx \<Rightarrow> mem \<Rightarrow> addr \<Rightarrow> int \<Rightarrow> byte list \<Rightarrow> LZ4F_dctx \<Rightarrow> mem \<Rightarrow> bool" where
  "dict_updated J d m t n H d' m' \<longleftrightarrow> (\<exists>a z. d' = set_dict d a z) \<and> frame m m' (dc_tmpOutBuffer d) (out_end d) \<and>
     hist_ok {t + n..<dst1 J} d' m' (H @ bytes m t n)"

lemma updatedI:
  assumes "upd = Some (set_dict d a z, m')" "frame m m' (dc_tmpOutBuffer d) (out_end d)" "hist_ok {t + n..<dst1 J} (set_dict d a z) m' (H @ bytes m t n)"
  shows "\<exists>d' m'. upd = Some (d', m') \<and> dict_updated J d m t n H d' m'"
  using assms unfolding dict_updated_def by blast

lemma in_dst:
  assumes w: "world J d m s t" and r: "dst0 J \<le> a" "0 \<le> z" "a + z \<le> t + n" "t + n \<le> dst1 J" and g: "good_suffix (bytes m a z) H"
  shows "hist_ok {t + n..<dst1 J} (set_dict d a z) m H"
  unfolding hist_ok_def outside_def own_simps
  using r g world_dst [OF w r(1), of z] by auto

lemma updateDict_tmp:
  assumes w: "world J d m s t" and r: "ready d" "linked (dc_frameInfo d)" and h: "hist_ok {t..<dst1 J} d m H" and n: "0 \<le> n" "t + n \<le> dst1 J" "t \<noteq> 0"
    and z0: "0 < dc_dictSize d" and c: "dc_dict d + dc_dictSize d \<noteq> t" "t - dst0 J + n < 65536" "dc_dict d = dc_tmpOutBuffer d"
  shows "\<exists>d' m'. LZ4F_updateDict d m t n (dst0 J) False = Some (d', m') \<and> dict_updated J d m t n H d' m'"
proof -
  define a z B where abz: "a = dc_dict d" "z = dc_dictSize d" "B = dc_tmpOutBuffer d"
  note abz' = abz [symmetric] and c' = c [folded abz]
  have t0: "dst0 J \<le> t" using w by (simp add: world_def)
  have cap: "196608 \<le> dc_tmpOutCap d" "dc_maxBufferSize d = dc_tmpOutCap d" using ready_cap [OF r] .
  have g: "good_suffix (bytes m a z) H" using h by (simp add: hist_ok_def abz)
  have B0: "B \<noteq> 0" using sane_reg [OF world_sane [OF w] world_own [OF w own_parts(3)]] cap by (simp add: abz)
  have zp: "0 < z" "0 < a" "reg a z \<subseteq> dom m" using hist_dict [OF w h] z0 by (simp_all add: abz)
  have n': "0 \<le> 65536 - n" "n < 65536" using c' t0 by auto
  let ?y = "bytes m t n"
  have "\<not> outside {t..<dst1 J} d m"
    using c'(3) zp own_parts(3) [of d] cap by (force simp: outside_def abz' abz(3) [symmetric])
  then have zc: "z \<le> dc_tmpOutCap d" using h by (auto simp: hist_ok_def abz)
  show ?thesis
  proof (cases "z + n > dc_tmpOutCap d")
    case True
    let ?k = "65536 - n"
    have "reg (a + z - ?k) ?k \<subseteq> reg a z" using True cap n' by auto
    then have sub: "reg (a + z - ?k) ?k \<subseteq> dom m" using zp by blast
    have apart: "reg B ?k \<inter> reg (a + z - ?k) ?k = {}" using True cap n n' c'(3) by auto
    have room: "?k + n \<le> dc_tmpOutCap d" using cap by simp
    obtain m1 m2 where m: "LZ4_memcpy m B (a + z - ?k) ?k = Some m1" "LZ4_memcpy m1 (B + ?k) t n = Some m2"
        "frame m m2 B (out_end d)" "bytes m2 B (?k + n) = bytes m (a + z - ?k) ?k @ ?y"
      using join_in_tmp [OF w n'(1) n(1) room n(2) sub] apart by (auto simp: abz')
    have "good_suffix (bytes m (a + z - ?k) ?k @ ?y) (H @ ?y)"
      using gs_lasts [OF g, of "nat ?k" ?y] bytes_lasts [of ?k z m a] n n' zp True cap by (auto simp: nat_diff_distrib)
    then have "hist_ok {t + n..<dst1 J} (set_dict d a 65536) m2 (H @ ?y)" using m(4) cap c'(3) by (simp add: hist_ok_def abz(3))
    moreover have "LZ4F_updateDict d m t n (dst0 J) False = Some (set_dict d a 65536, m2)"
      unfolding LZ4F_updateDict_def using c' n zp t0 B0 m True cap n' by (simp add: abz' Let_def)
    ultimately show ?thesis using m(3) unfolding abz(3) by (intro updatedI)
  next
    case False
    have o: "reg (B + z) n \<subseteq> own d" using own_parts(3) [of d] False zp by (auto simp: abz')
    have apart: "reg (B + z) n \<inter> reg t n = {}" using world_dst(2) [OF w t0 n(2)] o by blast
    obtain m1 where m: "LZ4_memcpy m (B + z) t n = Some m1" "frame m m1 (B + z) (B + z + n)" "bytes m1 (B + z) n = ?y"
      using memcpy_region [OF n(1) world_own [OF w o] world_dst(1) [OF w t0 n(2)] apart] by blast
    have "bytes m1 B (z + n) = bytes m a z @ ?y"
      using bytes_append [of z n m1 B] bytes_frame [OF m(2), of B z] m(3) zp n c'(3) by simp
    then have "hist_ok {t + n..<dst1 J} (set_dict d a (z + n)) m1 (H @ ?y)"
      using gs_append [OF g] False zp n c'(3) by (simp add: hist_ok_def abz(3))
    moreover have "frame m m1 B (out_end d)" by (rule frame_widen [OF m(2)]) (use False zp in \<open>auto simp: abz'\<close>)
    moreover have "LZ4F_updateDict d m t n (dst0 J) False = Some (set_dict d a (z + n), m1)"
      unfolding LZ4F_updateDict_def using c' n zp t0 B0 m False cap n' by (simp add: abz' Let_def)
    ultimately show ?thesis unfolding abz(3) by (intro updatedI)
  qed
qed

lemma updateDict_join:
  assumes w: "world J d m s t" and r: "ready d" "linked (dc_frameInfo d)" and h: "hist_ok {t..<dst1 J} d m H" and n: "0 \<le> n" "t + n \<le> dst1 J" "t \<noteq> 0"
    and z0: "0 < dc_dictSize d" and c: "dc_dict d + dc_dictSize d \<noteq> t" "t - dst0 J + n < 65536" "dc_dict d \<noteq> dc_tmpOutBuffer d"
  shows "\<exists>d' m'. LZ4F_updateDict d m t n (dst0 J) False = Some (d', m') \<and> dict_updated J d m t n H d' m'"
proof -
  define a z B where abz: "a = dc_dict d" "z = dc_dictSize d" "B = dc_tmpOutBuffer d"
  note abz' = abz [symmetric] and c' = c [folded abz]
  have t0: "dst0 J \<le> t" using w by (simp add: world_def)
  have cap: "196608 \<le> dc_tmpOutCap d" "dc_maxBufferSize d = dc_tmpOutCap d" using ready_cap [OF r] .
  have g: "good_suffix (bytes m a z) H" using h by (simp add: hist_ok_def abz)
  have B0: "B \<noteq> 0" using sane_reg [OF world_sane [OF w] world_own [OF w own_parts(3)]] cap by (simp add: abz)
  have zp: "0 < z" "0 < a" "reg a z \<subseteq> dom m" using hist_dict [OF w h] z0 by (simp_all add: abz)
  have n': "0 \<le> 65536 - n" "n < 65536" using c' t0 by auto
  let ?y = "bytes m t n"
  let ?k = "min (65536 - n) z"
  have out: "reg a z \<inter> own d = {}" using h c'(3) by (auto simp: hist_ok_def outside_def abz)
  have k: "0 \<le> ?k" "?k + n \<le> dc_tmpOutCap d" "?k \<le> z" using n' t0 zp cap by auto
  have sub: "reg (a + z - ?k) ?k \<subseteq> reg a z" using k by auto
  have apart: "reg B ?k \<inter> reg (a + z - ?k) ?k = {}"
  proof -
    have "reg B ?k \<subseteq> own d" using own_parts(3) [of d] k n by (auto simp: abz')
    then show ?thesis using sub out by blast
  qed
  obtain m1 m2 where m: "LZ4_memcpy m B (a + z - ?k) ?k = Some m1" "LZ4_memcpy m1 (B + ?k) t n = Some m2"
      "frame m m2 B (out_end d)" "bytes m2 B (?k + n) = bytes m (a + z - ?k) ?k @ ?y"
    using join_in_tmp [OF w k(1) n(1) k(2) n(2) order_trans [OF sub zp(3)]] apart by (auto simp: abz')
  have "good_suffix (bytes m (a + z - ?k) ?k @ ?y) (H @ ?y)"
    using gs_lasts [OF g, of "nat ?k" ?y] bytes_lasts [of ?k z m a] k n zp by (auto simp: nat_diff_distrib min_def split: if_splits)
  then have "hist_ok {t + n..<dst1 J} (set_dict d B (?k + n)) m2 (H @ ?y)" using m(4) k n by (simp add: hist_ok_def abz(3))
  moreover have "LZ4F_updateDict d m t n (dst0 J) False = Some (set_dict d B (?k + n), m2)"
    unfolding LZ4F_updateDict_def using c' n zp t0 B0 m(1,2) n' by (cases "z < 65536 - n") (simp_all add: abz' Let_def min_def)
  ultimately show ?thesis using m(3) unfolding abz(3) by (intro updatedI)
qed

lemma updateDict_direct:
  assumes w: "world J d m s t" and r: "ready d" "linked (dc_frameInfo d)" and h: "hist_ok {t..<dst1 J} d m H"
    and n: "0 \<le> n" "t + n \<le> dst1 J" "t \<noteq> 0" and suf: "suffix (bytes m (dst0 J) (t - dst0 J)) H"
  shows "\<exists>d' m'. LZ4F_updateDict d m t n (dst0 J) False = Some (d', m') \<and> dict_updated J d m t n H d' m'"
proof -
  define a z where az: "a = dc_dict d" "z = dc_dictSize d"
  note az' = az [symmetric]
  have t0: "dst0 J \<le> t" using w by (simp add: world_def)
  have g: "good_suffix (bytes m a z) H" "0 \<le> z" using h by (auto simp: hist_ok_def outside_def az)
  let ?y = "bytes m t n"
  have pre: "bytes m (dst0 J) (t - dst0 J + n) = bytes m (dst0 J) (t - dst0 J) @ ?y" using bytes_append [of "t - dst0 J" n m "dst0 J"] t0 n by simp
  consider (empty) "z = 0" | (prefix) "0 < z" "a + z = t" | (big) "0 < z" "a + z \<noteq> t" "65536 \<le> t - dst0 J + n"
    | (tmp) "0 < z" "a + z \<noteq> t" "t - dst0 J + n < 65536" using g(2) by linarith
  then show ?thesis
  proof cases
    case empty
    then have "hist_ok {t + n..<dst1 J} (set_dict d t n) m (H @ ?y)" using in_dst [OF w t0 n(1) _ n(2)] g by simp
    then show ?thesis using empty n by (auto simp: LZ4F_updateDict_def dict_updated_def az')
  next
    case prefix
    have a: "0 < a" using hist_dict [OF w h] prefix by (simp add: az)
    have "hist_ok {t + n..<dst1 J} (set_dict d a (z + n)) m (H @ ?y)"
    proof (cases "outside {t..<dst1 J} d m")
      case True
      moreover have "reg a (z + n) = reg a z \<union> reg t n" using prefix n by auto
      ultimately have "outside {t + n..<dst1 J} (set_dict d a (z + n)) m"
        using world_dst [OF w t0 n(2)] n prefix unfolding outside_def own_simps by (auto simp: az')
      then show ?thesis using gs_append [OF g(1), of ?y] bytes_append [of z n m a] prefix n by (simp add: hist_ok_def)
    next
      case False
      then have "a = dc_tmpOutBuffer d" "z \<le> dc_tmpOutCap d" using h by (auto simp: hist_ok_def az)
      then have "n = 0" using not_adjacent [OF w prefix(1)] prefix n by (force simp: az)
      then show ?thesis using h g by (auto simp: hist_ok_def outside_def az')
    qed
    then show ?thesis using prefix n a unfolding LZ4F_updateDict_def dict_updated_def
      by (auto simp: az' Let_def dict_id [where d = d])
  next
    case big
    have a: "0 < a" using hist_dict [OF w h] big by (simp add: az)
    have "hist_ok {t + n..<dst1 J} (set_dict d (dst0 J) (t - dst0 J + n)) m (H @ ?y)"
      by (rule in_dst [OF w]) (use t0 n big suf pre in \<open>auto intro!: gs_long simp: suffix_def\<close>)
    then show ?thesis using big n a t0 unfolding LZ4F_updateDict_def dict_updated_def by (auto simp: az' Let_def)
  next
    case tmp
    then show ?thesis using updateDict_tmp [OF w r h n] updateDict_join [OF w r h n] by (auto simp: az)
  qed
qed

section \<open>Output by way of \<open>tmpOutBuffer\<close>\<close>

lemma copy_size_bounds:
  assumes "placed d m x" shows "0 \<le> copy_size d" "copy_size d \<le> tmp_room d" "copy_size d + int (length x) < 65535 \<Longrightarrow> copy_size d = tmp_room d"
    "0 < copy_size d \<Longrightarrow> copy_size d \<le> 65536 - int (length x)"
  using assms by (auto simp: copy_size_def placed_def split: if_splits)

lemma copySize_code: "placed d m x \<Longrightarrow> preserve_copySize d = copy_size d"
  by (auto simp: preserve_copySize_def copy_size_def placed_def u64_def Let_def min_def)

text \<open>The history moves to the front of the block.\<close>

lemma move_front:
  assumes w: "world J d m s t" and pl: "placed d m x" and f: "flush_out W d m H x"
  shows "\<exists>m'. LZ4_memcpy m (dc_tmpOutBuffer d + tmp_room d - copy_size d) (dc_dict d + dc_dictSize d - dc_tmpOutStart d - copy_size d) (copy_size d) = Some m' \<and>
    frame m m' (dc_tmpOutBuffer d) (dc_tmpOut d) \<and> good_suffix (bytes m' (dc_tmpOutBuffer d) (tmp_room d) @ x) (H @ x)"
proof -
  define B p k where bpk: "B = dc_tmpOutBuffer d" "p = tmp_room d" "k = copy_size d"
  define a where "a = dc_dict d + dc_dictSize d - dc_tmpOutStart d - k"
  note k = copy_size_bounds [OF pl, folded bpk]
  have z: "0 \<le> dc_tmpOutStart d" "p \<le> dc_tmpOutCap d" using pl by (auto simp: placed_def bpk)
  have o: "reg (B + p - k) k \<subseteq> own d" using own_parts(3) [of d] k(1,2) z by (auto simp: bpk)
  have r: "reg a k \<subseteq> reg (dc_dict d) (dc_dictSize d)" using f z k(1) unfolding flush_out_def a_def by (auto simp: bpk)
  then have r': "reg a k \<subseteq> dom m" "reg (B + p - k) k \<inter> reg a k = {}" using f o unfolding flush_out_def outside_def by blast+
  obtain m' where m: "LZ4_memcpy m (B + p - k) a k = Some m'" "frame m m' (B + p - k) (B + p)" "bytes m' (B + p - k) k = bytes m a k"
    using memcpy_region [OF k(1) world_own [OF w o] r'] by auto
  have kb: "bytes m a k = old_bytes d m" by (simp add: old_bytes_def a_def bpk)
  have s: "bytes m' B p @ x = bytes m' B (p - k) @ (old_bytes d m @ x)"
    using bytes_split [of "p - k" p m' B] m(3) k(1,2) kb by (simp add: add_diff_eq)
  have "good_suffix (bytes m' B p @ x) (H @ x)" unfolding s using f k(1,2) by (simp add: flush_out_def bpk)
  moreover have "frame m m' B (dc_tmpOut d)" by (rule frame_widen [OF m(2)]) (use k in \<open>auto simp: bpk\<close>)
  ultimately show ?thesis using m(1) unfolding a_def bpk by blast
qed

definition flushed :: "dec_job \<Rightarrow> LZ4F_dctx \<Rightarrow> mem \<Rightarrow> addr \<Rightarrow> int \<Rightarrow> byte list \<Rightarrow> byte list \<Rightarrow> LZ4F_dctx \<Rightarrow> mem \<Rightarrow> bool" where
  "flushed J d m t n H x d' m' \<longleftrightarrow> (\<exists>a z. d' = set_dict d a z) \<and> frame m m' (dc_tmpOutBuffer d) (dc_tmpOut d) \<and>
     flush_ok {t + n..<dst1 J} (d'\<lparr>dc_tmpOutStart := dc_tmpOutStart d + n\<rparr>) m' H x"

lemma flushedI:
  assumes "upd = Some (set_dict d a z, m')" "frame m m' (dc_tmpOutBuffer d) (dc_tmpOut d)"
    "flush_ok {t + n..<dst1 J} (set_dict d a z\<lparr>dc_tmpOutStart := dc_tmpOutStart d + n\<rparr>) m' H x"
  shows "\<exists>d' m'. upd = Some (d', m') \<and> flushed J d m t n H x d' m'"
  using assms unfolding flushed_def by blast

lemma suffix_cut:
  assumes "suffix (u @ v) (H @ w)" "length v = length w" shows "suffix u H"
proof -
  obtain zs where "H @ w = (zs @ u) @ v" using assms(1) by (auto simp: suffix_def)
  then have "H = zs @ u" using assms(2) by (metis append_eq_append_conv)
  then show ?thesis by (simp add: suffix_def)
qed

text \<open>The whole history is in the output buffer.\<close>

lemma flush_big:
  assumes w: "world J d m s t" and pl: "placed d m x" and f: "flush_tmp d m H x \<or> flush_out W d m H x"
    and n: "0 \<le> n" "t + n \<le> dst1 J" "dc_tmpOutStart d + n \<le> dc_tmpOutSize d" and y: "bytes m t n = take (nat n) (drop (nat (dc_tmpOutStart d)) x)"
    and suf: "suffix (bytes m (dst0 J) (t - dst0 J)) (H @ take (nat (dc_tmpOutStart d)) x)" and big: "65536 \<le> t - dst0 J + n"
  shows "flush_out {t + n..<dst1 J} (set_dict d (dst0 J) (t - dst0 J + n)\<lparr>dc_tmpOutStart := dc_tmpOutStart d + n\<rparr>) m H x"
proof -
  let ?d = "set_dict d (dst0 J) (t - dst0 J + n)\<lparr>dc_tmpOutStart := dc_tmpOutStart d + n\<rparr>"
  define z k where zk: "z = dc_tmpOutStart d" "k = copy_size d"
  note k = copy_size_bounds [OF pl, folded zk]
  have t0: "dst0 J \<le> t" using w by (simp add: world_def)
  have z: "0 \<le> z" "int (length x) = dc_tmpOutSize d" "z + n \<le> int (length x)" using pl n by (auto simp: placed_def zk)
  have old: "old_bytes ?d m = bytes m (t - z - k) k" by (simp add: old_bytes_def zk algebra_simps)
  have room: "0 < k \<Longrightarrow> k \<le> t - dst0 J - z" using k(4) big z by linarith
  have "suffix (bytes m (t - z - k) k) H"
  proof (cases "k = 0")
    case False
    then have kz: "0 < k" "k \<le> t - dst0 J - z" using k(1) room by auto
    let ?u = "bytes m (dst0 J) (t - dst0 J - z)"
    have "bytes m (dst0 J) (t - dst0 J) = ?u @ bytes m (t - z) z"
      using bytes_split [of "t - dst0 J - z" "t - dst0 J" m "dst0 J"] z kz by (simp add: algebra_simps)
    then have "suffix (?u @ bytes m (t - z) z) (H @ take (nat z) x)" using suf by (simp add: zk)
    then have "suffix ?u H" by (rule suffix_cut) (use z n in simp)
    moreover have "bytes m (t - z - k) k = lasts (nat k) ?u" using bytes_lasts [of k "t - dst0 J - z" m "dst0 J"] kz by (simp add: algebra_simps)
    ultimately show ?thesis by (metis suffix_lasts suffix_order.trans)
  qed simp
  moreover have "outside {t + n..<dst1 J} (set_dict d (dst0 J) (t - dst0 J + n)) m"
    using in_dst [OF w order_refl _ _ n(2), of "t - dst0 J + n"] world_dst [OF w order_refl, of "t - dst0 J + n"] t0 n by (auto simp: outside_def)
  moreover have "good_suffix (bytes m (dst0 J) (t - dst0 J + n)) (H @ take (nat (z + n)) x)"
  proof (rule gs_long)
    have "take (nat (z + n)) x = take (nat z) x @ bytes m t n" using take_add [of "nat z" "nat n" x] z n y by (simp add: nat_add_distrib zk)
    then show "suffix (bytes m (dst0 J) (t - dst0 J + n)) (H @ take (nat (z + n)) x)"
      using suf bytes_append [of "t - dst0 J" n m "dst0 J"] t0 n by (auto simp: suffix_def zk)
  qed (use big in simp)
  moreover have eq: "bytes m (t - z - k) k = H \<and> k = tmp_room d" if "k + int (length x) < 65535"
  proof -
    have kp: "k = tmp_room d" using k(3) that .
    have short: "a @ x = H @ x" if "good_suffix (a @ x) (H @ x)" "length a = nat k" for a
      using that \<open>k + int (length x) < 65535\<close> k(1) by (auto simp: good_suffix_def suffix_def dest: arg_cong [where f = length])
    have "length H = nat k"
    proof (cases "flush_tmp d m H x")
      case True
      then show ?thesis using short [of "bytes m (dc_tmpOutBuffer d) k"] by (auto simp: flush_tmp_def kp)
    next
      case False
      then have "good_suffix (old_bytes d m @ x) (H @ x)" using f kp by (auto simp: flush_out_def zk dest: spec [of _ "[]"])
      then show ?thesis using short [of "old_bytes d m"] by (auto simp: old_bytes_def zk)
    qed
    then show ?thesis using suffix_full [OF \<open>suffix (bytes m (t - z - k) k) H\<close>] kp by simp
  qed
  moreover have "good_suffix (g @ bytes m (t - z - k) k @ x) (H @ x)" if "length g = nat (tmp_room d - k)" for g
  proof (cases "k + int (length x) < 65535")
    case True
    have "bytes m (t - z - k) k = H" "g = []" using eq [OF True] that by auto
    then show ?thesis by simp
  next
    case False
    let ?o = "bytes m (t - z - k) k @ x"
    have "65535 \<le> length ?o" using False k(1) by simp
    moreover have "suffix ?o (H @ x)" using \<open>suffix (bytes m (t - z - k) k) H\<close> by (auto simp: suffix_def)
    ultimately show ?thesis unfolding good_suffix_def by (intro disjI2 exI [of _ ?o]) (auto simp: suffix_def)
  qed
  ultimately show ?thesis using room unfolding flush_out_def old by (auto simp: zk [symmetric])
qed

text \<open>The history ends where the output goes on.\<close>

lemma flush_prefix:
  assumes w: "world J d m s t" and pl: "placed d m x" and f: "flush_out {t..<dst1 J} d m H x"
    and n: "0 \<le> n" "t + n \<le> dst1 J" "dc_tmpOutStart d + n \<le> dc_tmpOutSize d" and y: "bytes m t n = take (nat n) (drop (nat (dc_tmpOutStart d)) x)"
    and e: "dc_dict d + dc_dictSize d = t"
  shows "flush_out {t + n..<dst1 J} (set_dict d (dc_dict d) (dc_dictSize d + n)\<lparr>dc_tmpOutStart := dc_tmpOutStart d + n\<rparr>) m H x"
proof -
  let ?d = "set_dict d (dc_dict d) (dc_dictSize d + n)\<lparr>dc_tmpOutStart := dc_tmpOutStart d + n\<rparr>"
  have t0: "dst0 J \<le> t" using w by (simp add: world_def)
  have z: "0 \<le> dc_dictSize d" "0 \<le> dc_tmpOutStart d" using f pl by (auto simp: flush_out_def outside_def placed_def)
  have "reg (dc_dict d) (dc_dictSize d + n) = reg (dc_dict d) (dc_dictSize d) \<union> reg t n" using e n z by auto
  then have "outside {t + n..<dst1 J} (set_dict d (dc_dict d) (dc_dictSize d + n)) m"
    using f world_dst [OF w t0 n(2)] n z e unfolding outside_def own_simps flush_out_def by auto
  moreover have "take (nat (dc_tmpOutStart d + n)) x = take (nat (dc_tmpOutStart d)) x @ bytes m t n"
    using take_add [of "nat (dc_tmpOutStart d)" "nat n" x] z n y by (simp add: nat_add_distrib)
  then have "good_suffix (bytes m (dc_dict d) (dc_dictSize d + n)) (H @ take (nat (dc_tmpOutStart d + n)) x)"
    using f gs_append [of "bytes m (dc_dict d) (dc_dictSize d)" "H @ take (nat (dc_tmpOutStart d)) x" "bytes m t n"]
      bytes_append [of "dc_dictSize d" n m "dc_dict d"] z n e by (simp add: flush_out_def)
  moreover have "old_bytes ?d m = old_bytes d m" by (simp add: old_bytes_def algebra_simps)
  ultimately show ?thesis using f unfolding flush_out_def by simp
qed

text \<open>There is no history yet.\<close>

lemma flush_first:
  assumes w: "world J d m s t" and pl: "placed d m x" and f: "flush_ok {t..<dst1 J} d m H x"
    and n: "0 \<le> n" "t + n \<le> dst1 J" and y: "bytes m t n = take (nat n) (drop (nat (dc_tmpOutStart d)) x)" and e: "dc_dictSize d = 0"
  shows "flush_ok {t + n..<dst1 J} (set_dict d t n\<lparr>dc_tmpOutStart := dc_tmpOutStart d + n\<rparr>) m H x"
proof -
  note k = copy_size_bounds [OF pl]
  have z: "0 \<le> dc_tmpOutStart d" "0 \<le> tmp_room d" "dst0 J \<le> t" using pl w by (auto simp: placed_def world_def)
  have H: "H = []" "take (nat (dc_tmpOutStart d)) x = []" "copy_size d = 0"
    using f e z k unfolding flush_ok_def flush_tmp_def flush_out_def by auto
  have "take (nat (dc_tmpOutStart d + n)) x = bytes m t n"
    using take_add [of "nat (dc_tmpOutStart d)" "nat n" x] z n y H(2) by (simp add: nat_add_distrib)
  moreover have "outside {t + n..<dst1 J} (set_dict d t n) m" using world_dst [OF w z(3) n(2)] n by (auto simp: outside_def)
  moreover have "good_suffix (g @ x) x" if "length g = nat (tmp_room d)" for g
    using f e z H that unfolding flush_ok_def flush_tmp_def flush_out_def by (auto simp: old_bytes_def)
  ultimately show ?thesis unfolding flush_ok_def flush_out_def by (auto simp: H old_bytes_def)
qed

lemma updateDict_flush:
  assumes w: "world J d m s t" and r: "ready d" "linked (dc_frameInfo d)" and pl: "placed d m x" and f: "flush_ok {t..<dst1 J} d m H x"
    and n: "0 \<le> n" "t + n \<le> dst1 J" "t \<noteq> 0" "dc_tmpOutStart d + n \<le> dc_tmpOutSize d"
    and y: "bytes m t n = take (nat n) (drop (nat (dc_tmpOutStart d)) x)"
    and suf: "suffix (bytes m (dst0 J) (t - dst0 J)) (H @ take (nat (dc_tmpOutStart d)) x)"
  shows "\<exists>d' m'. LZ4F_updateDict d m t n (dst0 J) True = Some (d', m') \<and> flushed J d m t n H x d' m'"
proof -
  define a z B where abz: "a = dc_dict d" "z = dc_dictSize d" "B = dc_tmpOutBuffer d"
  note abz' = abz [symmetric]
  have t0: "dst0 J \<le> t" using w by (simp add: world_def)
  have cap: "196608 \<le> dc_tmpOutCap d" "dc_maxBufferSize d = dc_tmpOutCap d" using ready_cap [OF r] .
  have B0: "0 < B" "B \<in> own d" using sane_reg [OF world_sane [OF w] world_own [OF w own_parts(3)]] cap own_parts(3) [of d] by (auto simp: abz)
  have st: "0 \<le> dc_tmpOutStart d" "0 \<le> tmp_room d" "tmp_room d + dc_tmpOutStart d \<le> dc_tmpOutCap d" using pl by (auto simp: placed_def)
  have fr: "frame m m (dc_tmpOutBuffer d) (dc_tmpOut d)" by simp
  have f': "flush_tmp d m H x \<or> flush_out {t..<dst1 J} d m H x" "tmp_room d = 0 \<Longrightarrow> H = []" using f by (auto simp: flush_ok_def)
  have z0: "0 \<le> z" using f st by (auto simp: flush_ok_def flush_tmp_def flush_out_def outside_def abz)
  have apos: "0 < a" "flush_out {t..<dst1 J} d m H x \<Longrightarrow> a \<noteq> B" if "0 < z"
  proof -
    show "flush_out {t..<dst1 J} d m H x \<Longrightarrow> a \<noteq> B" using that B0 by (force simp: flush_out_def outside_def abz)
    show "0 < a"
    proof (cases "a = B")
      case False
      then have "reg a z \<subseteq> dom m" using f' by (auto simp: flush_tmp_def flush_out_def outside_def abz)
      then show ?thesis using sane_reg [OF world_sane [OF w] _ that] by blast
    qed (use B0 in simp)
  qed
  consider (first) "z = 0" | (prefix) "0 < z" "a + z = t" | (big) "0 < z" "a + z \<noteq> t" "65536 \<le> t - dst0 J + n"
    | (tmp) "0 < z" "a + z \<noteq> t" "t - dst0 J + n < 65536" using z0 by linarith
  then show ?thesis
  proof cases
    case first
    have "LZ4F_updateDict d m t n (dst0 J) True = Some (set_dict d t n, m)" using first n by (simp add: LZ4F_updateDict_def abz' Let_def)
    then show ?thesis by (rule flushedI [OF _ fr flush_first [OF w pl f n(1,2) y]]) (use first in \<open>simp add: abz\<close>)
  next
    case prefix
    have u: "LZ4F_updateDict d m t n (dst0 J) True = Some (set_dict d (dc_dict d) (dc_dictSize d + n), m)"
      using prefix n apos by (simp add: LZ4F_updateDict_def abz' Let_def)
    show ?thesis
    proof (cases "flush_tmp d m H x")
      case True
      then have "n = 0" using not_adjacent [OF w, of z] prefix n st by (force simp: flush_tmp_def abz)
      then have "flush_ok {t + n..<dst1 J} (set_dict d (dc_dict d) (dc_dictSize d + n)\<lparr>dc_tmpOutStart := dc_tmpOutStart d + n\<rparr>) m H x"
        using True f' by (simp add: flush_ok_def flush_tmp_def)
      then show ?thesis by (rule flushedI [OF u fr])
    next
      case False
      then have "flush_out {t + n..<dst1 J} (set_dict d (dc_dict d) (dc_dictSize d + n)\<lparr>dc_tmpOutStart := dc_tmpOutStart d + n\<rparr>) m H x"
        using flush_prefix [OF w pl _ n(1,2,4) y] f' prefix by (simp add: abz)
      then show ?thesis using f' by (intro flushedI [OF u fr]) (simp add: flush_ok_def)
    qed
  next
    case big
    have u: "LZ4F_updateDict d m t n (dst0 J) True = Some (set_dict d (dst0 J) (t - dst0 J + n), m)"
      using big n apos t0 by (simp add: LZ4F_updateDict_def abz' Let_def)
    show ?thesis using flush_big [OF w pl f'(1) n(1,2,4) y suf big(3)] f'(2) by (intro flushedI [OF u fr]) (simp add: flush_ok_def)
  next
    case tmp
    show ?thesis
    proof (cases "flush_tmp d m H x")
      case True
      have u: "LZ4F_updateDict d m t n (dst0 J) True = Some (set_dict d (dc_dict d) (dc_dictSize d + n), m)"
        using True tmp n apos t0 B0 by (simp add: LZ4F_updateDict_def abz' Let_def flush_tmp_def)
      show ?thesis by (rule flushedI [OF u fr]) (use True f' in \<open>simp add: flush_ok_def flush_tmp_def\<close>)
    next
      case False
      then have fo: "flush_out {t..<dst1 J} d m H x" using f' by simp
      have ab: "a \<noteq> B" using apos tmp fo by simp
      obtain m' where m: "LZ4_memcpy m (B + tmp_room d - copy_size d) (a + z - dc_tmpOutStart d - copy_size d) (copy_size d) = Some m'"
          "frame m m' (dc_tmpOutBuffer d) (dc_tmpOut d)" "good_suffix (bytes m' (dc_tmpOutBuffer d) (tmp_room d) @ x) (H @ x)"
        using move_front [OF w pl fo] unfolding abz' by blast
      have u: "LZ4F_updateDict d m t n (dst0 J) True = Some (set_dict d (dc_tmpOutBuffer d) (tmp_room d + dc_tmpOutStart d + n), m')"
        using tmp n apos t0 B0 ab m(1) copySize_code [OF pl] by (simp add: LZ4F_updateDict_def abz' Let_def)
      show ?thesis by (rule flushedI [OF u m(2)]) (use m(3) f' in \<open>simp add: flush_ok_def flush_tmp_def\<close>)
    qed
  qed
qed

end
