(* ===== verification/LZ4F_DecEnd.thy ===== *)
theory LZ4F_DecEnd
  imports LZ4F_DecHist
begin

text \<open>At the end of a call the history moves into the buffers of the context, unless the caller keeps the output where it is.\<close>

section \<open>The end of a call\<close>

definition block_stages :: "dStage_t set" where
  "block_stages = {dstage_getBlockHeader, dstage_storeBlockHeader, dstage_copyDirect, dstage_getBlockChecksum, dstage_getCBlock, dstage_storeCBlock}"

lemma out_bytes:
  assumes w: "world J d m s t" and f: "frame m m' lo hi" "{lo..<hi} \<subseteq> reg (dc_tmpOutBuffer d) (dc_tmpOutCap d)"
  shows "n \<le> 19 \<Longrightarrow> bytes m' (dc_header d) n = bytes m (dc_header d) n" "n \<le> dc_tmpInCap d \<Longrightarrow> bytes m' (dc_tmpIn d) n = bytes m (dc_tmpIn d) n"
proof -
  have d: "reg (dc_header d) 19 \<inter> {lo..<hi} = {}" "reg (dc_tmpIn d) (dc_tmpInCap d) \<inter> {lo..<hi} = {}"
    using w f(2) unfolding world_def buffers_ok_def by blast+
  show "n \<le> 19 \<Longrightarrow> bytes m' (dc_header d) n = bytes m (dc_header d) n"
    using d(1) reg_sub [of "dc_header d" "dc_header d" n "dc_header d + 19"] by (intro bytes_out [OF f(1)]) auto
  show "n \<le> dc_tmpInCap d \<Longrightarrow> bytes m' (dc_tmpIn d) n = bytes m (dc_tmpIn d) n"
    using d(2) reg_sub [of "dc_tmpIn d" "dc_tmpIn d" n "dc_tmpIn d + dc_tmpInCap d"] by (intro bytes_out [OF f(1)]) auto
qed

lemma crc_len_le: "0 \<le> crc_len d" "crc_len d \<le> 4"
  by (simp_all add: crc_len_def)

lemma in_frame_tmpOut:
  assumes "in_frame W d m D C T1 T p" "linked (dc_frameInfo d)" "hist_ok W' (set_dict d a z) m' (D @ T)"
  shows "in_frame W' (set_dict d a z\<lparr>dc_tmpOut := o1\<rparr>) m' D C T1 T p"
  using assms unfolding in_frame_def block_hist_ok_def by (auto simp: ready_def)

lemma stage_new_hist:
  assumes w: "world J d m s t" and st: "stage_ok W d m D C T" "dc_dStage d \<in> block_stages" and l: "linked (dc_frameInfo d)"
    and f: "frame m m' (dc_tmpOutBuffer d) (out_end d)" and h: "hist_ok W' (set_dict d a z) m' (D @ T)"
  shows "stage_ok W' (set_dict d a z\<lparr>dc_tmpOut := o1\<rparr>) m' D C T"
proof -
  note b = out_bytes [OF w f order_refl]
  note F = in_frame_tmpOut [OF _ l h]
  have cap: "n \<le> dc_maxBlockSize d + 4 \<Longrightarrow> n \<le> dc_tmpInCap d" if "in_frame W d m D C T1 T p" for n T1 p
    using that by (simp add: in_frame_def ready_def)
  have small: "n < 4 \<Longrightarrow> n \<le> dc_tmpInCap d" if "in_frame W d m D C T1 T p" for n T1 p
    using that by (auto simp: in_frame_def ready_def block_sizes_def)
  consider "dc_dStage d = dstage_getBlockHeader" | "dc_dStage d = dstage_storeBlockHeader" | "dc_dStage d = dstage_copyDirect"
    | "dc_dStage d = dstage_getBlockChecksum" | "dc_dStage d = dstage_getCBlock" | "dc_dStage d = dstage_storeCBlock"
    using st(2) by (auto simp: block_stages_def)
  then show ?thesis
  proof cases
    case 1 then show ?thesis using st(1) F by (simp add: stage_ok_def)
  next
    case 2
    then have i: "in_frame W d m D C T T (bytes m (dc_tmpIn d) (dc_tmpInSize d))" "0 \<le> dc_tmpInSize d" "dc_tmpInSize d < 4"
      using st(1) by (auto simp: stage_ok_def)
    then show ?thesis using 2 F [OF i(1)] b(2) [OF small [OF i(1,3)]] by (simp add: stage_ok_def)
  next
    case 3 then show ?thesis using st(1) F by (simp add: stage_ok_def) blast
  next
    case 4
    then obtain T1 x where x: "T = T1 @ x" "int (length x) \<le> dc_maxBlockSize d" "blockChecksumFlag (dc_frameInfo d) = LZ4F_blockChecksumEnabled"
        "0 \<le> dc_tmpInSize d" "dc_tmpInSize d < 4" "in_frame W d m D C T1 T (size_field True (length x) @ x @ bytes m (dc_header d) (dc_tmpInSize d))"
        "\<not> dc_skipChecksum d \<longrightarrow> state32_ok 0 x (dc_blockChecksum d)"
      using st(1) by (auto simp: stage_ok_def)
    have "bytes m' (dc_header d) (dc_tmpInSize d) = bytes m (dc_header d) (dc_tmpInSize d)" using b(1) x(5) by simp
    then show ?thesis using 4 x(2-5,7) F [OF x(6)] unfolding stage_ok_def x(1) by auto
  next
    case 5 then show ?thesis using st(1) F by (simp add: stage_ok_def) blast
  next
    case 6
    then obtain n where n: "dc_tmpInTarget d = int n + crc_len d" "0 < n" "int n \<le> dc_maxBlockSize d" "0 \<le> dc_tmpInSize d"
        "dc_tmpInSize d < dc_tmpInTarget d" "in_frame W d m D C T T (size_field False n @ bytes m (dc_tmpIn d) (dc_tmpInSize d))"
      using st(1) by (auto simp: stage_ok_def)
    have "bytes m' (dc_tmpIn d) (dc_tmpInSize d) = bytes m (dc_tmpIn d) (dc_tmpInSize d)"
      using b(2) cap [OF n(6)] n(1,3,5) crc_len_le [of d] by simp
    then show ?thesis using 6 n(1-5) F [OF n(6)] by (simp add: stage_ok_def)
  qed
qed

text \<open>The memory outside of the context that the context refers to.\<close>

definition history_region :: "LZ4F_dctx \<Rightarrow> addr set" where
  "history_region d = (if dc_dict d = dc_tmpOutBuffer d then {} else reg (dc_dict d) (dc_dictSize d))"

definition mid_frame :: "LZ4F_dctx \<Rightarrow> bool" where
  "mid_frame d \<longleftrightarrow> dc_dStage d \<in> insert dstage_flushOut block_stages \<and> linked (dc_frameInfo d)"

lemma mid_frame_code:
  "dc_dStage d \<noteq> dstage_init \<Longrightarrow> mid_frame d \<longleftrightarrow>
   blockMode (dc_frameInfo d) = LZ4F_blockLinked \<and> u32 (dStage_value (dc_dStage d) - 2) < u32 (dStage_value dstage_getSuffix - 2)"
  by (cases "dc_dStage d") (simp_all add: mid_frame_def block_stages_def linked_def u32_def)

lemma preserve_block:
  assumes w: "world J d m s t" and st: "stage_ok W d m D C T" "dc_dStage d \<in> block_stages" "linked (dc_frameInfo d)"
    and c: "dc_dict d \<noteq> dc_tmpOutBuffer d" "dc_dict d \<noteq> 0"
  shows "\<exists>d' m'. preserve_history False d m = Some (d', m') \<and> stage_ok W d' m' D C T \<and> frame m m' (dc_tmpOutBuffer d) (out_end d) \<and>
    mem_fields d' = mem_fields d \<and> history_region d' = {}"
proof -
  define k where "k = min (dc_dictSize d) 65536"
  have h: "hist_ok W d m (D @ T)" "ready d"
    using st by (auto simp: block_stages_def stage_ok_def in_frame_def block_hist_ok_def)
  have cap: "196608 \<le> dc_tmpOutCap d" using ready_cap [OF h(2) st(3)] by simp
  have out: "outside W d m" "good_suffix (bytes m (dc_dict d) (dc_dictSize d)) (D @ T)" using h(1) c by (auto simp: hist_ok_def)
  have k: "0 \<le> k" "k \<le> dc_dictSize d" "k \<le> dc_tmpOutCap d" using out(1) cap by (auto simp: k_def outside_def)
  have o: "reg (dc_tmpOutBuffer d) k \<subseteq> own d" using own_parts(3) [of d] k by auto
  have "reg (dc_dict d + dc_dictSize d - k) k \<subseteq> reg (dc_dict d) (dc_dictSize d)" using k by auto
  then have r: "reg (dc_dict d + dc_dictSize d - k) k \<subseteq> dom m" "reg (dc_tmpOutBuffer d) k \<inter> reg (dc_dict d + dc_dictSize d - k) k = {}"
    using out(1) o unfolding outside_def by blast+
  obtain m' where m: "LZ4_memcpy m (dc_tmpOutBuffer d) (dc_dict d + dc_dictSize d - k) k = Some m'"
      "frame m m' (dc_tmpOutBuffer d) (dc_tmpOutBuffer d + k)" "bytes m' (dc_tmpOutBuffer d) k = bytes m (dc_dict d + dc_dictSize d - k) k"
    using memcpy_region [OF k(1) world_own [OF w o] r] by blast
  have f: "frame m m' (dc_tmpOutBuffer d) (out_end d)" by (rule frame_widen [OF m(2)]) (use k in auto)
  have "good_suffix (bytes m' (dc_tmpOutBuffer d) k) (D @ T)"
    using m(3) bytes_lasts [OF k(1,2), of m "dc_dict d"] gs_lasts0 [OF out(2), of 65536] out(2) k
    by (auto simp: k_def min_def split: if_splits)
  then have hh: "hist_ok W (set_dict d (dc_tmpOutBuffer d) k) m' (D @ T)" using k by (simp add: hist_ok_def)
  let ?d = "set_dict d (dc_tmpOutBuffer d) k\<lparr>dc_tmpOut := dc_tmpOutBuffer d + k\<rparr>"
  have "mid_frame d" "dc_dStage d \<noteq> dstage_init" "dc_dStage d \<noteq> dstage_flushOut" using st(2,3) by (auto simp: mid_frame_def block_stages_def)
  then have "preserve_history False d m = Some (?d, m')" using mid_frame_code [of d] c m(1) by (simp add: preserve_history_def k_def Let_def)
  moreover have "stage_ok W ?d m' D C T" by (rule stage_new_hist [OF w st f hh])
  ultimately show ?thesis using f by (auto simp: mem_fields_def history_region_def)
qed

lemma preserve_flush:
  assumes w: "world J d m s t" and st: "stage_ok W d m D C T" "dc_dStage d = dstage_flushOut" "linked (dc_frameInfo d)"
    and c: "dc_dict d \<noteq> dc_tmpOutBuffer d" "dc_dict d \<noteq> 0"
  shows "\<exists>d' m'. preserve_history False d m = Some (d', m') \<and> stage_ok W d' m' D C T \<and> frame m m' (dc_tmpOutBuffer d) (out_end d) \<and>
    mem_fields d' = mem_fields d \<and> history_region d' = {}"
proof -
  obtain T0 x where x: "T = T0 @ take (nat (dc_tmpOutStart d)) x" "placed d m x" "ready d" "blocks_read d D C (T0 @ x) []" "sums_ok d (T0 @ x)"
      "flush_ok W d m (D @ T0) x"
    using st by (auto simp: stage_ok_def)
  have fo: "flush_out W d m (D @ T0) x" using x(6) c(1) by (simp add: flush_ok_def flush_tmp_def)
  have cap: "196608 \<le> dc_tmpOutCap d" using ready_cap [OF x(3) st(3)] by simp
  have B0: "dc_tmpOutBuffer d \<noteq> 0" using sane_reg [OF world_sane [OF w] world_own [OF w own_parts(3)]] cap by simp
  obtain m' where m: "LZ4_memcpy m (dc_tmpOutBuffer d + tmp_room d - copy_size d) (dc_dict d + dc_dictSize d - dc_tmpOutStart d - copy_size d) (copy_size d) = Some m'"
      "frame m m' (dc_tmpOutBuffer d) (dc_tmpOut d)" "good_suffix (bytes m' (dc_tmpOutBuffer d) (tmp_room d) @ x) ((D @ T0) @ x)"
    using move_front [OF w x(2) fo] by blast
  let ?d = "set_dict d (dc_tmpOutBuffer d) (tmp_room d + dc_tmpOutStart d)"
  have f: "frame m m' (dc_tmpOutBuffer d) (out_end d)" by (rule frame_widen [OF m(2)]) (use x(2) in \<open>auto simp: placed_def\<close>)
  have pl: "placed ?d m' x" using x(2) bytes_frame [OF m(2), of "dc_tmpOut d"] by (simp add: placed_def)
  have fl: "flush_ok W ?d m' (D @ T0) x" using x(6) m(3) by (simp add: flush_ok_def flush_tmp_def)
  have "stage_ok W ?d m' D C T" using st(2,3) x(1,3-5) pl fl unfolding stage_ok_def by auto
  moreover have "mid_frame d" using st(2,3) by (simp add: mid_frame_def)
  then have "preserve_history False d m = Some (?d, m')"
    using mid_frame_code [of d] st(2) c B0 m(1) copySize_code [OF x(2)] by (simp add: preserve_history_def Let_def)
  ultimately show ?thesis using f by (auto simp: mem_fields_def history_region_def)
qed

lemma no_history:
  assumes w: "world J d m s t" and st: "stage_ok W d m D C T" "mid_frame d" and c: "dc_dict d = dc_tmpOutBuffer d \<or> dc_dict d = 0"
  shows "history_region d = {}"
proof (cases "dc_dict d = dc_tmpOutBuffer d")
  case False
  then have "outside W d m"
    using st by (auto simp: mid_frame_def block_stages_def stage_ok_def in_frame_def block_hist_ok_def hist_ok_def flush_ok_def flush_tmp_def flush_out_def)
  moreover have "dc_dict d = 0" using c False by simp
  ultimately have "\<not> 0 < dc_dictSize d" using sane_reg [OF world_sane [OF w], of 0 "dc_dictSize d"] by (auto simp: outside_def)
  then show ?thesis by (simp add: history_region_def)
qed (simp add: history_region_def)

lemma preserve_ok:
  assumes w: "world J d m s t" and st: "stage_ok W d m D C T" "dc_dStage d \<noteq> dstage_init"
  shows "\<exists>d' m'. preserve_history stab d m = Some (d', m') \<and> stage_ok W d' m' D C T \<and> frame m m' (dc_tmpOutBuffer d) (out_end d) \<and>
    mem_fields d' = mem_fields d \<and> (mid_frame d \<and> \<not> stab \<longrightarrow> history_region d' = {})"
proof (cases "mid_frame d \<and> \<not> stab \<and> dc_dict d \<noteq> dc_tmpOutBuffer d \<and> dc_dict d \<noteq> 0")
  case True
  then show ?thesis
    using preserve_block [OF w st(1)] preserve_flush [OF w st(1)] by (auto simp: mid_frame_def)
next
  case False
  then have "preserve_history stab d m = Some (d, m)" using mid_frame_code [OF st(2)] by (auto simp: preserve_history_def)
  moreover have "mid_frame d \<and> \<not> stab \<longrightarrow> history_region d = {}" using no_history [OF w st(1)] False by blast
  ultimately show ?thesis using st(1) by auto
qed

end
