(* ===== verification/LZ4F_DecHead.thy ===== *)
theory LZ4F_DecHead
  imports LZ4F_DecEnd
begin

text \<open>The stages of the frame decoder keep its invariant: headers, skippable frames and the end of a frame.\<close>

section \<open>Copies of the input into the context\<close>

definition front :: "LZ4F_dctx \<Rightarrow> addr set" where
  "front d = reg (dc_header d) 19 \<union> reg (dc_tmpIn d) (dc_tmpInCap d)"

lemma front_own: "front d \<subseteq> own d"
  by (auto simp: front_def own_def)

lemma user_write:
  assumes "user_ok W d m D" "frame m m' lo hi" "{lo..<hi} \<subseteq> own d \<union> W" shows "user_ok W d m' D"
  using assms outside_write [of W d m m' lo hi] by (simp add: user_ok_def)

lemma hist_write:
  assumes w: "world J d m s t" and h: "hist_ok W d m H" and f: "frame m m' lo hi" "{lo..<hi} \<subseteq> front d \<union> W" "W \<subseteq> {dst0 J..<dst1 J}"
  shows "hist_ok W d m' H"
proof (cases "outside W d m")
  case True
  have "{lo..<hi} \<subseteq> own d \<union> W" using f(2) front_own [of d] by blast
  then show ?thesis using outside_write [OF True f(1)] h by (simp add: hist_ok_def)
next
  case False
  then have d: "dc_dict d = dc_tmpOutBuffer d" "0 \<le> dc_dictSize d" "dc_dictSize d \<le> dc_tmpOutCap d" using h by (auto simp: hist_ok_def)
  have "reg (dc_tmpOutBuffer d) (dc_tmpOutCap d) \<inter> (front d \<union> W) = {}"
  proof -
    have "own d \<inter> {dst0 J..<dst1 J} = {}" "reg (dc_header d) 19 \<inter> reg (dc_tmpOutBuffer d) (dc_tmpOutCap d) = {}"
        "reg (dc_tmpIn d) (dc_tmpInCap d) \<inter> reg (dc_tmpOutBuffer d) (dc_tmpOutCap d) = {}"
      using w by (simp_all add: world_def buffers_ok_def)
    then show ?thesis using f(3) own_parts(3) [of d] unfolding front_def by blast
  qed
  moreover have "reg (dc_dict d) (dc_dictSize d) \<subseteq> reg (dc_tmpOutBuffer d) (dc_tmpOutCap d)" using d by auto
  ultimately have "reg (dc_dict d) (dc_dictSize d) \<inter> {lo..<hi} = {}" using f(2) by blast
  then have "bytes m' (dc_dict d) (dc_dictSize d) = bytes m (dc_dict d) (dc_dictSize d)" by (rule bytes_out [OF f(1)])
  then show ?thesis using h d by (simp add: hist_ok_def)
qed

lemma block_hist_write:
  assumes "world J d m s t" "block_hist_ok W d m D T" "frame m m' lo hi" "{lo..<hi} \<subseteq> front d \<union> W" "W \<subseteq> {dst0 J..<dst1 J}"
  shows "block_hist_ok W d m' D T"
proof -
  have "{lo..<hi} \<subseteq> own d \<union> W" using assms(4) front_own [of d] by blast
  then show ?thesis using assms(2,3) hist_write [OF assms(1) _ assms(3-5)] user_write [of W d m D m' lo hi]
    by (simp add: block_hist_ok_def split: if_splits)
qed

lemma in_frame_write:
  assumes "world J d m s t" "in_frame W d m D C T1 T p" "frame m m' lo hi" "{lo..<hi} \<subseteq> front d \<union> W" "W \<subseteq> {dst0 J..<dst1 J}"
  shows "in_frame W d m' D C T1 T p"
  using assms block_hist_write [OF assms(1) _ assms(3-5)] by (simp add: in_frame_def)

text \<open>Input is added to \<open>sz\<close> bytes at \<open>base\<close> until there are \<open>target\<close> bytes.\<close>

definition chunk :: "dec_job \<Rightarrow> addr \<Rightarrow> int \<Rightarrow> int \<Rightarrow> int" where
  "chunk J s sz target = min (target - sz) (src1 J - s)"

lemma chunk_code: "0 \<le> sz \<Longrightarrow> sz \<le> target \<Longrightarrow> target < 2 ^ 63 \<Longrightarrow> min (u64 (target - sz)) (src1 J - s) = chunk J s sz target"
  by (simp add: chunk_def u64_def)

definition stored :: "dec_job \<Rightarrow> LZ4F_dctx \<Rightarrow> mem \<Rightarrow> addr \<Rightarrow> addr \<Rightarrow> addr \<Rightarrow> int \<Rightarrow> int \<Rightarrow> mem \<Rightarrow> bool" where
  "stored J d m s t base sz n m' \<longleftrightarrow> world J d m' (s + n) t \<and> frame m m' (base + sz) (base + sz + n) \<and>
     bytes m' base (sz + n) = bytes m base sz @ bytes m s n \<and> consumed J (s + n) = consumed J s @ bytes m s n \<and> produced J m' t = produced J m t"

lemma store_chunk:
  assumes w: "world J d m s t" and b: "reg base room \<subseteq> front d" and z: "0 \<le> sz" "sz \<le> target" "target \<le> room"
  shows "\<exists>m'. LZ4_memcpy m (base + sz) s (chunk J s sz target) = Some m' \<and> stored J d m s t base sz (chunk J s sz target) m'"
proof -
  define n where "n = chunk J s sz target"
  have s1: "s \<le> src1 J" using w by (simp add: world_def)
  have n: "0 \<le> n" "s + n \<le> src1 J" "sz + n \<le> room" using z s1 by (auto simp: n_def chunk_def)
  have o: "reg (base + sz) n \<subseteq> own d"
  proof -
    have "reg (base + sz) n \<subseteq> reg base room" using z n by auto
    then show ?thesis using b front_own by blast
  qed
  have r: "reg s n \<subseteq> dom m" "reg (base + sz) n \<inter> reg s n = {}" using world_src [OF w n(1,2)] o by blast+
  obtain m' where m: "LZ4_memcpy m (base + sz) s n = Some m'" "frame m m' (base + sz) (base + sz + n)" "bytes m' (base + sz) n = bytes m s n"
    using memcpy_region [OF n(1) world_own [OF w o] r] by blast
  have sub: "{base + sz..<base + sz + n} \<subseteq> own d \<union> {t..<dst1 J}" using o by blast
  have "world J d m' (s + n) t"
    using world_pos [OF world_write [OF w m(2) sub], of "s + n" t] n w by (simp add: world_def)
  moreover have "bytes m' base (sz + n) = bytes m base sz @ bytes m s n"
    using bytes_append [of sz n m' base] bytes_frame [OF m(2), of base sz] m(3) z n by simp
  ultimately have "stored J d m s t base sz n m'"
    using m consumed_add [OF w n(1,2)] produced_write [OF w m(2) sub] by (simp add: stored_def)
  then show ?thesis using m(1) unfolding n_def by blast
qed

lemma chunk_short: "sz + chunk J s sz target < target \<Longrightarrow> s + chunk J s sz target = src1 J"
  by (simp add: chunk_def min_def split: if_splits)

lemma chunk_full: "\<not> sz + chunk J s sz target < target \<Longrightarrow> s \<le> src1 J \<Longrightarrow> sz + chunk J s sz target = target"
  by (simp add: chunk_def min_def split: if_splits)

lemma chunk_nonneg: "sz \<le> target \<Longrightarrow> s \<le> src1 J \<Longrightarrow> 0 \<le> chunk J s sz target"
  by (simp add: chunk_def)

section \<open>Frame headers\<close>

lemma header_flags_cong:
  assumes "bytes m' b n = bytes m a n" "5 \<le> n" shows "header_flags m' b cs di = header_flags m a cs di"
proof -
  have n: "n = 4 + (1 + (n - 5))" "0 \<le> n - 5" using assms(2) by auto
  have "bytes m a n = bytes m a 4 @ the (m (a + 4)) # bytes m (a + 5) (n - 5)" for m a
    using bytes_split [of 4 n m a] bytes_Cons [of "n - 4" m "a + 4"] assms(2) by (simp add: algebra_simps)
  then have "bytes m' b 4 = bytes m a 4 \<and> the (m' (b + 4)) = the (m (a + 4))" using assms(1) by simp
  then show ?thesis by (simp add: header_flags_def)
qed

lemma header_flags_unique: "header_flags m a cs di \<Longrightarrow> header_flags m a cs' di' \<Longrightarrow> cs' = cs \<and> di' = di"
  by (simp add: header_flags_def)

lemma frame_begun_ok:
  assumes "user_ok W d m D" "dc_frameRemainingSize d = 0" "frameInfo_ok cs di fi"
  shows "stage_ok W (frame_begun cs d fi) m D (header_bytes cs di fi) []"
  using assms by (auto simp: stage_ok_def frame_begun_def frameInfo_ok_def)

lemma world_header: "world J d m s t \<Longrightarrow> valid m (dc_header d) 19"
  using world_own [of J d m s t "reg (dc_header d) 19"] own_parts(1) by (simp add: valid_reg)

lemma mem_fields_simps [simp]: "mem_fields (frame_begun cs d fi) = mem_fields d"
  by (simp add: mem_fields_def frame_begun_def)

lemma exit_mono: "exit_ok J pos e \<Longrightarrow> rank J pos \<le> rank J pos' \<Longrightarrow> exit_ok J pos' e"
  by (cases e) (auto simp: exit_ok_def)

lemma exit_refused: "world J d m s t \<Longrightarrow> LZ4F_isError r \<Longrightarrow> exit_ok J pos (Return r (d, m, s, t))"
  by (simp add: exit_ok_def refused_def)

lemma exit_Stop:
  "\<lbrakk>0 < h; h < 2 ^ 63; world J d m s t; stage_ok {t..<dst1 J} d m (jb_D J) (consumed J s) (produced J m t); dc_dStage d \<noteq> dstage_init\<rbrakk>
   \<Longrightarrow> exit_ok J pos (Stop h (d, m, s, t))"
  by (simp add: exit_ok_def inv_def)

lemma exit_Again:
  "\<lbrakk>world J d m s t; stage_ok {t..<dst1 J} d m (jb_D J) (consumed J s) (produced J m t); rank J (d, m, s, t) < rank J pos\<rbrakk>
   \<Longrightarrow> exit_ok J pos (Again (d, m, s, t))"
  by (simp add: exit_ok_def inv_def)

lemma world_le: "world J d m s t \<Longrightarrow> s \<le> src1 J" "world J d m s t \<Longrightarrow> dst0 J \<le> t" "world J d m s t \<Longrightarrow> t \<le> dst1 J"
  "world J d m s t \<Longrightarrow> 0 \<le> s"
  by (auto simp: world_def)

lemma rank_plain: "dc_dStage d \<notin> {dstage_copyDirect, dstage_getCBlock, dstage_flushOut} \<Longrightarrow> rank J (d, m, s, t) = 2 * nat (src1 J - s)"
  by (simp add: rank_def)

lemma header_small: "header_size cs di < 2 ^ 63"
  using header_size_bounds(2) [of cs di] by simp

text \<open>A header that is complete in the context.\<close>

lemma stored_header_exit:
  fixes d defines "h \<equiv> dc_header d"
  assumes w: "world J d m s t" and u: "user_ok {t..<dst1 J} d m (jb_D J)" "dc_frameRemainingSize d = 0"
    and c: "consumed J s = bytes m h g" "produced J m t = []" and g: "7 \<le> g" "g \<le> 19"
    and fl: "g = 7 \<or> (\<exists>cs di. header_flags m h cs di \<and> g = header_size cs di)"
    and r: "header_read d m h g r d' m'" and rank: "2 * nat (src1 J - s) < rank J pos"
  shows "exit_ok J pos (if LZ4F_isError r then Return r (d', m', s, t) else Again (d', m', s, t))"
  using r [unfolded header_read_def h_def [symmetric]]
proof (elim disjE)
  assume "LZ4F_isError r \<and> m' = m \<and> (\<exists>fi. d' = d\<lparr>dc_frameInfo := fi\<rparr>)"
  then show ?thesis using w world_cong [of d' d J m s t] by (auto simp: mem_fields_def intro: exit_refused)
next
  assume a: "7 \<le> g \<and> m' = m \<and> (le_word (bytes m h 4) :: 32 word) AND 0xFFFFFFF0 = LZ4F_MAGIC_SKIPPABLE_START \<and> (\<exists>fi. if h = h
    then r = g \<and> d' = d\<lparr>dc_frameInfo := fi, dc_tmpInSize := g, dc_tmpInTarget := 8, dc_dStage := dstage_storeSFrameSize\<rparr>
    else r = 4 \<and> d' = d\<lparr>dc_frameInfo := fi, dc_dStage := dstage_getSFrameSize\<rparr>)"
  then obtain fi where d': "r = g" "d' = d\<lparr>dc_frameInfo := fi, dc_tmpInSize := g, dc_tmpInTarget := 8, dc_dStage := dstage_storeSFrameSize\<rparr>" by auto
  have g7: "g = 7" using fl a magic_not_skippable by (auto simp: header_flags_def)
  have "bytes m h g = bytes m h 4 @ bytes m (h + 4) 3" using bytes_split [of 4 7 m h] g7 by simp
  then have "stage_ok {t..<dst1 J} d' m (jb_D J) (consumed J s) (produced J m t)"
    using a c g7 by (auto simp: stage_ok_def d' skip_magic_def h_def)
  moreover have "world J d' m s t" using w world_cong [of d' d] by (simp add: d' mem_fields_def)
  ultimately show ?thesis using a rank d'(1) g7 by (auto intro!: exit_Again simp: rank_plain d')
next
  assume a: "7 \<le> g \<and> r = g \<and> frame m m' h (h + 19) \<and> bytes m' h g = bytes m h g \<and>
    (\<exists>fi cs di. header_flags m h cs di \<and> g < header_size cs di \<and> d' = d\<lparr>dc_frameInfo := fi, dc_tmpInSize := g,
       dc_tmpInTarget := header_size cs di, dc_dStage := dstage_storeFrameHeader\<rparr>)"
  then obtain fi cs di where d': "header_flags m h cs di" "g < header_size cs di"
    "d' = d\<lparr>dc_frameInfo := fi, dc_tmpInSize := g, dc_tmpInTarget := header_size cs di, dc_dStage := dstage_storeFrameHeader\<rparr>" by blast
  have sub: "{h..<h + 19} \<subseteq> own d \<union> {t..<dst1 J}" using own_parts(1) [of d] by (auto simp: h_def)
  have "header_flags m' h cs di" using header_flags_cong [of m' h g m h] a d'(1) g by simp
  moreover have "user_ok {t..<dst1 J} d m' (jb_D J)" using user_write [OF u(1) _ sub] a by blast
  ultimately have "stage_ok {t..<dst1 J} d' m' (jb_D J) (consumed J s) (produced J m' t)"
    using produced_write [OF w _ sub] a c d'(2) g u(2) unfolding stage_ok_def by (auto simp: d'(3) h_def)
  moreover have "world J d' m' s t" using world_write [OF w _ sub] a world_cong [of d' d] by (auto simp: d'(3) mem_fields_def)
  ultimately show ?thesis using a rank g by (auto intro!: exit_Again simp: rank_plain d'(3))
next
  assume "m' = m \<and> (\<exists>cs di fi. header_flags m h cs di \<and> r = header_size cs di \<and> r \<le> g \<and> frameInfo_ok cs di fi \<and>
    bytes m h r = header_bytes cs di fi \<and> d' = frame_begun cs d fi)"
  then obtain cs di fi where a: "m' = m" "header_flags m h cs di" "r = header_size cs di" "r \<le> g" "frameInfo_ok cs di fi"
    "bytes m h r = header_bytes cs di fi" "d' = frame_begun cs d fi" by blast
  have "r = g"
  proof (cases "g = 7")
    case True
    then show ?thesis using a(3,4) header_size_bounds(1) [of cs di] by simp
  next
    case False
    then obtain cs' di' where "header_flags m h cs' di'" "g = header_size cs' di'" using fl by blast
    then show ?thesis using header_flags_unique [OF a(2)] a(3) by blast
  qed
  then have "stage_ok {t..<dst1 J} d' m (jb_D J) (consumed J s) (produced J m t)"
    using frame_begun_ok [OF u a(5)] a(6) c by (simp add: a(7))
  moreover have "world J d' m s t" using w world_cong [of d' d] by (simp add: a(7))
  ultimately show ?thesis using a(1,3) rank header_small by (auto intro!: exit_Again simp: rank_plain a(7) frame_begun_def)
qed

lemma storeFrameHeader_ok:
  assumes i: "inv J (d, m, s, t)" and st: "dc_dStage d = dstage_storeFrameHeader"
  shows "\<exists>e. stage_storeFrameHeader (jb_E J) (d, m, s, t) = Some e \<and> exit_ok J (d, m, s, t) e"
proof -
  let ?W = "{t..<dst1 J}" and ?D = "jb_D J"
  define z g h where zgh: "z = dc_tmpInSize d" "g = dc_tmpInTarget d" "h = dc_header d"
  note zgh' = zgh [symmetric]
  have w: "world J d m s t" using i by (simp add: inv_def)
  have k: "produced J m t = []" "dc_frameRemainingSize d = 0" "user_ok ?W d m ?D" "consumed J s = bytes m h z" "0 \<le> z" "z < g"
      "g = 7 \<or> 7 \<le> z \<and> (\<exists>cs di. header_flags m h cs di \<and> g = header_size cs di)"
    using i st unfolding inv_def stage_ok_def by (simp_all add: zgh)
  have g: "7 \<le> g" "g \<le> 19" using k(7) header_size_bounds by auto
  define n where "n = chunk J s z g"
  have fr: "reg h 19 \<subseteq> front d" by (simp add: front_def zgh)
  obtain m' where m: "LZ4_memcpy m (h + z) s n = Some m'" "stored J d m s t h z n m'"
    using store_chunk [OF w fr k(5) _ g(2)] k(6) unfolding n_def by auto
  have w': "world J d m' (s + n) t" and f: "frame m m' (h + z) (h + z + n)" and b: "bytes m' h (z + n) = consumed J (s + n)" "produced J m' t = []"
    using m(2) k(1,4) by (auto simp: stored_def)
  have o: "{h + z..<h + z + n} \<subseteq> own d"
  proof -
    have "{h + z..<h + z + n} \<subseteq> reg h 19" using k(5) g by (auto simp: n_def chunk_def)
    then show ?thesis using fr front_own [of d] by blast
  qed
  have u: "user_ok ?W d m' ?D" using user_write [OF k(3) f] o by blast
  have fl: "header_flags m' h cs di" if "7 \<le> z" "header_flags m h cs di" for cs di
    using header_flags_cong [OF bytes_frame [OF f, of h z], of cs di] that by simp
  have n0: "0 \<le> n" using chunk_nonneg [of z g s J] k(6) world_le(1) [OF w] by (simp add: n_def)
  have fl': "g = 7 \<or> 7 \<le> z + n \<and> (\<exists>cs di. header_flags m' h cs di \<and> g = header_size cs di)"
  proof (cases "g = 7")
    case False
    then obtain cs di where "7 \<le> z" "header_flags m h cs di" "g = header_size cs di" using k(7) by blast
    then show ?thesis using fl n0 by auto
  qed simp
  have code: "min (u64 (g - z)) (src1 J - s) = n" using chunk_code [of z g J s] k(5,6) g by (simp add: n_def)
  let ?d = "d\<lparr>dc_tmpInSize := z + n\<rparr>"
  have w1: "world J ?d m' (s + n) t" using w' world_cong [of ?d d] by (simp add: mem_fields_def)
  note D = stage_storeFrameHeader_def prod.case zgh' code Let_def m(1) bind.bind_lunit
  show ?thesis
  proof (cases "z + n < g")
    case True
    have "stage_ok ?W ?d m' ?D (consumed J (s + n)) (produced J m' t)"
      using st k(2,5) b u True fl' n0 unfolding stage_ok_def by (simp add: zgh')
    then have "exit_ok J (d, m, s, t) (Stop (g - (z + n) + BHSize) (?d, m', s + n, t))"
      using True g k(5) w1 st n0 by (intro exit_Stop) auto
    then show ?thesis unfolding D using True by (simp add: zgh')
  next
    case False
    then have zn: "z + n = g" "0 < n" using chunk_full [of z J s g] world_le(1) [OF w] k(6) by (auto simp: n_def)
    have v: "valid m' h 19" using world_header [OF w'] by (simp add: zgh)
    obtain r d' m2 where r: "LZ4F_decodeHeader ?d m' h g = Some (r, d', m2)" "header_read ?d m' h g r d' m2"
      using decodeHeader_total [of m' h g ?d] valid_sub [OF v, of h g] v g by (auto simp: zgh')
    have "exit_ok J (d, m, s, t) (if LZ4F_isError r then Return r (d', m2, s + n, t) else Again (d', m2, s + n, t))"
    proof (rule stored_header_exit [OF w1])
      show "2 * nat (src1 J - (s + n)) < rank J (d, m, s, t)" using st zn(2) world_le(1) [OF w'] by (simp add: rank_plain)
    qed (use u k(2) b zn(1) g fl' r(2) in \<open>auto simp: zgh'\<close>)
    then show ?thesis unfolding D using False r(1) zn(1) by (simp add: zgh' split: if_splits)
  qed
qed

end
