(* ===== verification/LZ4F_DecSkip.thy ===== *)
theory LZ4F_DecSkip
  imports LZ4F_DecHead
begin

text \<open>The stages of the frame decoder keep its invariant: the start of a frame, skippable frames and the end of a frame.\<close>

section \<open>The start of a frame\<close>

lemma getFrameHeader_ok:
  assumes i: "inv J (d, m, s, t)" and st: "dc_dStage d = dstage_getFrameHeader"
  shows "\<exists>e. stage_getFrameHeader (jb_E J) (d, m, s, t) = Some e \<and> exit_ok J (d, m, s, t) e"
proof -
  let ?W = "{t..<dst1 J}" and ?D = "jb_D J" and ?n = "src1 J - s"
  have w: "world J d m s t" using i by (simp add: inv_def)
  have k: "produced J m t = []" "dc_frameRemainingSize d = 0" "user_ok ?W d m ?D" "consumed J s = []"
    using i st unfolding inv_def stage_ok_def by simp_all
  have n0: "0 \<le> ?n" using world_le(1) [OF w] by simp
  show ?thesis
  proof (cases "19 \<le> ?n")
    case True
    have src: "reg s ?n \<subseteq> dom m" "reg s ?n \<inter> own d = {}" using world_src [OF w n0] by simp_all
    have "reg s ?n \<inter> reg (dc_header d) 19 = {}" using src(2) own_parts(1) [of d] by blast
    then have apart: "s + ?n \<le> dc_header d \<or> dc_header d + 19 \<le> s" by (rule reg_apart) (use True in auto)
    then have ne: "s \<noteq> dc_header d" using True by linarith
    obtain r d' m' where r: "LZ4F_decodeHeader d m s ?n = Some (r, d', m')" "header_read d m s ?n r d' m'"
      using decodeHeader_total [of m s ?n d] src(1) world_header [OF w] apart by (auto simp: valid_reg)
    have code: "stage_getFrameHeader (jb_E J) (d, m, s, t) =
        Some (if LZ4F_isError r then Return r (d', m', s, t) else Again (d', m', s + r, t))"
      using True r(1) by (simp add: stage_getFrameHeader_def)
    have add: "consumed J (s + j) = bytes m s j" if "0 \<le> j" "j \<le> ?n" for j using consumed_add [OF w, of j] k(4) that by simp
    have pos: "world J d m (s + j) t" if "0 \<le> j" "j \<le> ?n" for j using world_pos [OF w] that world_le [OF w] by simp
    consider (err) "LZ4F_isError r" "m' = m" "\<exists>fi. d' = d\<lparr>dc_frameInfo := fi\<rparr>"
      | (skip) "m' = m" "skip_magic (bytes m s 4)" "r = 4" "\<exists>fi. d' = d\<lparr>dc_frameInfo := fi, dc_dStage := dstage_getSFrameSize\<rparr>"
      | (begun) cs di fi where "m' = m" "r = header_size cs di" "frameInfo_ok cs di fi" "bytes m s r = header_bytes cs di fi" "d' = frame_begun cs d fi"
    proof -
      have "\<not> ?n < header_size cs di" for cs di using True header_size_bounds(2) [of cs di] by linarith
      then show ?thesis using r(2) ne that unfolding header_read_def skip_magic_def by (auto; blast?)
    qed
    then show ?thesis
    proof cases
      case err
      then show ?thesis unfolding code using w world_cong [of d' d J m s t] by (auto simp: mem_fields_def intro: exit_refused)
    next
      case skip
      then obtain fi where d': "d' = d\<lparr>dc_frameInfo := fi, dc_dStage := dstage_getSFrameSize\<rparr>" by blast
      have "world J d' m (s + 4) t" using pos [of 4] True world_cong [of d' d] by (simp add: d' mem_fields_def)
      moreover have "stage_ok ?W d' m ?D (consumed J (s + 4)) (produced J m t)" using skip k(1) add [of 4] True by (simp add: stage_ok_def d')
      ultimately have "exit_ok J (d, m, s, t) (Again (d', m', s + r, t))"
        using skip st True by (auto intro!: exit_Again simp: rank_plain d')
      then show ?thesis unfolding code using skip by simp
    next
      case begun
      have h: "7 \<le> r" "r \<le> 19" using header_size_bounds begun(2) by auto
      have "world J d' m (s + r) t" using pos [of r] True h world_cong [of d' d] by (simp add: begun(5))
      moreover have "stage_ok ?W d' m ?D (consumed J (s + r)) (produced J m t)"
        using frame_begun_ok [OF k(3,2) begun(3)] begun(4,5) k(1) add [of r] True h by simp
      ultimately have "exit_ok J (d, m, s, t) (Again (d', m', s + r, t))"
        using begun(1,5) st True h by (auto intro!: exit_Again simp: rank_plain frame_begun_def)
      then show ?thesis unfolding code using h by simp
    qed
  next
    case False
    let ?d = "d\<lparr>dc_tmpInSize := 0\<rparr>" and ?d2 = "d\<lparr>dc_tmpInSize := 0, dc_tmpInTarget := 7, dc_dStage := dstage_storeFrameHeader\<rparr>"
    show ?thesis
    proof (cases "?n = 0")
      case True
      have "world J ?d m s t" using w world_cong [of ?d d] by (simp add: mem_fields_def)
      then have "inv J (?d, m, s, t)" using k st by (simp add: inv_def stage_ok_def)
      then show ?thesis using True st by (simp add: stage_getFrameHeader_def exit_ok_def)
    next
      case n: False
      have "world J ?d2 m s t" using w world_cong [of ?d2 d] by (simp add: mem_fields_def)
      then have "inv J (?d2, m, s, t)" using k by (simp add: inv_def stage_ok_def)
      then obtain e where "stage_storeFrameHeader (jb_E J) (?d2, m, s, t) = Some e" "exit_ok J (?d2, m, s, t) e"
        using storeFrameHeader_ok [of J ?d2 m s t] by auto
      then show ?thesis using False n st exit_mono [of J "(?d2, m, s, t)" e "(d, m, s, t)"]
        by (simp add: stage_getFrameHeader_def rank_plain)
    qed
  qed
qed

section \<open>Skippable frames\<close>

lemma SFrameSize_exit:
  assumes w: "world J d m s t" and p: "valid m p 4" and c: "consumed J s = mg @ bytes m p 4" "skip_magic mg" "produced J m t = []"
    and rank: "2 * nat (src1 J - s) < rank J pos"
  shows "\<exists>e. decode_SFrameSize p (d, m, s, t) = Some e \<and> exit_ok J pos e"
proof -
  let ?w = "le_word (bytes m p 4) :: 32 word"
  let ?d = "d\<lparr>dc_frameInfo := (dc_frameInfo d)\<lparr>contentSize := ucast ?w\<rparr>, dc_tmpInTarget := uint ?w, dc_dStage := dstage_skipSkippable\<rparr>"
  have "word_bytes 4 (of_nat (nat (uint ?w)) :: 32 word) = bytes m p 4" using word_bytes_bytes(1) [of m p] by simp
  then have "stage_ok {t..<dst1 J} ?d m (jb_D J) (consumed J s) (produced J m t)"
    using c uint_bounded [of ?w] unfolding stage_ok_def by simp (rule exI [of _ mg], simp, rule exI [of _ "[]"], simp)
  moreover have "world J ?d m s t" using w world_cong [of ?d d] by (simp add: mem_fields_def)
  ultimately have "exit_ok J pos (Again (?d, m, s, t))" using rank by (intro exit_Again) (simp_all add: rank_plain)
  then show ?thesis using readLE32_Some [OF p] by (simp add: decode_SFrameSize_def)
qed

lemma storeSFrameSize_ok:
  assumes i: "inv J (d, m, s, t)" and st: "dc_dStage d = dstage_storeSFrameSize"
  shows "\<exists>e. stage_storeSFrameSize (jb_E J) (d, m, s, t) = Some e \<and> exit_ok J (d, m, s, t) e"
proof -
  define z h where zh: "z = dc_tmpInSize d" "h = dc_header d"
  note zh' = zh [symmetric]
  have w: "world J d m s t" using i by (simp add: inv_def)
  obtain mg where k: "produced J m t = []" "dc_tmpInTarget d = 8" "4 \<le> z" "z < 8" "skip_magic mg" "consumed J s = mg @ bytes m (h + 4) (z - 4)"
    using i st unfolding inv_def stage_ok_def by (auto simp: zh)
  define n where "n = chunk J s (z - 4) 4"
  have fr: "reg (h + 4) 15 \<subseteq> front d" by (auto simp: front_def zh)
  obtain m' where m: "LZ4_memcpy m (h + z) s n = Some m'" "stored J d m s t (h + 4) (z - 4) n m'"
    using store_chunk [OF w fr, of "z - 4" 4] k(3,4) unfolding n_def by auto
  let ?d = "d\<lparr>dc_tmpInSize := z + n\<rparr>"
  have w1: "world J ?d m' (s + n) t" using m(2) world_cong [of ?d d] by (simp add: mem_fields_def stored_def)
  have c: "consumed J (s + n) = mg @ bytes m' (h + 4) (z + n - 4)" "produced J m' t = []" "0 \<le> n"
    using m(2) k chunk_nonneg [of "z - 4" 4 s J] world_le(1) [OF w] by (auto simp: stored_def n_def algebra_simps)
  have code: "min (u64 (8 - z)) (src1 J - s) = n" using chunk_code [of "z - 4" 4 J s] k(3,4) by (simp add: n_def)
  note D = stage_storeSFrameSize_def prod.case zh' k(2) code Let_def m(1) bind.bind_lunit
  show ?thesis
  proof (cases "z + n < 8")
    case True
    have "stage_ok {t..<dst1 J} ?d m' (jb_D J) (consumed J (s + n)) (produced J m' t)"
      using st k c True unfolding stage_ok_def by (auto simp: zh')
    then have "exit_ok J (d, m, s, t) (Stop (8 - (z + n)) (?d, m', s + n, t))" using True w1 st k(3) c(3) by (intro exit_Stop) auto
    then show ?thesis unfolding D using True k(2) by simp
  next
    case False
    then have zn: "z + n = 8" "0 < n" using chunk_full [of "z - 4" J s 4] world_le(1) [OF w] k(4) by (auto simp: n_def)
    have v: "valid m' (h + 4) 4" using world_header [OF w1] by (rule valid_sub) (simp_all add: zh)
    have "2 * nat (src1 J - (s + n)) < rank J (d, m, s, t)" using st zn(2) world_le(1) [OF w1] by (simp add: rank_plain)
    then obtain e where "decode_SFrameSize (h + 4) (?d, m', s + n, t) = Some e" "exit_ok J (d, m, s, t) e"
      using SFrameSize_exit [OF w1 v _ k(5), where pos = "(d, m, s, t)"] c zn(1) by auto
    then show ?thesis unfolding D using zn(1) k(2) by (simp add: zh')
  qed
qed

lemma getSFrameSize_ok:
  assumes i: "inv J (d, m, s, t)" and st: "dc_dStage d = dstage_getSFrameSize"
  shows "\<exists>e. stage_getSFrameSize (jb_E J) (d, m, s, t) = Some e \<and> exit_ok J (d, m, s, t) e"
proof -
  have w: "world J d m s t" and k: "produced J m t = []" "skip_magic (consumed J s)" using i st by (simp_all add: inv_def stage_ok_def)
  show ?thesis
  proof (cases "4 \<le> src1 J - s")
    case True
    have w4: "world J d m (s + 4) t" using world_pos [OF w] True world_le [OF w] by simp
    have "valid m s 4" using world_src(1) [OF w, of 4] True by (simp add: valid_reg)
    then show ?thesis using SFrameSize_exit [OF w4, of s "consumed J s" "(d, m, s, t)"] consumed_add [OF w, of 4] k True st
      by (simp add: stage_getSFrameSize_def rank_plain)
  next
    case False
    let ?d = "d\<lparr>dc_tmpInSize := 4, dc_tmpInTarget := 8, dc_dStage := dstage_storeSFrameSize\<rparr>"
    have "world J ?d m s t" using w world_cong [of ?d d] by (simp add: mem_fields_def)
    then have "inv J (?d, m, s, t)" using k by (simp add: inv_def stage_ok_def)
    then obtain e where "stage_storeSFrameSize (jb_E J) (?d, m, s, t) = Some e" "exit_ok J (?d, m, s, t) e"
      using storeSFrameSize_ok [of J ?d m s t] by auto
    then show ?thesis using False st exit_mono [of J "(?d, m, s, t)" e "(d, m, s, t)"] by (simp add: stage_getSFrameSize_def rank_plain)
  qed
qed

lemma finished_exit:
  assumes "world J d m s t" "whole_frame (\<not> jb_skip J) (jb_D J) (consumed J s) (produced J m t) \<or> skippable_frame (consumed J s) \<and> produced J m t = []"
  shows "exit_ok J pos (Stop 0 (LZ4F_resetDecompressionContext d, m, s, t))"
proof -
  have "world J (LZ4F_resetDecompressionContext d\<lparr>dc_skipChecksum := jb_skip J\<rparr>) m s t"
  proof -
    have "dc_skipChecksum d = jb_skip J" using assms(1) by (simp add: world_def)
    then have "mem_fields (LZ4F_resetDecompressionContext d\<lparr>dc_skipChecksum := jb_skip J\<rparr>) = mem_fields d"
      by (simp add: mem_fields_def LZ4F_resetDecompressionContext_def)
    then show ?thesis using world_cong assms(1) by blast
  qed
  then show ?thesis using assms(2) by (simp add: exit_ok_def finished_def fresh_def LZ4F_resetDecompressionContext_def)
qed

lemma skipSkippable_ok:
  assumes i: "inv J (d, m, s, t)" and st: "dc_dStage d = dstage_skipSkippable"
  shows "\<exists>e. stage_skipSkippable (jb_E J) (d, m, s, t) = Some e \<and> exit_ok J (d, m, s, t) e"
proof -
  define g n where gn: "g = dc_tmpInTarget d" "n = min g (src1 J - s)"
  have w: "world J d m s t" using i by (simp add: inv_def)
  obtain mg z where k: "produced J m t = []" "0 \<le> g" "skip_magic mg" "int (length z) + g < 2 ^ 32"
      "consumed J s = mg @ word_bytes 4 (of_nat (length z + nat g) :: 32 word) @ z"
    using i st unfolding inv_def stage_ok_def by (auto simp: gn)
  have n: "0 \<le> n" "s + n \<le> src1 J" "n \<le> g" using k(2) world_le(1) [OF w] by (auto simp: gn(2))
  let ?d = "d\<lparr>dc_tmpInTarget := g - n\<rparr>" and ?z = "z @ bytes m s n"
  have "length ?z + nat (g - n) = length z + nat g" using n by (simp add: nat_diff_distrib)
  then have c: "consumed J (s + n) = mg @ word_bytes 4 (of_nat (length ?z + nat (g - n)) :: 32 word) @ ?z"
    using consumed_add [OF w n(1,2)] k(5) by (simp only: append_assoc)
  have w1: "world J ?d m (s + n) t" using world_pos [OF w, of "s + n" t] n world_le [OF w] world_cong [of ?d d] by (simp add: mem_fields_def)
  show ?thesis
  proof (cases "g - n = 0")
    case True
    have "skippable_frame (consumed J (s + n))" unfolding skippable_frame_def
      by (rule exI [of _ mg], rule exI [of _ ?z]) (use True c k(3,4) n(1) in simp)
    then show ?thesis using finished_exit [OF w1, of "(d, m, s, t)"] k(1) True gn(2) by (simp add: stage_skipSkippable_def gn(1) [symmetric] Let_def)
  next
    case False
    have "stage_ok {t..<dst1 J} ?d m (jb_D J) (consumed J (s + n)) (produced J m t)"
    proof -
      have "\<exists>mg z. skip_magic mg \<and> int (length z) + (g - n) < 2 ^ 32 \<and>
          consumed J (s + n) = mg @ word_bytes 4 (of_nat (length z + nat (g - n)) :: 32 word) @ z"
        by (rule exI [of _ mg], rule exI [of _ ?z]) (use k(3,4) c n in simp)
      then show ?thesis using st k(1) n unfolding stage_ok_def by simp
    qed
    then have "exit_ok J (d, m, s, t) (Stop (g - n) (?d, m, s + n, t))" using False n k(4) w1 st by (intro exit_Stop) auto
    then show ?thesis using False unfolding stage_skipSkippable_def prod.case Let_def gn(1) [symmetric] gn(2) [symmetric] by simp
  qed
qed

end
