(* ===== verification/LZ4F_DecBlock.thy ===== *)
theory LZ4F_DecBlock
  imports LZ4F_DecSkip
begin

text \<open>The stages of the frame decoder keep its invariant: block headers, the set-up of a frame and its checksum.\<close>

section \<open>The end of a frame\<close>

lemma in_frame_simps [simp]:
  "in_frame W (d\<lparr>dc_dStage := v1\<rparr>) m D C T1 T p = in_frame W d m D C T1 T p"
  "in_frame W (d\<lparr>dc_tmpInSize := v2\<rparr>) m D C T1 T p = in_frame W d m D C T1 T p"
  "in_frame W (d\<lparr>dc_tmpInTarget := v3\<rparr>) m D C T1 T p = in_frame W d m D C T1 T p"
  "in_frame W (d\<lparr>dc_tmpOutSize := v4\<rparr>) m D C T1 T p = in_frame W d m D C T1 T p"
  "in_frame W (d\<lparr>dc_tmpOutStart := v5\<rparr>) m D C T1 T p = in_frame W d m D C T1 T p"
  "in_frame W (d\<lparr>dc_blockChecksum := v6\<rparr>) m D C T1 T p = in_frame W d m D C T1 T p"
  unfolding in_frame_def by simp_all

lemma blocks_read_more: "blocks_read d D C T p \<Longrightarrow> C' = C @ x \<Longrightarrow> p' = p @ x \<Longrightarrow> blocks_read d D C' T p'"
  unfolding blocks_read_def by (metis append_assoc)

lemma in_frame_more: "in_frame W d m D C T1 T p \<Longrightarrow> C' = C @ x \<Longrightarrow> p' = p @ x \<Longrightarrow> in_frame W d m D C' T1 T p'"
  unfolding in_frame_def using blocks_read_more by blast

lemma XXH32_digest_ok: "state32_ok 0 bs st \<Longrightarrow> XXH32_digest st = Some (xxh32 0 bs)"
  using digest32_ok by (simp add: XXH32_digest_def XXH_CPU_LITTLE_ENDIAN_def)

lemma readLE32_crc:
  assumes "valid m p 4" shows "LZ4F_readLE32 m p = Some w \<longleftrightarrow> bytes m p 4 = word_bytes 4 w"
proof
  assume "LZ4F_readLE32 m p = Some w"
  then have "w = le_word (bytes m p 4)" using readLE32_Some [OF assms] by simp
  then show "bytes m p 4 = word_bytes 4 w" using word_bytes_bytes(1) by simp
next
  assume "bytes m p 4 = word_bytes 4 w"
  then show "LZ4F_readLE32 m p = Some w" using readLE32_Some [OF assms] le_word_bytes32 by simp
qed

definition frame_sized :: "LZ4F_dctx \<Rightarrow> byte list \<Rightarrow> bool" where
  "frame_sized d T \<longleftrightarrow> (contentSize (dc_frameInfo d) \<noteq> 0 \<longrightarrow> contentSize (dc_frameInfo d) = of_nat (length T))"

lemma whole_frameI:
  assumes "blocks_read d D C T (size_field False 0 @ c)" "length c = length (content_crc (dc_frameInfo d) T)"
    "\<not> dc_skipChecksum d \<longrightarrow> c = content_crc (dc_frameInfo d) T" "frame_sized d T"
  shows "whole_frame (\<not> dc_skipChecksum d) D C T"
  using assms unfolding blocks_read_def whole_frame_def frame_sized_def by blast

lemma sums_sized: "sums_ok d T \<Longrightarrow> dc_frameRemainingSize d = 0 \<Longrightarrow> frame_sized d T"
  by (auto simp: sums_ok_def frame_sized_def)

lemma suffix_exit:
  assumes w: "world J d m s t" and p: "valid m p 4" and c: "blocks_read d (jb_D J) (consumed J s) (produced J m t) (size_field False 0 @ bytes m p 4)"
    and k: "sums_ok d (produced J m t)" "dc_frameRemainingSize d = 0" "contentChecksumFlag (dc_frameInfo d) = LZ4F_contentChecksumEnabled"
  shows "\<exists>e. check_suffix p (d, m, s, t) = Some e \<and> exit_ok J pos e"
proof -
  let ?T = "produced J m t"
  have sk: "dc_skipChecksum d = jb_skip J" using w by (simp add: world_def)
  have crc: "content_crc (dc_frameInfo d) ?T = word_bytes 4 (xxh32 0 ?T)" using k(3) by (simp add: content_crc_def)
  obtain w1 where w1: "LZ4F_readLE32 m p = Some w1" using readLE32_Some [OF p] by blast
  have dig: "\<not> dc_skipChecksum d \<Longrightarrow> XXH32_digest (dc_xxh d) = Some (xxh32 0 ?T)" using k(1,3) XXH32_digest_ok by (simp add: sums_ok_def)
  show ?thesis
  proof (cases "dc_skipChecksum d \<or> w1 = xxh32 0 ?T")
    case True
    have "\<not> dc_skipChecksum d \<longrightarrow> bytes m p 4 = content_crc (dc_frameInfo d) ?T" using True w1 readLE32_crc [OF p] crc by auto
    then have "whole_frame (\<not> jb_skip J) (jb_D J) (consumed J s) ?T"
      using whole_frameI [OF c] sums_sized [OF k(1,2)] crc sk by simp
    then show ?thesis using finished_exit [OF w] True w1 dig by (auto simp: check_suffix_def)
  next
    case False
    then have "check_suffix p (d, m, s, t) = return_error LZ4F_ERROR_contentChecksum_invalid (d, m, s, t)"
      using w1 dig by (simp add: check_suffix_def)
    then show ?thesis using exit_refused [OF w] by (simp add: return_error_def)
  qed
qed

text \<open>The buffer \<open>tmpIn\<close> takes the pieces of a header, a block or a checksum.\<close>

lemma ready_in: "ready d \<Longrightarrow> 65540 \<le> dc_tmpInCap d" "ready d \<Longrightarrow> dc_maxBlockSize d \<le> 4194304" "ready d \<Longrightarrow> 65536 \<le> dc_maxBlockSize d"
  by (auto simp: ready_def block_sizes_def)

lemma store_in:
  assumes w: "world J d m s t" and z: "0 \<le> z" "z \<le> g" "g \<le> dc_tmpInCap d"
  shows "\<exists>m'. LZ4_memcpy m (dc_tmpIn d + z) s (chunk J s z g) = Some m' \<and> stored J d m s t (dc_tmpIn d) z (chunk J s z g) m' \<and>
    {dc_tmpIn d + z..<dc_tmpIn d + z + chunk J s z g} \<subseteq> front d \<and> 0 \<le> chunk J s z g"
proof -
  have f: "reg (dc_tmpIn d) (dc_tmpInCap d) \<subseteq> front d" by (simp add: front_def)
  have "chunk J s z g \<le> g - z" by (simp add: chunk_def)
  then have "{dc_tmpIn d + z..<dc_tmpIn d + z + chunk J s z g} \<subseteq> reg (dc_tmpIn d) (dc_tmpInCap d)" using z by auto
  then show ?thesis using store_chunk [OF w f z] f chunk_nonneg [OF z(2) world_le(1) [OF w]] by blast
qed

lemma world_tmpIn:
  assumes "world J d m s t" "n \<le> dc_tmpInCap d" shows "valid m (dc_tmpIn d) n"
proof -
  have "valid m (dc_tmpIn d) (dc_tmpInCap d)" using world_own [OF assms(1) own_parts(2)] by (simp add: valid_reg)
  then show ?thesis by (rule valid_sub) (use assms(2) in auto)
qed

lemma storeSuffix_ok:
  assumes i: "inv J (d, m, s, t)" and st: "dc_dStage d = dstage_storeSuffix"
  shows "\<exists>e. stage_storeSuffix (jb_E J) (d, m, s, t) = Some e \<and> exit_ok J (d, m, s, t) e"
proof -
  define z where z: "z = dc_tmpInSize d"
  note z' = z [symmetric]
  have w: "world J d m s t" using i by (simp add: inv_def)
  let ?T = "produced J m t"
  have k: "ready d" "blocks_read d (jb_D J) (consumed J s) ?T (size_field False 0 @ bytes m (dc_tmpIn d) z)" "sums_ok d ?T"
      "dc_frameRemainingSize d = 0" "contentChecksumFlag (dc_frameInfo d) = LZ4F_contentChecksumEnabled" "0 \<le> z" "z < 4"
    using i st unfolding inv_def stage_ok_def by (simp_all add: z)
  define n where "n = chunk J s z 4"
  obtain m' where m: "LZ4_memcpy m (dc_tmpIn d + z) s n = Some m'" "stored J d m s t (dc_tmpIn d) z n m'" "0 \<le> n"
    using store_in [OF w k(6), of 4] k(7) ready_in(1) [OF k(1)] unfolding n_def by auto
  let ?d = "d\<lparr>dc_tmpInSize := z + n\<rparr>"
  have w1: "world J ?d m' (s + n) t" using m(2) world_cong [of ?d d] by (simp add: mem_fields_def stored_def)
  have pr: "produced J m' t = ?T" using m(2) by (simp add: stored_def)
  have c: "blocks_read ?d (jb_D J) (consumed J (s + n)) ?T (size_field False 0 @ bytes m' (dc_tmpIn d) (z + n))"
    using blocks_read_more [OF k(2), of "consumed J (s + n)" "bytes m s n"] m(2) by (simp add: stored_def)
  have code: "min (u64 (4 - z)) (src1 J - s) = n" using chunk_code [of z 4 J s] k(6,7) by (simp add: n_def)
  note D = stage_storeSuffix_def prod.case z' code Let_def m(1) bind.bind_lunit
  show ?thesis
  proof (cases "z + n < 4")
    case True
    have "stage_ok {t..<dst1 J} ?d m' (jb_D J) (consumed J (s + n)) (produced J m' t)"
      using st k c pr True m(3) unfolding stage_ok_def by simp
    then have "exit_ok J (d, m, s, t) (Stop (4 - (z + n)) (?d, m', s + n, t))" using True w1 st k(6) m(3) by (intro exit_Stop) auto
    then show ?thesis unfolding D using True by simp
  next
    case False
    then have zn: "z + n = 4" using chunk_full [of z J s 4] world_le(1) [OF w] by (simp add: n_def)
    have v: "valid m' (dc_tmpIn d) 4" using world_tmpIn [OF w1] ready_in(1) [OF k(1)] by simp
    obtain e where "check_suffix (dc_tmpIn d) (?d, m', s + n, t) = Some e" "exit_ok J (d, m, s, t) e"
      using suffix_exit [OF w1 v, where pos = "(d, m, s, t)"] c k(3-5) pr zn by auto
    then show ?thesis unfolding D using zn by simp
  qed
qed

lemma getSuffix_ok:
  assumes i: "inv J (d, m, s, t)" and st: "dc_dStage d = dstage_getSuffix"
  shows "\<exists>e. stage_getSuffix (jb_E J) (d, m, s, t) = Some e \<and> exit_ok J (d, m, s, t) e"
proof -
  let ?T = "produced J m t"
  have w: "world J d m s t" using i by (simp add: inv_def)
  have k: "ready d" "blocks_read d (jb_D J) (consumed J s) ?T (size_field False 0)" "sums_ok d ?T"
    using i st unfolding inv_def stage_ok_def by simp_all
  have sk: "dc_skipChecksum d = jb_skip J" using w by (simp add: world_def)
  consider (wrong) "dc_frameRemainingSize d \<noteq> 0" | (none) "dc_frameRemainingSize d = 0" "contentChecksumFlag (dc_frameInfo d) = LZ4F_noContentChecksum"
    | (store) "dc_frameRemainingSize d = 0" "contentChecksumFlag (dc_frameInfo d) = LZ4F_contentChecksumEnabled" "src1 J - s < 4"
    | (direct) "dc_frameRemainingSize d = 0" "contentChecksumFlag (dc_frameInfo d) = LZ4F_contentChecksumEnabled" "4 \<le> src1 J - s"
    using bit_cases(3) [of "contentChecksumFlag (dc_frameInfo d)"] by linarith
  then show ?thesis
  proof cases
    case wrong
    then show ?thesis using exit_refused [OF w] by (simp add: stage_getSuffix_def return_error_def)
  next
    case none
    have "whole_frame (\<not> dc_skipChecksum d) (jb_D J) (consumed J s) ?T"
      by (rule whole_frameI [of _ _ _ _ "[]"]) (use k none sums_sized in \<open>auto simp: content_crc_def\<close>)
    then show ?thesis using finished_exit [OF w] none sk by (simp add: stage_getSuffix_def)
  next
    case store
    let ?d = "d\<lparr>dc_tmpInSize := 0, dc_dStage := dstage_storeSuffix\<rparr>"
    have "world J ?d m s t" using w world_cong [of ?d d] by (simp add: mem_fields_def)
    then have "inv J (?d, m, s, t)" using k store by (simp add: inv_def stage_ok_def)
    then obtain e where "stage_storeSuffix (jb_E J) (?d, m, s, t) = Some e" "exit_ok J (?d, m, s, t) e"
      using storeSuffix_ok [of J ?d m s t] by auto
    then show ?thesis using store st exit_mono [of J "(?d, m, s, t)" e "(d, m, s, t)"] by (simp add: stage_getSuffix_def rank_plain)
  next
    case direct
    have w4: "world J d m (s + 4) t" using world_pos [OF w] direct world_le [OF w] by simp
    have v: "valid m s 4" using world_src(1) [OF w, of 4] direct by (simp add: valid_reg)
    have "blocks_read d (jb_D J) (consumed J (s + 4)) ?T (size_field False 0 @ bytes m s 4)"
      using blocks_read_more [OF k(2)] consumed_add [OF w, of 4] direct by simp
    then show ?thesis using suffix_exit [OF w4 v, where pos = "(d, m, s, t)"] k(3) direct by (simp add: stage_getSuffix_def)
  qed
qed

end
