(* ===== verification/LZ4F_DecInit.thy ===== *)
theory LZ4F_DecInit
  imports LZ4F_DecBlock
begin

text \<open>The stages of the frame decoder keep its invariant: block headers and the allocation of the buffers.\<close>

section \<open>Block headers\<close>

lemma flag_bit: "w AND LZ4F_BLOCKUNCOMPRESSED_FLAG \<noteq> 0 \<longleftrightarrow> bit w 31"
  using and_exp_eq_0_iff_not_bit [of w 31] by (simp add: LZ4F_BLOCKUNCOMPRESSED_FLAG_def)

lemma low_bits: "w AND 0x7FFFFFFF = take_bit 31 (w :: 32 word)"
  by (simp add: take_bit_eq_mask mask_eq_exp_minus_1)

lemma size_field_bits:
  fixes w :: "32 word" defines "n \<equiv> nat (uint (w AND 0x7FFFFFFF))"
  shows "size_field (w AND LZ4F_BLOCKUNCOMPRESSED_FLAG \<noteq> 0) n = word_bytes 4 w"
proof -
  have n: "of_nat n = take_bit 31 w" by (simp add: n_def low_bits)
  have f: "LZ4F_BLOCKUNCOMPRESSED_FLAG = (2 ^ 31 :: 32 word)" by (simp add: LZ4F_BLOCKUNCOMPRESSED_FLAG_def)
  have "(if bit w 31 then take_bit 31 w OR 2 ^ 31 else take_bit 31 w) = w"
    by (rule bit_word_eqI) (auto simp: bit_simps less_Suc_eq numeral_eq_Suc)
  then show ?thesis unfolding size_field_def n flag_bit unfolding f by presburger
qed

lemma copyDirectI:
  assumes "dc_dStage d = dstage_copyDirect" "T = T1 @ x" "0 \<le> dc_tmpInTarget d" "int (length x) + dc_tmpInTarget d \<le> dc_maxBlockSize d"
    "in_frame W d m D C T1 T (size_field True (length x + nat (dc_tmpInTarget d)) @ x)"
    "blockChecksumFlag (dc_frameInfo d) = LZ4F_blockChecksumEnabled \<and> \<not> dc_skipChecksum d \<longrightarrow> state32_ok 0 x (dc_blockChecksum d)"
  shows "stage_ok W d m D C T"
proof -
  have "\<exists>T1 x. T = T1 @ x \<and> 0 \<le> dc_tmpInTarget d \<and> int (length x) + dc_tmpInTarget d \<le> dc_maxBlockSize d \<and>
      in_frame W d m D C T1 T (size_field True (length x + nat (dc_tmpInTarget d)) @ x) \<and>
      (blockChecksumFlag (dc_frameInfo d) = LZ4F_blockChecksumEnabled \<and> \<not> dc_skipChecksum d \<longrightarrow> state32_ok 0 x (dc_blockChecksum d))"
    using assms(2-6) by blast
  then show ?thesis unfolding stage_ok_def assms(1) dStage_t.case .
qed

lemma blockHeader_exit:
  assumes w: "world J d m s t" and p: "valid m p 4"
    and c: "in_frame {t..<dst1 J} d m (jb_D J) (consumed J s) (produced J m t) (produced J m t) (bytes m p 4)"
    and rank: "2 * nat (src1 J - s) + 1 < rank J pos"
  shows "\<exists>e. decode_blockHeader (jb_E J) p (d, m, s, t) = Some e \<and> exit_ok J pos e"
proof -
  let ?W = "{t..<dst1 J}" and ?T = "produced J m t" and ?fi = "dc_frameInfo d"
  define w1 :: "32 word" where "w1 = le_word (bytes m p 4)"
  define n where "n = nat (uint (w1 AND 0x7FFFFFFF))"
  have n: "uint (w1 AND 0x7FFFFFFF) = int n" by (simp add: n_def)
  have r: "LZ4F_readLE32 m p = Some w1" using readLE32_Some [OF p] by (simp add: w1_def)
  have b: "bytes m p 4 = size_field (w1 AND LZ4F_BLOCKUNCOMPRESSED_FLAG \<noteq> 0) n"
    using size_field_bits [of w1] word_bytes_bytes(1) [of m p] by (simp add: n_def w1_def)
  have crc: "blockChecksum_bit (blockChecksumFlag ?fi) * BFSize = crc_len d"
    using bit_cases(2) [of "blockChecksumFlag ?fi"] by (auto simp: crc_len_def)
  note D = decode_blockHeader_def prod.case r bind.bind_lunit Let_def n crc
  have wd: "world J d' m s t" if "mem_fields d' = mem_fields d" for d' using world_cong [OF that] w by blast
  consider (last) "w1 = 0" | (big) "w1 \<noteq> 0" "int n > dc_maxBlockSize d" | (raw) "w1 \<noteq> 0" "int n \<le> dc_maxBlockSize d" "w1 AND LZ4F_BLOCKUNCOMPRESSED_FLAG \<noteq> 0"
    | (comp) "w1 \<noteq> 0" "int n \<le> dc_maxBlockSize d" "w1 AND LZ4F_BLOCKUNCOMPRESSED_FLAG = 0" by linarith
  then show ?thesis
  proof cases
    case last
    let ?d = "d\<lparr>dc_dStage := dstage_getSuffix\<rparr>"
    have "bytes m p 4 = size_field False 0" using last b by (simp add: n_def)
    then have "stage_ok ?W ?d m (jb_D J) (consumed J s) ?T" using c by (simp add: stage_ok_def in_frame_def)
    then have "exit_ok J pos (Again (?d, m, s, t))" using wd [of ?d] rank by (intro exit_Again) (simp_all add: rank_plain mem_fields_def)
    then show ?thesis unfolding D using last by simp
  next
    case big
    then show ?thesis unfolding D using exit_refused [OF w] by (simp add: return_error_def)
  next
    case raw
    let ?d = "(if blockChecksumFlag ?fi = LZ4F_blockChecksumEnabled then d\<lparr>dc_tmpInTarget := int n, dc_blockChecksum := snd (XXH32_reset 0)\<rparr>
      else d\<lparr>dc_tmpInTarget := int n\<rparr>)\<lparr>dc_dStage := dstage_copyDirect\<rparr>"
    have "stage_ok ?W ?d m (jb_D J) (consumed J s) ?T"
      by (rule copyDirectI [of _ _ ?T "[]"]) (use c b raw reset32_ok in \<open>simp_all split: if_splits\<close>)
    then have "exit_ok J pos (Again (?d, m, s, t))" using wd [of ?d] rank by (intro exit_Again) (simp_all add: rank_def mem_fields_def)
    then show ?thesis unfolding D using raw by (simp split: if_splits)
  next
    case comp
    let ?d = "d\<lparr>dc_tmpInTarget := int n + crc_len d, dc_dStage := dstage_getCBlock\<rparr>"
    have "w1 AND 0x7FFFFFFF \<noteq> 0"
    proof
      assume z: "w1 AND 0x7FFFFFFF = 0"
      have "take_bit 31 w1 = w1" using comp(3) flag_bit [of w1] by (intro bit_word_eqI) (auto simp: bit_simps less_Suc_eq numeral_eq_Suc)
      then show False using z comp(1) by (simp add: low_bits)
    qed
    then have "uint (w1 AND 0x7FFFFFFF) \<noteq> 0" unfolding uint_0_iff .
    then have n0: "0 < n" unfolding n by simp
    have "ready d" using c by (simp add: in_frame_def)
    then have n1: "int n < 2 ^ 31" using comp(2) ready_in(2) [of d] by simp
    have "stage_ok ?W ?d m (jb_D J) (consumed J s) ?T"
      using c b comp n0 unfolding stage_ok_def by (auto intro!: exI [of _ n])
    moreover have "world J ?d m s t" using wd [of ?d] by (simp add: mem_fields_def)
    ultimately have "exit_ok J pos (Again (?d, m, s, t))" "exit_ok J pos (Stop (BHSize + int n + crc_len d) (?d, m, s, t))"
      using rank n1 crc_len_le [of d] by (auto intro!: exit_Again exit_Stop simp: rank_def)
    then show ?thesis unfolding D using comp by (simp split: if_splits)
  qed
qed

lemma rank_step: "0 < n \<Longrightarrow> s + n \<le> src1 J \<Longrightarrow> 2 * nat (src1 J - (s + n)) + 1 < rank J (d, m, s, t)"
  by (simp add: rank_def)

lemma storeBlockHeader_ok:
  assumes i: "inv J (d, m, s, t)" and st: "dc_dStage d = dstage_storeBlockHeader"
  shows "\<exists>e. stage_storeBlockHeader (jb_E J) (d, m, s, t) = Some e \<and> exit_ok J (d, m, s, t) e"
proof -
  let ?W = "{t..<dst1 J}" and ?D = "jb_D J" and ?T = "produced J m t"
  define z where z: "z = dc_tmpInSize d"
  note z' = z [symmetric]
  have w: "world J d m s t" using i by (simp add: inv_def)
  have k: "in_frame ?W d m ?D (consumed J s) ?T ?T (bytes m (dc_tmpIn d) z)" "0 \<le> z" "z < 4"
    using i st unfolding inv_def stage_ok_def by (simp_all add: z)
  have rd: "ready d" using k(1) by (simp add: in_frame_def)
  define n where "n = chunk J s z 4"
  obtain m' where m: "LZ4_memcpy m (dc_tmpIn d + z) s n = Some m'" "stored J d m s t (dc_tmpIn d) z n m'"
      "{dc_tmpIn d + z..<dc_tmpIn d + z + n} \<subseteq> front d" "0 \<le> n"
    using store_in [OF w k(2), of 4] k(3) ready_in(1) [OF rd] unfolding n_def by auto
  let ?d = "d\<lparr>dc_tmpInSize := z + n\<rparr>"
  have w1: "world J ?d m' (s + n) t" using m(2) world_cong [of ?d d] by (simp add: mem_fields_def stored_def)
  have pr: "produced J m' t = ?T" using m(2) by (simp add: stored_def)
  have "in_frame ?W d m' ?D (consumed J s) ?T ?T (bytes m (dc_tmpIn d) z)"
    using m(2,3) world_le [OF w] by (intro in_frame_write [OF w k(1)]) (auto simp: stored_def)
  then have c: "in_frame ?W ?d m' ?D (consumed J (s + n)) ?T ?T (bytes m' (dc_tmpIn d) (z + n))"
    using in_frame_more [of ?W d m' ?D "consumed J s" ?T ?T] m(2) by (simp add: stored_def)
  have code: "min (u64 (BHSize - z)) (src1 J - s) = n" using chunk_code [of z 4 J s] k(2,3) by (simp add: n_def)
  note D = stage_storeBlockHeader_def prod.case z' code Let_def m(1) bind.bind_lunit
  show ?thesis
  proof (cases "z + n < 4")
    case True
    have "stage_ok ?W ?d m' ?D (consumed J (s + n)) (produced J m' t)"
      using st k(2) c pr True m(4) unfolding stage_ok_def by simp
    then have "exit_ok J (d, m, s, t) (Stop (4 - (z + n)) (?d, m', s + n, t))" using True w1 st k(2) m(4) by (intro exit_Stop) auto
    then show ?thesis unfolding D using True by simp
  next
    case False
    then have zn: "z + n = 4" "0 < n" using chunk_full [of z J s 4] world_le(1) [OF w] k(3) by (auto simp: n_def)
    have v: "valid m' (dc_tmpIn d) 4" using world_tmpIn [OF w1] ready_in(1) [OF rd] by simp
    obtain e where "decode_blockHeader (jb_E J) (dc_tmpIn d) (?d, m', s + n, t) = Some e" "exit_ok J (d, m, s, t) e"
      using blockHeader_exit [OF w1 v, where pos = "(d, m, s, t)"] c pr zn rank_step [OF zn(2) world_le(1) [OF w1]] by auto
    then show ?thesis unfolding D using zn by simp
  qed
qed

lemma getBlockHeader_ok:
  assumes i: "inv J (d, m, s, t)" and st: "dc_dStage d = dstage_getBlockHeader"
  shows "\<exists>e. stage_getBlockHeader (jb_E J) (d, m, s, t) = Some e \<and> exit_ok J (d, m, s, t) e"
proof -
  let ?W = "{t..<dst1 J}" and ?D = "jb_D J" and ?T = "produced J m t"
  have w: "world J d m s t" and k: "in_frame ?W d m ?D (consumed J s) ?T ?T []" using i st by (simp_all add: inv_def stage_ok_def)
  show ?thesis
  proof (cases "4 \<le> src1 J - s")
    case True
    have w4: "world J d m (s + 4) t" using world_pos [OF w] True world_le [OF w] by simp
    have v: "valid m s 4" using world_src(1) [OF w, of 4] True by (simp add: valid_reg)
    have "in_frame ?W d m ?D (consumed J (s + 4)) ?T ?T (bytes m s 4)" using in_frame_more [OF k] consumed_add [OF w, of 4] True by simp
    then show ?thesis using blockHeader_exit [OF w4 v, where pos = "(d, m, s, t)"] True st by (simp add: stage_getBlockHeader_def rank_plain)
  next
    case False
    let ?d = "d\<lparr>dc_tmpInSize := 0, dc_dStage := dstage_storeBlockHeader\<rparr>"
    have "world J ?d m s t" using w world_cong [of ?d d] by (simp add: mem_fields_def)
    then have "inv J (?d, m, s, t)" using k by (simp add: inv_def stage_ok_def)
    then obtain e where "stage_storeBlockHeader (jb_E J) (?d, m, s, t) = Some e" "exit_ok J (?d, m, s, t) e"
      using storeBlockHeader_ok [of J ?d m s t] by auto
    then show ?thesis using False st exit_mono [of J "(?d, m, s, t)" e "(d, m, s, t)"] by (simp add: stage_getBlockHeader_def rank_plain)
  qed
qed

end
