(* ===== verification/LZ4F_DecAlloc.thy ===== *)
theory LZ4F_DecAlloc
  imports LZ4F_DecInit
begin

text \<open>The allocation of the buffers of the frame decoder, for every allocator that keeps the contract of \<open>malloc\<close>.\<close>

section \<open>The contract of malloc\<close>

text \<open>It fails and changes nothing, or it returns fresh memory.  No other object lies directly behind it.\<close>

definition new_block :: "mem \<Rightarrow> int \<Rightarrow> addr \<Rightarrow> mem \<Rightarrow> bool" where
  "new_block m n a m' \<longleftrightarrow> 0 < a \<and> a + n < 2 ^ 63 \<and> {a..a + n} \<inter> dom m = {} \<and> dom m' = dom m \<union> reg a n \<and> (\<forall>x \<in> dom m. m' x = m x)"

definition alloc_ok :: "allocator \<Rightarrow> bool" where
  "alloc_ok alloc \<longleftrightarrow> (\<forall>m n a m'. 0 \<le> n \<longrightarrow> alloc m n = (a, m') \<longrightarrow> a = 0 \<and> m' = m \<or> new_block m n a m')"

lemma alloc_cases:
  assumes "alloc_ok alloc" "0 \<le> n" obtains a m' where "alloc m n = (a, m')" "a = 0 \<and> m' = m \<or> a \<noteq> 0 \<and> new_block m n a m'"
  using assms unfolding alloc_ok_def by (metis new_block_def less_irrefl old.prod.exhaust)

section \<open>Buffers come and go\<close>

definition moved :: "dec_job \<Rightarrow> addr \<Rightarrow> addr \<Rightarrow> LZ4F_dctx \<Rightarrow> mem \<Rightarrow> LZ4F_dctx \<Rightarrow> mem \<Rightarrow> bool" where
  "moved J s t d m d' m' \<longleftrightarrow> world J d' m' s t \<and> (\<forall>D. user_ok {t..<dst1 J} d m D \<longrightarrow> user_ok {t..<dst1 J} d' m' D) \<and> produced J m' t = produced J m t"

lemma moved_trans: "moved J s t d m d1 m1 \<Longrightarrow> moved J s t d1 m1 d' m' \<Longrightarrow> moved J s t d m d' m'"
  by (simp add: moved_def)

lemma moved_change:
  assumes w: "world J d m s t" and m: "sane m'" "\<And>x. x \<in> dom m \<Longrightarrow> x \<notin> own d \<Longrightarrow> m' x = m x"
    and b: "buffers_ok m' d'" "own d' \<inter> (dom m - own d) = {}"
    and e: "dc_skipChecksum d' = dc_skipChecksum d" "dc_dict d' = dc_dict d" "dc_dictSize d' = dc_dictSize d"
    and g: "dst0 J < dst1 J \<Longrightarrow> out_end d' \<noteq> dst0 J"
  shows "moved J s t d m d' m'"
proof -
  have k: "X \<subseteq> dom m' \<and> X \<inter> own d' = {} \<and> (\<forall>x \<in> X. m' x = m x)" if "X \<subseteq> dom m" "X \<inter> own d = {}" for X
    using that m(2) b(2) by (fastforce simp: domIff)
  have P: "jb_P J \<subseteq> dom m" "jb_P J \<inter> own d = {}" and dst: "{dst0 J..<dst1 J} \<subseteq> dom m" "{dst0 J..<dst1 J} \<inter> own d = {}"
    using w unfolding world_def by blast+
  have "world J d' m' s t" using w k [OF P] k [OF dst] m(1) b(1) e(1) g unfolding world_def by auto
  moreover have "user_ok {t..<dst1 J} d' m' D" if u: "user_ok {t..<dst1 J} d m D" for D
  proof -
    let ?R = "reg (dc_dict d) (dc_dictSize d)"
    have R: "?R \<subseteq> dom m" "?R \<inter> own d = {}" using u by (auto simp: user_ok_def outside_def)
    have "bytes m' (dc_dict d) (dc_dictSize d) = bytes m (dc_dict d) (dc_dictSize d)" by (rule bytes_agree) (use k [OF R] in blast)
    then show ?thesis using u k [OF R] e by (simp add: user_ok_def outside_def)
  qed
  moreover have "produced J m' t = produced J m t"
  proof -
    have "reg (dst0 J) (t - dst0 J) \<subseteq> {dst0 J..<dst1 J}" using world_le(3) [OF w] by auto
    then have "bytes m' (dst0 J) (t - dst0 J) = bytes m (dst0 J) (t - dst0 J)" using k [OF dst] by (intro bytes_agree) blast
    then show ?thesis by (simp add: produced_def)
  qed
  ultimately show ?thesis by (simp add: moved_def)
qed

lemma free_dom:
  assumes "world J d m s t" "reg a n \<subseteq> own d" shows "dom (LZ4F_free m a n) = dom m - reg a n" "x \<notin> reg a n \<Longrightarrow> LZ4F_free m a n x = m x"
proof -
  have "a = 0 \<Longrightarrow> n \<le> 0" using sane_reg [OF world_sane [OF assms(1)] world_own [OF assms]] by force
  then show "dom (LZ4F_free m a n) = dom m - reg a n" by (auto simp: LZ4F_free_def domIff split: if_splits)
  show "x \<notin> reg a n \<Longrightarrow> LZ4F_free m a n x = m x" by (auto simp: LZ4F_free_def)
qed

lemma sane_sub: "sane m \<Longrightarrow> dom m' \<subseteq> dom m \<Longrightarrow> sane m'"
  unfolding sane_def by (meson domIff subsetD)

lemma sane_new: "sane m \<Longrightarrow> new_block m n a m' \<Longrightarrow> sane m'"
  unfolding sane_def new_block_def by (auto simp: domIff set_eq_iff)

lemma free_tmpIn:
  assumes w: "world J d m s t"
  shows "moved J s t d m (d\<lparr>dc_maxBufferSize := 0, dc_tmpIn := 0, dc_tmpInCap := 0\<rparr>) (LZ4F_free m (dc_tmpIn d) (dc_tmpInCap d))"
    (is "moved J s t d m ?d ?m")
proof -
  note f = free_dom [OF w own_parts(2)]
  have b: "buffers_ok m d" "own d \<subseteq> dom m" using w by (auto simp: world_def buffers_ok_def)
  have o: "own ?d = reg (dc_header d) 19 \<union> reg (dc_tmpOutBuffer d) (dc_tmpOutCap d)" by (auto simp: own_def)
  have "own ?d \<subseteq> dom ?m" unfolding f(1) o using b unfolding buffers_ok_def own_def by blast
  then have "buffers_ok ?m ?d" using b(1) by (simp add: buffers_ok_def)
  moreover have "own ?d \<subseteq> own d" unfolding o using own_parts [of d] by blast
  moreover have "?m x = m x" if "x \<notin> own d" for x using f(2) [of x] own_parts(2) [of d] that by blast
  moreover have "sane ?m" using sane_sub [OF world_sane [OF w]] f(1) by blast
  moreover have "dst0 J < dst1 J \<Longrightarrow> out_end d \<noteq> dst0 J" using w by (simp add: world_def)
  ultimately show ?thesis by (intro moved_change [OF w]) auto
qed

lemma free_tmpOut:
  assumes w: "world J d m s t" and z: "dc_maxBufferSize d = 0"
  shows "moved J s t d m (d\<lparr>dc_tmpOutBuffer := 0, dc_tmpOutCap := 0\<rparr>) (LZ4F_free m (dc_tmpOutBuffer d) (dc_tmpOutCap d))"
    (is "moved J s t d m ?d ?m")
proof -
  note f = free_dom [OF w own_parts(3)]
  have b: "buffers_ok m d" "own d \<subseteq> dom m" using w by (auto simp: world_def buffers_ok_def)
  have o: "own ?d = reg (dc_header d) 19 \<union> reg (dc_tmpIn d) (dc_tmpInCap d)" by (auto simp: own_def)
  have "own ?d \<subseteq> dom ?m" unfolding f(1) o using b unfolding buffers_ok_def own_def by blast
  then have "buffers_ok ?m ?d" using b(1) z by (simp add: buffers_ok_def)
  moreover have "own ?d \<subseteq> own d" unfolding o using own_parts [of d] by blast
  moreover have "dst0 J < dst1 J \<Longrightarrow> dst0 J \<noteq> 0"
  proof -
    assume "dst0 J < dst1 J"
    then have "dst0 J \<in> dom m" using w unfolding world_def by auto
    then show "dst0 J \<noteq> 0" using w by (auto simp: world_def sane_def)
  qed
  moreover have "?m x = m x" if "x \<notin> own d" for x using f(2) [of x] own_parts(3) [of d] that by blast
  moreover have "sane ?m" using sane_sub [OF world_sane [OF w]] f(1) by blast
  ultimately show ?thesis by (intro moved_change [OF w]) auto
qed

lemma new_fresh:
  assumes "world J d m s t" "new_block m n a m'"
  shows "reg a n \<inter> dom m = {}" "reg a n \<subseteq> dom m'" "dom m \<subseteq> dom m'" "\<And>x. x \<in> dom m \<Longrightarrow> m' x = m x" "sane m'" "own d \<subseteq> dom m"
proof -
  have "reg a n \<subseteq> {a..a + n}" by auto
  then show "reg a n \<inter> dom m = {}" using assms(2) unfolding new_block_def by blast
qed (use assms world_sane [OF assms(1)] sane_new in \<open>auto simp: new_block_def world_def buffers_ok_def\<close>)

lemma alloc_tmpIn:
  assumes w: "world J d m s t" and z: "dc_maxBufferSize d = 0" "dc_tmpInCap d = 0" and n: "0 \<le> n" and a: "new_block m n a m'"
  shows "moved J s t d m (d\<lparr>dc_tmpIn := a, dc_tmpInCap := n\<rparr>) m'" (is "moved J s t d m ?d m'")
proof -
  note f = new_fresh [OF w a]
  have b: "buffers_ok m d" using w by (simp add: world_def)
  have o: "own ?d = own d \<union> reg a n" using z by (auto simp: own_def)
  have p: "reg (dc_header d) 19 \<subseteq> dom m" "reg (dc_tmpOutBuffer d) (dc_tmpOutCap d) \<subseteq> dom m" using f(6) own_parts [of d] by blast+
  have "own ?d \<subseteq> dom m'" using f unfolding o by blast
  moreover have "reg (dc_header d) 19 \<inter> reg a n = {}" "reg a n \<inter> reg (dc_tmpOutBuffer d) (dc_tmpOutCap d) = {}" using f(1) p by blast+
  ultimately have "buffers_ok m' ?d" using b z n unfolding buffers_ok_def by simp
  moreover have "own ?d \<inter> (dom m - own d) = {}" using f(1) unfolding o by blast
  moreover have "dst0 J < dst1 J \<Longrightarrow> out_end d \<noteq> dst0 J" using w by (simp add: world_def)
  ultimately show ?thesis using f(4,5) by (intro moved_change [OF w]) auto
qed

lemma alloc_tmpOut:
  assumes w: "world J d m s t" and z: "dc_maxBufferSize d = 0" "dc_tmpOutCap d = 0" and n: "0 \<le> n" and a: "new_block m n a m'"
    and k: "dc_tmpInCap d - 4 \<in> block_sizes" "n = dc_tmpInCap d - 4 \<or> n = dc_tmpInCap d - 4 + 131072"
  shows "moved J s t d m (d\<lparr>dc_tmpOutBuffer := a, dc_tmpOutCap := n, dc_maxBufferSize := n\<rparr>) m'" (is "moved J s t d m ?d m'")
proof -
  note f = new_fresh [OF w a]
  have b: "buffers_ok m d" using w by (simp add: world_def)
  have o: "own ?d = own d \<union> reg a n" using z by (auto simp: own_def)
  have p: "reg (dc_header d) 19 \<subseteq> dom m" "reg (dc_tmpIn d) (dc_tmpInCap d) \<subseteq> dom m" using f(6) own_parts [of d] by blast+
  have "own ?d \<subseteq> dom m'" using f unfolding o by blast
  moreover have "reg (dc_header d) 19 \<inter> reg a n = {}" "reg (dc_tmpIn d) (dc_tmpInCap d) \<inter> reg a n = {}" using f(1) p by blast+
  ultimately have "buffers_ok m' ?d" using b n k unfolding buffers_ok_def by simp
  moreover have "own ?d \<inter> (dom m - own d) = {}" using f(1) unfolding o by blast
  moreover have "a + n \<noteq> dst0 J" if "dst0 J < dst1 J"
  proof -
    have "{a..a + n} \<inter> dom m = {}" using a by (simp add: new_block_def)
    moreover have "a + n \<in> {a..a + n}" using n by simp
    ultimately have "a + n \<notin> dom m" by blast
    moreover have "{dst0 J..<dst1 J} \<subseteq> dom m" using w by (simp add: world_def)
    then have "dst0 J \<in> dom m" using that by auto
    ultimately show ?thesis by metis
  qed
  ultimately show ?thesis using f(4,5) by (intro moved_change [OF w]) auto
qed

lemma realloc_ok:
  assumes w: "world J d m s t" and al: "alloc_ok alloc" and k: "dc_maxBlockSize d \<in> block_sizes" "n = dc_maxBlockSize d \<or> n = dc_maxBlockSize d + 131072"
  shows "\<exists>ok d' m'. realloc_buffers alloc n d m = (ok, d', m') \<and> moved J s t d m d' m' \<and>
    (ok \<longrightarrow> (\<exists>p q. d' = d\<lparr>dc_tmpIn := p, dc_tmpInCap := dc_maxBlockSize d + 4, dc_tmpOutBuffer := q, dc_tmpOutCap := n, dc_maxBufferSize := n\<rparr>))"
proof -
  let ?n = "dc_maxBlockSize d + 4"
  have n: "0 \<le> ?n" "0 \<le> n" using k by (auto simp: block_sizes_def)
  define m1 where "m1 = LZ4F_free m (dc_tmpIn d) (dc_tmpInCap d)"
  let ?d1 = "d\<lparr>dc_maxBufferSize := 0, dc_tmpIn := 0, dc_tmpInCap := 0\<rparr>"
  have v1: "moved J s t d m ?d1 m1" using free_tmpIn [OF w] by (simp add: m1_def)
  then have w1: "world J ?d1 m1 s t" by (simp add: moved_def)
  obtain p m2 where p: "alloc m1 ?n = (p, m2)" "p = 0 \<and> m2 = m1 \<or> p \<noteq> 0 \<and> new_block m1 ?n p m2" by (rule alloc_cases [OF al n(1)])
  show ?thesis
  proof (cases "p = 0")
    case True
    then have "realloc_buffers alloc n d m = (False, ?d1, m1)" using p by (simp add: realloc_buffers_def m1_def [symmetric] Let_def)
    then show ?thesis using v1 by blast
  next
    case False
    let ?d2 = "d\<lparr>dc_maxBufferSize := 0, dc_tmpIn := p, dc_tmpInCap := ?n\<rparr>"
    have "moved J s t ?d1 m1 ?d2 m2" using alloc_tmpIn [OF w1 _ _ n(1), of p m2] p False by simp
    then have v2: "moved J s t d m ?d2 m2" by (rule moved_trans [OF v1])
    then have w2: "world J ?d2 m2 s t" unfolding moved_def by blast
    define m3 where "m3 = LZ4F_free m2 (dc_tmpOutBuffer d) (dc_tmpOutCap d)"
    let ?d3 = "d\<lparr>dc_maxBufferSize := 0, dc_tmpIn := p, dc_tmpInCap := ?n, dc_tmpOutBuffer := 0, dc_tmpOutCap := 0\<rparr>"
    have "moved J s t ?d2 m2 ?d3 m3" using free_tmpOut [OF w2] by (simp add: m3_def)
    then have v3: "moved J s t d m ?d3 m3" by (rule moved_trans [OF v2])
    then have w3: "world J ?d3 m3 s t" unfolding moved_def by blast
    obtain q m4 where q: "alloc m3 n = (q, m4)" "q = 0 \<and> m4 = m3 \<or> q \<noteq> 0 \<and> new_block m3 n q m4" by (rule alloc_cases [OF al n(2)])
    show ?thesis
    proof (cases "q = 0")
      case True
      then have "realloc_buffers alloc n d m = (False, ?d3, m3)"
        using p q False by (simp add: realloc_buffers_def m1_def [symmetric] m3_def [symmetric] Let_def)
      then show ?thesis using v3 by blast
    next
      case q0: False
      let ?d4 = "d\<lparr>dc_tmpIn := p, dc_tmpInCap := ?n, dc_tmpOutBuffer := q, dc_tmpOutCap := n, dc_maxBufferSize := n\<rparr>"
      have "moved J s t ?d3 m3 ?d4 m4" using alloc_tmpOut [OF w3 _ _ n(2), of q m4] q q0 k by simp
      then have v4: "moved J s t d m ?d4 m4" by (rule moved_trans [OF v3])
      have "realloc_buffers alloc n d m = (True, ?d4, m4)"
        using p q False q0 by (simp add: realloc_buffers_def m1_def [symmetric] m3_def [symmetric] Let_def)
      then show ?thesis using v4 by blast
    qed
  qed
qed

section \<open>The set-up of a frame\<close>

lemma blockSize_ok:
  assumes "frameInfo_ok cs di fi" shows "blockSize_of fi \<in> block_sizes"
proof -
  have "4 \<le> blockSizeID fi \<and> blockSizeID fi \<le> 7" using assms by (simp add: frameInfo_ok_def)
  then have "blockSizeID fi = 4 \<or> blockSizeID fi = 5 \<or> blockSizeID fi = 6 \<or> blockSizeID fi = 7" by presburger
  then show ?thesis using getBlockSize_known [of "blockSizeID fi"] by (simp add: known_blockSizeID_def block_sizes_def)
qed

lemma buffers_enough:
  assumes "buffers_ok m d" "dc_maxBlockSize d \<in> block_sizes" "dc_maxBlockSize d + e \<le> dc_maxBufferSize d" "0 \<le> e"
  shows "dc_maxBlockSize d + 4 \<le> dc_tmpInCap d" "dc_tmpOutCap d = dc_maxBufferSize d"
proof -
  have b: "dc_maxBufferSize d = 0 \<or> dc_tmpInCap d - 4 \<in> block_sizes \<and> dc_tmpOutCap d = dc_maxBufferSize d \<and>
      (dc_maxBufferSize d = dc_tmpInCap d - 4 \<or> dc_maxBufferSize d = dc_tmpInCap d - 4 + 131072)"
    using assms(1) unfolding buffers_ok_def by blast
  have "dc_maxBufferSize d \<noteq> 0" using assms(2-4) by (auto simp: block_sizes_def)
  then show "dc_maxBlockSize d + 4 \<le> dc_tmpInCap d" "dc_tmpOutCap d = dc_maxBufferSize d"
    using b assms(2-4) by (auto simp: block_sizes_def)
qed

lemma buffer_simps [simp]:
  "blocks_read (d\<lparr>dc_tmpIn := v0\<rparr>) D C T p = blocks_read d D C T p" "sums_ok (d\<lparr>dc_tmpIn := v0\<rparr>) T = sums_ok d T"
  "blocks_read (d\<lparr>dc_tmpInCap := v1\<rparr>) D C T p = blocks_read d D C T p" "sums_ok (d\<lparr>dc_tmpInCap := v1\<rparr>) T = sums_ok d T"
  "blocks_read (d\<lparr>dc_tmpOutBuffer := v2\<rparr>) D C T p = blocks_read d D C T p" "sums_ok (d\<lparr>dc_tmpOutBuffer := v2\<rparr>) T = sums_ok d T"
  "blocks_read (d\<lparr>dc_tmpOutCap := v3\<rparr>) D C T p = blocks_read d D C T p" "sums_ok (d\<lparr>dc_tmpOutCap := v3\<rparr>) T = sums_ok d T"
  "blocks_read (d\<lparr>dc_maxBufferSize := v4\<rparr>) D C T p = blocks_read d D C T p" "sums_ok (d\<lparr>dc_maxBufferSize := v4\<rparr>) T = sums_ok d T"
  unfolding blocks_read_def sums_ok_def by simp_all

lemma init_ok:
  assumes i: "inv J (d, m, s, t)" and st: "dc_dStage d = dstage_init" and al: "alloc_ok alloc"
  shows "\<exists>e. stage_init alloc (jb_E J) (d, m, s, t) = Some e \<and> exit_ok J (d, m, s, t) e"
proof -
  let ?W = "{t..<dst1 J}" and ?D = "jb_D J" and ?fi = "dc_frameInfo d"
  have w: "world J d m s t" using i by (simp add: inv_def)
  have k: "produced J m t = []" "user_ok ?W d m ?D" "dc_maxBlockSize d = blockSize_of ?fi" "dc_frameRemainingSize d = contentSize ?fi"
      "blocks_read d ?D (consumed J s) [] []"
    using i st no_blocks_read [of _ _ d] unfolding inv_def stage_ok_def by auto
  define e where "e = (if linked ?fi then 131072 else 0 :: int)"
  define d1 where "d1 = (if contentChecksumFlag ?fi = LZ4F_contentChecksumEnabled then d\<lparr>dc_xxh := snd (XXH32_reset 0)\<rparr> else d)"
  have d1: "mem_fields d1 = mem_fields d" "dc_frameInfo d1 = ?fi" "dc_maxBlockSize d1 = dc_maxBlockSize d" "dc_dStage d1 = dstage_init"
      "dc_maxBufferSize d1 = dc_maxBufferSize d" "blocks_read d1 ?D (consumed J s) [] []" "user_ok ?W d1 m ?D" "sums_ok d1 []"
    using k st reset32_ok by (auto simp: d1_def mem_fields_def sums_ok_def)
  have w1: "world J d1 m s t" using w world_cong [OF d1(1)] by blast
  have bs: "dc_maxBlockSize d \<in> block_sizes" using k(3,5) blockSize_ok by (auto simp: blocks_read_def)
  have need: "dc_maxBlockSize d + (if blockMode ?fi = LZ4F_blockLinked then 128 * 2 ^ 10 else 0) = dc_maxBlockSize d + e"
    by (simp add: e_def linked_def)
  let ?n = "dc_maxBlockSize d + e"
  obtain ok d2 m2 where r: "(if ?n > dc_maxBufferSize d1 then realloc_buffers alloc ?n d1 m else (True, d1, m)) = (ok, d2, m2)"
      and v: "moved J s t d1 m d2 m2" and fin: "ok \<Longrightarrow> dc_maxBlockSize d + 4 \<le> dc_tmpInCap d2 \<and> ?n \<le> dc_tmpOutCap d2 \<and> dc_tmpOutCap d2 = dc_maxBufferSize d2 \<and>
        dc_frameInfo d2 = ?fi \<and> dc_maxBlockSize d2 = dc_maxBlockSize d \<and> blocks_read d2 ?D (consumed J s) [] [] \<and> sums_ok d2 []"
  proof (cases "?n > dc_maxBufferSize d1")
    case True
    obtain ok d2 m2 where r: "realloc_buffers alloc ?n d1 m = (ok, d2, m2)" "moved J s t d1 m d2 m2"
        "ok \<longrightarrow> (\<exists>p q. d2 = d1\<lparr>dc_tmpIn := p, dc_tmpInCap := dc_maxBlockSize d1 + 4, dc_tmpOutBuffer := q, dc_tmpOutCap := ?n, dc_maxBufferSize := ?n\<rparr>)"
    proof -
      have "?n = dc_maxBlockSize d1 \<or> ?n = dc_maxBlockSize d1 + 131072" by (simp add: d1(3) e_def)
      then show ?thesis using realloc_ok [OF w1 al, of ?n] bs that unfolding d1(3) by blast
    qed
    show ?thesis by (rule that [of ok d2 m2]) (use True r d1 in auto)
  next
    case False
    have "buffers_ok m d1" using w1 by (simp add: world_def)
    then have "dc_maxBlockSize d + 4 \<le> dc_tmpInCap d1 \<and> ?n \<le> dc_tmpOutCap d1 \<and> dc_tmpOutCap d1 = dc_maxBufferSize d1"
      using buffers_enough [of m d1 e] bs False by (auto simp: d1(3) e_def)
    then show ?thesis using False d1 w1 by (intro that [of True d1 m]) (auto simp: moved_def)
  qed
  show ?thesis
  proof (cases ok)
    case False
    then have "stage_init alloc (jb_E J) (d, m, s, t) = return_error LZ4F_ERROR_allocation_failed (d2, m2, s, t)"
      using r unfolding stage_init_def prod.case d1_def [symmetric] Let_def d1(2,3) need by simp
    then show ?thesis using exit_refused [of J d2 m2 s t] v by (simp add: return_error_def moved_def)
  next
    case True
    let ?d = "d2\<lparr>dc_tmpInSize := 0, dc_tmpInTarget := 0, dc_tmpOut := dc_tmpOutBuffer d2, dc_tmpOutStart := 0, dc_tmpOutSize := 0, dc_dStage := dstage_getBlockHeader\<rparr>"
    have "world J ?d m2 s t" using v world_cong [of ?d d2] by (simp add: moved_def mem_fields_def)
    moreover have "block_hist_ok ?W ?d m2 ?D []"
      using v d1(7) by (auto simp: moved_def block_hist_ok_def hist_ok_def user_ok_def)
    moreover have "ready ?d" using fin [OF True] bs k(3) by (simp add: ready_def e_def)
    ultimately have "inv J (?d, m2, s, t)" using fin [OF True] v k(1) by (simp add: inv_def stage_ok_def in_frame_def moved_def)
    then obtain x where "stage_getBlockHeader (jb_E J) (?d, m2, s, t) = Some x" "exit_ok J (?d, m2, s, t) x"
      using getBlockHeader_ok [of J ?d m2 s t] by auto
    then show ?thesis using st exit_mono [of J "(?d, m2, s, t)" x "(d, m, s, t)"] r True
      unfolding stage_init_def prod.case d1_def [symmetric] Let_def d1(2,3) need by (simp add: rank_plain)
  qed
qed

end
