(* ===== verification/LZ4F_DecRaw.thy ===== *)
theory LZ4F_DecRaw
  imports LZ4F_DecAlloc
begin

text \<open>The stages of the frame decoder keep its invariant: uncompressed blocks and their checksums.\<close>

section \<open>Checksums and sizes of the content\<close>

lemma hash_if_ok:
  assumes "valid m p n" "0 \<le> n" "0 \<le> p" "0 < n \<longrightarrow> 0 < p" "c \<longrightarrow> state32_ok 0 x st"
  shows "\<exists>st'. hash_if c st m p n = Some st' \<and> (c \<longrightarrow> state32_ok 0 (x @ bytes m p n) st')"
proof (cases "c \<and> 0 < p")
  case True
  then obtain st' where "XXH32_update st m p n = Some (XXH_OK, st')" "state32_ok 0 (x @ bytes m p n) st'"
    using inc32.absorbs [of 0 x st m p n] assms by auto
  then show ?thesis using True by (simp add: hash_if_def)
next
  case False
  then have "c \<longrightarrow> p = 0 \<and> n = 0" using assms(2-4) by auto
  then show ?thesis using assms(5)
    by (simp add: hash_if_def XXH32_update_def XXH32_update_endian_def)
qed

text \<open>The record of \<open>n\<close> further bytes of content, as the code makes it.\<close>

definition counted :: "LZ4F_dctx \<Rightarrow> XXH32_state_t \<Rightarrow> int \<Rightarrow> LZ4F_dctx" where
  "counted d xxh n = (if contentSize (dc_frameInfo d) \<noteq> 0 then d\<lparr>dc_xxh := xxh, dc_frameRemainingSize := dc_frameRemainingSize d - word_of_int n\<rparr>
     else d\<lparr>dc_xxh := xxh\<rparr>)"

lemma counted_ok:
  assumes "sums_ok d T" "contentChecksumFlag (dc_frameInfo d) = LZ4F_contentChecksumEnabled \<and> \<not> dc_skipChecksum d \<longrightarrow> state32_ok 0 (T @ x) xxh" "n = int (length x)"
  shows "sums_ok (counted d xxh n) (T @ x)"
  using assms by (auto simp: sums_ok_def counted_def)

lemma counted_simps [simp]:
  "mem_fields (counted d xxh n) = mem_fields d" "dc_frameInfo (counted d xxh n) = dc_frameInfo d" "dc_tmpInTarget (counted d xxh n) = dc_tmpInTarget d"
  "dc_blockChecksum (counted d xxh n) = dc_blockChecksum d" "dc_skipChecksum (counted d xxh n) = dc_skipChecksum d" "dc_maxBlockSize (counted d xxh n) = dc_maxBlockSize d"
  "ready (counted d xxh n) = ready d" "blocks_read (counted d xxh n) D C T p = blocks_read d D C T p" "own (counted d xxh n) = own d"
  "block_hist_ok W (counted d xxh n) m D T = block_hist_ok W d m D T"
  "dc_tmpOut (counted d xxh n) = dc_tmpOut d" "dc_tmpOutBuffer (counted d xxh n) = dc_tmpOutBuffer d" "dc_tmpOutCap (counted d xxh n) = dc_tmpOutCap d"
  "dc_dStage (counted d xxh n) = dc_dStage d" "dc_dict (counted d xxh n) = dc_dict d" "dc_dictSize (counted d xxh n) = dc_dictSize d"
  by (simp_all add: counted_def mem_fields_def)

section \<open>The history after new output\<close>

definition hist_updated :: "dec_job \<Rightarrow> LZ4F_dctx \<Rightarrow> mem \<Rightarrow> addr \<Rightarrow> int \<Rightarrow> byte list \<Rightarrow> LZ4F_dctx \<Rightarrow> mem \<Rightarrow> bool" where
  "hist_updated J d m t n T d' m' \<longleftrightarrow> (\<exists>a z. d' = set_dict d a z) \<and> frame m m' (dc_tmpOutBuffer d) (out_end d) \<and>
     block_hist_ok {t + n..<dst1 J} d' m' (jb_D J) (T @ bytes m t n)"

lemma update_block_hist:
  assumes w: "world J d m s t" and r: "ready d" and h: "block_hist_ok {t..<dst1 J} d m (jb_D J) T" and T: "T = produced J m t"
    and n: "0 \<le> n" "t + n \<le> dst1 J" "t \<noteq> 0"
  shows "\<exists>d' m'. (if blockMode (dc_frameInfo d) = LZ4F_blockLinked then LZ4F_updateDict d m t n (dst0 J) False else Some (d, m)) = Some (d', m') \<and>
    hist_updated J d m t n T d' m'"
proof (cases "linked (dc_frameInfo d)")
  case True
  have h': "hist_ok {t..<dst1 J} d m (jb_D J @ T)" using h True by (simp add: block_hist_ok_def)
  obtain d' m' where u: "LZ4F_updateDict d m t n (dst0 J) False = Some (d', m')" "dict_updated J d m t n (jb_D J @ T) d' m'"
    using updateDict_direct [OF w r True h' n] produced_suffix [of m J t "jb_D J"] T by auto
  then have "hist_updated J d m t n T d' m'" using True by (auto simp: hist_updated_def dict_updated_def block_hist_ok_def)
  then show ?thesis using u(1) True by (simp add: linked_def)
next
  case False
  have "block_hist_ok {t + n..<dst1 J} d m (jb_D J) (T @ bytes m t n)"
    using h False n outside_mono [of "{t..<dst1 J}" d m "{t + n..<dst1 J}"] by (simp add: block_hist_ok_def user_ok_def)
  moreover have "d = set_dict d (dc_dict d) (dc_dictSize d)" by simp
  ultimately have "hist_updated J d m t n T d m" unfolding hist_updated_def using frame_refl by blast
  then show ?thesis using False by (auto simp: linked_def)
qed

lemma hist_updated_world:
  assumes w: "world J d m s t" and u: "hist_updated J d m t n T d' m'" and n: "0 \<le> n" "t + n \<le> dst1 J"
  shows "world J d' m' s (t + n)" "produced J m' (t + n) = produced J m t @ bytes m t n" "bytes m' s k = bytes m s k \<or> s + k > src1 J"
proof -
  obtain a z where d': "d' = set_dict d a z" using u by (auto simp: hist_updated_def)
  have w1: "world J d m s (t + n)" using world_pos [OF w] n world_le [OF w] by simp
  have f: "frame m m' (dc_tmpOutBuffer d) (out_end d)" "{dc_tmpOutBuffer d..<out_end d} \<subseteq> own d \<union> {t + n..<dst1 J}"
    using u own_parts(3) [of d] by (auto simp: hist_updated_def)
  have "world J d m' s (t + n)" using world_write [OF w1 f] .
  then show "world J d' m' s (t + n)" using world_cong [of d' d] by (simp add: d' mem_fields_def)
  show "produced J m' (t + n) = produced J m t @ bytes m t n"
    using produced_write [OF w1 f] produced_add [of J t n m] world_le(2) [OF w] n by simp
  show "bytes m' s k = bytes m s k \<or> s + k > src1 J"
  proof (cases "0 \<le> k \<and> s + k \<le> src1 J")
    case True
    then have "reg s k \<inter> {dc_tmpOutBuffer d..<out_end d} = {}" using world_src(2) [OF w, of k] own_parts(3) [of d] by blast
    then show ?thesis using bytes_out [OF f(1)] by blast
  qed auto
qed

section \<open>Uncompressed blocks\<close>

lemma raw_block:
  assumes "blocks_read d D C T1 (size_field True (length x) @ x @ c)" "int (length x) \<le> blockSize_of (dc_frameInfo d)"
    "length c = length (block_crc (dc_frameInfo d) x)" "\<not> dc_skipChecksum d \<longrightarrow> c = block_crc (dc_frameInfo d) x"
  shows "blocks_read d D C (T1 @ x) []"
proof -
  obtain cs di B where b: "frameInfo_ok cs di (dc_frameInfo d)" "frame_blocks (dc_frameInfo d) (\<not> dc_skipChecksum d) D B T1"
      "C = header_bytes cs di (dc_frameInfo d) @ B @ size_field True (length x) @ x @ c"
    using assms(1) unfolding blocks_read_def by blast
  have "frame_blocks (dc_frameInfo d) (\<not> dc_skipChecksum d) D (B @ size_field True (length x) @ x @ c) (T1 @ x)"
    by (rule frame_blocks.raw [OF b(2) assms(2,3)]) (use assms(4) in simp)
  then show ?thesis unfolding blocks_read_def using b(1,3) by auto
qed

text \<open>How the stage is left when \<open>n\<close> of the missing bytes were copied.\<close>

definition copy_exit :: "LZ4F_dctx \<Rightarrow> mem \<Rightarrow> addr \<Rightarrow> addr \<Rightarrow> int \<Rightarrow> stage_exit" where
  "copy_exit d m s t n =
     (if n = dc_tmpInTarget d then
        if blockChecksumFlag (dc_frameInfo d) = LZ4F_blockChecksumEnabled then Again (d\<lparr>dc_tmpInSize := 0, dc_dStage := dstage_getBlockChecksum\<rparr>, m, s, t)
        else Again (d\<lparr>dc_dStage := dstage_getBlockHeader\<rparr>, m, s, t)
      else Stop (dc_tmpInTarget d - n + (if blockChecksumFlag (dc_frameInfo d) = LZ4F_blockChecksumEnabled then BFSize else 0) + BHSize)
        (d\<lparr>dc_tmpInTarget := dc_tmpInTarget d - n\<rparr>, m, s, t))"

lemma copy_exit_ok:
  assumes w: "world J d m s t" and T: "produced J m t = T1 @ x" and n: "0 \<le> n" "n \<le> dc_tmpInTarget d"
    and z: "int (length x) + (dc_tmpInTarget d - n) \<le> dc_maxBlockSize d" and st: "dc_dStage d = dstage_copyDirect"
    and c: "in_frame {t..<dst1 J} d m (jb_D J) (consumed J s) T1 (T1 @ x) (size_field True (length x + nat (dc_tmpInTarget d - n)) @ x)"
    and h: "blockChecksumFlag (dc_frameInfo d) = LZ4F_blockChecksumEnabled \<and> \<not> dc_skipChecksum d \<longrightarrow> state32_ok 0 x (dc_blockChecksum d)"
    and rank: "2 * nat (src1 J - s) < rank J pos"
  shows "exit_ok J pos (copy_exit d m s t n)"
proof -
  let ?W = "{t..<dst1 J}" and ?D = "jb_D J" and ?en = "blockChecksumFlag (dc_frameInfo d) = LZ4F_blockChecksumEnabled"
  have wd: "world J d' m s t" if "mem_fields d' = mem_fields d" for d' using world_cong [OF that] w by blast
  have rd: "ready d" using c by (simp add: in_frame_def)
  have mx: "dc_maxBlockSize d = blockSize_of (dc_frameInfo d)" "dc_maxBlockSize d \<le> 4194304" using rd ready_in(2) by (auto simp: ready_def)
  consider (crc) "n = dc_tmpInTarget d" ?en | (whole) "n = dc_tmpInTarget d" "\<not> ?en" | (more) "n \<noteq> dc_tmpInTarget d" by blast
  then show ?thesis
  proof cases
    case crc
    let ?d = "d\<lparr>dc_tmpInSize := 0, dc_dStage := dstage_getBlockChecksum\<rparr>"
    have i: "in_frame ?W ?d m ?D (consumed J s) T1 (T1 @ x) (size_field True (length x) @ x @ bytes m (dc_header d) 0)" using c crc by simp
    have "stage_ok ?W ?d m ?D (consumed J s) (produced J m t)"
      using i crc z h T unfolding stage_ok_def by simp (rule exI [of _ T1], rule exI [of _ x], simp)
    then have "exit_ok J pos (Again (?d, m, s, t))" using wd [of ?d] rank by (intro exit_Again) (simp_all add: mem_fields_def rank_plain)
    then show ?thesis using crc by (simp add: copy_exit_def)
  next
    case whole
    let ?d = "d\<lparr>dc_dStage := dstage_getBlockHeader\<rparr>"
    have "blocks_read d ?D (consumed J s) (T1 @ x) []"
      by (rule raw_block [of _ _ _ _ _ "[]"]) (use c whole z mx(1) in \<open>simp_all add: in_frame_def block_crc_def\<close>)
    then have "stage_ok ?W ?d m ?D (consumed J s) (produced J m t)" using c T by (simp add: stage_ok_def in_frame_def)
    then have "exit_ok J pos (Again (?d, m, s, t))" using wd [of ?d] rank by (intro exit_Again) (simp_all add: mem_fields_def rank_plain)
    then show ?thesis using whole by (simp add: copy_exit_def)
  next
    case more
    let ?d = "d\<lparr>dc_tmpInTarget := dc_tmpInTarget d - n\<rparr>"
    have "stage_ok ?W ?d m ?D (consumed J s) (produced J m t)"
      by (rule copyDirectI [of _ _ T1 x]) (use st T n z c h in simp_all)
    then have "exit_ok J pos (Stop (dc_tmpInTarget d - n + (if ?en then BFSize else 0) + BHSize) (?d, m, s, t))"
      using wd [of ?d] n z mx(2) st by (intro exit_Stop) (simp_all add: mem_fields_def)
    then show ?thesis using more by (simp add: copy_exit_def)
  qed
qed

lemma copyDirect_ok:
  assumes i: "inv J (d, m, s, t)" and st: "dc_dStage d = dstage_copyDirect"
  shows "\<exists>e. stage_copyDirect (jb_E J) (d, m, s, t) = Some e \<and> exit_ok J (d, m, s, t) e"
proof -
  let ?W = "{t..<dst1 J}" and ?D = "jb_D J" and ?fi = "dc_frameInfo d" and ?T = "produced J m t"
  define g where g: "g = dc_tmpInTarget d"
  have w: "world J d m s t" using i by (simp add: inv_def)
  obtain T1 x where k: "?T = T1 @ x" "0 \<le> g" "int (length x) + g \<le> dc_maxBlockSize d"
      "in_frame ?W d m ?D (consumed J s) T1 ?T (size_field True (length x + nat g) @ x)"
      "blockChecksumFlag ?fi = LZ4F_blockChecksumEnabled \<and> \<not> dc_skipChecksum d \<longrightarrow> state32_ok 0 x (dc_blockChecksum d)"
    using i unfolding inv_def prod.case stage_ok_def st dStage_t.case g [symmetric] by blast
  have rk: "2 * nat (src1 J - s) < rank J (d, m, s, t)" using st by (simp add: rank_def)
  show ?thesis
  proof (cases "t = 0")
    case True
    have "stage_copyDirect (jb_E J) (d, m, s, t) = Some (copy_exit d m s t 0)" using True by (simp add: stage_copyDirect_def copy_exit_def)
    moreover have "exit_ok J (d, m, s, t) (copy_exit d m s t 0)"
      by (rule copy_exit_ok [OF w k(1) order_refl]) (use k st rk in \<open>simp_all add: g\<close>)
    ultimately show ?thesis by blast
  next
    case False
    define n where "n = min g (min (src1 J - s) (dst1 J - t))"
    have n: "0 \<le> n" "n \<le> g" "s + n \<le> src1 J" "t + n \<le> dst1 J" using k(2) world_le [OF w] by (auto simp: n_def)
    have src: "reg s n \<subseteq> dom m" "reg s n \<inter> {dst0 J..<dst1 J} = {}" using world_src [OF w n(1,3)] by simp_all
    have dst: "reg t n \<subseteq> dom m" "reg t n \<subseteq> {dst0 J..<dst1 J}" using world_dst(1) [OF w world_le(2) [OF w] n(4)] world_le [OF w] n(4) by auto
    obtain m1 where m1: "LZ4_memcpy m t s n = Some m1" "frame m m1 t (t + n)" "bytes m1 t n = bytes m s n"
      using memcpy_region [OF n(1) dst(1) src(1)] src(2) dst(2) by blast
    have sub: "{t..<t + n} \<subseteq> front d \<union> ?W" "{t..<t + n} \<subseteq> own d \<union> ?W" using n(4) by auto
    have w1: "world J d m1 s t" by (rule world_write [OF w m1(2) sub(2)])
    have T1: "produced J m1 t = ?T" by (rule produced_write [OF w m1(2) sub(2)])
    have sb: "bytes m1 s n = bytes m s n" by (rule bytes_out [OF m1(2)]) (use src(2) dst(2) in blast)
    have i1: "in_frame ?W d m1 ?D (consumed J s) T1 ?T (size_field True (length x + nat g) @ x)"
      using world_le [OF w] by (intro in_frame_write [OF w k(4) m1(2) sub(1)]) auto
    have v: "valid m1 s n" "0 < n \<longrightarrow> 0 < s" "0 \<le> s"
      using world_src(1) [OF w1 n(1,3)] sane_reg [OF world_sane [OF w1]] world_le(4) [OF w] by (auto simp: valid_reg)
    obtain bc where bc: "hash_if (\<not> dc_skipChecksum d \<and> blockChecksumFlag ?fi = LZ4F_blockChecksumEnabled) (dc_blockChecksum d) m1 s n = Some bc"
        "\<not> dc_skipChecksum d \<and> blockChecksumFlag ?fi = LZ4F_blockChecksumEnabled \<longrightarrow> state32_ok 0 (x @ bytes m s n) bc"
      using hash_if_ok [OF v(1) n(1) v(3,2)] k(5) sb by metis
    obtain xxh where xxh: "hash_if (\<not> dc_skipChecksum d \<and> contentChecksumFlag ?fi = LZ4F_contentChecksumEnabled) (dc_xxh d) m1 s n = Some xxh"
        "\<not> dc_skipChecksum d \<and> contentChecksumFlag ?fi = LZ4F_contentChecksumEnabled \<longrightarrow> state32_ok 0 (?T @ bytes m s n) xxh"
    proof -
      have "\<not> dc_skipChecksum d \<and> contentChecksumFlag ?fi = LZ4F_contentChecksumEnabled \<longrightarrow> state32_ok 0 ?T (dc_xxh d)"
        using k(4) by (simp add: in_frame_def sums_ok_def)
      then show ?thesis using hash_if_ok [OF v(1) n(1) v(3,2), of _ ?T "dc_xxh d"] that sb by metis
    qed
    define d2 where "d2 = counted (d\<lparr>dc_blockChecksum := bc\<rparr>) xxh n"
    have w2: "world J d2 m1 s t" using w1 world_cong [of d2 d] by (simp add: d2_def) (simp add: mem_fields_def)
    have h2: "block_hist_ok ?W d2 m1 ?D ?T" "ready d2" using i1 by (auto simp: in_frame_def d2_def)
    obtain d3 m3 where u: "(if blockMode (dc_frameInfo d2) = LZ4F_blockLinked then LZ4F_updateDict d2 m1 t n (dst0 J) False else Some (d2, m1)) = Some (d3, m3)"
        "hist_updated J d2 m1 t n ?T d3 m3"
      using update_block_hist [OF w2 h2(2,1) T1 [symmetric] n(1,4) False] by blast
    obtain a z where d3: "d3 = set_dict d2 a z" using u(2) by (auto simp: hist_updated_def)
    note hw = hist_updated_world [OF w2 u(2) n(1,4)]
    let ?y = "bytes m s n" and ?s = "s + n" and ?t = "t + n"
    have w3: "world J d3 m3 ?s ?t" using world_pos [OF hw(1)] n world_le [OF hw(1)] by simp
    have T3: "produced J m3 ?t = T1 @ (x @ ?y)" using hw(2) T1 m1(3) k(1) by simp
    have len: "length (x @ ?y) + nat (g - n) = length x + nat g" using n by (simp add: nat_diff_distrib)
    have "in_frame {?t..<dst1 J} d3 m3 ?D (consumed J ?s) T1 (T1 @ (x @ ?y)) (size_field True (length (x @ ?y) + nat (g - n)) @ x @ ?y)"
      unfolding in_frame_def len
    proof (intro conjI)
      show "ready d3" using h2(2) by (simp add: d3)
      show "blocks_read d3 ?D (consumed J ?s) T1 (size_field True (length x + nat g) @ x @ ?y)"
      proof -
        have "blocks_read d ?D (consumed J s) T1 (size_field True (length x + nat g) @ x)" using k(4) by (simp add: in_frame_def)
        then have "blocks_read d ?D (consumed J ?s) T1 (size_field True (length x + nat g) @ x @ ?y)"
          by (rule blocks_read_more) (simp_all add: consumed_add [OF w n(1,3)])
        then show ?thesis by (simp add: d3 d2_def)
      qed
      have "sums_ok d2 (?T @ ?y)" unfolding d2_def by (rule counted_ok) (use k(4) xxh(2) n(1) in \<open>simp_all add: in_frame_def\<close>)
      then show "sums_ok d3 (T1 @ (x @ ?y))" using k(1) by (simp add: d3)
      show "block_hist_ok {?t..<dst1 J} d3 m3 ?D (T1 @ (x @ ?y))" using u(2) m1(3) k(1) by (simp add: hist_updated_def)
    qed
    then have "exit_ok J (d, m, s, t) (copy_exit d3 m3 ?s ?t n)"
      by (intro copy_exit_ok [OF w3 T3 n(1)]) (use n k(3) st bc(2) rk in \<open>auto simp: d3 d2_def g [symmetric] nat_diff_distrib\<close>)
    moreover have "stage_copyDirect (jb_E J) (d, m, s, t) = Some (copy_exit d3 m3 ?s ?t n)"
    proof -
      let ?db = "d\<lparr>dc_blockChecksum := bc, dc_xxh := xxh\<rparr>"
      have e: "(if contentSize ?fi \<noteq> 0 then ?db\<lparr>dc_frameRemainingSize := dc_frameRemainingSize ?db - word_of_int n\<rparr> else ?db) = d2"
        by (simp add: d2_def counted_def)
      have u': "(if blockMode ?fi = LZ4F_blockLinked then LZ4F_updateDict d2 m1 t n (dst0 J) False else Some (d2, m1)) = Some (d3, m3)"
        using u(1) by (simp add: d2_def)
      show ?thesis
        unfolding stage_copyDirect_def prod.case Let_def g [symmetric] n_def [symmetric] if_not_P [OF False] m1(1) bind.bind_lunit bc(1) xxh(1) e u'
        by (simp add: copy_exit_def)
    qed
    ultimately show ?thesis by blast
  qed
qed

section \<open>The checksum of an uncompressed block\<close>

lemma blockChecksum_exit:
  assumes w: "world J d m s t" and p: "valid m p 4" and T: "produced J m t = T1 @ x" and z: "int (length x) \<le> dc_maxBlockSize d"
    and en: "blockChecksumFlag (dc_frameInfo d) = LZ4F_blockChecksumEnabled"
    and c: "in_frame {t..<dst1 J} d m (jb_D J) (consumed J s) T1 (T1 @ x) (size_field True (length x) @ x @ bytes m p 4)"
    and h: "\<not> dc_skipChecksum d \<longrightarrow> state32_ok 0 x (dc_blockChecksum d)" and rank: "2 * nat (src1 J - s) < rank J pos"
  shows "\<exists>e. check_blockChecksum p (d, m, s, t) = Some e \<and> exit_ok J pos e"
proof -
  obtain w1 where w1: "LZ4F_readLE32 m p = Some w1" using readLE32_Some [OF p] by blast
  have dig: "\<not> dc_skipChecksum d \<Longrightarrow> XXH32_digest (dc_blockChecksum d) = Some (xxh32 0 x)" using h XXH32_digest_ok by blast
  have crc: "block_crc (dc_frameInfo d) x = word_bytes 4 (xxh32 0 x)" using en by (simp add: block_crc_def)
  show ?thesis
  proof (cases "dc_skipChecksum d \<or> w1 = xxh32 0 x")
    case True
    let ?d = "d\<lparr>dc_dStage := dstage_getBlockHeader\<rparr>"
    have "\<not> dc_skipChecksum d \<longrightarrow> bytes m p 4 = block_crc (dc_frameInfo d) x" using True w1 readLE32_crc [OF p] crc by auto
    then have "blocks_read d (jb_D J) (consumed J s) (T1 @ x) []"
      using raw_block [of d "jb_D J" "consumed J s" T1 x "bytes m p 4"] c z crc by (simp add: in_frame_def ready_def)
    then have "stage_ok {t..<dst1 J} ?d m (jb_D J) (consumed J s) (produced J m t)" using c T by (simp add: stage_ok_def in_frame_def)
    moreover have "world J ?d m s t" using w world_cong [of ?d d] by (simp add: mem_fields_def)
    ultimately have "exit_ok J pos (Again (?d, m, s, t))" using rank by (intro exit_Again) (simp_all add: rank_plain)
    then show ?thesis using True w1 dig by (auto simp: check_blockChecksum_def)
  next
    case False
    then have "check_blockChecksum p (d, m, s, t) = return_error LZ4F_ERROR_blockChecksum_invalid (d, m, s, t)"
      using w1 dig by (simp add: check_blockChecksum_def)
    then show ?thesis using exit_refused [OF w] by (simp add: return_error_def)
  qed
qed

lemma getBlockChecksum_ok:
  assumes i: "inv J (d, m, s, t)" and st: "dc_dStage d = dstage_getBlockChecksum"
  shows "\<exists>e. stage_getBlockChecksum (jb_E J) (d, m, s, t) = Some e \<and> exit_ok J (d, m, s, t) e"
proof -
  let ?W = "{t..<dst1 J}" and ?D = "jb_D J" and ?h = "dc_header d" and ?T = "produced J m t"
  define z where z: "z = dc_tmpInSize d"
  have w: "world J d m s t" using i by (simp add: inv_def)
  obtain T1 x where k: "?T = T1 @ x" "int (length x) \<le> dc_maxBlockSize d" "blockChecksumFlag (dc_frameInfo d) = LZ4F_blockChecksumEnabled" "0 \<le> z" "z < 4"
      "in_frame ?W d m ?D (consumed J s) T1 ?T (size_field True (length x) @ x @ bytes m ?h z)"
      "\<not> dc_skipChecksum d \<longrightarrow> state32_ok 0 x (dc_blockChecksum d)"
    using i unfolding inv_def prod.case stage_ok_def st dStage_t.case z [symmetric] by blast
  show ?thesis
  proof (cases "4 \<le> src1 J - s \<and> z = 0")
    case True
    have w4: "world J d m (s + 4) t" using world_pos [OF w] True world_le [OF w] by simp
    have v: "valid m s 4" using world_src(1) [OF w, of 4] True by (simp add: valid_reg)
    have c: "in_frame ?W d m ?D (consumed J (s + 4)) T1 (T1 @ x) (size_field True (length x) @ x @ bytes m s 4)"
      by (rule in_frame_more [OF k(6) [unfolded k(1)]]) (use True consumed_add [OF w, of 4] in simp_all)
    have rk: "2 * nat (src1 J - (s + 4)) < rank J (d, m, s, t)" using rank_step [of 4 s J d m t] True by simp
    show ?thesis using blockChecksum_exit [OF w4 v k(1-3) c k(7) rk] True by (simp add: stage_getBlockChecksum_def z [symmetric])
  next
    case False
    define n where "n = chunk J s z 4"
    have fr: "reg ?h 19 \<subseteq> front d" by (simp add: front_def)
    obtain m' where m: "LZ4_memcpy m (?h + z) s n = Some m'" "stored J d m s t ?h z n m'"
      using store_chunk [OF w fr k(4), of 4] k(5) unfolding n_def by auto
    have n0: "0 \<le> n" "z + n \<le> 4" using chunk_nonneg [of z 4 s J] k(5) world_le(1) [OF w] by (auto simp: n_def chunk_def)
    have "reg (?h + z) n \<subseteq> reg ?h 19" using n0 k(4) by auto
    then have sub: "{?h + z..<?h + z + n} \<subseteq> front d \<union> ?W" using fr by blast
    let ?d = "d\<lparr>dc_tmpInSize := z + n\<rparr>"
    have w1: "world J ?d m' (s + n) t" using m(2) world_cong [of ?d d] by (simp add: mem_fields_def stored_def)
    have pr: "produced J m' t = T1 @ x" using m(2) k(1) by (simp add: stored_def)
    have "in_frame ?W d m' ?D (consumed J s) T1 ?T (size_field True (length x) @ x @ bytes m ?h z)"
      by (rule in_frame_write [OF w k(6) _ sub]) (use m(2) world_le [OF w] in \<open>auto simp: stored_def\<close>)
    then have c: "in_frame ?W ?d m' ?D (consumed J (s + n)) T1 (T1 @ x) (size_field True (length x) @ x @ bytes m' ?h (z + n))"
      unfolding k(1) in_frame_simps by (rule in_frame_more) (use m(2) in \<open>simp_all add: stored_def\<close>)
    have code: "min (u64 (4 - z)) (src1 J - s) = n" using chunk_code [of z 4 J s] k(4,5) by (simp add: n_def)
    note D = stage_getBlockChecksum_def prod.case z [symmetric] code Let_def if_not_P [OF False] m(1) bind.bind_lunit
    show ?thesis
    proof (cases "z + n < 4")
      case True
      have "stage_ok ?W ?d m' ?D (consumed J (s + n)) (produced J m' t)"
        using st k(2,3,4,7) c pr True n0 unfolding stage_ok_def by simp (rule exI [of _ T1], rule exI [of _ x], simp)
      then have "exit_ok J (d, m, s, t) (Stop 1 (?d, m', s + n, t))" using w1 st by (intro exit_Stop) auto
      then show ?thesis unfolding D using True by simp
    next
      case F: False
      then have zn: "z + n = 4" "0 < n" using n0 k(5) by auto
      have v: "valid m' ?h 4" using valid_sub [OF world_header [OF w1]] by simp
      have rk: "2 * nat (src1 J - (s + n)) < rank J (d, m, s, t)" using rank_step [OF zn(2), of s J d m t] world_le(1) [OF w1] by simp
      obtain e where "check_blockChecksum ?h (?d, m', s + n, t) = Some e" "exit_ok J (d, m, s, t) e"
        using blockChecksum_exit [OF w1 v pr _ _ _ _ rk] k(2,3,7) c zn(1) by auto
      then show ?thesis unfolding D using zn(1) by simp
    qed
  qed
qed

end
