(* ===== verification/LZ4F_DecComp.thy ===== *)
theory LZ4F_DecComp
  imports LZ4F_DecRaw
begin

text \<open>The stages of the frame decoder keep its invariant: compressed blocks.\<close>

section \<open>Flushing a decoded block\<close>

lemma flush_done:
  assumes "flush_ok W d m H x" "placed d m x" "dc_tmpOutStart d = dc_tmpOutSize d" shows "hist_ok W d m (H @ x)"
proof (cases "flush_tmp d m H x")
  case True
  have "bytes m (dc_tmpOutBuffer d) (tmp_room d + dc_tmpOutSize d) = bytes m (dc_tmpOutBuffer d) (tmp_room d) @ x"
    using bytes_append [of "tmp_room d" "dc_tmpOutSize d" m "dc_tmpOutBuffer d"] assms(2) by (auto simp: placed_def)
  then show ?thesis using True assms(2,3) by (auto simp: hist_ok_def flush_tmp_def placed_def)
next
  case False
  then have "flush_out W d m H x" using assms(1) by (simp add: flush_ok_def)
  then show ?thesis using assms(2,3) by (auto simp: hist_ok_def flush_out_def placed_def)
qed

text \<open>Output does not touch the buffers nor the history.\<close>

lemma flush_write:
  assumes w: "world J d m s t" and pl: "placed d m x" and f: "flush_ok {t..<dst1 J} d m H x" and fr: "frame m m' t (t + n)" "t + n \<le> dst1 J"
  shows "placed d m' x" "flush_ok {t..<dst1 J} d m' H x"
proof -
  have sub: "{t..<t + n} \<subseteq> own d \<union> {t..<dst1 J}" using fr(2) by auto
  have out: "bytes m' a k = bytes m a k" if "reg a k \<subseteq> reg (dc_tmpOutBuffer d) (dc_tmpOutCap d)" for a k
  proof (rule bytes_out [OF fr(1)])
    have "{t..<t + n} \<inter> own d = {}" using world_dst(2) [OF w world_le(2) [OF w] fr(2)] .
    then show "reg a k \<inter> {t..<t + n} = {}" using that own_parts(3) [of d] by blast
  qed
  have "reg (dc_tmpOut d) (dc_tmpOutSize d) \<subseteq> reg (dc_tmpOutBuffer d) (dc_tmpOutCap d)"
      "reg (dc_tmpOutBuffer d) (tmp_room d) \<subseteq> reg (dc_tmpOutBuffer d) (dc_tmpOutCap d)" using pl by (auto simp: placed_def)
  note o = this [THEN out]
  show "placed d m' x" using pl o(1) by (simp add: placed_def)
  show "flush_ok {t..<dst1 J} d m' H x"
  proof (cases "flush_tmp d m H x")
    case True
    then show ?thesis using f o(2) by (simp add: flush_ok_def flush_tmp_def)
  next
    case False
    then have fo: "flush_out {t..<dst1 J} d m H x" using f by (simp add: flush_ok_def)
    then have ou: "outside {t..<dst1 J} d m" by (simp add: flush_out_def)
    note ow = outside_write [OF ou fr(1) sub]
    have "old_bytes d m' = old_bytes d m"
    proof (cases "0 < copy_size d")
      case True
      have "0 \<le> dc_tmpOutStart d" using pl by (simp add: placed_def)
      then have "reg (dc_dict d + dc_dictSize d - dc_tmpOutStart d - copy_size d) (copy_size d) \<subseteq> reg (dc_dict d) (dc_dictSize d)"
        using fo True by (auto simp: flush_out_def)
      moreover have "reg (dc_dict d) (dc_dictSize d) \<inter> {t..<t + n} = {}" using ou sub unfolding outside_def by blast
      ultimately show ?thesis unfolding old_bytes_def by (intro bytes_out [OF fr(1)]) blast
    qed (simp add: old_bytes_def)
    then show ?thesis using f fo ow by (simp add: flush_ok_def flush_out_def)
  qed
qed

definition flush_exit :: "LZ4F_dctx \<Rightarrow> mem \<Rightarrow> addr \<Rightarrow> addr \<Rightarrow> stage_exit" where
  "flush_exit d m s t = (if dc_tmpOutStart d = dc_tmpOutSize d then Again (d\<lparr>dc_dStage := dstage_getBlockHeader\<rparr>, m, s, t) else Stop BHSize (d, m, s, t))"

lemma flushOutI:
  assumes "dc_dStage d = dstage_flushOut" "T = T0 @ take (nat (dc_tmpOutStart d)) x" "placed d m x" "ready d" "blocks_read d D C (T0 @ x) []" "sums_ok d (T0 @ x)"
    "if linked (dc_frameInfo d) then flush_ok W d m (D @ T0) x else user_ok W d m D"
  shows "stage_ok W d m D C T"
proof -
  have "\<exists>T0 x. T = T0 @ take (nat (dc_tmpOutStart d)) x \<and> placed d m x \<and> ready d \<and> blocks_read d D C (T0 @ x) [] \<and> sums_ok d (T0 @ x) \<and>
      (if linked (dc_frameInfo d) then flush_ok W d m (D @ T0) x else user_ok W d m D)"
    using assms(2-7) by blast
  then show ?thesis unfolding stage_ok_def assms(1) dStage_t.case .
qed

lemma flush_exit_ok:
  assumes w: "world J d m s t" and st: "dc_dStage d = dstage_flushOut" and T: "produced J m t = T0 @ take (nat (dc_tmpOutStart d)) x"
    and k: "placed d m x" "ready d" "blocks_read d (jb_D J) (consumed J s) (T0 @ x) []" "sums_ok d (T0 @ x)"
      "if linked (dc_frameInfo d) then flush_ok {t..<dst1 J} d m (jb_D J @ T0) x else user_ok {t..<dst1 J} d m (jb_D J)"
    and rank: "2 * nat (src1 J - s) < rank J pos"
  shows "exit_ok J pos (flush_exit d m s t)"
proof (cases "dc_tmpOutStart d = dc_tmpOutSize d")
  case True
  let ?d = "d\<lparr>dc_dStage := dstage_getBlockHeader\<rparr>"
  have T': "produced J m t = T0 @ x" using T True k(1) by (simp add: placed_def)
  have "block_hist_ok {t..<dst1 J} d m (jb_D J) (T0 @ x)"
    using k(5) flush_done [of "{t..<dst1 J}" d m "jb_D J @ T0" x] k(1) True by (auto simp: block_hist_ok_def split: if_splits)
  then have "stage_ok {t..<dst1 J} ?d m (jb_D J) (consumed J s) (produced J m t)" using k(2-4) T' by (simp add: stage_ok_def in_frame_def)
  moreover have "world J ?d m s t" using w world_cong [of ?d d] by (simp add: mem_fields_def)
  ultimately have "exit_ok J pos (Again (?d, m, s, t))" using rank by (intro exit_Again) (simp_all add: rank_plain)
  then show ?thesis using True by (simp add: flush_exit_def)
next
  case False
  have "stage_ok {t..<dst1 J} d m (jb_D J) (consumed J s) (produced J m t)" by (rule flushOutI [OF st T k])
  then have "exit_ok J pos (Stop BHSize (d, m, s, t))" using w st by (intro exit_Stop) simp_all
  then show ?thesis using False by (simp add: flush_exit_def)
qed

lemma flushOut_exit:
  assumes i: "inv J (d, m, s, t)" and st: "dc_dStage d = dstage_flushOut" and rank: "2 * nat (src1 J - s) < rank J pos"
  shows "\<exists>e. stage_flushOut (jb_E J) (d, m, s, t) = Some e \<and> exit_ok J pos e"
proof -
  let ?W = "{t..<dst1 J}" and ?D = "jb_D J" and ?fi = "dc_frameInfo d"
  define z where z: "z = dc_tmpOutStart d"
  have w: "world J d m s t" using i by (simp add: inv_def)
  obtain T0 x where k: "produced J m t = T0 @ take (nat z) x" "placed d m x" "ready d" "blocks_read d ?D (consumed J s) (T0 @ x) []" "sums_ok d (T0 @ x)"
      "if linked ?fi then flush_ok ?W d m (?D @ T0) x else user_ok ?W d m ?D"
    using i unfolding inv_def prod.case stage_ok_def st dStage_t.case z [symmetric] by blast
  show ?thesis
  proof (cases "t = 0")
    case True
    have "stage_flushOut (jb_E J) (d, m, s, t) = Some (flush_exit d m s t)" using True by (simp add: stage_flushOut_def flush_exit_def)
    then show ?thesis using flush_exit_ok [OF w st k(1) [unfolded z] k(2-6) rank] by blast
  next
    case False
    define n where "n = min (dc_tmpOutSize d - z) (dst1 J - t)"
    have pl: "0 \<le> z" "z \<le> dc_tmpOutSize d" "dc_tmpOutSize d \<le> 4194304" "dc_tmpOutBuffer d \<le> dc_tmpOut d" "dc_tmpOut d + dc_maxBlockSize d \<le> out_end d"
        "dc_tmpOutSize d \<le> dc_maxBlockSize d" "x = bytes m (dc_tmpOut d) (dc_tmpOutSize d)"
      using k(2) ready_in(2) [OF k(3)] by (auto simp: placed_def z)
    have n: "0 \<le> n" "t + n \<le> dst1 J" "z + n \<le> dc_tmpOutSize d" using pl world_le [OF w] by (auto simp: n_def)
    have code: "min (u64 (dc_tmpOutSize d - z)) (dst1 J - t) = n" using pl by (simp add: n_def u64_def)
    have "reg (dc_tmpOut d + z) n \<subseteq> reg (dc_tmpOutBuffer d) (dc_tmpOutCap d)" using pl n by auto
    then have o: "reg (dc_tmpOut d + z) n \<subseteq> own d" using own_parts(3) [of d] by blast
    note dst = world_dst [OF w world_le(2) [OF w] n(2)]
    obtain m1 where m1: "LZ4_memcpy m t (dc_tmpOut d + z) n = Some m1" "frame m m1 t (t + n)" "bytes m1 t n = bytes m (dc_tmpOut d + z) n"
      using memcpy_region [OF n(1) dst(1) world_own [OF w o]] dst(2) o by blast
    have y: "bytes m1 t n = take (nat n) (drop (nat z) x)"
      using m1(3) drop_bytes [of z "dc_tmpOutSize d" m "dc_tmpOut d"] take_bytes [of n "dc_tmpOutSize d - z" m "dc_tmpOut d + z"] pl n by simp
    have tk: "take (nat (z + n)) x = take (nat z) x @ bytes m1 t n" using take_add [of "nat z" "nat n" x] y pl n by (simp add: nat_add_distrib)
    have sub: "{t..<t + n} \<subseteq> own d \<union> ?W" using n(2) by auto
    have w1: "world J d m1 s t" by (rule world_write [OF w m1(2) sub])
    have T1: "produced J m1 t = T0 @ take (nat z) x" using produced_write [OF w m1(2) sub] k(1) by simp
    obtain d2 m2 a v where u: "(if blockMode ?fi = LZ4F_blockLinked then LZ4F_updateDict d m1 t n (dst0 J) True else Some (d, m1)) = Some (d2, m2)"
        and d2: "d2 = set_dict d a v" and fr: "frame m1 m2 (dc_tmpOutBuffer d) (dc_tmpOut d)"
        and h: "if linked ?fi then flush_ok {t + n..<dst1 J} (d2\<lparr>dc_tmpOutStart := z + n\<rparr>) m2 (?D @ T0) x else user_ok {t + n..<dst1 J} d2 m2 ?D"
    proof (cases "linked ?fi")
      case True
      have fl: "flush_ok ?W d m (?D @ T0) x" using k(6) True by simp
      have "suffix (bytes m1 (dst0 J) (t - dst0 J)) ((?D @ T0) @ take (nat (dc_tmpOutStart d)) x)"
        using produced_suffix [of m1 J t ?D] T1 by (simp add: z)
      then obtain d2 m2 where "LZ4F_updateDict d m1 t n (dst0 J) True = Some (d2, m2)" "flushed J d m1 t n (?D @ T0) x d2 m2"
        using updateDict_flush [OF w1 k(3) True flush_write [OF w k(2) fl m1(2) n(2)] n(1,2) False] n(3) y z by blast
      then show ?thesis using that True by (auto simp: flushed_def linked_def z)
    next
      case F: False
      have "user_ok ?W d m1 ?D" using user_write [OF _ m1(2) sub] k(6) F by simp
      then have "user_ok {t + n..<dst1 J} d m1 ?D" using outside_mono [of ?W d m1 "{t + n..<dst1 J}"] n(1) by (simp add: user_ok_def)
      then show ?thesis using that [of d m1 "dc_dictSize d" "dc_dict d"] F by (auto simp: linked_def)
    qed
    let ?d = "d2\<lparr>dc_tmpOutStart := z + n\<rparr>"
    have w1': "world J d m1 s (t + n)" using world_pos [OF w1] n world_le [OF w1] by simp
    have sub2: "{dc_tmpOutBuffer d..<dc_tmpOut d} \<subseteq> own d \<union> {t + n..<dst1 J}"
    proof -
      have "{dc_tmpOutBuffer d..<dc_tmpOut d} \<subseteq> reg (dc_tmpOutBuffer d) (dc_tmpOutCap d)" using pl ready_in(3) [OF k(3)] by auto
      then show ?thesis using own_parts(3) [of d] by blast
    qed
    have w2: "world J ?d m2 s (t + n)" using world_write [OF w1' fr sub2] world_cong [of ?d d] by (simp add: d2 mem_fields_def)
    have T2: "produced J m2 (t + n) = T0 @ take (nat (dc_tmpOutStart ?d)) x"
      using produced_write [OF w1' fr sub2] produced_add [of J t n m1] world_le(2) [OF w] n T1 tk by simp
    have "bytes m1 (dc_tmpOut d) (dc_tmpOutSize d) = x"
    proof -
      have "reg (dc_tmpOut d) (dc_tmpOutSize d) \<subseteq> reg (dc_tmpOutBuffer d) (dc_tmpOutCap d)" using pl by auto
      then have "reg (dc_tmpOut d) (dc_tmpOutSize d) \<inter> {t..<t + n} = {}" using dst(2) own_parts(3) [of d] by blast
      then show ?thesis using bytes_out [OF m1(2)] pl(7) by blast
    qed
    then have "placed ?d m2 x" using pl n k(2) bytes_frame [OF fr, of "dc_tmpOut d" "dc_tmpOutSize d"] by (simp add: placed_def d2)
    then have "exit_ok J pos (flush_exit ?d m2 s (t + n))"
      by (intro flush_exit_ok [OF w2 _ T2]) (use st k(3-5) h [unfolded d2] rank in \<open>simp_all add: d2 split: if_splits\<close>)
    moreover have "stage_flushOut (jb_E J) (d, m, s, t) = Some (flush_exit ?d m2 s (t + n))"
    proof -
      have "dc_tmpOutStart d2 = z" by (simp add: d2 z)
      then show ?thesis unfolding stage_flushOut_def prod.case Let_def z [symmetric] code m1(1) bind.bind_lunit u using False by (simp add: flush_exit_def)
    qed
    ultimately show ?thesis by blast
  qed
qed

end
