(* ===== verification/LZ4F_DecDecode.thy ===== *)
theory LZ4F_DecDecode
  imports LZ4F_DecComp
begin

text \<open>The stages of the frame decoder keep its invariant: decoding a block, to its place or by way of \<open>tmpOutBuffer\<close>.\<close>

section \<open>Decoding a block\<close>

lemma cut_ok:
  assumes "0 \<le> z" "good_suffix (bytes m a z) H" "cut_dict a z = (a', z')"
  shows "reg a' z' \<subseteq> reg a z" "0 \<le> z'" "good_suffix (bytes m a' z') H"
proof -
  consider "a' = a" "z' = z" | "a' = a + (z - 65536)" "z' = 65536" "2 ^ 30 < z" using assms(3) by (auto simp: cut_dict_def split: if_splits)
  then have "reg a' z' \<subseteq> reg a z \<and> 0 \<le> z' \<and> good_suffix (bytes m a' z') H"
  proof cases
    case 2
    then have "a' = a + z - 65536" by simp
    then have "bytes m a' z' = lasts 65536 (bytes m a z)" using bytes_lasts [of 65536 z m a] 2(2,3) by simp
    then show ?thesis using 2 gs_lasts0 [OF assms(2), of 65536] by simp
  qed (use assms in auto)
  then show "reg a' z' \<subseteq> reg a z" "0 \<le> z'" "good_suffix (bytes m a' z') H" by auto
qed

lemma block_decoded:
  assumes w: "world J d m s t" and src: "reg p n \<subseteq> dom m" "0 < n" "n \<le> 4194304" and out: "reg q mx \<subseteq> dom m" "0 < mx" "mx \<le> 4194304"
    and ap: "reg p n \<inter> reg q mx = {}" "reg a z \<inter> reg q mx = {}" and dict: "0 \<le> z" "reg a z \<subseteq> dom m" "good_suffix (bytes m a z) H" "cut_dict a z = (a', z')"
  shows "\<exists>r m'. LZ4_decompress_safe_usingDict m p q n mx a' z' = Some (r, m') \<and> frame m m' q (q + mx) \<and>
    (r < 0 \<or> 0 \<le> r \<and> r \<le> mx \<and> decode_block H (bytes m p n) = Some (H @ bytes m' q r))"
proof -
  note c = cut_ok [OF dict(1,3,4)]
  have a: "reg a' z' \<inter> reg q mx = {}" "reg a' z' \<subseteq> dom m" using c(1) ap(2) dict(2) by blast+
  have b: "n < 2 ^ 31" "mx < 2 ^ 31" using src(3) out(3) by simp_all
  obtain r m' where r: "LZ4_decompress_safe_usingDict m p q n mx a' z' = Some (r, m')" "decoded (bytes m a' z') (bytes m p n) q mx m r m'"
    using usingDict_reg [OF world_sane [OF w] src(1,2) b(1) out(1,2) b(2) ap(1) a(1) c(2) a(2)] by blast
  have "r < 0 \<or> 0 \<le> r \<and> r \<le> mx \<and> decode_block H (bytes m p n) = Some (H @ bytes m' q r)"
    using r(2) gs_decode [OF c(3)] by (auto simp: decoded_def split: if_splits)
  then show ?thesis using r by (auto simp: decoded_def)
qed

lemma account_ok:
  assumes "sums_ok d T" "valid m p r" "0 \<le> r" "0 < p"
  shows "\<exists>xxh. account_block d m p r = Some (counted d xxh r) \<and> sums_ok (counted d xxh r) (T @ bytes m p r)"
proof -
  let ?c = "contentChecksumFlag (dc_frameInfo d) = LZ4F_contentChecksumEnabled \<and> \<not> dc_skipChecksum d"
  have "?c \<longrightarrow> state32_ok 0 T (dc_xxh d)" using assms(1) by (simp add: sums_ok_def)
  then obtain xxh where "hash_if ?c (dc_xxh d) m p r = Some xxh" "?c \<longrightarrow> state32_ok 0 (T @ bytes m p r) xxh"
    using hash_if_ok [OF assms(2,3), of ?c T "dc_xxh d"] assms(4) by auto
  then have "account_block d m p r = Some (counted d xxh r)" "sums_ok (counted d xxh r) (T @ bytes m p r)"
    using counted_ok [OF assms(1), of "bytes m p r" xxh r] assms(3) by (auto simp: account_block_def counted_def Let_def)
  then show ?thesis by blast
qed

lemma compressed_block:
  assumes "blocks_read d D C T (size_field False (length b) @ b @ block_crc (dc_frameInfo d) b)" "b \<noteq> []"
    "int (length b) \<le> blockSize_of (dc_frameInfo d)" "int (length x) \<le> blockSize_of (dc_frameInfo d)"
    "decode_block (block_hist (dc_frameInfo d) D T) b = Some (block_hist (dc_frameInfo d) D T @ x)"
  shows "blocks_read d D C (T @ x) []"
proof -
  obtain cs di B where b: "frameInfo_ok cs di (dc_frameInfo d)" "frame_blocks (dc_frameInfo d) (\<not> dc_skipChecksum d) D B T"
      "C = header_bytes cs di (dc_frameInfo d) @ B @ size_field False (length b) @ b @ block_crc (dc_frameInfo d) b"
    using assms(1) unfolding blocks_read_def by blast
  have "frame_blocks (dc_frameInfo d) (\<not> dc_skipChecksum d) D (B @ size_field False (length b) @ b @ block_crc (dc_frameInfo d) b) (T @ x)"
    by (rule frame_blocks.compressed [OF b(2) assms(2-5)])
  then show ?thesis unfolding blocks_read_def using b(1,3) by auto
qed

text \<open>A block of \<open>n\<close> bytes at \<open>p\<close>, whose checksum was right.\<close>

definition cblock_ok :: "dec_job \<Rightarrow> LZ4F_dctx \<Rightarrow> mem \<Rightarrow> addr \<Rightarrow> addr \<Rightarrow> addr \<Rightarrow> int \<Rightarrow> byte list \<Rightarrow> bool" where
  "cblock_ok J d m s t p n T \<longleftrightarrow> world J d m s t \<and> T = produced J m t \<and> dc_tmpInTarget d = n \<and> 0 < n \<and> n \<le> dc_maxBlockSize d \<and> reg p n \<subseteq> dom m \<and>
     reg p n \<inter> reg (dc_tmpOutBuffer d) (dc_tmpOutCap d) = {} \<and> reg p n \<inter> {dst0 J..<dst1 J} = {} \<and> ready d \<and> sums_ok d T \<and>
     block_hist_ok {t..<dst1 J} d m (jb_D J) T \<and>
     blocks_read d (jb_D J) (consumed J s) T (size_field False (nat n) @ bytes m p n @ block_crc (dc_frameInfo d) (bytes m p n))"

lemma hist_region:
  assumes w: "world J d m s t" and h: "block_hist_ok {t..<dst1 J} d m D T"
  shows "0 \<le> dc_dictSize d" "reg (dc_dict d) (dc_dictSize d) \<subseteq> dom m" "reg (dc_dict d) (dc_dictSize d) \<inter> {t..<dst1 J} = {}"
    "good_suffix (bytes m (dc_dict d) (dc_dictSize d)) (block_hist (dc_frameInfo d) D T)"
    "dc_dict d \<noteq> dc_tmpOutBuffer d \<or> \<not> linked (dc_frameInfo d) \<Longrightarrow> outside {t..<dst1 J} d m"
proof -
  show "0 \<le> dc_dictSize d" "good_suffix (bytes m (dc_dict d) (dc_dictSize d)) (block_hist (dc_frameInfo d) D T)"
      "dc_dict d \<noteq> dc_tmpOutBuffer d \<or> \<not> linked (dc_frameInfo d) \<Longrightarrow> outside {t..<dst1 J} d m"
    using h by (auto simp: block_hist_ok_def block_hist_def hist_ok_def user_ok_def outside_def split: if_splits)
  have "reg (dc_dict d) (dc_dictSize d) \<subseteq> dom m \<and> reg (dc_dict d) (dc_dictSize d) \<inter> {t..<dst1 J} = {}"
  proof (cases "outside {t..<dst1 J} d m")
    case False
    then have "dc_dict d = dc_tmpOutBuffer d" "dc_dictSize d \<le> dc_tmpOutCap d"
      using h by (auto simp: block_hist_ok_def hist_ok_def user_ok_def split: if_splits)
    then have "reg (dc_dict d) (dc_dictSize d) \<subseteq> reg (dc_tmpOutBuffer d) (dc_tmpOutCap d)" by auto
    then have o: "reg (dc_dict d) (dc_dictSize d) \<subseteq> own d" using own_parts(3) [of d] by blast
    have "own d \<inter> {dst0 J..<dst1 J} = {}" "{t..<dst1 J} \<subseteq> {dst0 J..<dst1 J}" using w world_le(2) [OF w] by (auto simp: world_def)
    then show ?thesis using o world_own [OF w o] by blast
  qed (simp add: outside_def)
  then show "reg (dc_dict d) (dc_dictSize d) \<subseteq> dom m" "reg (dc_dict d) (dc_dictSize d) \<inter> {t..<dst1 J} = {}" by auto
qed

lemma decode_to_dst_ok:
  assumes cb: "cblock_ok J d m s t p n T" and room: "dc_maxBlockSize d \<le> dst1 J - t" and rank: "2 * nat (src1 J - s) < rank J pos"
  shows "\<exists>e. decode_to_dst (jb_E J) p (d, m, s, t) = Some e \<and> exit_ok J pos e"
proof -
  let ?W = "{t..<dst1 J}" and ?D = "jb_D J" and ?H = "block_hist (dc_frameInfo d) (jb_D J) T" and ?mx = "dc_maxBlockSize d"
  have w: "world J d m s t" and T: "T = produced J m t" and tg: "dc_tmpInTarget d = n" and n: "0 < n" "n \<le> ?mx" and rd: "ready d" and su: "sums_ok d T"
    and src: "reg p n \<subseteq> dom m" "reg p n \<inter> {dst0 J..<dst1 J} = {}" and h: "block_hist_ok ?W d m ?D T"
    and br: "blocks_read d ?D (consumed J s) T (size_field False (nat n) @ bytes m p n @ block_crc (dc_frameInfo d) (bytes m p n))"
    using cb unfolding cblock_ok_def by blast+
  have mx: "0 < ?mx" "?mx \<le> 4194304" "?mx = blockSize_of (dc_frameInfo d)" using rd ready_in(2,3) [OF rd] by (auto simp: ready_def)
  have t1: "t + ?mx \<le> dst1 J" using room by simp
  note dst = world_dst [OF w world_le(2) [OF w] t1] and hr = hist_region [OF w h]
  have tp: "0 < t" using sane_reg [OF world_sane [OF w] dst(1) mx(1)] by simp
  have sub: "{t..<t + ?mx} \<subseteq> {dst0 J..<dst1 J}" "{t..<t + ?mx} \<subseteq> ?W" using t1 world_le(2) [OF w] by auto
  obtain a' z' where cut: "cut_dict (dc_dict d) (dc_dictSize d) = (a', z')" by fastforce
  have ap: "reg p n \<inter> reg t ?mx = {}" "reg (dc_dict d) (dc_dictSize d) \<inter> reg t ?mx = {}" using src(2) hr(3) sub by blast+
  have n4: "n \<le> 4194304" using n mx by simp
  obtain r m' where r: "LZ4_decompress_safe_usingDict m p t n ?mx a' z' = Some (r, m')" and fr: "frame m m' t (t + ?mx)"
      and res: "r < 0 \<or> 0 \<le> r \<and> r \<le> ?mx \<and> decode_block ?H (bytes m p n) = Some (?H @ bytes m' t r)"
    using block_decoded [OF w src(1) n(1) n4 dst(1) mx(1,2) ap hr(1,2,4) cut] by blast
  have sub': "{t..<t + ?mx} \<subseteq> own d \<union> ?W" "{t..<t + ?mx} \<subseteq> front d \<union> ?W" using sub by auto
  have w1: "world J d m' s t" by (rule world_write [OF w fr sub'(1)])
  note D = decode_to_dst_def prod.case cut Let_def tg r bind.bind_lunit
  show ?thesis
  proof (cases "r < 0")
    case True
    then show ?thesis unfolding D using tp exit_refused [OF w1] by (simp add: return_error_def)
  next
    case False
    then have r0: "0 \<le> r" "r \<le> ?mx" "decode_block ?H (bytes m p n) = Some (?H @ bytes m' t r)" using res by auto
    let ?x = "bytes m' t r"
    have "valid m' t r" using world_dst(1) [OF w1 world_le(2) [OF w1], of r] r0 t1 by (simp add: valid_reg)
    then obtain xxh where xxh: "account_block d m' t r = Some (counted d xxh r)" "sums_ok (counted d xxh r) (T @ ?x)"
      using account_ok [OF su _ r0(1) tp] by blast
    have w2: "world J (counted d xxh r) m' s t" using w1 world_cong [of "counted d xxh r" d] by simp
    have h2: "block_hist_ok ?W (counted d xxh r) m' ?D T"
      using block_hist_write [OF w h fr sub'(2)] world_le(2) [OF w] by auto
    have T1: "T = produced J m' t" using produced_write [OF w fr sub'(1)] T by simp
    have tr: "t + r \<le> dst1 J" "t \<noteq> 0" using r0 t1 tp by auto
    obtain d3 m3 where u: "(if blockMode (dc_frameInfo d) = LZ4F_blockLinked then LZ4F_updateDict (counted d xxh r) m' t r (dst0 J) False else Some (counted d xxh r, m')) = Some (d3, m3)"
        "hist_updated J (counted d xxh r) m' t r T d3 m3"
      using update_block_hist [OF w2 _ h2 T1 r0(1) tr] rd by auto
    obtain a z where d3: "d3 = set_dict (counted d xxh r) a z" using u(2) by (auto simp: hist_updated_def)
    note hw = hist_updated_world [OF w2 u(2) r0(1) tr(1)]
    let ?d = "d3\<lparr>dc_dStage := dstage_getBlockHeader\<rparr>"
    have "blocks_read d ?D (consumed J s) (T @ ?x) []"
      by (rule compressed_block [of _ _ _ _ "bytes m p n"]) (use br n mx r0 in \<open>auto dest: arg_cong [where f = length]\<close>)
    then have "in_frame {t + r..<dst1 J} d3 m3 ?D (consumed J s) (T @ ?x) (T @ ?x) []"
      using xxh(2) u(2) rd by (simp add: in_frame_def d3 hist_updated_def)
    then have "stage_ok {t + r..<dst1 J} ?d m3 ?D (consumed J s) (produced J m3 (t + r))" using hw(2) T1 by (simp add: stage_ok_def)
    moreover have "world J ?d m3 s (t + r)" using hw(1) world_cong [of ?d d3] by (simp add: mem_fields_def)
    ultimately have "exit_ok J pos (Again (?d, m3, s, t + r))" using rank by (intro exit_Again) (simp_all add: rank_plain)
    then show ?thesis unfolding D using tp False xxh(1) u(1) by (simp add: d3)
  qed
qed

section \<open>Decoding by way of \<open>tmpOutBuffer\<close>\<close>

text \<open>The place of the block: the history is in front of it, or there is room for 64 KB of it.\<close>

definition roomy :: "LZ4F_dctx \<Rightarrow> bool" where
  "roomy d \<longleftrightarrow> 0 \<le> tmp_room d \<and> tmp_room d + dc_maxBlockSize d \<le> dc_tmpOutCap d \<and>
     (if linked (dc_frameInfo d) then if dc_dict d = dc_tmpOutBuffer d then dc_dictSize d = tmp_room d else tmp_room d = min (dc_dictSize d) 65536
      else tmp_room d = 0)"

definition placed_at :: "dec_job \<Rightarrow> LZ4F_dctx \<Rightarrow> mem \<Rightarrow> addr \<Rightarrow> byte list \<Rightarrow> LZ4F_dctx \<Rightarrow> mem \<Rightarrow> bool" where
  "placed_at J d m t T d' m' \<longleftrightarrow> d' = d\<lparr>dc_dictSize := dc_dictSize d', dc_tmpOut := dc_tmpOut d'\<rparr> \<and> frame m m' (dc_tmpOutBuffer d) (out_end d) \<and>
     block_hist_ok {t..<dst1 J} d' m' (jb_D J) T \<and> roomy d'"

lemma place_ok:
  assumes w: "world J d m s t" and rd: "ready d" and h: "block_hist_ok {t..<dst1 J} d m (jb_D J) T"
  shows "\<exists>d' m'. place_tmpOut d m = Some (d', m') \<and> placed_at J d m t T d' m'"
proof (cases "linked (dc_frameInfo d)")
  case False
  have "roomy d" using rd False by (auto simp: roomy_def ready_def)
  then have "placed_at J d m t T d m" using h by (simp add: placed_at_def)
  then show ?thesis using False by (simp add: place_tmpOut_def linked_def)
next
  case True
  define B z where Bz: "B = dc_tmpOutBuffer d" "z = dc_dictSize d"
  note Bz' = Bz [symmetric]
  have cap: "196608 \<le> dc_tmpOutCap d" "dc_maxBlockSize d + 131072 \<le> dc_tmpOutCap d" using ready_cap [OF rd True] rd True by (auto simp: ready_def)
  have hh: "hist_ok {t..<dst1 J} d m (jb_D J @ T)" using h True by (simp add: block_hist_ok_def)
  then have g: "good_suffix (bytes m (dc_dict d) z) (jb_D J @ T)" "0 \<le> z" by (auto simp: hist_ok_def outside_def Bz)
  have Bo: "B \<in> own d" using own_parts(3) [of d] cap by (auto simp: Bz)
  have code: "blockMode (dc_frameInfo d) = LZ4F_blockLinked" using True by (simp add: linked_def)
  consider (big) "dc_dict d = B" "131072 < z" | (tmp) "dc_dict d = B" "z \<le> 131072" | (else) "dc_dict d \<noteq> B" by linarith
  then show ?thesis
  proof cases
    case big
    have "\<not> outside {t..<dst1 J} d m" using Bo big by (force simp: outside_def Bz)
    then have zc: "z \<le> dc_tmpOutCap d" using hh by (auto simp: hist_ok_def Bz)
    have "reg B 65536 \<subseteq> reg B (dc_tmpOutCap d)" "reg (B + z - 65536) 65536 \<subseteq> reg B (dc_tmpOutCap d)" using cap zc big by auto
    then have o: "reg B 65536 \<subseteq> own d" "reg (B + z - 65536) 65536 \<subseteq> own d" using own_parts(3) [of d] by (auto simp: Bz)
    have ap: "reg B 65536 \<inter> reg (B + z - 65536) 65536 = {}" using big by auto
    obtain m' where m: "LZ4_memcpy m B (B + z - 65536) 65536 = Some m'" "frame m m' B (B + 65536)" "bytes m' B 65536 = bytes m (B + z - 65536) 65536"
      using memcpy_region [OF _ world_own [OF w o(1)] world_own [OF w o(2)] ap] by auto
    let ?d = "d\<lparr>dc_dictSize := 65536, dc_tmpOut := B + 65536\<rparr>"
    have "good_suffix (bytes m' B 65536) (jb_D J @ T)"
      using m(3) bytes_lasts [of 65536 z m B] gs_lasts0 [OF g(1), of 65536] big by simp
    then have "block_hist_ok {t..<dst1 J} ?d m' (jb_D J) T" using True big cap by (simp add: block_hist_ok_def hist_ok_def Bz)
    moreover have "frame m m' (dc_tmpOutBuffer d) (out_end d)" by (rule frame_widen [OF m(2)]) (use cap in \<open>simp_all add: Bz\<close>)
    moreover have "roomy ?d" using big cap True by (simp add: roomy_def Bz)
    ultimately have "placed_at J d m t T ?d m'" unfolding placed_at_def by simp
    then show ?thesis using code big m(1) by (simp add: place_tmpOut_def Bz')
  next
    case tmp
    let ?d = "d\<lparr>dc_tmpOut := B + z\<rparr>"
    have "roomy ?d" using tmp cap True g(2) by (simp add: roomy_def Bz)
    then have "placed_at J d m t T ?d m" using h by (simp add: placed_at_def)
    then show ?thesis using code tmp by (simp add: place_tmpOut_def Bz')
  next
    case else
    let ?d = "d\<lparr>dc_tmpOut := B + min z 65536\<rparr>"
    have "roomy ?d" using else cap True g(2) by (simp add: roomy_def Bz)
    then have "placed_at J d m t T ?d m" using h by (simp add: placed_at_def)
    then show ?thesis using code else by (simp add: place_tmpOut_def Bz')
  qed
qed

lemma flush_start:
  assumes w: "world J d m s t" and h: "hist_ok {t..<dst1 J} d m H" and l: "linked (dc_frameInfo d)" and ro: "roomy d"
    and fr: "frame m m' (dc_tmpOut d) (dc_tmpOut d + dc_maxBlockSize d)" and st: "dc_tmpOutStart d = 0" and x: "placed d m' x"
  shows "flush_ok {t..<dst1 J} d m' H x"
proof -
  let ?b = "bytes m (dc_dict d) (dc_dictSize d)"
  have g: "good_suffix ?b H" "0 \<le> dc_dictSize d" using h by (auto simp: hist_ok_def outside_def)
  have e: "tmp_room d = 0 \<longrightarrow> H = []"
  proof
    assume "tmp_room d = 0"
    then have "dc_dictSize d = 0" using ro l g(2) by (auto simp: roomy_def split: if_splits)
    then show "H = []" using g(1) by simp
  qed
  show ?thesis
  proof (cases "dc_dict d = dc_tmpOutBuffer d")
    case True
    have "bytes m' (dc_tmpOutBuffer d) (tmp_room d) = bytes m (dc_tmpOutBuffer d) (tmp_room d)" by (rule bytes_frame [OF fr]) simp
    then have "flush_tmp d m' H x" using True ro l st gs_append [OF g(1), of x] by (simp add: flush_tmp_def roomy_def)
    then show ?thesis using e by (simp add: flush_ok_def)
  next
    case False
    then have ou: "outside {t..<dst1 J} d m" using h by (simp add: hist_ok_def)
    have sub: "{dc_tmpOut d..<dc_tmpOut d + dc_maxBlockSize d} \<subseteq> own d \<union> {t..<dst1 J}"
    proof -
      have "{dc_tmpOut d..<dc_tmpOut d + dc_maxBlockSize d} \<subseteq> reg (dc_tmpOutBuffer d) (dc_tmpOutCap d)" using ro by (auto simp: roomy_def)
      then show ?thesis using own_parts(3) [of d] by blast
    qed
    note ow = outside_write [OF ou fr sub]
    note k = copy_size_bounds [OF x]
    have p: "tmp_room d = min (dc_dictSize d) 65536" using ro l False by (simp add: roomy_def)
    have kz: "copy_size d \<le> dc_dictSize d" using k(2) p by simp
    have ob: "old_bytes d m' = lasts (nat (copy_size d)) ?b"
      using bytes_lasts [OF k(1) kz, of m' "dc_dict d"] ow(2) st by (simp add: old_bytes_def)
    have "good_suffix (g @ old_bytes d m' @ x) (H @ x)" if lg: "length g = nat (tmp_room d - copy_size d)" for g
    proof (cases "copy_size d + int (length x) < 65535")
      case True
      then have c: "copy_size d = tmp_room d" by (rule k(3))
      then have "dc_dictSize d = copy_size d" using p True by auto
      then show ?thesis using lg c ob gs_append [OF g(1), of x] by simp
    next
      case F: False
      have "65535 \<le> length (lasts (nat (copy_size d)) ?b @ x)" using F k(1) kz by simp
      moreover have "suffix (lasts (nat (copy_size d)) ?b @ x) (?b @ x)" using suffix_lasts [of "nat (copy_size d)" ?b] by (auto simp: suffix_def)
      moreover have "suffix (lasts (nat (copy_size d)) ?b @ x) (g @ old_bytes d m' @ x)" by (simp add: ob suffix_def)
      ultimately have "good_suffix (g @ old_bytes d m' @ x) (?b @ x)" unfolding good_suffix_def by blast
      then show ?thesis using gs_append [OF g(1), of x] gs_trans by blast
    qed
    then have "flush_out {t..<dst1 J} d m' H x" using ow g kz st by (simp add: flush_out_def)
    then show ?thesis using e by (simp add: flush_ok_def)
  qed
qed

lemma decode_to_tmpOut_ok:
  assumes cb: "cblock_ok J d m s t p n T" and rank: "2 * nat (src1 J - s) < rank J pos"
  shows "\<exists>e. decode_to_tmpOut (jb_E J) p (d, m, s, t) = Some e \<and> exit_ok J pos e"
proof -
  let ?W = "{t..<dst1 J}" and ?D = "jb_D J" and ?fi = "dc_frameInfo d" and ?H = "block_hist (dc_frameInfo d) (jb_D J) T" and ?mx = "dc_maxBlockSize d"
  let ?out = "reg (dc_tmpOutBuffer d) (dc_tmpOutCap d)"
  have w: "world J d m s t" and T: "T = produced J m t" and tg: "dc_tmpInTarget d = n" and n: "0 < n" "n \<le> ?mx" and rd: "ready d" and su: "sums_ok d T"
    and src: "reg p n \<subseteq> dom m" "reg p n \<inter> ?out = {}" and h: "block_hist_ok ?W d m ?D T"
    and br: "blocks_read d ?D (consumed J s) T (size_field False (nat n) @ bytes m p n @ block_crc ?fi (bytes m p n))"
    using cb unfolding cblock_ok_def by blast+
  have mx: "0 < ?mx" "?mx \<le> 4194304" "?mx = blockSize_of ?fi" using rd ready_in(2,3) [OF rd] by (auto simp: ready_def)
  obtain d1 m1 where pc: "place_tmpOut d m = Some (d1, m1)" "placed_at J d m t T d1 m1" using place_ok [OF w rd h] by blast
  define z q where "z = dc_dictSize d1" and q: "q = dc_tmpOut d1"
  have d1: "d1 = d\<lparr>dc_dictSize := z, dc_tmpOut := q\<rparr>" and f1: "frame m m1 (dc_tmpOutBuffer d) (out_end d)" and h1: "block_hist_ok ?W d1 m1 ?D T" and ro: "roomy d1"
    using pc(2) by (auto simp: placed_at_def z_def q)
  have sub1: "?out \<subseteq> own d \<union> ?W" using own_parts(3) [of d] by blast
  have w1: "world J d1 m1 s t" using world_write [OF w f1 sub1] world_cong [of d1 d] by (simp add: d1 mem_fields_def)
  have T1: "T = produced J m1 t" using produced_write [OF w f1 sub1] T by simp
  have b1: "bytes m1 p n = bytes m p n" using bytes_out [OF f1] src(2) by blast
  have src1: "reg p n \<subseteq> dom m1" using src(1) frame_dom [OF f1] by simp
  have rq: "dc_tmpOutBuffer d \<le> q" "q + ?mx \<le> out_end d" using ro by (auto simp: roomy_def d1)
  then have qo: "reg q ?mx \<subseteq> ?out" by auto
  have "own d1 = own d" by (simp add: d1)
  then have qo': "reg q ?mx \<subseteq> own d1" using qo own_parts(3) [of d] by blast
  have qd: "reg q ?mx \<subseteq> dom m1" by (rule world_own [OF w1 qo'])
  have qp: "0 < q" using sane_reg [OF world_sane [OF w1] qd mx(1)] by simp
  note hr = hist_region [OF w1 h1]
  have ap: "reg p n \<inter> reg q ?mx = {}" using src(2) qo by blast
  have ap2: "reg (dc_dict d1) (dc_dictSize d1) \<inter> reg q ?mx = {}"
  proof (cases "dc_dict d1 \<noteq> dc_tmpOutBuffer d1 \<or> \<not> linked (dc_frameInfo d1)")
    case True
    then show ?thesis using hr(5) qo' unfolding outside_def by blast
  next
    case False
    then have "dc_dict d1 + dc_dictSize d1 = q" using ro by (simp add: roomy_def d1)
    then show ?thesis by auto
  qed
  obtain a' z' where cut: "cut_dict (dc_dict d1) (dc_dictSize d1) = (a', z')" by fastforce
  have n4: "n \<le> 4194304" using n mx by simp
  have H1: "block_hist (dc_frameInfo d1) ?D T = ?H" by (simp add: d1)
  obtain r m2 where r: "LZ4_decompress_safe_usingDict m1 p q n ?mx a' z' = Some (r, m2)" and fr: "frame m1 m2 q (q + ?mx)"
      and res: "r < 0 \<or> 0 \<le> r \<and> r \<le> ?mx \<and> decode_block ?H (bytes m p n) = Some (?H @ bytes m2 q r)"
    using block_decoded [OF w1 src1 n(1) n4 qd mx(1,2) ap ap2 hr(1,2,4) cut] unfolding H1 b1 by blast
  have sub2: "{q..<q + ?mx} \<subseteq> own d1 \<union> ?W" using qo' by blast
  have w2: "world J d1 m2 s t" by (rule world_write [OF w1 fr sub2])
  have T2: "T = produced J m2 t" using produced_write [OF w1 fr sub2] T1 by simp
  have code: "decode_to_tmpOut (jb_E J) p (d, m, s, t) = (if r < 0 then return_error LZ4F_ERROR_decompressionFailed (d1, m2, s, t)
      else do { dctx \<leftarrow> account_block d1 m2 q r;
        stage_flushOut (jb_E J) (dctx\<lparr>dc_tmpOutSize := r, dc_tmpOutStart := 0, dc_dStage := dstage_flushOut\<rparr>, m2, s, t) })"
  proof -
    have "dc_tmpOut d1 = q" "dc_tmpInTarget d1 = n" "dc_maxBlockSize d1 = ?mx" using tg by (simp_all add: d1)
    then show ?thesis unfolding decode_to_tmpOut_def prod.case pc(1) bind.bind_lunit Let_def cut by (simp add: r)
  qed
  show ?thesis
  proof (cases "r < 0")
    case True
    then show ?thesis unfolding code using exit_refused [OF w2] by (simp add: return_error_def)
  next
    case False
    then have r0: "0 \<le> r" "r \<le> ?mx" "decode_block ?H (bytes m p n) = Some (?H @ bytes m2 q r)" using res by auto
    let ?x = "bytes m2 q r"
    have "reg q r \<subseteq> reg q ?mx" using r0 by auto
    then have v: "valid m2 q r" using qd unfolding valid_reg frame_dom [OF fr] by blast
    have "sums_ok d1 T" using su by (simp add: d1)
    then obtain xxh where xxh: "account_block d1 m2 q r = Some (counted d1 xxh r)" "sums_ok (counted d1 xxh r) (T @ ?x)"
      using account_ok [OF _ v r0(1) qp] by blast
    define d4 where "d4 = counted d1 xxh r\<lparr>dc_tmpOutSize := r, dc_tmpOutStart := 0, dc_dStage := dstage_flushOut\<rparr>"
    have e4: "mem_fields d4 = mem_fields d1" by (simp add: d4_def mem_fields_def) (simp add: counted_def)
    have pl: "placed d4 m2 ?x" using r0 rq by (simp add: placed_def d4_def d1)
    have "stage_ok ?W d4 m2 ?D (consumed J s) (produced J m2 t)"
    proof (rule flushOutI [of _ _ T ?x])
      have "ready d1" using rd ro by (auto simp: d1 ready_def roomy_def split: if_splits)
      then show "ready d4" by (simp add: d4_def)
      have "blocks_read d ?D (consumed J s) (T @ ?x) []"
        by (rule compressed_block [of _ _ _ _ "bytes m p n"]) (use br n mx r0 in \<open>auto dest: arg_cong [where f = length]\<close>)
      then show "blocks_read d4 ?D (consumed J s) (T @ ?x) []" by (simp add: d4_def d1)
      show "if linked (dc_frameInfo d4) then flush_ok ?W d4 m2 (?D @ T) ?x else user_ok ?W d4 m2 ?D"
      proof (cases "linked ?fi")
        case True
        have "hist_ok ?W d4 m1 (?D @ T)" using h1 True by (simp add: block_hist_ok_def d4_def d1) (simp add: counted_def)
        moreover have "roomy d4 = roomy d1" unfolding roomy_def by (simp add: d4_def)
        ultimately have "flush_ok ?W d4 m2 (?D @ T) ?x"
          using world_cong [OF e4] w1 True ro fr pl by (intro flush_start [of J d4 m1 s t]) (simp_all add: d4_def d1)
        then show ?thesis using True by (simp add: d4_def d1)
      next
        case F: False
        have "user_ok ?W d1 m2 ?D" using user_write [OF _ fr sub2] h1 F by (simp add: block_hist_ok_def d1)
        then show ?thesis using F by (simp add: d4_def d1) (simp add: counted_def)
      qed
    qed (use T2 pl xxh(2) in \<open>simp_all add: d4_def\<close>)
    then have "inv J (d4, m2, s, t)" using w2 world_cong [OF e4] by (simp add: inv_def)
    moreover have "dc_dStage d4 = dstage_flushOut" by (simp add: d4_def)
    ultimately obtain e where "stage_flushOut (jb_E J) (d4, m2, s, t) = Some e" "exit_ok J pos e" using flushOut_exit rank by blast
    then show ?thesis unfolding code using False xxh(1) by (simp add: d4_def)
  qed
qed

end
