(* ===== verification/LZ4F_DecCBlock.thy ===== *)
theory LZ4F_DecCBlock
  imports LZ4F_DecDecode
begin

text \<open>The stages of the frame decoder keep its invariant: compressed blocks, from the input or from \<open>tmpIn\<close>.\<close>

lemma XXH32_Some:
  assumes "reg p n \<subseteq> dom m" "0 \<le> n" shows "XXH32 m p n 0 = Some (xxh32 0 (bytes m p n))"
proof -
  have "valid m p n" using assms(1) by (simp add: valid_reg)
  then show ?thesis using XXH32_endian_align_ok [of m p n] assms(2) by (simp add: XXH32_def XXH_CPU_LITTLE_ENDIAN_def XXH_FORCE_ALIGN_CHECK_def)
qed

lemma cblock_exit:
  assumes cb: "cblock_ok J d m s t p n T" and rank: "2 * nat (src1 J - s) < rank J pos"
  shows "\<exists>e. (if fc_dstEnd (jb_E J) - t \<ge> dc_maxBlockSize d \<and> \<not> (dc_dict d \<noteq> 0 \<and> dc_dict d + dc_dictSize d = dc_tmpOut d)
     then decode_to_dst (jb_E J) p (d, m, s, t) else decode_to_tmpOut (jb_E J) p (d, m, s, t)) = Some e \<and> exit_ok J pos e"
  using decode_to_dst_ok [OF cb _ rank] decode_to_tmpOut_ok [OF cb rank] by presburger

lemma decode_CBlock_ok:
  assumes w: "world J d m s t" and T: "T = produced J m t"
    and i: "in_frame {t..<dst1 J} d m (jb_D J) (consumed J s) T T (size_field False k @ bytes m p (dc_tmpInTarget d))"
    and g: "dc_tmpInTarget d = int k + crc_len d" "0 < k" "int k \<le> dc_maxBlockSize d"
    and src: "reg p (dc_tmpInTarget d) \<subseteq> dom m" "reg p (dc_tmpInTarget d) \<inter> reg (dc_tmpOutBuffer d) (dc_tmpOutCap d) = {}"
      "reg p (dc_tmpInTarget d) \<inter> {dst0 J..<dst1 J} = {}"
    and rank: "2 * nat (src1 J - s) < rank J pos"
  shows "\<exists>e. decode_CBlock (jb_E J) p (d, m, s, t) = Some e \<and> exit_ok J pos e"
proof -
  let ?d = "d\<lparr>dc_tmpInTarget := int k\<rparr>" and ?fi = "dc_frameInfo d" and ?b = "bytes m p (int k)"
  have c0: "0 \<le> crc_len d" by (simp add: crc_len_def)
  have p0: "0 < p" using sane_reg [OF world_sane [OF w] src(1)] g c0 by simp
  have sub: "reg p (int k) \<subseteq> reg p (dc_tmpInTarget d)" using g c0 by auto
  have ks: "reg p (int k) \<subseteq> dom m" "reg p (int k) \<inter> reg (dc_tmpOutBuffer d) (dc_tmpOutCap d) = {}" "reg p (int k) \<inter> {dst0 J..<dst1 J} = {}"
    using sub src by blast+
  have sp: "bytes m p (dc_tmpInTarget d) = ?b @ bytes m (p + int k) (crc_len d)" using bytes_append [of "int k" "crc_len d" m p] c0 g(1) by simp
  have wd: "world J ?d m s t" using w world_cong [of ?d d] by (simp add: mem_fields_def)
  have cb: "cblock_ok J ?d m s t p (int k) T" if "bytes m (p + int k) (crc_len d) = block_crc ?fi ?b"
    unfolding cblock_ok_def using wd T g ks i that sp by (simp add: in_frame_def)
  show ?thesis
  proof (cases "blockChecksumFlag ?fi = LZ4F_blockChecksumEnabled")
    case False
    then have "?d = d" using g(1) by (simp add: crc_len_def)
    moreover have "cblock_ok J ?d m s t p (int k) T" using False by (intro cb) (simp add: crc_len_def block_crc_def)
    ultimately show ?thesis using cblock_exit [OF _ rank, of d m t p "int k" T] False by (simp add: decode_CBlock_def)
  next
    case True
    then have c4: "crc_len d = 4" by (simp add: crc_len_def)
    have "reg (p + int k) 4 \<subseteq> reg p (dc_tmpInTarget d)" using g c4 by auto
    then have v: "valid m (p + int k) 4" using src(1) unfolding valid_reg by blast
    obtain r where r: "LZ4F_readLE32 m (p + int k) = Some r" using readLE32_Some [OF v] by blast
    have x: "XXH32 m p (int k) 0 = Some (xxh32 0 ?b)" by (rule XXH32_Some [OF ks(1)]) simp
    have code: "decode_CBlock (jb_E J) p (d, m, s, t) = (if r \<noteq> xxh32 0 ?b then return_error LZ4F_ERROR_blockChecksum_invalid (?d, m, s, t)
        else if fc_dstEnd (jb_E J) - t \<ge> dc_maxBlockSize ?d \<and> \<not> (dc_dict ?d \<noteq> 0 \<and> dc_dict ?d + dc_dictSize ?d = dc_tmpOut ?d)
        then decode_to_dst (jb_E J) p (?d, m, s, t) else decode_to_tmpOut (jb_E J) p (?d, m, s, t))"
      using True g c4 p0 r x by (simp add: decode_CBlock_def)
    show ?thesis
    proof (cases "r = xxh32 0 ?b")
      case eq: True
      then have "bytes m (p + int k) 4 = block_crc ?fi ?b" using r readLE32_crc [OF v] True by (simp add: block_crc_def)
      then have "cblock_ok J ?d m s t p (int k) T" by (intro cb) (simp add: c4)
      from cblock_exit [OF this rank] show ?thesis unfolding code using eq by simp
    next
      case False
      then show ?thesis unfolding code using exit_refused [OF wd] by (simp add: return_error_def)
    qed
  qed
qed

lemma getCBlock_ok:
  assumes i: "inv J (d, m, s, t)" and st: "dc_dStage d = dstage_getCBlock"
  shows "\<exists>e. stage_getCBlock (jb_E J) (d, m, s, t) = Some e \<and> exit_ok J (d, m, s, t) e"
proof -
  let ?W = "{t..<dst1 J}" and ?T = "produced J m t" and ?g = "dc_tmpInTarget d"
  have w: "world J d m s t" using i by (simp add: inv_def)
  obtain k where g: "?g = int k + crc_len d" "0 < k" "int k \<le> dc_maxBlockSize d"
      and f: "in_frame ?W d m (jb_D J) (consumed J s) ?T ?T (size_field False k)"
    using i st by (auto simp: inv_def stage_ok_def)
  have c0: "0 \<le> crc_len d" by (simp add: crc_len_def)
  show ?thesis
  proof (cases "src1 J - s < ?g")
    case True
    let ?d = "d\<lparr>dc_tmpInSize := 0, dc_dStage := dstage_storeCBlock\<rparr>"
    have "world J ?d m s t" using w world_cong [of ?d d] by (simp add: mem_fields_def)
    moreover have "stage_ok ?W ?d m (jb_D J) (consumed J s) ?T" using f g c0 by (auto simp: stage_ok_def)
    ultimately have "exit_ok J (d, m, s, t) (Again (?d, m, s, t))" using st by (intro exit_Again) (simp_all add: rank_def)
    then show ?thesis using True by (simp add: stage_getCBlock_def)
  next
    case False
    have n: "0 \<le> ?g" "s + ?g \<le> src1 J" using False g c0 by auto
    note src = world_src [OF w n]
    have w1: "world J d m (s + ?g) t" using world_pos [OF w _ n(2), of t] n(1) world_le [OF w] by simp
    have "in_frame ?W d m (jb_D J) (consumed J (s + ?g)) ?T ?T (size_field False k @ bytes m s ?g)"
      using in_frame_more [OF f consumed_add [OF w n] refl] .
    moreover have "reg s ?g \<inter> reg (dc_tmpOutBuffer d) (dc_tmpOutCap d) = {}" using src(2) own_parts(3) [of d] by blast
    moreover have "2 * nat (src1 J - (s + ?g)) < rank J (d, m, s, t)" using st n by (simp add: rank_def)
    ultimately have "\<exists>e. decode_CBlock (jb_E J) s (d, m, s + ?g, t) = Some e \<and> exit_ok J (d, m, s, t) e"
      using decode_CBlock_ok [OF w1 refl _ g src(1) _ src(3)] by blast
    then show ?thesis using False by (simp add: stage_getCBlock_def)
  qed
qed

lemma storeCBlock_ok:
  assumes i: "inv J (d, m, s, t)" and st: "dc_dStage d = dstage_storeCBlock"
  shows "\<exists>e. stage_storeCBlock (jb_E J) (d, m, s, t) = Some e \<and> exit_ok J (d, m, s, t) e"
proof -
  let ?W = "{t..<dst1 J}" and ?T = "produced J m t"
  define z g where z: "z = dc_tmpInSize d" and gt: "g = dc_tmpInTarget d"
  note z' = z [symmetric] gt [symmetric]
  have w: "world J d m s t" using i by (simp add: inv_def)
  obtain k where g: "g = int k + crc_len d" "0 < k" "int k \<le> dc_maxBlockSize d" "0 \<le> z" "z < g"
      and f: "in_frame ?W d m (jb_D J) (consumed J s) ?T ?T (size_field False k @ bytes m (dc_tmpIn d) z)"
    using i st by (auto simp: inv_def stage_ok_def z gt)
  have rd: "ready d" using f by (simp add: in_frame_def)
  have cap: "g \<le> dc_tmpInCap d" "g \<le> 4194308" using rd ready_in(2) [OF rd] g by (auto simp: ready_def crc_len_def split: if_splits)
  define n where "n = chunk J s z g"
  obtain m' where m: "LZ4_memcpy m (dc_tmpIn d + z) s n = Some m'" "stored J d m s t (dc_tmpIn d) z n m'" "0 \<le> n"
      "{dc_tmpIn d + z..<dc_tmpIn d + z + n} \<subseteq> front d"
    using store_in [OF w g(4) less_imp_le [OF g(5)] cap(1)] unfolding n_def by blast
  let ?d = "d\<lparr>dc_tmpInSize := z + n\<rparr>"
  have w1: "world J ?d m' (s + n) t" using m(2) world_cong [of ?d d] by (simp add: mem_fields_def stored_def)
  have pr: "produced J m' t = ?T" using m(2) by (simp add: stored_def)
  have Wd: "?W \<subseteq> {dst0 J..<dst1 J}" using world_le(2) [OF w] by auto
  have f1: "in_frame ?W d m' (jb_D J) (consumed J s) ?T ?T (size_field False k @ bytes m (dc_tmpIn d) z)"
    by (rule in_frame_write [OF w f, of m' "dc_tmpIn d + z" "dc_tmpIn d + z + n"]) (use m Wd in \<open>auto simp: stored_def\<close>)
  have c: "in_frame ?W ?d m' (jb_D J) (consumed J (s + n)) ?T ?T (size_field False k @ bytes m' (dc_tmpIn d) (z + n))"
    using in_frame_more [OF f1, of "consumed J (s + n)" "bytes m s n"] m(2) by (simp add: stored_def)
  have code: "min (u64 (g - z)) (src1 J - s) = n" using chunk_code [of z g J s] g(4,5) cap by (simp add: n_def)
  note D = stage_storeCBlock_def prod.case z' code Let_def m(1) bind.bind_lunit
  show ?thesis
  proof (cases "z + n < g")
    case True
    have "stage_ok ?W ?d m' (jb_D J) (consumed J (s + n)) (produced J m' t)"
      using st g c pr True m(3) unfolding stage_ok_def by (auto simp: z')
    then have "exit_ok J (d, m, s, t) (Stop (g - (z + n) + (if blockChecksumFlag (dc_frameInfo d) = LZ4F_blockChecksumEnabled then BFSize else 0) + BHSize) (?d, m', s + n, t))"
      using True w1 st g m(3) cap by (intro exit_Stop) auto
    then show ?thesis unfolding D using True z' by simp
  next
    case False
    then have zn: "z + n = g" using chunk_full [of z J s g] world_le(1) [OF w] by (simp add: n_def)
    have r: "reg (dc_tmpIn d) g \<subseteq> reg (dc_tmpIn d) (dc_tmpInCap d)" using cap by auto
    then have o: "reg (dc_tmpIn d) g \<subseteq> own ?d" using own_parts(2) [of ?d] by auto
    have sep: "reg (dc_tmpIn d) (dc_tmpInCap d) \<inter> reg (dc_tmpOutBuffer d) (dc_tmpOutCap d) = {}" "own ?d \<inter> {dst0 J..<dst1 J} = {}"
      using w1 by (simp_all add: world_def buffers_ok_def)
    have ap: "reg (dc_tmpIn d) g \<inter> reg (dc_tmpOutBuffer d) (dc_tmpOutCap d) = {}" "reg (dc_tmpIn d) g \<inter> {dst0 J..<dst1 J} = {}" using r o sep by blast+
    have dd: "dc_tmpInTarget ?d = g" "dc_tmpOutBuffer ?d = dc_tmpOutBuffer d" "dc_tmpOutCap ?d = dc_tmpOutCap d" by (simp_all add: gt)
    have rk: "2 * nat (src1 J - (s + n)) < rank J (d, m, s, t)" using st g(5) zn world_le(1) [OF w1] by (simp add: rank_def)
    have "\<exists>e. decode_CBlock (jb_E J) (dc_tmpIn d) (?d, m', s + n, t) = Some e \<and> exit_ok J (d, m, s, t) e"
    proof (rule decode_CBlock_ok [OF w1 refl _ _ g(2) _ _ _ _ rk])
      show "in_frame ?W ?d m' (jb_D J) (consumed J (s + n)) (produced J m' t) (produced J m' t) (size_field False k @ bytes m' (dc_tmpIn d) (dc_tmpInTarget ?d))"
        using c zn pr gt by simp
      show "reg (dc_tmpIn d) (dc_tmpInTarget ?d) \<subseteq> dom m'" using world_own [OF w1 o] gt by simp
      show "reg (dc_tmpIn d) (dc_tmpInTarget ?d) \<inter> reg (dc_tmpOutBuffer ?d) (dc_tmpOutCap ?d) = {}"
          "reg (dc_tmpIn d) (dc_tmpInTarget ?d) \<inter> {dst0 J..<dst1 J} = {}" unfolding dd by (fact ap)+
    qed (use g gt in simp_all)
    then show ?thesis unfolding D using zn z' by simp
  qed
qed

end
