(* ===== verification/LZ4F_DecRun.thy ===== *)
theory LZ4F_DecRun
  imports LZ4F_DecCBlock
begin

text \<open>
  The loop of the frame decoder ends, and keeps the invariant.  Between two calls the context relies on its buffers and on
  \<open>caller_memory\<close>, the part of its history that lies in buffers of the caller.
\<close>

section \<open>The loop\<close>

lemma dec_stage_ok:
  assumes al: "alloc_ok alloc" and i: "inv J pos"
  shows "\<exists>e. dec_stage alloc (jb_E J) pos = Some e \<and> exit_ok J pos e"
proof (cases pos)
  case (fields d m s t)
  have i': "inv J (d, m, s, t)" using i fields by simp
  note ok = getFrameHeader_ok storeFrameHeader_ok init_ok getBlockHeader_ok storeBlockHeader_ok copyDirect_ok getBlockChecksum_ok
    getCBlock_ok storeCBlock_ok getSuffix_ok storeSuffix_ok getSFrameSize_ok storeSFrameSize_ok skipSkippable_ok
  show ?thesis
  proof (cases "dc_dStage d = dstage_flushOut")
    case True
    have "2 * nat (src1 J - s) < rank J (d, m, s, t)" using True by (simp add: rank_def)
    then show ?thesis using flushOut_exit [OF i' True] True fields by (simp add: dec_stage_def)
  next
    case False
    then show ?thesis using ok [OF i'] al unfolding fields dec_stage_def by (cases "dc_dStage d") simp_all
  qed
qed

lemma dec_run_ok:
  assumes al: "alloc_ok alloc" and i: "inv J pos"
  shows "\<exists>ret r pos'. dec_run alloc (jb_E J) pos = Some (ret, r, pos') \<and> exit_ok J pos (if ret then Return r pos' else Stop r pos')"
  using i
proof (induction "rank J pos" arbitrary: pos rule: less_induct)
  case less
  obtain e where e: "dec_stage alloc (jb_E J) pos = Some e" "exit_ok J pos e" using dec_stage_ok [OF al less.prems] by blast
  note D = dec_run.simps [of alloc "jb_E J" pos, unfolded e(1) bind.bind_lunit]
  show ?case
  proof (cases e)
    case (Again pos1)
    then have "inv J pos1" "rank J pos1 < rank J pos" using e(2) by (simp_all add: exit_ok_def)
    then obtain ret r pos' where r: "dec_run alloc (jb_E J) pos1 = Some (ret, r, pos')" "exit_ok J pos1 (if ret then Return r pos' else Stop r pos')"
      using less.hyps by blast
    then show ?thesis using D Again by (simp add: exit_ok_def split: if_splits)
  next
    case (Stop h pos1) then show ?thesis using D e(2) by (intro exI [of _ False] exI [of _ h] exI [of _ pos1]) simp
  next
    case (Return h pos1) then show ?thesis using D e(2) by (intro exI [of _ True] exI [of _ h] exI [of _ pos1]) simp
  qed
qed

section \<open>Between calls\<close>

definition late_stages :: "dStage_t set" where
  "late_stages = {dstage_getSuffix, dstage_storeSuffix, dstage_getSFrameSize, dstage_storeSFrameSize, dstage_skipSkippable}"

definition caller_memory :: "LZ4F_dctx \<Rightarrow> addr set" where
  "caller_memory d = (if dc_dStage d \<in> late_stages then {} else reg (dc_dict d) (dc_dictSize d) - own d)"

text \<open>A stage stays valid when the history does, the buffers keep their bytes and checksums are skipped from now on.\<close>

definition skipping :: "bool \<Rightarrow> LZ4F_dctx \<Rightarrow> LZ4F_dctx" where
  "skipping b d = d\<lparr>dc_skipChecksum := dc_skipChecksum d \<or> b\<rparr>"

lemma skipping_sel [simp]:
  "dc_dStage (skipping b d) = dc_dStage d" "dc_frameInfo (skipping b d) = dc_frameInfo d" "dc_header (skipping b d) = dc_header d"
  "dc_tmpIn (skipping b d) = dc_tmpIn d" "dc_tmpInSize (skipping b d) = dc_tmpInSize d" "dc_tmpInTarget (skipping b d) = dc_tmpInTarget d"
  "dc_maxBlockSize (skipping b d) = dc_maxBlockSize d" "dc_frameRemainingSize (skipping b d) = dc_frameRemainingSize d"
  "dc_tmpOutStart (skipping b d) = dc_tmpOutStart d" "dc_blockChecksum (skipping b d) = dc_blockChecksum d"
  "dc_dict (skipping b d) = dc_dict d" "dc_dictSize (skipping b d) = dc_dictSize d" "own (skipping b d) = own d"
  "dc_skipChecksum (skipping b d) = (dc_skipChecksum d \<or> b)" "crc_len (skipping b d) = crc_len d" "ready (skipping b d) = ready d"
  "user_ok W (skipping b d) m D = user_ok W d m D" "block_hist_ok W (skipping b d) m D T = block_hist_ok W d m D T"
  "placed (skipping b d) m x = placed d m x" "caller_memory (skipping b d) = caller_memory d"
  by (simp_all add: skipping_def placed_def caller_memory_def)

lemma flush_ok_skipping [simp]: "flush_ok W (skipping b d) m H x = flush_ok W d m H x"
  by (simp add: skipping_def flush_ok_def flush_tmp_def flush_out_def old_bytes_def copy_size_def)

lemma blocks_read_skipping: "blocks_read d D C T p \<Longrightarrow> blocks_read (skipping b d) D C T p"
  unfolding blocks_read_def skipping_def using frame_blocks_weaken [of "dc_frameInfo d" "\<not> dc_skipChecksum d" D]
  by (cases "dc_skipChecksum d"; cases b) (simp_all, blast)

lemma sums_skipping: "sums_ok d T \<Longrightarrow> sums_ok (skipping b d) T"
  by (simp add: sums_ok_def skipping_def)

lemma stage_transfer:
  assumes st: "stage_ok V d m D C T" and own: "\<forall>x \<in> own d. m' x = m x"
    and u: "dc_dStage d \<notin> late_stages \<Longrightarrow> user_ok V d m D \<Longrightarrow> user_ok W d m' D"
    and k: "dc_dStage d \<notin> late_stages \<Longrightarrow> block_hist_ok V d m D T \<Longrightarrow> block_hist_ok W d m' D T"
    and g: "\<And>H x. dc_dStage d \<notin> late_stages \<Longrightarrow> placed d m x \<Longrightarrow> flush_ok V d m H x \<Longrightarrow> flush_ok W d m' H x"
  shows "stage_ok W (skipping b d) m' D C T"
proof -
  have same: "reg a n \<subseteq> own d \<Longrightarrow> bytes m' a n = bytes m a n" for a n using own by (intro bytes_agree) blast
  have hd: "bytes m' (dc_header d) n = bytes m (dc_header d) n" if "n \<le> 19" for n
  proof (rule same)
    have "reg (dc_header d) n \<subseteq> reg (dc_header d) 19" using that by auto
    then show "reg (dc_header d) n \<subseteq> own d" using own_parts(1) [of d] by blast
  qed
  have ti: "bytes m' (dc_tmpIn d) n = bytes m (dc_tmpIn d) n" if "n \<le> dc_tmpInCap d" for n
  proof (rule same)
    have "reg (dc_tmpIn d) n \<subseteq> reg (dc_tmpIn d) (dc_tmpInCap d)" using that by auto
    then show "reg (dc_tmpIn d) n \<subseteq> own d" using own_parts(2) [of d] by blast
  qed
  have f: "in_frame W (skipping b d) m' D C T1 T p" if "dc_dStage d \<notin> late_stages" "in_frame V d m D C T1 T p" for T1 p
    using that k blocks_read_skipping sums_skipping by (simp add: in_frame_def)
  note late = late_stages_def and rd = in_frame_def
  show ?thesis
  proof (cases "dc_dStage d")
    case dstage_storeFrameHeader
    have h5: "header_flags m' (dc_header d) cs di = header_flags m (dc_header d) cs di" for cs di
      by (rule header_flags_cong [of _ _ 5]) (simp_all add: hd)
    have "dc_tmpInTarget d = 7 \<or> (\<exists>cs di. dc_tmpInTarget d = header_size cs di)" "dc_tmpInSize d < dc_tmpInTarget d"
      using st by (auto simp: stage_ok_def dstage_storeFrameHeader)
    moreover have "dc_tmpInTarget d \<le> 19" using calculation(1) header_size_bounds(2) by auto
    ultimately have "dc_tmpInSize d \<le> 19" by simp
    then show ?thesis using st u h5 hd by (simp add: stage_ok_def dstage_storeFrameHeader late)
  next
    case dstage_storeBlockHeader
    then have i: "in_frame V d m D C T T (bytes m (dc_tmpIn d) (dc_tmpInSize d))" "dc_tmpInSize d < 4" using st by (simp_all add: stage_ok_def)
    then have "bytes m' (dc_tmpIn d) (dc_tmpInSize d) = bytes m (dc_tmpIn d) (dc_tmpInSize d)" using ready_in(1) [of d] by (intro ti) (simp add: rd)
    then show ?thesis using st f [OF _ i(1)] by (simp add: stage_ok_def dstage_storeBlockHeader late)
  next
    case dstage_copyDirect
    then obtain T1 x where x: "T = T1 @ x" "0 \<le> dc_tmpInTarget d" "int (length x) + dc_tmpInTarget d \<le> dc_maxBlockSize d"
        "in_frame V d m D C T1 T (size_field True (length x + nat (dc_tmpInTarget d)) @ x)"
        "blockChecksumFlag (dc_frameInfo d) = LZ4F_blockChecksumEnabled \<and> \<not> dc_skipChecksum d \<longrightarrow> state32_ok 0 x (dc_blockChecksum d)"
      using st by (auto simp: stage_ok_def)
    have "in_frame W (skipping b d) m' D C T1 T (size_field True (length x + nat (dc_tmpInTarget d)) @ x)"
      by (rule f [OF _ x(4)]) (simp add: dstage_copyDirect late)
    then show ?thesis using x(1-3,5) unfolding stage_ok_def by (auto simp: dstage_copyDirect)
  next
    case dstage_getBlockChecksum
    then obtain T1 x where x: "T = T1 @ x" "int (length x) \<le> dc_maxBlockSize d" "blockChecksumFlag (dc_frameInfo d) = LZ4F_blockChecksumEnabled"
        "0 \<le> dc_tmpInSize d" "dc_tmpInSize d < 4" "in_frame V d m D C T1 T (size_field True (length x) @ x @ bytes m (dc_header d) (dc_tmpInSize d))"
        "\<not> dc_skipChecksum d \<longrightarrow> state32_ok 0 x (dc_blockChecksum d)"
      using st by (auto simp: stage_ok_def)
    have "in_frame W (skipping b d) m' D C T1 T (size_field True (length x) @ x @ bytes m' (dc_header d) (dc_tmpInSize d))"
      using f [OF _ x(6)] hd x(5) by (simp add: dstage_getBlockChecksum late)
    then show ?thesis using x(1-5,7) unfolding stage_ok_def by (auto simp: dstage_getBlockChecksum)
  next
    case dstage_getCBlock
    then obtain n where n: "dc_tmpInTarget d = int n + crc_len d" "0 < n" "int n \<le> dc_maxBlockSize d" "in_frame V d m D C T T (size_field False n)"
      using st by (auto simp: stage_ok_def)
    then show ?thesis using f [OF _ n(4)] by (auto simp: stage_ok_def dstage_getCBlock late)
  next
    case dstage_storeCBlock
    then obtain n where n: "dc_tmpInTarget d = int n + crc_len d" "0 < n" "int n \<le> dc_maxBlockSize d" "0 \<le> dc_tmpInSize d"
        "dc_tmpInSize d < dc_tmpInTarget d" "in_frame V d m D C T T (size_field False n @ bytes m (dc_tmpIn d) (dc_tmpInSize d))"
      using st by (auto simp: stage_ok_def)
    have "dc_tmpInSize d \<le> dc_tmpInCap d" using n crc_len_le [of d] by (simp add: in_frame_def ready_def)
    then show ?thesis using f [OF _ n(6)] ti n by (auto simp: stage_ok_def dstage_storeCBlock late)
  next
    case dstage_flushOut
    then obtain T0 x where x: "T = T0 @ take (nat (dc_tmpOutStart d)) x" "placed d m x" "ready d" "blocks_read d D C (T0 @ x) []" "sums_ok d (T0 @ x)"
        "if linked (dc_frameInfo d) then flush_ok V d m (D @ T0) x else user_ok V d m D"
      using st by (auto simp: stage_ok_def)
    have "reg (dc_tmpOut d) (dc_tmpOutSize d) \<subseteq> reg (dc_tmpOutBuffer d) (dc_tmpOutCap d)" using x(2) by (auto simp: placed_def)
    then have "bytes m' (dc_tmpOut d) (dc_tmpOutSize d) = bytes m (dc_tmpOut d) (dc_tmpOutSize d)" using own_parts(3) [of d] by (intro same) blast
    then have p: "placed d m' x" using x(2) by (simp add: placed_def)
    have "if linked (dc_frameInfo d) then flush_ok W d m' (D @ T0) x else user_ok W d m' D"
      using x(2,6) g u by (auto simp: dstage_flushOut late split: if_splits)
    then show ?thesis using x(1,3) p blocks_read_skipping [OF x(4)] sums_skipping [OF x(5)] dstage_flushOut by (intro flushOutI [of _ _ T0 x]) simp_all
  next
    case dstage_storeSuffix
    then have r: "ready d" "dc_tmpInSize d < 4" using st by (simp_all add: stage_ok_def)
    then have "bytes m' (dc_tmpIn d) (dc_tmpInSize d) = bytes m (dc_tmpIn d) (dc_tmpInSize d)" using ready_in(1) [of d] by (intro ti) simp
    then show ?thesis using st blocks_read_skipping sums_skipping by (simp add: stage_ok_def dstage_storeSuffix)
  next
    case dstage_storeSFrameSize
    have "reg (dc_header d + 4) (dc_tmpInSize d - 4) \<subseteq> reg (dc_header d) 19" using st by (auto simp: stage_ok_def dstage_storeSFrameSize)
    then have "bytes m' (dc_header d + 4) (dc_tmpInSize d - 4) = bytes m (dc_header d + 4) (dc_tmpInSize d - 4)"
      using own_parts(1) [of d] by (intro same) blast
    then show ?thesis using st by (simp add: stage_ok_def dstage_storeSFrameSize)
  qed (use st u f blocks_read_skipping sums_skipping in \<open>auto simp: stage_ok_def late\<close>)
qed

text \<open>So the context survives what the caller does with all other memory between two calls.\<close>

lemma outside_keep:
  assumes o: "outside V d m" and c: "\<forall>x \<in> reg (dc_dict d) (dc_dictSize d) - own d. m' x = m x \<and> x \<notin> W"
  shows "outside W d m'" "\<forall>x \<in> reg (dc_dict d) (dc_dictSize d). m' x = m x" "bytes m' (dc_dict d) (dc_dictSize d) = bytes m (dc_dict d) (dc_dictSize d)"
proof -
  have r: "\<forall>x \<in> reg (dc_dict d) (dc_dictSize d). m' x = m x \<and> x \<notin> W" using o c unfolding outside_def by blast
  then show "\<forall>x \<in> reg (dc_dict d) (dc_dictSize d). m' x = m x" by blast
  then show "bytes m' (dc_dict d) (dc_dictSize d) = bytes m (dc_dict d) (dc_dictSize d)" by (intro bytes_agree) blast
  have "reg (dc_dict d) (dc_dictSize d) \<subseteq> dom m'" "reg (dc_dict d) (dc_dictSize d) \<inter> W = {}"
    using r o unfolding outside_def by (auto simp: subset_iff domIff)
  then show "outside W d m'" using o by (simp add: outside_def)
qed

lemma hist_keep:
  assumes o: "\<forall>x \<in> own d. m' x = m x" and c: "\<forall>x \<in> reg (dc_dict d) (dc_dictSize d) - own d. m' x = m x \<and> x \<notin> W"
  shows "user_ok V d m D \<Longrightarrow> user_ok W d m' D" "block_hist_ok V d m D T \<Longrightarrow> block_hist_ok W d m' D T"
    "placed d m x \<Longrightarrow> flush_ok V d m H x \<Longrightarrow> flush_ok W d m' H x"
proof -
  note k = outside_keep [where V = V, OF _ c]
  show u: "user_ok V d m D \<Longrightarrow> user_ok W d m' D" using k by (simp add: user_ok_def)
  have "hist_ok W d m' H" if h: "hist_ok V d m H" for H
  proof (cases "outside V d m")
    case False
    then have t: "dc_dict d = dc_tmpOutBuffer d" "dc_dictSize d \<le> dc_tmpOutCap d" using h by (auto simp: hist_ok_def)
    then have "reg (dc_dict d) (dc_dictSize d) \<subseteq> own d" using own_parts(3) [of d] by auto
    then have "bytes m' (dc_dict d) (dc_dictSize d) = bytes m (dc_dict d) (dc_dictSize d)" using o by (intro bytes_agree) blast
    then show ?thesis using h False t by (simp add: hist_ok_def)
  qed (use h k in \<open>simp add: hist_ok_def\<close>)
  then show "block_hist_ok V d m D T \<Longrightarrow> block_hist_ok W d m' D T" using u by (simp add: block_hist_ok_def split: if_splits)
  show "flush_ok W d m' H x" if p: "placed d m x" and f: "flush_ok V d m H x"
  proof -
    have "reg (dc_tmpOutBuffer d) (tmp_room d) \<subseteq> reg (dc_tmpOutBuffer d) (dc_tmpOutCap d)" using p by (auto simp: placed_def)
    then have b: "bytes m' (dc_tmpOutBuffer d) (tmp_room d) = bytes m (dc_tmpOutBuffer d) (tmp_room d)"
      using o own_parts(3) [of d] by (intro bytes_agree) blast
    have "flush_out W d m' H x" if fo: "flush_out V d m H x"
    proof -
      have ou: "outside V d m" and z: "0 < copy_size d \<longrightarrow> copy_size d \<le> dc_dictSize d - dc_tmpOutStart d" using fo by (simp_all add: flush_out_def)
      have "old_bytes d m' = old_bytes d m" unfolding old_bytes_def
      proof (rule bytes_agree)
        have "0 \<le> dc_tmpOutStart d" using p by (simp add: placed_def)
        then have "reg (dc_dict d + dc_dictSize d - dc_tmpOutStart d - copy_size d) (copy_size d) \<subseteq> reg (dc_dict d) (dc_dictSize d)"
          using z by (cases "0 < copy_size d") auto
        then show "m' y = m y" if "y \<in> reg (dc_dict d + dc_dictSize d - dc_tmpOutStart d - copy_size d) (copy_size d)" for y using k(2) [OF ou] that by blast
      qed
      then show ?thesis using fo k(1,3) [OF ou] by (simp add: flush_out_def)
    qed
    then show ?thesis using f b by (auto simp: flush_ok_def flush_tmp_def)
  qed
qed

lemma stage_keep:
  assumes st: "stage_ok V d m D C T" and k: "\<forall>x \<in> own d \<union> caller_memory d. m' x = m x" and a: "caller_memory d \<inter> W = {}"
  shows "stage_ok W (skipping b d) m' D C T"
proof -
  have o: "\<forall>x \<in> own d. m' x = m x" using k by blast
  have c: "\<forall>x \<in> reg (dc_dict d) (dc_dictSize d) - own d. m' x = m x \<and> x \<notin> W" if "dc_dStage d \<notin> late_stages"
    using k a that unfolding caller_memory_def by auto
  show ?thesis using stage_transfer [OF st o] hist_keep [OF o c] by blast
qed

end
