(* ===== verification/LZ4F_DecCall.thy ===== *)
theory LZ4F_DecCall
  imports LZ4F_DecRun
begin

text \<open>
  What a call of \<open>LZ4F_decompress\<close> promises.  \<open>dctx_ok m d D C T\<close>: the context \<open>d\<close> has read the bytes \<open>C\<close> of a frame, whose
  dictionary is \<open>D\<close>, and has produced the bytes \<open>T\<close>.  \<open>call_ok\<close>: the buffers of a call are valid and apart from each other and from the
  memory that the context refers to.
\<close>

definition dctx_ok :: "mem \<Rightarrow> LZ4F_dctx \<Rightarrow> byte list \<Rightarrow> byte list \<Rightarrow> byte list \<Rightarrow> bool" where
  "dctx_ok m d D C T \<longleftrightarrow> sane m \<and> buffers_ok m d \<and> stage_ok {} d m D C T"

definition call_ok :: "mem \<Rightarrow> LZ4F_dctx \<Rightarrow> addr \<Rightarrow> int \<Rightarrow> addr \<Rightarrow> int \<Rightarrow> bool" where
  "call_ok m d dst dn src sn \<longleftrightarrow> 0 \<le> dst \<and> 0 \<le> dn \<and> (dst = 0 \<longrightarrow> dn = 0) \<and> 0 \<le> src \<and> 0 \<le> sn \<and> reg dst dn \<subseteq> dom m \<and> reg src sn \<subseteq> dom m \<and>
     reg dst dn \<inter> own d = {} \<and> reg dst dn \<inter> caller_memory d = {} \<and> reg dst dn \<inter> reg src sn = {} \<and> reg src sn \<inter> own d = {} \<and>
     (0 < dn \<longrightarrow> dc_tmpOutBuffer d + dc_tmpOutCap d \<noteq> dst)"

text \<open>The outcome: an error, a whole frame, or a context that has read and produced more of it.\<close>

definition frame_done :: "bool \<Rightarrow> byte list \<Rightarrow> byte list \<Rightarrow> byte list \<Rightarrow> bool" where
  "frame_done ck D C T \<longleftrightarrow> whole_frame ck D C T \<or> skippable_frame C \<and> T = []"

definition call_result :: "mem \<Rightarrow> LZ4F_dctx \<Rightarrow> byte list \<Rightarrow> byte list \<Rightarrow> byte list \<Rightarrow> addr \<Rightarrow> int \<Rightarrow> addr \<Rightarrow> int \<Rightarrow> bool \<Rightarrow> bool
    \<Rightarrow> int \<times> int \<times> int \<times> LZ4F_dctx \<times> mem \<Rightarrow> bool" where
  "call_result m d D C T dst dn src sn stab skip = (\<lambda>(r, n, k, d', m').
     0 \<le> n \<and> n \<le> dn \<and> 0 \<le> k \<and> k \<le> sn \<and> sane m' \<and> buffers_ok m' d' \<and> (\<forall>x \<in> dom m - own d - reg dst dn. m' x = m x) \<and>
     (if LZ4F_isError r then n = 0 \<and> k = 0
      else if r = 0 then fresh d' \<and> frame_done (\<not> (dc_skipChecksum d \<or> skip)) D (C @ bytes m src k) (T @ bytes m' dst n)
      else 0 < r \<and> dctx_ok m' d' D (C @ bytes m src k) (T @ bytes m' dst n) \<and> (\<not> stab \<and> mid_frame d' \<longrightarrow> caller_memory d' = {})))"

definition dec_job_of :: "mem \<Rightarrow> LZ4F_dctx \<Rightarrow> byte list \<Rightarrow> byte list \<Rightarrow> byte list \<Rightarrow> addr \<Rightarrow> int \<Rightarrow> addr \<Rightarrow> int \<Rightarrow> bool \<Rightarrow> dec_job" where
  "dec_job_of m d D C T dst dn src sn skip = \<lparr>jb_E = \<lparr>fc_srcEnd = src + sn, fc_dstStart = dst, fc_dstEnd = dst + dn\<rparr>, jb_P = dom m - own d - reg dst dn,
     jb_m0 = m, jb_s0 = src, jb_skip = (dc_skipChecksum d \<or> skip), jb_D = D, jb_C0 = C, jb_T0 = T\<rparr>"

lemma job_start:
  assumes d: "dctx_ok m d D C T" and c: "call_ok m d dst dn src sn"
  shows "inv (dec_job_of m d D C T dst dn src sn skip) (skipping skip d, m, src, dst)"
proof -
  let ?J = "dec_job_of m d D C T dst dn src sn skip"
  have ds: "sane m" "buffers_ok m d" "stage_ok {} d m D C T" using d by (simp_all add: dctx_ok_def)
  have b: "buffers_ok m (skipping skip d)" using ds(2) by (simp add: buffers_ok_def) (simp add: skipping_def)
  have cc: "0 \<le> dst" "0 \<le> dn" "0 \<le> src" "0 \<le> sn" "reg dst dn \<subseteq> dom m" "reg src sn \<subseteq> dom m" "reg dst dn \<inter> own d = {}"
      "reg dst dn \<inter> caller_memory d = {}" "reg dst dn \<inter> reg src sn = {}" "reg src sn \<inter> own d = {}" "0 < dn \<longrightarrow> dc_tmpOutBuffer d + dc_tmpOutCap d \<noteq> dst"
    using c unfolding call_ok_def by blast+
  have P: "reg src sn \<subseteq> dom m - own d - reg dst dn" using cc by blast
  have "own d \<inter> reg dst dn = {}" using cc(7) by blast
  then have "world ?J (skipping skip d) m src dst"
    unfolding world_def dec_job_of_def using ds(1) b cc P by (simp add: Diff_Int_distrib2) (simp add: skipping_def; blast)
  moreover have "stage_ok (reg dst dn) (skipping skip d) m D C T" by (rule stage_keep [OF ds(3)]) (use cc(8) in blast)+
  ultimately show ?thesis by (simp add: inv_def consumed_def produced_def dec_job_of_def)
qed

lemma preserve_same: "preserve_history stab d m = Some (d', m') \<Longrightarrow> dc_dStage d' = dc_dStage d \<and> dc_frameInfo d' = dc_frameInfo d"
  by (auto simp: preserve_history_def Let_def bind_eq_Some_conv split: if_splits)

lemma caller_none:
  assumes st: "stage_ok W d m D C T" "mid_frame d" and h: "history_region d = {}" shows "caller_memory d = {}"
proof -
  have rd: "ready d" "linked (dc_frameInfo d)" using st by (auto simp: mid_frame_def block_stages_def stage_ok_def in_frame_def)
  have B: "dc_tmpOutBuffer d \<in> own d" using own_parts(3) [of d] ready_cap [OF rd] by auto
  have "reg (dc_dict d) (dc_dictSize d) \<subseteq> own d"
  proof (cases "dc_dict d = dc_tmpOutBuffer d")
    case True
    have "outside W d m \<or> dc_dictSize d \<le> dc_tmpOutCap d"
      using st rd(2) by (auto simp: mid_frame_def block_stages_def stage_ok_def in_frame_def block_hist_ok_def hist_ok_def flush_ok_def flush_tmp_def flush_out_def placed_def)
    moreover have "\<not> 0 < dc_dictSize d" if "outside W d m"
    proof
      assume "0 < dc_dictSize d"
      then have "dc_dict d \<in> reg (dc_dict d) (dc_dictSize d)" by auto
      moreover have "dc_dict d \<in> own d" using B True by simp
      ultimately show False using that unfolding outside_def by blast
    qed
    ultimately have "dc_dictSize d \<le> dc_tmpOutCap d" using ready_cap [OF rd] by auto
    then have "reg (dc_dict d) (dc_dictSize d) \<subseteq> reg (dc_tmpOutBuffer d) (dc_tmpOutCap d)" using True by auto
    then show ?thesis using own_parts(3) [of d] by blast
  qed (use h in \<open>simp add: history_region_def\<close>)
  then show ?thesis by (simp add: caller_memory_def)
qed

lemma skipping_False [simp]: "skipping False d = d"
  by (simp add: skipping_def)

lemma call_stopped:
  fixes m d D C T dst dn src sn skip defines "J \<equiv> dec_job_of m d D C T dst dn src sn skip"
  assumes i: "inv J (d1, m1, s, t)" "dc_dStage d1 \<noteq> dstage_init" and h: "0 < h" "h < 2 ^ 63"
  shows "\<exists>d' m'. preserve_history stab d1 m1 = Some (d', m') \<and> call_result m d D C T dst dn src sn stab skip (h, t - dst, s - src, d', m')"
proof -
  have w: "world J d1 m1 s t" and st: "stage_ok {t..<dst1 J} d1 m1 D (consumed J s) (produced J m1 t)"
    using i(1) by (simp_all add: inv_def J_def dec_job_of_def)
  obtain d' m' where p: "preserve_history stab d1 m1 = Some (d', m')" "stage_ok {t..<dst1 J} d' m' D (consumed J s) (produced J m1 t)"
      "frame m1 m' (dc_tmpOutBuffer d1) (out_end d1)" "mem_fields d' = mem_fields d1" "mid_frame d1 \<and> \<not> stab \<longrightarrow> history_region d' = {}"
    using preserve_ok [OF w st i(2)] by blast
  have sub: "reg (dc_tmpOutBuffer d1) (dc_tmpOutCap d1) \<subseteq> own d1 \<union> {t..<dst1 J}" using own_parts(3) [of d1] by blast
  have w': "world J d' m' s t" using world_write [OF w p(3) sub] world_cong [OF p(4)] by simp
  have "stage_ok {} d' m' D (consumed J s) (produced J m' t)" using stage_keep [OF p(2), of m' "{}" False] produced_write [OF w p(3) sub] by simp
  then have ok: "dctx_ok m' d' D (C @ bytes m src (s - src)) (T @ bytes m' dst (t - dst))"
    using w' by (simp add: dctx_ok_def world_def consumed_def produced_def J_def dec_job_of_def)
  have "\<not> stab \<and> mid_frame d' \<longrightarrow> caller_memory d' = {}" using caller_none [OF p(2)] p(5) preserve_same [OF p(1)] by (simp add: mid_frame_def)
  moreover have "\<not> LZ4F_isError h" using h by (simp add: LZ4F_isError_def u64_def)
  moreover have "0 \<le> t - dst" "t - dst \<le> dn" "0 \<le> s - src" "s - src \<le> sn" "sane m'" "buffers_ok m' d'" "\<forall>x \<in> dom m - own d - reg dst dn. m' x = m x"
    using w' by (simp_all add: world_def J_def dec_job_of_def)
  ultimately show ?thesis using p(1) ok h(1) by (simp add: call_result_def)
qed

lemma call_finished:
  fixes m d D C T dst dn src sn skip defines "J \<equiv> dec_job_of m d D C T dst dn src sn skip"
  assumes f: "finished J h (d1, m1, s, t)"
  shows "preserve_history stab d1 m1 = Some (d1, m1) \<and> call_result m d D C T dst dn src sn stab skip (h, t - dst, s - src, d1, m1)"
proof -
  have k: "h = 0" "fresh d1" "world J (d1\<lparr>dc_skipChecksum := jb_skip J\<rparr>) m1 s t"
      "whole_frame (\<not> jb_skip J) (jb_D J) (consumed J s) (produced J m1 t) \<or> skippable_frame (consumed J s) \<and> produced J m1 t = []"
    using f by (simp_all add: finished_def)
  have "preserve_history stab d1 m1 = Some (d1, m1)" using k(2) by (simp add: preserve_history_def fresh_def)
  moreover have "frame_done (\<not> (dc_skipChecksum d \<or> skip)) D (C @ bytes m src (s - src)) (T @ bytes m1 dst (t - dst))"
    using k(4) by (simp add: frame_done_def consumed_def produced_def J_def dec_job_of_def)
  moreover have "0 \<le> t - dst" "t - dst \<le> dn" "0 \<le> s - src" "s - src \<le> sn" "sane m1" "buffers_ok m1 d1" "\<forall>x \<in> dom m - own d - reg dst dn. m1 x = m x"
    using k(3) by (simp_all add: world_def J_def dec_job_of_def buffers_ok_def)
  ultimately show ?thesis using k(1,2) by (simp add: call_result_def LZ4F_isError_def u64_def)
qed

lemma call_returned:
  fixes m d D C T dst dn src sn skip defines "J \<equiv> dec_job_of m d D C T dst dn src sn skip"
  assumes r: "exit_ok J pos (Return r (d1, m1, s, t))" and c: "0 \<le> dn" "0 \<le> sn"
  shows "call_result m d D C T dst dn src sn stab skip (r, 0, 0, d1, m1)"
proof -
  have w: "world J d1 m1 s t" using r by (auto simp: exit_ok_def refused_def inv_def)
  then have k: "sane m1" "buffers_ok m1 d1" "\<forall>x \<in> dom m - own d - reg dst dn. m1 x = m x" by (simp_all add: world_def J_def dec_job_of_def)
  show ?thesis
  proof (cases "LZ4F_isError r")
    case False
    then have i: "r = 7" "inv J (d1, m1, s, t)" "dc_dStage d1 = dstage_getFrameHeader" using r by (auto simp: exit_ok_def refused_def)
    have st: "stage_ok {t..<dst1 J} d1 m1 D (consumed J s) (produced J m1 t)" using i(2) by (simp add: inv_def J_def dec_job_of_def)
    then have "consumed J s = []" "produced J m1 t = []" using i(3) by (simp_all add: stage_ok_def)
    moreover from this have "C = []" "T = []" by (simp_all add: consumed_def produced_def J_def dec_job_of_def)
    ultimately have "stage_ok {} d1 m1 D C T" using stage_keep [OF st, of m1 "{}" False] by simp
    then have "dctx_ok m1 d1 D C T" using k by (simp add: dctx_ok_def)
    then show ?thesis using k c i(1,3) False by (simp add: call_result_def mid_frame_def block_stages_def)
  qed (use k c in \<open>simp add: call_result_def\<close>)
qed

abbreviation stable_of :: "LZ4F_decompressOptions_t option \<Rightarrow> bool" where
  "stable_of opt \<equiv> (case opt of None \<Rightarrow> False | Some op \<Rightarrow> stableDst op)"

abbreviation skip_of :: "LZ4F_decompressOptions_t option \<Rightarrow> bool" where
  "skip_of opt \<equiv> (case opt of None \<Rightarrow> False | Some op \<Rightarrow> skipChecksums op)"

lemma decompress_call:
  assumes al: "alloc_ok alloc" and d: "dctx_ok m d D C T" and c: "call_ok m d dst dn src sn"
  shows "\<exists>res. LZ4F_decompress alloc d m dst dn src sn opt = Some res \<and> call_result m d D C T dst dn src sn (stable_of opt) (skip_of opt) res"
proof -
  define J where "J = dec_job_of m d D C T dst dn src sn (skip_of opt)"
  obtain ret r d1 m1 s t where x: "dec_run alloc (jb_E J) (skipping (skip_of opt) d, m, src, dst) = Some (ret, r, d1, m1, s, t)"
      "exit_ok J (skipping (skip_of opt) d, m, src, dst) (if ret then Return r (d1, m1, s, t) else Stop r (d1, m1, s, t))"
    using dec_run_ok [OF al job_start [OF d c, of "skip_of opt"]] unfolding J_def by (metis prod_cases4)
  have c0: "dst = 0 \<longrightarrow> dn = 0" "0 \<le> dn" "0 \<le> sn" using c by (simp_all add: call_ok_def)
  have E: "jb_E J = \<lparr>fc_srcEnd = src + sn, fc_dstStart = dst, fc_dstEnd = (if dst \<noteq> 0 then dst + dn else 0)\<rparr>"
    using c0 by (simp add: J_def dec_job_of_def)
  have o: "stableDst (case opt of None \<Rightarrow> \<lparr>stableDst = False, skipChecksums = False\<rparr> | Some op \<Rightarrow> op) = stable_of opt"
      "skipChecksums (case opt of None \<Rightarrow> \<lparr>stableDst = False, skipChecksums = False\<rparr> | Some op \<Rightarrow> op) = skip_of opt"
    by (simp_all split: option.split)
  have code: "LZ4F_decompress alloc d m dst dn src sn opt = (if ret then Some (r, 0, 0, d1, m1)
      else do { (d', m') \<leftarrow> preserve_history (stable_of opt) d1 m1; Some (r, t - dst, s - src, d', m') })"
  proof -
    have g: "\<not> (dst = 0 \<and> dn \<noteq> 0)" using c0(1) by blast
    show ?thesis unfolding LZ4F_decompress_def Let_def o E [symmetric] skipping_def [symmetric] x(1) if_not_P [OF g] by simp
  qed
  show ?thesis
  proof (cases ret)
    case True
    then show ?thesis unfolding code using call_returned [of m d D C T dst dn src sn "skip_of opt"] x(2) c0 by (simp add: J_def)
  next
    case False
    then consider "0 < r" "r < 2 ^ 63" "inv J (d1, m1, s, t)" "dc_dStage d1 \<noteq> dstage_init" | "finished J r (d1, m1, s, t)" using x(2) by (auto simp: exit_ok_def)
    then show ?thesis
    proof cases
      case 1
      then show ?thesis using call_stopped [of m d D C T dst dn src sn "skip_of opt" d1 m1 s t r "stable_of opt"] False unfolding code J_def by auto
    next
      case 2
      then show ?thesis using call_finished [of m d D C T dst dn src sn "skip_of opt" r d1 m1 s t "stable_of opt"] False unfolding code J_def by auto
    qed
  qed
qed

end
