(* ===== verification/Spec2Isabelle.thy ===== *)
theory Spec2Isabelle
  imports LZ4_DecProps LZ4_CompProps LZ4F_Props LZ4F_DecCall
begin

text \<open>
  A verification of LZ4.

  \<^bold>\<open>The program.\<close>  The library under \<^verbatim>\<open>src/lib\<close> has five parts.  \<^verbatim>\<open>lz4.c\<close> holds the block format: a
  decoder with a fast and a safe loop, a compressor with a hash table of positions, and the streaming
  interfaces of both, which keep up to 64 KB of history.  \<^verbatim>\<open>lz4hc.c\<close> is a second compressor for the same
  format.  \<^verbatim>\<open>xxhash.c\<close> computes checksums.  \<^verbatim>\<open>lz4frame.c\<close> wraps blocks into frames with a header, block sizes and
  checksums, and calls the three others.  \<^verbatim>\<open>lz4file.c\<close> and the programs read and write files of frames.

  \<^bold>\<open>The model.\<close>  Memory is a partial map from addresses to bytes (\<^verbatim>\<open>LZ4_Prelude\<close>); a pointer is an integer and
  \<open>NULL\<close> is 0.  A function that touches memory returns an \<open>option\<close>: \<open>None\<close> is undefined behaviour, that is an access
  outside of every object, a \<open>memcpy\<close> of overlapping regions, or a violated assertion.  The loops are total functions
  with a termination measure, or partial functions in the option monad, for which the lemmas prove that they
  return.  So a theorem that a result is \<open>Some\<close> is both a memory-safety and a termination theorem; no fuel is used.
  Sizes of type \<open>int\<close> and \<open>size_t\<close> are integers with the wrap-around written out where the code relies on it (\<open>u16\<close>,
  \<open>u32\<close>, \<open>u64\<close>); hashes and header fields are machine words.  The model is the 64-bit little-endian build with the
  default configuration macros.

  \<^bold>\<open>Blocks.\<close>
  \<^item> \<^verbatim>\<open>LZ4_Copy\<close>: the copies that may write beyond their end (\<open>LZ4_wildCopy8\<close>, \<open>LZ4_wildCopy32\<close>,
    \<open>LZ4_memcpy_using_offset\<close>), with what they leave in the bytes that count.
  \<^item> \<^verbatim>\<open>LZ4_Format\<close>: the reference decoder \<open>decode_block\<close> on lists of bytes, the end-of-block conditions
    \<open>conforming\<close>, and encoders of sequences.
  \<^item> \<^verbatim>\<open>LZ4_Decompress\<close>: \<open>LZ4_decompress_generic\<close>, statement by statement.  \<^verbatim>\<open>LZ4_DecSpec\<close>, \<^verbatim>\<open>LZ4_DecMatch\<close>,
    \<^verbatim>\<open>LZ4_DecSeq\<close>, \<^verbatim>\<open>LZ4_DecIter\<close> and \<^verbatim>\<open>LZ4_DecLoop\<close> prove it correct from the match copy up to the two loops.
  \<^item> \<^verbatim>\<open>LZ4_DecAPI\<close>: the entry points as instances of two contracts (locales \<open>history_decoder\<close> and
    \<open>partial_decoder\<close>); \<^verbatim>\<open>LZ4_DecUnsafe\<close>: the deprecated decoder; \<^verbatim>\<open>LZ4_DecStream\<close>: the streaming decoder as a refinement of
    decoding with all of the past output; \<^verbatim>\<open>LZ4_DecProps\<close>: their properties.
  \<^item> \<^verbatim>\<open>LZ4_Count\<close>, \<^verbatim>\<open>LZ4_Hash\<close>: the match counter and the hash table.  \<^verbatim>\<open>LZ4_Compress\<close>:
    \<open>LZ4_compress_generic_validated\<close>; \<^verbatim>\<open>LZ4_CompSpec\<close>, \<^verbatim>\<open>LZ4_CompSearch\<close>, \<^verbatim>\<open>LZ4_CompEncode\<close> and \<^verbatim>\<open>LZ4_CompLoop\<close> prove
    that what it writes decodes to its input.
  \<^item> \<^verbatim>\<open>LZ4_CompAPI\<close>: the one-shot functions (locale \<open>block_compressor\<close>); \<^verbatim>\<open>LZ4_CompStream\<close>: dictionaries and
    streaming, with sessions as an inductive relation; \<^verbatim>\<open>LZ4_CompProps\<close>: their properties.

  \<^bold>\<open>Checksums.\<close>  \<^verbatim>\<open>XXH_32\<close> and \<^verbatim>\<open>XXH_64\<close> model \<^verbatim>\<open>xxhash.c\<close>; \<^verbatim>\<open>XXH_Spec\<close> has what they share.  The unrolled code is
  proved equal to a plain fold, and both incremental interfaces to the hash of the whole input (locale \<open>incremental_hash\<close> of
  \<^verbatim>\<open>XXH_Props\<close>).

  \<^bold>\<open>Frames.\<close>  \<^verbatim>\<open>LZ4F_Base\<close> has the error codes, parameters, little-endian access and bounds of \<^verbatim>\<open>lz4frame.c\<close>,
  \<^verbatim>\<open>LZ4F_Header\<close> the writing and reading of headers, and \<^verbatim>\<open>LZ4F_Props\<close> their properties.

  \<^bold>\<open>Not modelled.\<close>  The HC compressor, which is a different search for the same block format.  The functions that only
  allocate or release memory.  The file interface, the command line programs, and the OpenCL implementations: their substance is input and
  output, threads, and device queues.  Builds for 32-bit or big-endian machines.
\<close>

end
